(* ===== verification/K42_Prelude.thy ===== *)
theory K42_Prelude
  imports Main "HOL-Library.Word" "HOL-Library.Multiset"
begin

text \<open>
  Shared vocabulary of the K42 development: the 64-bit unsigned arithmetic of
  \<^verbatim>\<open>uval\<close> (written out on \<^typ>\<open>nat\<close> with its wrap-around), the page and alignment
  macros of \<^verbatim>\<open>lib/libc/misc/macros.H\<close> and \<^verbatim>\<open>lib/libc/sys/macdefs.H\<close>, the status
  codes of \<^verbatim>\<open>lib/libc/sys/SysStatus.H\<close>, and the generic interface of a component
  whose operations keep an invariant.
\<close>

unbundle bit_operations_syntax

named_theorems uval_simps \<open>64-bit arithmetic that does not wrap\<close>

section \<open>Status codes\<close>

datatype errno = EPERM | EAGAIN | EINVAL | ENOMEM | ENOENT | ENODEV

text \<open>
  \<^verbatim>\<open>_SERROR(ec,cc,gc)\<close> packs an error code, a class code and a general code; a
  \<^verbatim>\<open>passert\<close> that fails stops the system.
\<close>

datatype sys_error = SERROR nat nat errno | Panic

section \<open>Unsigned 64-bit arithmetic\<close>

type_synonym uval = nat

definition uadd :: "uval \<Rightarrow> uval \<Rightarrow> uval" where
  "uadd a b = (a + b) mod 2 ^ 64"

definition usub :: "uval \<Rightarrow> uval \<Rightarrow> uval" where
  "usub a b = (a + 2 ^ 64 - b) mod 2 ^ 64"

definition umul :: "uval \<Rightarrow> uval \<Rightarrow> uval" where
  "umul a b = (a * b) mod 2 ^ 64"

definition is_uval :: "nat \<Rightarrow> bool" where
  "is_uval a \<longleftrightarrow> a < 2 ^ 64"

lemma uadd_nowrap [uval_simps]: "a + b < 2 ^ 64 \<Longrightarrow> uadd a b = a + b"
  by (simp add: uadd_def)

lemma usub_nowrap [uval_simps]: "b \<le> a \<Longrightarrow> a < 2 ^ 64 \<Longrightarrow> usub a b = a - b"
proof -
  assume "b \<le> a" "a < 2 ^ 64"
  then have "a + 2 ^ 64 - b = (a - b) + 2 ^ 64" by simp
  then have "(a + 2 ^ 64 - b) mod 2 ^ 64 = (a - b) mod 2 ^ 64" by (simp only: mod_add_self2)
  with \<open>a < 2 ^ 64\<close> show ?thesis by (simp add: usub_def)
qed

lemma umul_nowrap [uval_simps]: "a * b < 2 ^ 64 \<Longrightarrow> umul a b = a * b"
  by (simp add: umul_def)

lemma uadd_usub_cancel: "a < 2 ^ 64 \<Longrightarrow> b < 2 ^ 64 \<Longrightarrow> uadd (usub a b) b = a"
proof -
  assume ab: "a < 2 ^ 64" "b < 2 ^ 64"
  have "uadd (usub a b) b = (a + 2 ^ 64 - b + b) mod 2 ^ 64" unfolding uadd_def usub_def by (rule mod_add_left_eq)
  also have "\<dots> = a" using ab by simp
  finally show ?thesis .
qed

lemma uadd_less: "uadd a b < 2 ^ 64"
  by (simp add: uadd_def)

lemma usub_less: "usub a b < 2 ^ 64"
  by (simp add: usub_def)

section \<open>Pages and alignment\<close>

definition PAGE_SIZE :: uval where
  "PAGE_SIZE = 4096"

definition PAGE_MASK :: uval where
  "PAGE_MASK = PAGE_SIZE - 1"

text \<open>
  \<^verbatim>\<open>x & ~m\<close> clears in \<^term>\<open>x\<close> the bits of \<^term>\<open>m\<close>; on naturals that is the
  difference below.
\<close>

definition and_not :: "uval \<Rightarrow> uval \<Rightarrow> uval" where
  "and_not x m = x - (x AND m)"

definition PAGE_ROUND_UP :: "uval \<Rightarrow> uval" where
  "PAGE_ROUND_UP x = and_not (uadd (usub x 1) PAGE_SIZE) PAGE_MASK"

definition ALIGN_UP :: "uval \<Rightarrow> uval \<Rightarrow> uval" where
  "ALIGN_UP addr align = and_not (uadd addr (usub align 1)) (usub align 1)"

lemma and_mask_nat: "(x :: nat) AND (2 ^ k - 1) = x mod 2 ^ k"
  by (metis mask_eq_exp_minus_1 take_bit_eq_mask take_bit_eq_mod)

lemma and_le_right: "(x :: nat) AND m \<le> m"
proof -
  have "int (x AND m) \<le> int m"
    using AND_upper2 [of "int m" "int x"] by (simp add: of_nat_and_eq)
  then show ?thesis by simp
qed

lemma and_page_mask: "x AND PAGE_MASK = x mod PAGE_SIZE"
  using and_mask_nat [of x 12] by (simp add: PAGE_MASK_def PAGE_SIZE_def)

lemma ALIGN_UP_bounds:
  assumes "0 < align" "is_uval align" "addr + (align - 1) < 2 ^ 64"
  shows "addr \<le> ALIGN_UP addr align" and "ALIGN_UP addr align \<le> addr + (align - 1)"
proof -
  have m: "usub align 1 = align - 1" using assms by (intro usub_nowrap) (auto simp: is_uval_def)
  have s: "uadd addr (align - 1) = addr + (align - 1)" using assms by (simp add: uval_simps)
  have "(addr + (align - 1)) AND (align - 1) \<le> align - 1" by (rule and_le_right)
  then show "addr \<le> ALIGN_UP addr align" and "ALIGN_UP addr align \<le> addr + (align - 1)"
    unfolding ALIGN_UP_def m s and_not_def by linarith+
qed

lemma ALIGN_UP_pow2:
  assumes "k < 64" "addr + (2 ^ k - 1) < 2 ^ 64"
  shows "ALIGN_UP addr (2 ^ k) mod 2 ^ k = 0"
proof -
  have "(2 :: nat) ^ k < 2 ^ 64" using assms(1) by (intro power_strict_increasing) auto
  then have m: "usub (2 ^ k) 1 = 2 ^ k - 1" by (intro usub_nowrap) auto
  have s: "uadd addr (2 ^ k - 1) = addr + (2 ^ k - 1)" using assms by (simp add: uval_simps)
  have "ALIGN_UP addr (2 ^ k) = (addr + (2 ^ k - 1)) - (addr + (2 ^ k - 1)) mod 2 ^ k"
    unfolding ALIGN_UP_def m s and_not_def and_mask_nat ..
  then show ?thesis by (simp add: minus_mod_eq_mult_div)
qed

lemma PAGE_ROUND_UP_eq:
  assumes "x + PAGE_SIZE \<le> 2 ^ 64"
  shows "PAGE_ROUND_UP x = (x + PAGE_MASK) div PAGE_SIZE * PAGE_SIZE"
proof -
  have "uadd (usub x 1) PAGE_SIZE = x + PAGE_MASK"
  proof (cases "x = 0")
    case True
    then show ?thesis by (simp add: uadd_def usub_def PAGE_MASK_def PAGE_SIZE_def)
  next
    case False
    with assms show ?thesis
      by (simp add: uval_simps PAGE_MASK_def PAGE_SIZE_def)
  qed
  then show ?thesis
    by (simp add: PAGE_ROUND_UP_def and_not_def and_page_mask minus_mod_eq_div_mult)
qed

section \<open>Components whose steps keep an invariant\<close>

text \<open>
  The interface every transition system of the development provides: the steps a
  client may take and an invariant they keep. What holds along one step holds along
  every sequence of steps.
\<close>

locale invariant_steps =
  fixes step :: "'s \<Rightarrow> 's \<Rightarrow> bool"
    and inv :: "'s \<Rightarrow> bool"
  assumes step_inv: "inv s \<Longrightarrow> step s t \<Longrightarrow> inv t"
begin

lemma steps_inv: "step\<^sup>*\<^sup>* s t \<Longrightarrow> inv s \<Longrightarrow> inv t"
  by (induction rule: rtranclp_induct) (auto dest: step_inv)

end

end
