(* ===== verification/LinuxCreds.thy ===== *)
theory LinuxCreds
  imports K42_Prelude
begin

text \<open>
  Process credentials: \<^verbatim>\<open>struct creds_t\<close> of \<^verbatim>\<open>lib/libc/sys/LinuxCreds.H\<close> and the
  set-id calls of \<^verbatim>\<open>lib/libc/sys/LinuxCreds.C\<close>. Every call returns its code together
  with the credentials it leaves behind; \<^verbatim>\<open>(uid_t) -1\<close> is \<^term>\<open>-1 :: 32 word\<close>.
\<close>

section \<open>The credentials\<close>

type_synonym uid_t = "32 word"
type_synonym gid_t = "32 word"

record creds =
  uid :: uid_t
  euid :: uid_t
  suid :: uid_t
  fsuid :: uid_t
  gid :: gid_t
  egid :: gid_t
  sgid :: gid_t
  fsgid :: gid_t
  ngroups :: int
  groups :: "gid_t list"
  cap_effective :: "32 word"
  cap_inheritable :: "32 word"
  cap_permitted :: "32 word"
  keep_capabilities :: bool

datatype cred_rc = Success | Fail errno

definition CAP_CHOWN :: nat where "CAP_CHOWN = 0"
definition CAP_DAC_OVERRIDE :: nat where "CAP_DAC_OVERRIDE = 1"
definition CAP_DAC_READ_SEARCH :: nat where "CAP_DAC_READ_SEARCH = 2"
definition CAP_FOWNER :: nat where "CAP_FOWNER = 3"
definition CAP_FSETID :: nat where "CAP_FSETID = 4"
definition CAP_FS_MASK :: "32 word" where "CAP_FS_MASK = 0x1f"
definition CAP_SETGID :: nat where "CAP_SETGID = 6"
definition CAP_SETUID :: nat where "CAP_SETUID = 7"

definition capable :: "creds \<Rightarrow> nat \<Rightarrow> bool" where
  "capable c cap =
     (if CAP_FS_MASK AND push_bit cap 1 \<noteq> 0 then fsuid c = 0 else euid c = 0)"

section \<open>User ids\<close>

definition set_user :: "creds \<Rightarrow> uid_t \<Rightarrow> cred_rc \<times> creds" where
  "set_user c new_uid = (Success, c\<lparr>uid := new_uid\<rparr>)"

text \<open>
  \<^verbatim>\<open>set_user(..) < 0\<close> is the failure test of the callers; with the body of
  \<^verbatim>\<open>set_user\<close> that is compiled it never holds.
\<close>

definition sys_setresuid :: "creds \<Rightarrow> uid_t \<Rightarrow> uid_t \<Rightarrow> uid_t \<Rightarrow> cred_rc \<times> creds" where
  "sys_setresuid c new_uid new_euid new_suid =
     (if \<not> capable c CAP_SETUID \<and>
         (new_uid \<noteq> -1 \<and> new_uid \<noteq> uid c \<and> new_uid \<noteq> euid c \<and> new_uid \<noteq> suid c)
      then (Fail EPERM, c)
      else if \<not> capable c CAP_SETUID \<and>
         (new_euid \<noteq> -1 \<and> new_euid \<noteq> uid c \<and> new_euid \<noteq> euid c \<and> new_euid \<noteq> suid c)
      then (Fail EPERM, c)
      else if \<not> capable c CAP_SETUID \<and>
         (new_suid \<noteq> -1 \<and> new_suid \<noteq> uid c \<and> new_suid \<noteq> euid c \<and> new_suid \<noteq> suid c)
      then (Fail EPERM, c)
      else
        (case (if new_uid \<noteq> -1 \<and> new_uid \<noteq> uid c then set_user c new_uid else (Success, c)) of
           (Fail _, c1) \<Rightarrow> (Fail EAGAIN, c1)
         | (Success, c1) \<Rightarrow>
             let c2 = (if new_euid \<noteq> -1 then c1\<lparr>euid := new_euid, fsuid := new_euid\<rparr> else c1);
                 c3 = (if new_suid \<noteq> -1 then c2\<lparr>suid := new_suid\<rparr> else c2)
             in (Success, c3)))"

definition sys_setreuid :: "creds \<Rightarrow> uid_t \<Rightarrow> uid_t \<Rightarrow> cred_rc \<times> creds" where
  "sys_setreuid c arg_uid arg_euid =
     (let old_uid = uid c;
          new_uid = (if arg_uid \<noteq> -1 then arg_uid else old_uid);
          new_euid = (if arg_euid \<noteq> -1 then arg_euid else euid c)
      in if arg_uid \<noteq> -1 \<and> old_uid \<noteq> arg_uid \<and> euid c \<noteq> arg_uid \<and> \<not> capable c CAP_SETUID
         then (Fail EPERM, c)
         else if arg_euid \<noteq> -1 \<and> old_uid \<noteq> arg_euid \<and> euid c \<noteq> arg_euid \<and> suid c \<noteq> arg_euid
                 \<and> \<not> capable c CAP_SETUID
         then (Fail EPERM, c)
         else
           (case (if new_uid \<noteq> old_uid then set_user c new_uid else (Success, c)) of
              (Fail _, c1) \<Rightarrow> (Fail EAGAIN, c1)
            | (Success, c1) \<Rightarrow>
                let c2 = c1\<lparr>euid := new_euid, fsuid := new_euid\<rparr>;
                    c3 = (if arg_uid \<noteq> -1 \<or> (arg_euid \<noteq> -1 \<and> arg_euid \<noteq> old_uid)
                          then c2\<lparr>suid := euid c2\<rparr> else c2)
                in (Success, c3\<lparr>fsuid := euid c3\<rparr>)))"

definition insecure_sys_setreuid :: "creds \<Rightarrow> uid_t \<Rightarrow> cred_rc \<times> creds" where
  "insecure_sys_setreuid c arg_euid =
     (Success, c\<lparr>euid := arg_euid, fsuid := arg_euid, suid := arg_euid\<rparr>)"

definition sys_setuid :: "creds \<Rightarrow> uid_t \<Rightarrow> cred_rc \<times> creds" where
  "sys_setuid c arg_uid =
     (if capable c CAP_SETUID then
        (case (if arg_uid \<noteq> uid c then set_user c arg_uid else (Success, c)) of
           (Fail _, c1) \<Rightarrow> (Fail EAGAIN, c1)
         | (Success, c1) \<Rightarrow>
             (Success, c1\<lparr>suid := arg_uid, euid := arg_uid, fsuid := arg_uid\<rparr>))
      else if arg_uid \<noteq> uid c \<and> arg_uid \<noteq> suid c then (Fail EPERM, c)
      else (Success, c\<lparr>euid := arg_uid, fsuid := arg_uid\<rparr>))"

text \<open>
  In \<^verbatim>\<open>sys_setfsuid(uid_t uid)\<close> the parameter hides the member of the same name, so the
  first disjunct of the guard compares the argument with itself.
\<close>

definition sys_setfsuid :: "creds \<Rightarrow> uid_t \<Rightarrow> cred_rc \<times> creds" where
  "sys_setfsuid c uid_arg =
     (if uid_arg = uid_arg \<or> uid_arg = euid c \<or> uid_arg = suid c \<or> uid_arg = fsuid c
         \<or> capable c CAP_SETUID
      then (Success, c\<lparr>fsuid := uid_arg\<rparr>) else (Success, c))"

section \<open>Group ids\<close>

definition insecure_sys_setregid :: "creds \<Rightarrow> gid_t \<Rightarrow> cred_rc \<times> creds" where
  "insecure_sys_setregid c arg_egid =
     (Success, c\<lparr>egid := arg_egid, fsgid := arg_egid, sgid := arg_egid\<rparr>)"

definition sys_setresgid :: "creds \<Rightarrow> gid_t \<Rightarrow> gid_t \<Rightarrow> gid_t \<Rightarrow> cred_rc \<times> creds" where
  "sys_setresgid c arg_gid arg_egid arg_sgid =
     (if \<not> capable c CAP_SETGID \<and>
         (arg_gid \<noteq> -1 \<and> arg_gid \<noteq> gid c \<and> arg_gid \<noteq> egid c \<and> arg_gid \<noteq> sgid c)
      then (Fail EPERM, c)
      else if \<not> capable c CAP_SETGID \<and>
         (arg_egid \<noteq> -1 \<and> arg_egid \<noteq> gid c \<and> arg_egid \<noteq> egid c \<and> arg_egid \<noteq> sgid c)
      then (Fail EPERM, c)
      else if \<not> capable c CAP_SETGID \<and>
         (arg_sgid \<noteq> -1 \<and> arg_sgid \<noteq> gid c \<and> arg_sgid \<noteq> egid c \<and> arg_sgid \<noteq> sgid c)
      then (Fail EPERM, c)
      else
        let c1 = (if arg_gid \<noteq> -1 then c\<lparr>gid := arg_gid\<rparr> else c);
            c2 = (if arg_egid \<noteq> -1 then c1\<lparr>egid := arg_egid, fsgid := arg_egid\<rparr> else c1);
            c3 = (if arg_sgid \<noteq> -1 then c2\<lparr>sgid := arg_sgid\<rparr> else c2)
        in (Success, c3))"

definition sys_setfsgid :: "creds \<Rightarrow> gid_t \<Rightarrow> cred_rc \<times> creds" where
  "sys_setfsgid c arg_gid =
     (if arg_gid = gid c \<or> arg_gid = egid c \<or> arg_gid = sgid c \<or> arg_gid = fsgid c
         \<or> capable c CAP_SETGID
      then (Success, c\<lparr>fsgid := arg_gid\<rparr>) else (Success, c))"

definition sys_setregid :: "creds \<Rightarrow> gid_t \<Rightarrow> gid_t \<Rightarrow> cred_rc \<times> creds" where
  "sys_setregid c arg_gid arg_egid =
     (let old_gid = gid c in
      if arg_gid \<noteq> -1 \<and> \<not> (old_gid = arg_gid \<or> egid c = arg_gid \<or> capable c CAP_SETGID)
      then (Fail EPERM, c)
      else
        let c1 = (if arg_gid \<noteq> -1 then c\<lparr>gid := arg_gid\<rparr> else c) in
        if arg_egid \<noteq> -1 \<and> \<not> (old_gid = arg_egid \<or> egid c1 = arg_egid \<or> sgid c1 = arg_egid
                              \<or> capable c1 CAP_SETGID)
        then (Fail EPERM, c1\<lparr>gid := old_gid\<rparr>)
        else
          let c2 = (if arg_egid \<noteq> -1 then c1\<lparr>egid := arg_egid, fsgid := arg_egid\<rparr> else c1);
              c3 = (if arg_gid \<noteq> -1 \<or> (arg_egid \<noteq> -1 \<and> arg_egid \<noteq> old_gid)
                    then c2\<lparr>sgid := egid c2\<rparr> else c2)
          in (Success, c3\<lparr>fsgid := egid c3\<rparr>))"

definition sys_setgid :: "creds \<Rightarrow> gid_t \<Rightarrow> cred_rc \<times> creds" where
  "sys_setgid c arg_gid =
     (if capable c CAP_SETGID then
        (Success, c\<lparr>gid := arg_gid, egid := arg_gid, sgid := arg_gid, fsgid := arg_gid\<rparr>)
      else if arg_gid = gid c \<or> arg_gid = sgid c then
        (Success, c\<lparr>egid := arg_gid, fsgid := arg_gid\<rparr>)
      else (Fail EPERM, c))"

definition rootPrivs :: "creds \<Rightarrow> creds" where
  "rootPrivs c = c\<lparr>uid := 0, euid := 0, suid := 0, fsuid := 0,
                   gid := 0, egid := 0, sgid := 0, fsgid := 0\<rparr>"

section \<open>The calls a process can make\<close>

text \<open>
  The system calls of an ordinary process. The two \<^verbatim>\<open>insecure_\<close> calls and
  \<^verbatim>\<open>rootPrivs\<close> are not among them: exec of a set-id program and process creation use
  them on the process's behalf.
\<close>

datatype cred_call =
    Setresuid uid_t uid_t uid_t
  | Setreuid uid_t uid_t
  | Setuid uid_t
  | Setfsuid uid_t
  | Setresgid gid_t gid_t gid_t
  | Setfsgid gid_t
  | Setregid gid_t gid_t
  | Setgid gid_t

fun do_cred_call :: "cred_call \<Rightarrow> creds \<Rightarrow> cred_rc \<times> creds" where
  "do_cred_call (Setresuid r e s) c = sys_setresuid c r e s"
| "do_cred_call (Setreuid r e) c = sys_setreuid c r e"
| "do_cred_call (Setuid u) c = sys_setuid c u"
| "do_cred_call (Setfsuid u) c = sys_setfsuid c u"
| "do_cred_call (Setresgid r e s) c = sys_setresgid c r e s"
| "do_cred_call (Setfsgid g) c = sys_setfsgid c g"
| "do_cred_call (Setregid r e) c = sys_setregid c r e"
| "do_cred_call (Setgid g) c = sys_setgid c g"

inductive cred_step :: "creds \<Rightarrow> creds \<Rightarrow> bool" where
  call: "cred_step c (snd (do_cred_call k c))"

inductive_cases cred_stepE: "cred_step c c'"

lemma capable_setid [simp]:
  "capable c CAP_SETUID \<longleftrightarrow> euid c = 0" "capable c CAP_SETGID \<longleftrightarrow> euid c = 0"
  by (simp_all add: capable_def CAP_SETUID_def CAP_SETGID_def CAP_FS_MASK_def)

lemma capable_fs: "cap \<le> 4 \<Longrightarrow> capable c cap \<longleftrightarrow> fsuid c = 0"
proof -
  assume "cap \<le> 4"
  then have "cap = 0 \<or> cap = 1 \<or> cap = 2 \<or> cap = 3 \<or> cap = 4" by linarith
  then show ?thesis by (auto simp: capable_def CAP_FS_MASK_def)
qed

section \<open>Identities never grow\<close>

text \<open>
  The ids an unprivileged process can hold: its real, effective and saved user ids
  stay among those of a fixed set without root, and likewise its group ids.
\<close>

definition uids_within :: "uid_t set \<Rightarrow> creds \<Rightarrow> bool" where
  "uids_within U c \<longleftrightarrow> 0 \<notin> U \<and> uid c \<in> U \<and> euid c \<in> U \<and> suid c \<in> U"

definition gids_within :: "uid_t set \<Rightarrow> gid_t set \<Rightarrow> creds \<Rightarrow> bool" where
  "gids_within U G c \<longleftrightarrow> uids_within U c \<and> gid c \<in> G \<and> egid c \<in> G \<and> sgid c \<in> G"

text \<open>\<^verbatim>\<open>set_user\<close> cannot fail, so its callers always continue with the new real id.\<close>

lemma set_user_case:
  "(case (if n \<noteq> uid c then set_user c n else (Success, c)) of
      (Fail _, c1) \<Rightarrow> X c1 | (Success, c1) \<Rightarrow> F c1) = F (c\<lparr>uid := n\<rparr>)"
  by (cases "n = uid c") (simp_all add: set_user_def)

text \<open>
  What the two-argument and three-argument calls do for a process that is not root: they
  succeed exactly when every id asked for is one the process already holds.
\<close>

lemma sys_setresuid_user:
  assumes "euid c \<noteq> 0"
  shows "sys_setresuid c r e s =
    (if {r, e, s} \<subseteq> {-1, uid c, euid c, suid c}
     then (Success, c\<lparr>uid := if r = -1 then uid c else r, euid := if e = -1 then euid c else e,
                     suid := if s = -1 then suid c else s,
                     fsuid := if e = -1 then fsuid c else e\<rparr>)
     else (Fail EPERM, c))"
proof (cases "{r, e, s} \<subseteq> {-1, uid c, euid c, suid c}")
  case True
  with assms show ?thesis by (cases c) (auto simp: sys_setresuid_def set_user_def Let_def)
next
  case False
  then consider "r \<notin> {-1, uid c, euid c, suid c}" | "e \<notin> {-1, uid c, euid c, suid c}"
    | "s \<notin> {-1, uid c, euid c, suid c}" by blast
  then show ?thesis
    unfolding if_not_P [OF False] using assms by cases (simp_all add: sys_setresuid_def)
qed

lemma sys_setreuid_user:
  assumes "euid c \<noteq> 0"
  shows "sys_setreuid c r e =
    (if r \<in> {-1, uid c, euid c} \<and> e \<in> {-1, uid c, euid c, suid c}
     then let e' = (if e = -1 then euid c else e) in
          (Success, c\<lparr>uid := if r = -1 then uid c else r, euid := e', fsuid := e',
                     suid := if r \<noteq> -1 \<or> (e \<noteq> -1 \<and> e \<noteq> uid c) then e' else suid c\<rparr>)
     else (Fail EPERM, c))"
proof (cases "r \<in> {-1, uid c, euid c} \<and> e \<in> {-1, uid c, euid c, suid c}")
  case True
  then have r: "r = -1 \<or> uid c = r \<or> euid c = r"
    and e: "e = -1 \<or> uid c = e \<or> euid c = e \<or> suid c = e"
    by auto
  have g: "\<not> (r \<noteq> -1 \<and> uid c \<noteq> r \<and> euid c \<noteq> r \<and> \<not> capable c CAP_SETUID)"
      "\<not> (e \<noteq> -1 \<and> uid c \<noteq> e \<and> euid c \<noteq> e \<and> suid c \<noteq> e \<and> \<not> capable c CAP_SETUID)"
    using r e by blast+
  show ?thesis
    unfolding sys_setreuid_def Let_def if_P [OF True] if_not_P [OF g(1)] if_not_P [OF g(2)]
      set_user_case
    by simp
next
  case False
  then consider "r \<notin> {-1, uid c, euid c}" | "r \<in> {-1, uid c, euid c}" "e \<notin> {-1, uid c, euid c, suid c}" by blast
  then show ?thesis unfolding if_not_P [OF False] using assms by cases (auto simp: sys_setreuid_def Let_def)
qed

lemma sys_setresgid_user:
  assumes "euid c \<noteq> 0"
  shows "sys_setresgid c r e s =
    (if {r, e, s} \<subseteq> {-1, gid c, egid c, sgid c}
     then (Success, c\<lparr>gid := if r = -1 then gid c else r, egid := if e = -1 then egid c else e,
                     sgid := if s = -1 then sgid c else s,
                     fsgid := if e = -1 then fsgid c else e\<rparr>)
     else (Fail EPERM, c))"
proof (cases "{r, e, s} \<subseteq> {-1, gid c, egid c, sgid c}")
  case True
  with assms show ?thesis by (cases c) (auto simp: sys_setresgid_def Let_def)
next
  case False
  then consider "r \<notin> {-1, gid c, egid c, sgid c}" | "e \<notin> {-1, gid c, egid c, sgid c}"
    | "s \<notin> {-1, gid c, egid c, sgid c}" by blast
  then show ?thesis
    unfolding if_not_P [OF False] using assms by cases (simp_all add: sys_setresgid_def)
qed

lemma sys_setregid_user:
  assumes "euid c \<noteq> 0"
  shows "sys_setregid c r e =
    (if r \<in> {-1, gid c, egid c} \<and> e \<in> {-1, gid c, egid c, sgid c}
     then let e' = (if e = -1 then egid c else e) in
          (Success, c\<lparr>gid := if r = -1 then gid c else r, egid := e', fsgid := e',
                     sgid := if r \<noteq> -1 \<or> (e \<noteq> -1 \<and> e \<noteq> gid c) then e' else sgid c\<rparr>)
     else (Fail EPERM, c))"
proof (cases "r \<in> {-1, gid c, egid c} \<and> e \<in> {-1, gid c, egid c, sgid c}")
  case True
  then have r: "r = -1 \<or> gid c = r \<or> egid c = r"
    and e: "e = -1 \<or> gid c = e \<or> egid c = e \<or> sgid c = e"
    by auto
  have g: "\<not> (r \<noteq> -1 \<and> \<not> (gid c = r \<or> egid c = r \<or> capable c CAP_SETGID))"
    using r by blast
  have h: "\<not> (e \<noteq> -1 \<and> \<not> (gid c = e \<or> egid d = e \<or> sgid d = e \<or> capable d CAP_SETGID))"
    if "d = (if r \<noteq> -1 then c\<lparr>gid := r\<rparr> else c)" for d
    using e that by auto
  show ?thesis
    unfolding sys_setregid_def Let_def if_P [OF True] if_not_P [OF g] if_not_P [OF h [OF refl]]
    by simp
next
  case False
  then consider "r \<notin> {-1, gid c, egid c}" | "r \<in> {-1, gid c, egid c}" "e \<notin> {-1, gid c, egid c, sgid c}" by blast
  then show ?thesis unfolding if_not_P [OF False] using assms by cases (auto simp: sys_setregid_def Let_def)
qed

lemmas cred_user_eqs =
  sys_setresuid_user sys_setreuid_user sys_setresgid_user sys_setregid_user

lemmas cred_small_defs =
  sys_setuid_def sys_setfsuid_def sys_setfsgid_def sys_setgid_def set_user_def

lemma refused_call:
  "fst (if P then (Success, d) else (Fail EPERM, c)) = Fail e \<Longrightarrow> snd (if P then (Success, d) else (Fail EPERM, c)) = c \<and> e = EPERM"
  by (cases P) simp_all

lemma uids_within_euid: "uids_within U c \<Longrightarrow> euid c \<noteq> 0"
  by (auto simp: uids_within_def)

lemma cred_call_uids_within:
  assumes "uids_within U c"
  shows "uids_within U (snd (do_cred_call k c))"
  using assms uids_within_euid [OF assms]
  by (cases k) (auto simp: cred_user_eqs cred_small_defs uids_within_def Let_def)

lemma cred_call_gids_within:
  assumes "gids_within U G c"
  shows "gids_within U G (snd (do_cred_call k c))"
proof -
  have U: "uids_within U c" using assms by (simp add: gids_within_def)
  then have "uids_within U (snd (do_cred_call k c))" by (rule cred_call_uids_within)
  moreover have "{gid d, egid d, sgid d} \<subseteq> {gid c, egid c, sgid c}"
    if "d = snd (do_cred_call k c)" for d
    using uids_within_euid [OF U] that
    by (cases k) (auto simp: cred_user_eqs cred_small_defs Let_def)
  ultimately show ?thesis using assms by (auto simp: gids_within_def)
qed

interpretation uid_safety: invariant_steps cred_step "uids_within U" for U
  by unfold_locales (auto elim!: cred_stepE intro: cred_call_uids_within)

interpretation gid_safety: invariant_steps cred_step "gids_within U G" for U G
  by unfold_locales (auto elim!: cred_stepE intro: cred_call_gids_within)

section \<open>Properties\<close>

definition user_creds :: creds where
  "user_creds = \<lparr>uid = 500, euid = 600, suid = 600, fsuid = 600, gid = 50, egid = 60, sgid = 60,
     fsgid = 60, ngroups = 0, groups = [], cap_effective = 0, cap_inheritable = 0,
     cap_permitted = 0, keep_capabilities = False\<rparr>"

text \<open>
  C10. A process none of whose real, effective and saved user ids is root never acquires a user
  id it did not hold, by any sequence of set-id calls.
\<close>

theorem setid_calls_never_gain_uid:
  assumes "cred_step\<^sup>*\<^sup>* c c'" and "0 \<notin> {uid c, euid c, suid c}"
  shows "{uid c', euid c', suid c'} \<subseteq> {uid c, euid c, suid c}"
proof -
  have "uids_within {uid c, euid c, suid c} c" using assms(2) by (simp add: uids_within_def)
  with assms(1) have "uids_within {uid c, euid c, suid c} c'" by (rule uid_safety.steps_inv)
  then show ?thesis by (simp add: uids_within_def)
qed

theorem setid_calls_never_gain_uid_witness:
  "(0 :: uid_t) \<notin> {500, 600, 600} \<and>
   {uid (snd (do_cred_call (Setreuid 600 500) user_creds)),
    euid (snd (do_cred_call (Setreuid 600 500) user_creds)),
    suid (snd (do_cred_call (Setreuid 600 500) user_creds))} \<subseteq> {500, 600, 600}"
proof -
  have "cred_step\<^sup>*\<^sup>* user_creds (snd (do_cred_call (Setreuid 600 500) user_creds))"
    by (rule r_into_rtranclp) (rule cred_step.call)
  from setid_calls_never_gain_uid [OF this] show ?thesis by (simp add: user_creds_def)
qed

text \<open>
  The same process never acquires a group id it did not hold as real, effective or saved
  group id.
\<close>

theorem setid_calls_never_gain_gid:
  assumes "cred_step\<^sup>*\<^sup>* c c'" and "0 \<notin> {uid c, euid c, suid c}"
  shows "{gid c', egid c', sgid c'} \<subseteq> {gid c, egid c, sgid c}"
proof -
  have "gids_within {uid c, euid c, suid c} {gid c, egid c, sgid c} c"
    using assms(2) by (simp add: gids_within_def uids_within_def)
  with assms(1) have "gids_within {uid c, euid c, suid c} {gid c, egid c, sgid c} c'"
    by (rule gid_safety.steps_inv)
  then show ?thesis by (simp add: gids_within_def)
qed

theorem setid_calls_never_gain_gid_witness:
  "(0 :: uid_t) \<notin> {500, 600, 600} \<and>
   {gid (snd (do_cred_call (Setgid 60) user_creds)), egid (snd (do_cred_call (Setgid 60) user_creds)),
    sgid (snd (do_cred_call (Setgid 60) user_creds))} \<subseteq> {50, 60, 60}"
proof -
  have "cred_step\<^sup>*\<^sup>* user_creds (snd (do_cred_call (Setgid 60) user_creds))"
    by (rule r_into_rtranclp) (rule cred_step.call)
  from setid_calls_never_gain_gid [OF this] show ?thesis by (simp add: user_creds_def)
qed

text \<open>
  C26. \<^verbatim>\<open>setuid\<close> called by root gives up root for good: the call sets the real, effective and
  saved ids, and no later sequence of set-id calls changes any of them.
\<close>

theorem root_setuid_is_permanent:
  assumes "euid c = 0" and "u \<noteq> 0" and "cred_step\<^sup>*\<^sup>* (snd (sys_setuid c u)) c'"
  shows "uid c' = u \<and> euid c' = u \<and> suid c' = u"
proof -
  have "uids_within {u} (snd (sys_setuid c u))"
    using assms(1,2) by (auto simp: sys_setuid_def set_user_def uids_within_def)
  with assms(3) have "uids_within {u} c'" by (rule uid_safety.steps_inv)
  then show ?thesis by (simp add: uids_within_def)
qed

theorem root_setuid_is_permanent_witness:
  "\<exists>c'. c' = snd (do_cred_call (Setreuid 0 0) (snd (sys_setuid (rootPrivs user_creds) 500))) \<and>
    uid c' = 500 \<and> euid c' = 500 \<and> suid c' = 500"
proof -
  have "cred_step\<^sup>*\<^sup>* (snd (sys_setuid (rootPrivs user_creds) 500))
      (snd (do_cred_call (Setreuid 0 0) (snd (sys_setuid (rootPrivs user_creds) 500))))"
    by (rule r_into_rtranclp) (rule cred_step.call)
  moreover have "euid (rootPrivs user_creds) = 0" by (simp add: rootPrivs_def)
  ultimately show ?thesis
    using root_setuid_is_permanent [of "rootPrivs user_creds" 500] by simp
qed

text \<open>
  A set-id call that fails leaves the credentials exactly as they were, also the calls that
  set one id before they reject the next.
\<close>

theorem failed_cred_call_changes_nothing:
  assumes "fst (do_cred_call k c) = Fail e"
  shows "snd (do_cred_call k c) = c \<and> e = EPERM \<and> euid c \<noteq> 0"
proof -
  have "euid c \<noteq> 0"
  proof
    assume "euid c = 0"
    with assms show False
      by (cases k)
        (simp_all add: sys_setresuid_def sys_setreuid_def sys_setresgid_def sys_setregid_def
          cred_small_defs Let_def split: if_splits)
  qed
  note eqs = cred_user_eqs [OF this]
  have "snd (do_cred_call k c) = c \<and> e = EPERM"
  proof (cases k)
    case (Setresuid r e s)
    show ?thesis using assms unfolding Setresuid do_cred_call.simps eqs by (rule refused_call)
  next
    case (Setreuid r e)
    show ?thesis using assms unfolding Setreuid do_cred_call.simps eqs Let_def by (rule refused_call)
  next
    case (Setresgid r e s)
    show ?thesis using assms unfolding Setresgid do_cred_call.simps eqs by (rule refused_call)
  next
    case (Setregid r e)
    show ?thesis using assms unfolding Setregid do_cred_call.simps eqs Let_def by (rule refused_call)
  qed (use assms in \<open>auto simp: cred_small_defs Let_def split: if_splits\<close>)
  then show ?thesis using \<open>euid c \<noteq> 0\<close> by blast
qed

theorem failed_cred_call_changes_nothing_witness:
  "fst (do_cred_call (Setregid 60 70) user_creds) = Fail EPERM \<and>
   snd (do_cred_call (Setregid 60 70) user_creds) = user_creds"
proof -
  have "fst (do_cred_call (Setregid 60 70) user_creds) = Fail EPERM"
    by (simp add: user_creds_def sys_setregid_user)
  with failed_cred_call_changes_nothing [OF this] show ?thesis by simp
qed

text \<open>
  \<^verbatim>\<open>setreuid\<close> with the real and effective ids exchanged is its own inverse on them, for
  every process: this is how a set-uid program drops its privilege for a while.
\<close>

theorem setreuid_swap_roundtrip:
  assumes "uid c \<noteq> -1" and "euid c \<noteq> -1"
    and "c1 = snd (sys_setreuid c (euid c) (uid c))"
    and "c2 = snd (sys_setreuid c1 (euid c1) (uid c1))"
  shows "uid c1 = euid c \<and> euid c1 = uid c \<and> suid c1 = uid c \<and>
    uid c2 = uid c \<and> euid c2 = euid c \<and> suid c2 = euid c"
proof -
  have c1: "c1 = c\<lparr>uid := euid c, euid := uid c, fsuid := uid c, suid := uid c\<rparr>"
    using assms(1,2) unfolding assms(3) sys_setreuid_def Let_def set_user_case by simp
  have c2: "c2 = c1\<lparr>uid := euid c1, euid := uid c1, fsuid := uid c1, suid := uid c1\<rparr>"
    using assms(1,2) c1 unfolding assms(4) sys_setreuid_def Let_def set_user_case by simp
  show ?thesis by (simp add: c1 c2)
qed

theorem setreuid_swap_roundtrip_witness:
  "uid user_creds \<noteq> -1 \<and> euid user_creds \<noteq> -1 \<and>
   uid (snd (sys_setreuid user_creds (euid user_creds) (uid user_creds))) = 600"
proof -
  have h: "uid user_creds \<noteq> -1" "euid user_creds \<noteq> -1" by (simp_all add: user_creds_def)
  show ?thesis using h setreuid_swap_roundtrip [OF h refl refl] by (simp add: user_creds_def)
qed

text \<open>
  C37. \<^verbatim>\<open>setfsuid\<close> performs no permission check: its first test compares the argument with itself,
  so every process can take any file system id, and with id 0 it holds all of the file
  capabilities (changing owners, overriding file permissions).
\<close>

theorem setfsuid_unchecked:
  "fst (sys_setfsuid c u) = Success \<and> fsuid (snd (sys_setfsuid c u)) = u \<and>
   capable (snd (sys_setfsuid c 0)) CAP_CHOWN \<and>
   capable (snd (sys_setfsuid c 0)) CAP_DAC_OVERRIDE \<and>
   capable (snd (sys_setfsuid c 0)) CAP_DAC_READ_SEARCH \<and>
   capable (snd (sys_setfsuid c 0)) CAP_FOWNER \<and>
   capable (snd (sys_setfsuid c 0)) CAP_FSETID"
  by (simp add: sys_setfsuid_def capable_fs CAP_CHOWN_def CAP_DAC_OVERRIDE_def
      CAP_DAC_READ_SEARCH_def CAP_FOWNER_def CAP_FSETID_def)

end
