(* ===== verification/RegionList.thy ===== *)
theory RegionList
  imports K42_Prelude
begin

text \<open>
  The list of memory regions of a process: \<^verbatim>\<open>RegionHolder\<close> and \<^verbatim>\<open>RegionList\<close> of
  \<^verbatim>\<open>os/kernel/mem/RegionList.H\<close> and \<^verbatim>\<open>RegionList.C\<close>. The linked list of holders is a HOL
  list in the same order; a pointer to a holder is its position. Every operation runs
  under the list's lock, so it is one atomic step. \<^verbatim>\<open>PROTOTYPE_SUBLIST\<close> is off.
\<close>

section \<open>Data\<close>

type_synonym region_ref = nat

record region_holder =
  rh_type :: nat
  rh_vaddr :: uval
  rh_size :: uval
  rh_reg :: region_ref

record region_list =
  regions :: "region_holder list"
  regionsAllocStart :: uval
  regionsStart :: uval
  regionsEnd :: uval

definition KeepOnExec :: nat where "KeepOnExec = 0x80"

definition MIN_PAGE_MASK :: uval where "MIN_PAGE_MASK = PAGE_SIZE - 1"

definition DFLT_ALIGNMENT :: uval where "DFLT_ALIGNMENT = PAGE_SIZE"

text \<open>The constructor leaves \<^verbatim>\<open>type\<close> to \<^verbatim>\<open>attachRegion\<close>, which every caller runs next.\<close>

definition RegionHolder :: "uval \<Rightarrow> uval \<Rightarrow> region_holder" where
  "RegionHolder vmbase isize = \<lparr>rh_type = 0, rh_vaddr = vmbase, rh_size = isize, rh_reg = 0\<rparr>"

definition attachRegion :: "region_holder \<Rightarrow> region_ref \<Rightarrow> nat \<Rightarrow> region_holder" where
  "attachRegion h r regionType = h\<lparr>rh_type := regionType, rh_reg := r\<rparr>"

definition RegionList_new :: region_list where
  "RegionList_new = \<lparr>regions = [], regionsAllocStart = 0, regionsStart = 0, regionsEnd = 0\<rparr>"

definition setRegionsBounds :: "region_list \<Rightarrow> uval \<Rightarrow> uval \<Rightarrow> uval \<Rightarrow> region_list" where
  "setRegionsBounds rl start allocStart end' =
     rl\<lparr>regionsStart := start, regionsAllocStart := allocStart, regionsEnd := end'\<rparr>"

section \<open>Searching\<close>

definition rh_holds :: "uval \<Rightarrow> region_holder \<Rightarrow> bool" where
  "rh_holds vaddr h \<longleftrightarrow> rh_vaddr h \<le> vaddr \<and> vaddr < uadd (rh_vaddr h) (rh_size h)"

definition vaddrToRegion :: "region_list \<Rightarrow> uval \<Rightarrow> sys_error + region_ref" where
  "vaddrToRegion rl vaddr =
     (case find (rh_holds vaddr) (regions rl) of
        Some r \<Rightarrow> Inr (rh_reg r) | None \<Rightarrow> Inl (SERROR 1485 100 EINVAL))"

definition findRegion_info :: "region_list \<Rightarrow> uval \<Rightarrow> sys_error + (nat \<times> uval \<times> uval)" where
  "findRegion_info rl vaddr =
     (case find (rh_holds vaddr) (regions rl) of
        Some r \<Rightarrow> Inr (rh_type r, rh_vaddr r, rh_size r)
      | None \<Rightarrow> Inl (SERROR 2831 100 EINVAL))"

definition findRegion :: "region_list \<Rightarrow> uval \<Rightarrow> sys_error + (region_ref \<times> uval \<times> uval \<times> nat)" where
  "findRegion rl vaddr =
     (case find (rh_holds vaddr) (regions rl) of
        Some r \<Rightarrow> Inr (rh_reg r, rh_vaddr r, rh_size r, rh_type r)
      | None \<Rightarrow> Inl (SERROR 2832 100 EINVAL))"

text \<open>\<^verbatim>\<open>_SRETUVAL(0)\<close>, nothing found, is \<^term>\<open>None\<close>; otherwise the new \<^verbatim>\<open>vaddr\<close> and the region.\<close>

definition getNextRegion :: "region_list \<Rightarrow> uval \<Rightarrow> (uval \<times> region_ref) option" where
  "getNextRegion rl vaddr =
     (case find (\<lambda>r. vaddr < uadd (rh_vaddr r) (rh_size r)) (regions rl) of
        Some r \<Rightarrow> Some (uadd (rh_vaddr r) (rh_size r), rh_reg r) | None \<Rightarrow> None)"

definition checkRegion :: "region_list \<Rightarrow> uval \<Rightarrow> uval \<Rightarrow> sys_error + unit" where
  "checkRegion rl vmbase isize =
     (case find (\<lambda>r. rh_vaddr r \<le> vmbase \<and> uadd (rh_vaddr r) (rh_size r) \<ge> uadd vmbase isize)
                (regions rl) of
        Some _ \<Rightarrow> Inr () | None \<Rightarrow> Inl (SERROR 1486 0 EINVAL))"

fun change_type_loop :: "uval \<Rightarrow> nat \<Rightarrow> region_holder list \<Rightarrow> region_holder list option" where
  "change_type_loop vaddr ty [] = None"
| "change_type_loop vaddr ty (r # rest) =
     (if rh_holds vaddr r then Some (r\<lparr>rh_type := ty\<rparr> # rest)
      else map_option (Cons r) (change_type_loop vaddr ty rest))"

definition changeRegionType :: "region_list \<Rightarrow> uval \<Rightarrow> nat \<Rightarrow> sys_error + region_list" where
  "changeRegionType rl vaddr newType =
     (case change_type_loop vaddr newType (regions rl) of
        Some l \<Rightarrow> Inr (rl\<lparr>regions := l\<rparr>) | None \<Rightarrow> Inl (SERROR 2806 100 EINVAL))"

section \<open>Reserving space\<close>

text \<open>
  The two reservations return the position of the new holder and the new list. The
  loop of \<^verbatim>\<open>reserveFixedSpace\<close> walks a non-empty tail of the list.
\<close>

fun rfs_loop :: "uval \<Rightarrow> uval \<Rightarrow> uval \<Rightarrow> region_holder list \<Rightarrow> sys_error + (nat \<times> region_holder list)" where
  "rfs_loop rend isize vmbase [] = Inl Panic"
| "rfs_loop rend isize vmbase [reg] =
     (if uadd (rh_vaddr reg) (rh_size reg) > vmbase then Inl (SERROR 1491 10 EINVAL)
      else if vmbase \<ge> rend \<or> isize > usub rend vmbase then Inl (SERROR 1492 10 EINVAL)
      else Inr (1, [reg, RegionHolder vmbase isize]))"
| "rfs_loop rend isize vmbase (reg # nxt # rest) =
     (if uadd (rh_vaddr reg) (rh_size reg) > vmbase then Inl (SERROR 1491 10 EINVAL)
      else if rh_vaddr nxt > vmbase then
        (if isize > usub (rh_vaddr nxt) vmbase then Inl (SERROR 1493 10 EINVAL)
         else Inr (1, reg # RegionHolder vmbase isize # nxt # rest))
      else (case rfs_loop rend isize vmbase (nxt # rest) of
              Inl e \<Rightarrow> Inl e | Inr (i, l) \<Rightarrow> Inr (Suc i, reg # l)))"

definition reserveFixedSpace :: "region_list \<Rightarrow> uval \<Rightarrow> uval \<Rightarrow> sys_error + (nat \<times> region_list)" where
  "reserveFixedSpace rl isize vmbase =
     (if isize = 0 \<or> isize AND MIN_PAGE_MASK \<noteq> 0 then Inl (SERROR 1487 10 EINVAL)
      else if vmbase < regionsStart rl then Inl (SERROR 1488 10 EINVAL)
      else (case regions rl of
        [] \<Rightarrow>
          (if vmbase \<ge> regionsEnd rl \<or> usub (regionsEnd rl) vmbase < isize
           then Inl (SERROR 1489 10 EINVAL)
           else Inr (0, rl\<lparr>regions := [RegionHolder vmbase isize]\<rparr>))
      | r # rs \<Rightarrow>
          (if rh_vaddr r \<ge> vmbase then
             (if isize > usub (rh_vaddr r) vmbase then Inl (SERROR 1490 10 EINVAL)
              else Inr (0, rl\<lparr>regions := RegionHolder vmbase isize # r # rs\<rparr>))
           else (case rfs_loop (regionsEnd rl) isize vmbase (r # rs) of
                   Inl e \<Rightarrow> Inl e | Inr (i, l) \<Rightarrow> Inr (i, rl\<lparr>regions := l\<rparr>)))))"

text \<open>
  The hole search of \<^verbatim>\<open>reserveSomeSpace\<close>: \<^term>\<open>Some (i, vmbase)\<close> when the hole after the
  \<open>i\<close>-th holder from here fits.
\<close>

fun rss_loop :: "uval \<Rightarrow> uval \<Rightarrow> uval \<Rightarrow> uval \<Rightarrow> region_holder list \<Rightarrow> (nat \<times> uval) option" where
  "rss_loop rangeStart rangeEnd alignment isize [] = None"
| "rss_loop rangeStart rangeEnd alignment isize (reg # rest) =
     (if rest \<noteq> [] \<and> rh_vaddr (hd rest) < rangeStart
      then map_option (apfst Suc) (rss_loop rangeStart rangeEnd alignment isize rest)
      else
        let vm0 = uadd (rh_vaddr reg) (rh_size reg);
            vm1 = (if vm0 < rangeStart then rangeStart else vm0);
            vmbase = ALIGN_UP vm1 alignment;
            va0 = (case rest of [] \<Rightarrow> rangeEnd | n # _ \<Rightarrow> rh_vaddr n);
            vaddr = (if va0 > rangeEnd then rangeEnd else va0)
        in if vaddr > vmbase \<and> usub vaddr vmbase \<ge> isize then Some (0, vmbase)
           else map_option (apfst Suc) (rss_loop rangeStart rangeEnd alignment isize rest))"

definition reserveSomeSpace ::
  "region_list \<Rightarrow> uval \<Rightarrow> uval \<Rightarrow> uval \<Rightarrow> uval \<Rightarrow> sys_error + (nat \<times> region_list)" where
  "reserveSomeSpace rl isize rangeStart rangeEnd alignment =
     (if isize = 0 \<or> isize AND MIN_PAGE_MASK \<noteq> 0 then Inl (SERROR 1494 10 EINVAL)
      else if alignment \<noteq> 0 \<and> alignment AND MIN_PAGE_MASK \<noteq> 0 then Inl (SERROR 1495 10 EINVAL)
      else
        let alignment' = (if alignment = 0 then DFLT_ALIGNMENT else alignment);
            rangeStart' = ALIGN_UP rangeStart alignment';
            vmbase = rangeStart'
        in if rangeStart' \<ge> rangeEnd \<or> isize > usub rangeEnd rangeStart'
           then Inl (SERROR 1496 10 EINVAL)
           else (case regions rl of
             [] \<Rightarrow>
               (if vmbase \<ge> rangeEnd \<or> usub rangeEnd vmbase < isize then Inl (SERROR 1497 10 EINVAL)
                else Inr (0, rl\<lparr>regions := [RegionHolder vmbase isize]\<rparr>))
           | r # rs \<Rightarrow>
               (if rh_vaddr r > vmbase \<and> usub (rh_vaddr r) vmbase \<ge> isize
                then Inr (0, rl\<lparr>regions := RegionHolder vmbase isize # r # rs\<rparr>)
                else (case rss_loop rangeStart' rangeEnd alignment' isize (r # rs) of
                        None \<Rightarrow> Inl Panic
                      | Some (i, vm) \<Rightarrow>
                          Inr (Suc i, rl\<lparr>regions := take (Suc i) (r # rs) @ RegionHolder vm isize
                                                   # drop (Suc i) (r # rs)\<rparr>)))))"

section \<open>Attaching, detaching, truncating\<close>

definition attach_at :: "region_list \<Rightarrow> nat \<Rightarrow> region_ref \<Rightarrow> nat \<Rightarrow> region_list" where
  "attach_at rl i reg ty = rl\<lparr>regions := (regions rl)[i := attachRegion (regions rl ! i) reg ty]\<rparr>"

definition attachDynamicRegion ::
  "region_list \<Rightarrow> uval \<Rightarrow> region_ref \<Rightarrow> nat \<Rightarrow> uval \<Rightarrow> sys_error + (uval \<times> region_list)" where
  "attachDynamicRegion rl isize reg regionType alignment =
     (case reserveSomeSpace rl isize (regionsAllocStart rl) (regionsEnd rl) alignment of
        Inl e \<Rightarrow> Inl e
      | Inr (i, rl') \<Rightarrow> Inr (rh_vaddr (regions rl' ! i), attach_at rl' i reg regionType))"

definition locked_attachFixedRegion ::
  "region_list \<Rightarrow> uval \<Rightarrow> uval \<Rightarrow> region_ref \<Rightarrow> nat \<Rightarrow> sys_error + region_list" where
  "locked_attachFixedRegion rl vaddr isize reg regionType =
     (case reserveFixedSpace rl isize vaddr of
        Inl e \<Rightarrow> Inl e | Inr (i, rl') \<Rightarrow> Inr (attach_at rl' i reg regionType))"

definition attachFixedRegion ::
  "region_list \<Rightarrow> uval \<Rightarrow> uval \<Rightarrow> region_ref \<Rightarrow> nat \<Rightarrow> sys_error + region_list" where
  "attachFixedRegion = locked_attachFixedRegion"

definition attachWithinRangeRegion ::
  "region_list \<Rightarrow> uval \<Rightarrow> uval \<Rightarrow> uval \<Rightarrow> region_ref \<Rightarrow> nat \<Rightarrow> uval \<Rightarrow> sys_error + (uval \<times> region_list)" where
  "attachWithinRangeRegion rl vaddr vaddr2 isize reg regionType alignment =
     (let va = (if vaddr < regionsStart rl then regionsStart rl else vaddr);
          va2 = (if vaddr2 > regionsEnd rl then regionsEnd rl else vaddr2);
          al = (if alignment = 0 then PAGE_SIZE else alignment)
      in case reserveSomeSpace rl isize va va2 al of
           Inl e \<Rightarrow> Inl e
         | Inr (i, rl') \<Rightarrow> Inr (rh_vaddr (regions rl' ! i), attach_at rl' i reg regionType))"

fun detach_loop :: "region_ref \<Rightarrow> region_holder list \<Rightarrow> region_holder list option" where
  "detach_loop r [] = None"
| "detach_loop r (rh # rest) =
     (if rh_reg rh = r then Some rest else map_option (Cons rh) (detach_loop r rest))"

definition detachRegion :: "region_list \<Rightarrow> region_ref \<Rightarrow> sys_error + region_list" where
  "detachRegion rl r =
     (case detach_loop r (regions rl) of
        Some l \<Rightarrow> Inr (rl\<lparr>regions := l\<rparr>) | None \<Rightarrow> Inl (SERROR 1059 0 EINVAL))"

fun truncate_loop :: "uval \<Rightarrow> uval \<Rightarrow> region_holder list \<Rightarrow> sys_error + (region_ref \<times> region_holder list)" where
  "truncate_loop start isize [] = Inl (SERROR 2357 0 EINVAL)"
| "truncate_loop start isize (rh # rest) =
     (if rh_vaddr rh \<le> start \<and> uadd (rh_vaddr rh) (rh_size rh) \<ge> uadd start isize then
        (if rh_vaddr rh = start \<and> rh_size rh = isize then Inr (rh_reg rh, rest)
         else if rh_vaddr rh = start then
           Inr (rh_reg rh, rh\<lparr>rh_size := usub (rh_size rh) isize,
                              rh_vaddr := uadd (rh_vaddr rh) isize\<rparr> # rest)
         else if uadd (rh_vaddr rh) (rh_size rh) = uadd start isize then
           Inr (rh_reg rh, rh\<lparr>rh_size := usub (rh_size rh) isize\<rparr> # rest)
         else Inl (SERROR 2356 0 EINVAL))
      else (case truncate_loop start isize rest of
              Inl e \<Rightarrow> Inl e | Inr (r, l) \<Rightarrow> Inr (r, rh # l)))"

definition locked_truncate :: "region_list \<Rightarrow> uval \<Rightarrow> uval \<Rightarrow> sys_error + (region_ref \<times> region_list)" where
  "locked_truncate rl start isize =
     (case truncate_loop start isize (regions rl) of
        Inl e \<Rightarrow> Inl e | Inr (r, l) \<Rightarrow> Inr (r, rl\<lparr>regions := l\<rparr>))"

text \<open>A failing insert after a successful truncation is a \<^verbatim>\<open>passertMsg\<close>.\<close>

definition truncateAndInsertInPlace ::
  "region_list \<Rightarrow> uval \<Rightarrow> uval \<Rightarrow> uval \<Rightarrow> uval \<Rightarrow> region_ref \<Rightarrow> nat \<Rightarrow> uval \<Rightarrow> uval \<Rightarrow> region_ref \<Rightarrow> nat
     \<Rightarrow> sys_error + region_list" where
  "truncateAndInsertInPlace rl truncVaddr truncSize newVaddr1 newSize1 newReg1 newType1
       newVaddr2 newSize2 newReg2 newType2 =
     (case locked_truncate rl truncVaddr truncSize of
        Inl e \<Rightarrow> Inl e
      | Inr (_, rl1) \<Rightarrow>
          (case locked_attachFixedRegion rl1 newVaddr1 newSize1 newReg1 newType1 of
             Inl _ \<Rightarrow> Inl Panic
           | Inr rl2 \<Rightarrow>
               if newReg2 \<noteq> 0 then
                 (case locked_attachFixedRegion rl2 newVaddr2 newSize2 newReg2 newType2 of
                    Inl _ \<Rightarrow> Inl Panic | Inr rl3 \<Rightarrow> Inr rl3)
               else Inr rl2))"

text \<open>
  \<^verbatim>\<open>preExec\<close> unchains the holders that do not survive an exec and then destroys their
  regions; the model returns those regions in the order they are destroyed.
\<close>

fun pre_exec_loop :: "region_holder list \<Rightarrow> region_holder list \<times> region_holder list" where
  "pre_exec_loop [] = ([], [])"
| "pre_exec_loop (h # rest) =
     (let (keep, destroy) = pre_exec_loop rest in
      if rh_type h AND KeepOnExec = 0 then (keep, h # destroy) else (h # keep, destroy))"

definition preExec :: "region_list \<Rightarrow> region_ref list \<times> region_list" where
  "preExec rl = (let (keep, destroy) = pre_exec_loop (regions rl)
                 in (map rh_reg destroy, rl\<lparr>regions := keep\<rparr>))"

definition purge :: "region_list \<Rightarrow> region_list" where
  "purge rl = rl\<lparr>regions := []\<rparr>"

section \<open>The invariant\<close>

definition rh_end :: "region_holder \<Rightarrow> nat" where
  "rh_end h = rh_vaddr h + rh_size h"

definition spaced :: "region_holder list \<Rightarrow> bool" where
  "spaced l \<longleftrightarrow> sorted_wrt (\<lambda>a b. rh_end a \<le> rh_vaddr b) l"

definition bounded :: "nat \<Rightarrow> nat \<Rightarrow> region_holder list \<Rightarrow> bool" where
  "bounded lo hi l \<longleftrightarrow> (\<forall>h\<in>set l. 0 < rh_size h \<and> lo \<le> rh_vaddr h \<and> rh_end h \<le> hi)"

text \<open>
  The list is sorted, no two regions overlap, no region is empty, and every region lies
  within the bounds the list was given.
\<close>

definition region_inv :: "region_list \<Rightarrow> bool" where
  "region_inv rl \<longleftrightarrow> spaced (regions rl) \<and> bounded (regionsStart rl) (regionsEnd rl) (regions rl)
     \<and> regionsEnd rl < 2 ^ 64 \<and> regionsStart rl \<le> regionsAllocStart rl"

text \<open>The address range \<open>[vm, vm + n)\<close> is free of the regions of a list.\<close>

definition free_range :: "region_holder list \<Rightarrow> nat \<Rightarrow> nat \<Rightarrow> bool" where
  "free_range l vm n \<longleftrightarrow> (\<forall>h\<in>set l. vm + n \<le> rh_vaddr h \<or> rh_end h \<le> vm)"

text \<open>The addresses the regions of a list cover.\<close>

definition covered :: "region_holder list \<Rightarrow> nat set" where
  "covered l = (\<Union>h\<in>set l. {rh_vaddr h..<rh_end h})"

lemma spaced_simps [simp]:
  "spaced []" "spaced (h # l) \<longleftrightarrow> (\<forall>x\<in>set l. rh_end h \<le> rh_vaddr x) \<and> spaced l"
  by (simp_all add: spaced_def)

lemma spaced_append [simp]:
  "spaced (xs @ ys) \<longleftrightarrow> spaced xs \<and> spaced ys \<and> (\<forall>x\<in>set xs. \<forall>y\<in>set ys. rh_end x \<le> rh_vaddr y)"
  by (simp add: spaced_def sorted_wrt_append)

lemma bounded_simps [simp]:
  "bounded lo hi []"
  "bounded lo hi (h # l) \<longleftrightarrow> 0 < rh_size h \<and> lo \<le> rh_vaddr h \<and> rh_end h \<le> hi \<and> bounded lo hi l"
  "bounded lo hi (xs @ ys) \<longleftrightarrow> bounded lo hi xs \<and> bounded lo hi ys"
  by (auto simp: bounded_def)

lemma free_range_simps [simp]:
  "free_range [] vm n"
  "free_range (h # l) vm n \<longleftrightarrow> (vm + n \<le> rh_vaddr h \<or> rh_end h \<le> vm) \<and> free_range l vm n"
  by (auto simp: free_range_def)

lemma covered_simps [simp]:
  "covered [] = {}" "covered (h # l) = {rh_vaddr h..<rh_end h} \<union> covered l"
  "covered (xs @ ys) = covered xs \<union> covered ys"
  by (auto simp: covered_def)

lemma holder_simps [simp]:
  "rh_vaddr (RegionHolder vm n) = vm" "rh_size (RegionHolder vm n) = n"
  "rh_end (RegionHolder vm n) = vm + n"
  "rh_vaddr (attachRegion h r ty) = rh_vaddr h" "rh_size (attachRegion h r ty) = rh_size h"
  "rh_end (attachRegion h r ty) = rh_end h" "rh_reg (attachRegion h r ty) = r"
  "rh_type (attachRegion h r ty) = ty"
  by (simp_all add: RegionHolder_def attachRegion_def rh_end_def)

lemma uadd_rh_end: "rh_end h < 2 ^ 64 \<Longrightarrow> uadd (rh_vaddr h) (rh_size h) = rh_end h"
  by (simp add: uadd_def rh_end_def)

lemma bounded_uadd: "bounded lo hi l \<Longrightarrow> hi < 2 ^ 64 \<Longrightarrow> h \<in> set l \<Longrightarrow>
    uadd (rh_vaddr h) (rh_size h) = rh_end h"
  by (rule uadd_rh_end) (auto simp: bounded_def)

lemma page_size_check: "n \<noteq> 0 \<and> n AND MIN_PAGE_MASK = 0 \<longleftrightarrow> 0 < n \<and> PAGE_SIZE dvd n"
  using and_page_mask [of n] by (simp add: MIN_PAGE_MASK_def PAGE_MASK_def dvd_eq_mod_eq_0)

text \<open>
  A new holder goes between the regions below it and the regions above it: that is all
  the invariant needs of an insertion.
\<close>

definition inserted ::
  "nat \<Rightarrow> region_holder list \<Rightarrow> uval \<Rightarrow> uval \<Rightarrow> nat \<Rightarrow> region_holder list \<Rightarrow> bool" where
  "inserted hi l vm n i l' \<longleftrightarrow> (\<exists>xs ys. l = xs @ ys \<and> i = length xs \<and>
     l' = xs @ RegionHolder vm n # ys \<and> vm + n \<le> hi \<and>
     (\<forall>h\<in>set xs. rh_end h \<le> vm) \<and> (\<forall>h\<in>set ys. vm + n \<le> rh_vaddr h))"

lemma inserted_Cons:
  "inserted hi l vm n i l' \<Longrightarrow> rh_end h \<le> vm \<Longrightarrow> inserted hi (h # l) vm n (Suc i) (h # l')"
  unfolding inserted_def by (metis append_Cons length_Cons set_ConsD)

lemma inserted_head:
  "spaced (h # l) \<Longrightarrow> vm + n \<le> rh_vaddr h \<Longrightarrow> bounded lo hi (h # l) \<Longrightarrow>
   inserted hi (h # l) vm n 0 (RegionHolder vm n # h # l)"
  unfolding inserted_def
  by (intro exI [of _ "[]"] exI [of _ "h # l"]) (auto simp: rh_end_def bounded_def)

lemma inserted_attach:
  assumes "inserted hi (regions rl) vm n i (regions rl')"
  obtains xs ys where "regions rl = xs @ ys" and
    "regions (attach_at rl' i r ty) = xs @ attachRegion (RegionHolder vm n) r ty # ys" and
    "rh_vaddr (regions rl' ! i) = vm" and "vm + n \<le> hi" and
    "\<forall>h\<in>set xs. rh_end h \<le> vm" and "\<forall>h\<in>set ys. vm + n \<le> rh_vaddr h"
  using assms that unfolding inserted_def attach_at_def by (auto simp: nth_append)

section \<open>Fixed reservations\<close>

lemma rfs_loop_Inr:
  assumes "rfs_loop hi n vm l = Inr (i, l')" and "spaced l" and "bounded lo hi l"
    and "hi < 2 ^ 64"
  shows "inserted hi l vm n i l'"
  using assms
proof (induction hi n vm l arbitrary: i l' rule: rfs_loop.induct)
  case (2 hi n vm reg)
  then show ?case
    unfolding inserted_def
    by (intro exI [of _ "[reg]"] exI [of _ "[]"])
      (auto simp: uadd_rh_end usub_nowrap split: if_splits)
next
  case (3 hi n vm reg nxt rest)
  have e: "uadd (rh_vaddr reg) (rh_size reg) = rh_end reg"
    using "3.prems" by (simp add: uadd_rh_end)
  show ?case
  proof (cases "rh_vaddr nxt > vm")
    case True
    have "rh_vaddr nxt < 2 ^ 64" using "3.prems"(3,4) by (auto simp: rh_end_def)
    with True "3.prems" e have "inserted hi (nxt # rest) vm n 0 (RegionHolder vm n # nxt # rest)"
      by (intro inserted_head) (auto simp: usub_nowrap split: if_splits)
    from inserted_Cons [OF this, of reg] True "3.prems"(1) e show ?thesis
      by (auto split: if_splits)
  next
    case False
    with "3.prems"(1) e obtain j m where "rfs_loop hi n vm (nxt # rest) = Inr (j, m)"
        and "i = Suc j" "l' = reg # m" "rh_end reg \<le> vm"
      by (auto split: if_splits sum.splits)
    with False e "3.IH" "3.prems"(2-4) show ?thesis by (auto intro!: inserted_Cons)
  qed
qed simp

lemma rfs_loop_Inl:
  assumes "rfs_loop hi n vm l = Inl e" and "l \<noteq> []" and "spaced l" and "bounded lo hi l"
    and "hi < 2 ^ 64" and "rh_vaddr (hd l) < vm" and "0 < n"
  shows "\<not> (free_range l vm n \<and> vm + n \<le> hi)"
  using assms
proof (induction hi n vm l arbitrary: e rule: rfs_loop.induct)
  case (2 hi n vm reg)
  then show ?case by (auto simp: uadd_rh_end usub_nowrap split: if_splits)
next
  case (3 hi n vm reg nxt rest)
  have e: "uadd (rh_vaddr reg) (rh_size reg) = rh_end reg"
    using "3.prems" by (simp add: uadd_rh_end)
  have "rh_vaddr nxt < 2 ^ 64" using "3.prems"(4,5) by (auto simp: rh_end_def)
  moreover have "0 < rh_size nxt" using "3.prems"(4) by simp
  ultimately show ?case
    using "3.prems" "3.IH" e
    by (cases "rh_vaddr nxt = vm")
      (auto simp: usub_nowrap rh_end_def split: if_splits sum.splits)
qed simp

lemma reserveFixedSpace_Inr:
  assumes "reserveFixedSpace rl n vm = Inr (i, rl')" and "region_inv rl"
  shows "inserted (regionsEnd rl) (regions rl) vm n i (regions rl')"
    and "rl' = rl\<lparr>regions := regions rl'\<rparr>" and "regionsStart rl \<le> vm"
    and "0 < n" and "PAGE_SIZE dvd n"
proof -
  show n: "0 < n" "PAGE_SIZE dvd n" and "regionsStart rl \<le> vm"
    and "rl' = rl\<lparr>regions := regions rl'\<rparr>"
    using assms(1) page_size_check [of n]
    by (auto simp: reserveFixedSpace_def split: if_splits list.splits sum.splits)
  note inv = assms(2) [unfolded region_inv_def]
  show "inserted (regionsEnd rl) (regions rl) vm n i (regions rl')"
  proof (cases "regions rl")
    case Nil
    with assms(1) inv show ?thesis
      unfolding inserted_def
      by (auto simp: reserveFixedSpace_def usub_nowrap split: if_splits)
  next
    case (Cons r rs)
    have "rh_vaddr r < 2 ^ 64" using inv Cons by (auto simp: rh_end_def)
    then show ?thesis
      using assms(1) inv Cons inserted_head [of r rs vm n "regionsStart rl" "regionsEnd rl"]
      by (auto simp: reserveFixedSpace_def usub_nowrap split: if_splits sum.splits
          intro: rfs_loop_Inr)
  qed
qed

lemma reserveFixedSpace_Inl:
  assumes "reserveFixedSpace rl n vm = Inl e" and "region_inv rl"
  shows "\<not> (0 < n \<and> PAGE_SIZE dvd n \<and> regionsStart rl \<le> vm \<and> vm + n \<le> regionsEnd rl \<and>
    free_range (regions rl) vm n)"
proof
  assume a: "0 < n \<and> PAGE_SIZE dvd n \<and> regionsStart rl \<le> vm \<and> vm + n \<le> regionsEnd rl \<and>
    free_range (regions rl) vm n"
  note inv = assms(2) [unfolded region_inv_def]
  have c: "n \<noteq> 0" "n AND MIN_PAGE_MASK = 0" using a page_size_check [of n] by auto
  show False
  proof (cases "regions rl")
    case Nil
    with a c inv assms(1) show False
      by (auto simp: reserveFixedSpace_def usub_nowrap split: if_splits)
  next
    case (Cons r rs)
    have v: "rh_vaddr r < 2 ^ 64" "0 < rh_size r" using inv Cons by (auto simp: rh_end_def)
    show False
    proof (cases "rh_vaddr r \<ge> vm")
      case True
      with v a c inv Cons assms(1) show False
        by (auto simp: reserveFixedSpace_def usub_nowrap rh_end_def split: if_splits)
    next
      case False
      with a c Cons assms(1) have "rfs_loop (regionsEnd rl) n vm (r # rs) = Inl e"
        by (auto simp: reserveFixedSpace_def split: if_splits sum.splits)
      with rfs_loop_Inl [OF this] False a inv Cons show False by auto
    qed
  qed
qed

section \<open>Searching for a hole\<close>

text \<open>
  An address is acceptable for a dynamic region when it is aligned, lies in the range
  and is free. \<^verbatim>\<open>ALIGN_UP\<close> gives the least aligned address not below its argument.
\<close>

definition acceptable :: "region_holder list \<Rightarrow> nat \<Rightarrow> nat \<Rightarrow> nat \<Rightarrow> nat \<Rightarrow> nat \<Rightarrow> bool" where
  "acceptable l lo hi al n a \<longleftrightarrow> lo \<le> a \<and> a + n \<le> hi \<and> al dvd a \<and> free_range l a n"

lemma ALIGN_UP_least:
  assumes "al = 2 ^ k" and "k < 64" and "x + (al - 1) < 2 ^ 64"
  shows "al dvd ALIGN_UP x al" and "al dvd a \<Longrightarrow> x \<le> a \<Longrightarrow> ALIGN_UP x al \<le> a"
proof -
  show d: "al dvd ALIGN_UP x al"
    using ALIGN_UP_pow2 [of k x] assms by (simp add: dvd_eq_mod_eq_0)
  have "(2 :: nat) ^ k < 2 ^ 64" using assms(2) by (intro power_strict_increasing) auto
  then have le: "ALIGN_UP x al \<le> x + (al - 1)" and pos: "0 < al"
    using ALIGN_UP_bounds [of al x] assms by (auto simp: is_uval_def)
  assume "al dvd a" and "x \<le> a"
  show "ALIGN_UP x al \<le> a"
  proof (rule ccontr)
    assume "\<not> ALIGN_UP x al \<le> a"
    then have "al dvd ALIGN_UP x al - a" "0 < ALIGN_UP x al - a"
      using d \<open>al dvd a\<close> by (auto intro: dvd_diff_nat)
    then have "al \<le> ALIGN_UP x al - a" by (rule dvd_imp_le)
    with le pos \<open>x \<le> a\<close> show False by linarith
  qed
qed

lemma ALIGN_UP_ge:
  "0 < al \<Longrightarrow> is_uval al \<Longrightarrow> x \<le> hi \<Longrightarrow> hi + (al - 1) < 2 ^ 64 \<Longrightarrow> x \<le> ALIGN_UP x al"
  by (rule ALIGN_UP_bounds(1)) auto

lemma rss_loop_safe:
  assumes "rss_loop rs re al n l = Some (i, vm)" and "spaced l" and "bounded lo hi l"
    and "rs \<le> hi" and "re \<le> hi" and "hi + (al - 1) < 2 ^ 64" and "0 < al" and "is_uval al"
    and "hi < 2 ^ 64"
  shows "inserted re l vm n (Suc i) (take (Suc i) l @ RegionHolder vm n # drop (Suc i) l) \<and>
    rs \<le> vm \<and> rh_end (hd l) \<le> vm"
  using assms(1-3)
proof (induction l arbitrary: i)
  case (Cons reg rest)
  let ?vm1 = "if rh_end reg < rs then rs else rh_end reg"
  let ?va0 = "case rest of [] \<Rightarrow> re | h # _ \<Rightarrow> rh_vaddr h"
  let ?va = "if ?va0 > re then re else ?va0"
  have e: "uadd (rh_vaddr reg) (rh_size reg) = rh_end reg"
    using Cons.prems(3) assms(9) by (simp add: uadd_rh_end)
  have up: "?vm1 \<le> ALIGN_UP ?vm1 al"
    using Cons.prems(3) assms(4,6,7,8) by (intro ALIGN_UP_ge [where hi = hi]) auto
  show ?case
  proof (cases "\<not> (rest \<noteq> [] \<and> rh_vaddr (hd rest) < rs) \<and>
      (?va > ALIGN_UP ?vm1 al \<and> usub ?va (ALIGN_UP ?vm1 al) \<ge> n)")
    case True
    then have hit: "i = 0" "vm = ALIGN_UP ?vm1 al"
      using Cons.prems(1) by (auto simp: e Let_def)
    have "?va < 2 ^ 64" using assms(5,9) by auto
    then have fit: "vm + n \<le> ?va" using True hit by (auto simp: usub_nowrap split: if_splits)
    have "\<forall>h\<in>set rest. vm + n \<le> rh_vaddr h"
      using fit Cons.prems(2,3) by (cases rest) (auto simp: rh_end_def split: if_splits)
    moreover have "vm + n \<le> re" "rh_end reg \<le> vm" "rs \<le> vm"
      using fit up hit(2) by (auto split: if_splits)
    ultimately show ?thesis
      unfolding inserted_def using hit(1)
      by (intro conjI exI [of _ "[reg]"] exI [of _ rest]) auto
  next
    case False
    then obtain j where j: "rss_loop rs re al n rest = Some (j, vm)" "i = Suc j"
      using Cons.prems(1) by (auto simp: e Let_def split: if_splits)
    then obtain h t where rest: "rest = h # t" by (cases rest) auto
    with Cons.IH [OF j(1)] Cons.prems(2,3) have
      IH: "inserted re rest vm n (Suc j) (take (Suc j) rest @ RegionHolder vm n # drop (Suc j) rest)"
        "rs \<le> vm" "rh_end h \<le> vm" by auto
    moreover have "rh_end reg \<le> vm" using IH(3) rest Cons.prems(2) by (auto simp: rh_end_def)
    ultimately show ?thesis using j(2) inserted_Cons [OF IH(1), of reg] by simp
  qed
qed simp

lemma rss_loop_first:
  assumes "acceptable l rs re al n a" and "rh_end (hd l) \<le> a" and "l \<noteq> []"
    and "bounded lo hi l" and "re \<le> hi" and "hi + (al - 1) < 2 ^ 64" and "al = 2 ^ k"
    and "k < 64" and "0 < n"
  shows "\<exists>i vm. rss_loop rs re al n l = Some (i, vm) \<and> vm \<le> a"
  using assms(1-4)
proof (induction l)
  case (Cons reg rest)
  let ?vm1 = "if rh_end reg < rs then rs else rh_end reg"
  let ?va0 = "case rest of [] \<Rightarrow> re | h # _ \<Rightarrow> rh_vaddr h"
  let ?va = "if ?va0 > re then re else ?va0"
  have "1 \<le> al" using assms(7) by simp
  then have hi: "hi < 2 ^ 64" using assms(6) by linarith
  have acc: "rs \<le> a" "a + n \<le> re" "al dvd a" "free_range rest a n"
    using Cons.prems(1) by (auto simp: acceptable_def)
  have e: "uadd (rh_vaddr reg) (rh_size reg) = rh_end reg"
    using Cons.prems(4) hi by (simp add: uadd_rh_end)
  have least: "ALIGN_UP ?vm1 al \<le> a"
    using acc Cons.prems(2,4) assms(5-8) by (intro ALIGN_UP_least(2)) auto
  show ?case
  proof (cases "rest = [] \<or> a + n \<le> rh_vaddr (hd rest)")
    case True
    then have va: "a + n \<le> ?va" using acc(2) by (cases rest) auto
    have "?va < 2 ^ 64" using assms(5) hi by auto
    with least va assms(9) have "?va > ALIGN_UP ?vm1 al" "usub ?va (ALIGN_UP ?vm1 al) \<ge> n"
      by (simp_all add: usub_nowrap)
    moreover have "\<not> (rest \<noteq> [] \<and> rh_vaddr (hd rest) < rs)" using True acc(1) by auto
    ultimately show ?thesis using least by (auto simp: e Let_def)
  next
    case False
    then have ne: "rest \<noteq> []" by simp
    with False acc(4) have "rh_end (hd rest) \<le> a" by (cases rest) auto
    with ne acc Cons.prems(4) obtain i vm where ih: "rss_loop rs re al n rest = Some (i, vm)" "vm \<le> a"
      using Cons.IH by (auto simp: acceptable_def)
    show ?thesis using least ih by (auto simp: e Let_def)
  qed
qed simp

text \<open>
  The alignment a request uses, and the condition that rounding up an address of the
  address range does not leave the 64-bit address space.
\<close>

definition used_alignment :: "uval \<Rightarrow> uval" where
  "used_alignment al = (if al = 0 then PAGE_SIZE else al)"

definition alignment_fits :: "nat \<Rightarrow> uval \<Rightarrow> bool" where
  "alignment_fits x al \<longleftrightarrow> is_uval (used_alignment al) \<and> x + (used_alignment al - 1) < 2 ^ 64"

lemma used_alignment_pos: "0 < used_alignment al"
  by (simp add: used_alignment_def PAGE_SIZE_def)

lemma alignment_fits_uval: "alignment_fits x al \<Longrightarrow> x < 2 ^ 64"
  using used_alignment_pos [of al] by (auto simp: alignment_fits_def)

lemma rss_loop_aligned:
  assumes "rss_loop rs re al n l = Some (i, vm)" and "bounded lo hi l" and "rs \<le> hi"
    and "hi + (al - 1) < 2 ^ 64" and "al = 2 ^ k" and "k < 64"
  shows "al dvd vm"
  using assms(1,2)
proof (induction l arbitrary: i)
  case (Cons reg rest)
  let ?vm1 = "if rh_end reg < rs then rs else rh_end reg"
  have "1 \<le> al" using assms(5) by simp
  then have "hi < 2 ^ 64" using assms(4) by linarith
  then have e: "uadd (rh_vaddr reg) (rh_size reg) = rh_end reg"
    using Cons.prems(2) by (simp add: uadd_rh_end)
  have "al dvd ALIGN_UP ?vm1 al"
    using Cons.prems(2) assms(3-6) by (intro ALIGN_UP_least(1)) auto
  with Cons e show ?case by (auto simp: Let_def split: if_splits)
qed simp

declare rfs_loop.simps [simp del] rss_loop.simps [simp del]

text \<open>
  The search of \<^verbatim>\<open>reserveSomeSpace\<close> as a whole: in front of the list or after one of its
  holders.
\<close>

definition hole :: "region_holder list \<Rightarrow> uval \<Rightarrow> uval \<Rightarrow> uval \<Rightarrow> uval \<Rightarrow> (nat \<times> uval) option" where
  "hole l rs re al n =
     (case l of [] \<Rightarrow> Some (0, rs)
      | r # _ \<Rightarrow> if rh_vaddr r > rs \<and> usub (rh_vaddr r) rs \<ge> n then Some (0, rs)
                 else map_option (apfst Suc) (rss_loop rs re al n l))"

lemma hole_safe:
  assumes "hole l rs re al n = Some (i, vm)" and "spaced l" and "bounded lo hi l"
    and "re \<le> hi" and "hi + (al - 1) < 2 ^ 64" and "0 < al" and "is_uval al"
    and "rs + n \<le> re"
  shows "inserted re l vm n i (take i l @ RegionHolder vm n # drop i l) \<and> rs \<le> vm"
proof (cases l)
  case Nil
  with assms(1,8) show ?thesis by (auto simp: hole_def inserted_def)
next
  case (Cons r t)
  have hi: "hi < 2 ^ 64" using assms(5,6) by linarith
  then have r: "rh_vaddr r < 2 ^ 64" using assms(3) Cons by (auto simp: rh_end_def)
  show ?thesis
  proof (cases "rh_vaddr r > rs \<and> usub (rh_vaddr r) rs \<ge> n")
    case True
    with r have "rs + n \<le> rh_vaddr r" by (auto simp: usub_nowrap)
    with True Cons assms(1,2,3,8) show ?thesis
      by (auto simp: hole_def inserted_def rh_end_def
          intro!: exI [of _ "[] :: region_holder list"])
  next
    case False
    with assms(1) Cons obtain j where "rss_loop rs re al n l = Some (j, vm)" "i = Suc j"
      by (auto simp: hole_def)
    with rss_loop_safe [OF this(1)] assms(2-8) hi show ?thesis by auto
  qed
qed

lemma hole_aligned:
  assumes "hole l rs re al n = Some (i, vm)" and "bounded lo hi l" and "rs \<le> hi"
    and "hi + (al - 1) < 2 ^ 64" and "al = 2 ^ k" and "k < 64" and "al dvd rs"
  shows "al dvd vm"
  using assms(1,7) rss_loop_aligned [of rs re al n l _ vm, OF _ assms(2-6)]
  by (auto simp: hole_def split: list.splits if_splits)

lemma hole_first:
  assumes "acceptable l rs re al n a" and "spaced l" and "bounded lo hi l" and "re \<le> hi"
    and "hi + (al - 1) < 2 ^ 64" and "al = 2 ^ k" and "k < 64" and "0 < n"
  shows "\<exists>i vm. hole l rs re al n = Some (i, vm) \<and> vm \<le> a"
proof (cases l)
  case Nil
  with assms(1) show ?thesis by (auto simp: hole_def acceptable_def)
next
  case (Cons r t)
  have acc: "rs \<le> a" "free_range (r # t) a n" using assms(1) Cons by (auto simp: acceptable_def)
  have "1 \<le> al" using assms(6) by simp
  with assms(3,5) Cons have r: "rh_vaddr r < 2 ^ 64" by (auto simp: rh_end_def)
  show ?thesis
  proof (cases "rh_vaddr r > rs \<and> usub (rh_vaddr r) rs \<ge> n")
    case True
    with acc Cons show ?thesis by (auto simp: hole_def)
  next
    case False
    with acc r assms(8) have "rh_end (hd l) \<le> a" using Cons by (auto simp: usub_nowrap)
    with rss_loop_first [OF assms(1) this _ assms(3-8)] Cons False show ?thesis
      by (auto simp: hole_def)
  qed
qed

text \<open>The request checks, and what remains when they pass.\<close>

definition request_ok :: "uval \<Rightarrow> uval \<Rightarrow> uval \<Rightarrow> uval \<Rightarrow> bool" where
  "request_ok n rs re al \<longleftrightarrow> 0 < n \<and> PAGE_SIZE dvd n \<and> PAGE_SIZE dvd al \<and> rs + n \<le> re"

lemma reserveSomeSpace_eq:
  assumes "re < 2 ^ 64" and rs'_def: "rs' = ALIGN_UP rs (used_alignment al)"
  shows "reserveSomeSpace rl n rs re al = Inr (i, rl') \<longleftrightarrow>
    request_ok n rs' re al \<and>
    (\<exists>vm. hole (regions rl) rs' re (used_alignment al) n = Some (i, vm) \<and>
          rl' = rl\<lparr>regions := take i (regions rl) @ RegionHolder vm n # drop i (regions rl)\<rparr>)"
proof -
  have d: "(if al = 0 then DFLT_ALIGNMENT else al) = used_alignment al"
    by (simp add: used_alignment_def DFLT_ALIGNMENT_def)
  have al: "(al \<noteq> 0 \<and> al AND MIN_PAGE_MASK \<noteq> 0) \<longleftrightarrow> \<not> PAGE_SIZE dvd al"
    using page_size_check [of al] by (cases "al = 0") auto
  have n: "(n = 0 \<or> n AND MIN_PAGE_MASK \<noteq> 0) \<longleftrightarrow> \<not> (0 < n \<and> PAGE_SIZE dvd n)"
    using page_size_check [of n] by auto
  have r: "(rs' \<ge> re \<or> n > usub re rs') \<longleftrightarrow> \<not> rs' + n \<le> re" if "0 < n"
    using that assms(1) by (cases "rs' < re") (auto simp: usub_nowrap)
  show ?thesis
  proof (cases "request_ok n rs' re al")
    case True
    then have c: "\<not> (n = 0 \<or> n AND MIN_PAGE_MASK \<noteq> 0)"
      "\<not> (al \<noteq> 0 \<and> al AND MIN_PAGE_MASK \<noteq> 0)" "\<not> (rs' \<ge> re \<or> n > usub re rs')"
      using n al r by (auto simp: request_ok_def)
    then have "\<not> (rs' \<ge> re \<or> usub re rs' < n)" by auto
    with True show ?thesis
      unfolding reserveSomeSpace_def d Let_def rs'_def [symmetric] if_not_P [OF c(1)]
        if_not_P [OF c(2)] if_not_P [OF c(3)] hole_def
      by (cases "regions rl") (auto split: option.splits)
  next
    case False
    then show ?thesis
      unfolding reserveSomeSpace_def d Let_def rs'_def [symmetric] n al
      using r by (auto simp: request_ok_def)
  qed
qed

section \<open>Every operation keeps the invariant\<close>

lemma inserted_inv:
  assumes "region_inv rl" and "inserted hi (regions rl) vm n i (regions rl')" and "hi \<le> regionsEnd rl"
    and "regionsStart rl \<le> vm" and "0 < n" and "rl' = rl\<lparr>regions := regions rl'\<rparr>"
  shows "region_inv (attach_at rl' i r ty)"
proof -
  obtain xs ys where "regions rl = xs @ ys"
    "regions (attach_at rl' i r ty) = xs @ attachRegion (RegionHolder vm n) r ty # ys"
    "vm + n \<le> hi" "\<forall>h\<in>set xs. rh_end h \<le> vm" "\<forall>h\<in>set ys. vm + n \<le> rh_vaddr h"
    using inserted_attach [OF assms(2)] by metis
  moreover have "regionsEnd (attach_at rl' i r ty) = regionsEnd rl"
    "regionsStart (attach_at rl' i r ty) = regionsStart rl"
    "regionsAllocStart (attach_at rl' i r ty) = regionsAllocStart rl"
    by (subst assms(6), simp add: attach_at_def)+
  ultimately show ?thesis
    using assms(1,3-5) by (auto simp: region_inv_def)
qed

lemma attachFixed_inv:
  assumes "locked_attachFixedRegion rl vm n r ty = Inr rl'" and "region_inv rl"
  shows "region_inv rl'"
proof -
  obtain i rl1 where 1: "reserveFixedSpace rl n vm = Inr (i, rl1)" "rl' = attach_at rl1 i r ty"
    using assms(1) by (auto simp: locked_attachFixedRegion_def split: sum.splits)
  note R = reserveFixedSpace_Inr [OF 1(1) assms(2)]
  from inserted_inv [OF assms(2) R(1) order_refl R(3,4,2)] show ?thesis by (simp add: 1(2))
qed

lemma alignment_fits_ge:
  "alignment_fits rs al \<Longrightarrow> rs \<le> ALIGN_UP rs (used_alignment al)"
  using used_alignment_pos [of al] by (auto simp: alignment_fits_def intro: ALIGN_UP_ge)

lemma reserveSomeSpace_inserted:
  assumes "reserveSomeSpace rl n rs re al = Inr (i, rl')" and "region_inv rl"
    and "alignment_fits rs al" and "alignment_fits (regionsEnd rl) al" and "re \<le> regionsEnd rl"
  obtains vm where "inserted re (regions rl) vm n i (regions rl')" and "rs \<le> vm" and "0 < n"
    and "rl' = rl\<lparr>regions := regions rl'\<rparr>"
    and "hole (regions rl) (ALIGN_UP rs (used_alignment al)) re (used_alignment al) n = Some (i, vm)"
proof -
  note inv = assms(2) [unfolded region_inv_def]
  let ?rs = "ALIGN_UP rs (used_alignment al)"
  have re: "re < 2 ^ 64" using assms(5) inv by simp
  obtain vm where ok: "request_ok n ?rs re al"
    and h: "hole (regions rl) ?rs re (used_alignment al) n = Some (i, vm)"
    and rl': "rl' = rl\<lparr>regions := take i (regions rl) @ RegionHolder vm n # drop i (regions rl)\<rparr>"
    using reserveSomeSpace_eq [OF re refl, of rl n rs al i rl'] assms(1) by auto
  have "inserted re (regions rl) vm n i (regions rl')" and "?rs \<le> vm"
    using hole_safe [OF h, of "regionsStart rl" "regionsEnd rl"] inv assms(4,5) ok rl'
      used_alignment_pos [of al]
    by (auto simp: alignment_fits_def request_ok_def)
  with that [of vm] ok rl' h alignment_fits_ge [OF assms(3)] show thesis
    by (auto simp: request_ok_def)
qed

lemma attachSome_inv:
  assumes "reserveSomeSpace rl n rs re al = Inr (i, rl1)" and "region_inv rl"
    and "alignment_fits rs al" and "alignment_fits (regionsEnd rl) al" and "re \<le> regionsEnd rl"
    and "regionsStart rl \<le> rs"
  shows "region_inv (attach_at rl1 i r ty)"
proof -
  obtain vm where "inserted re (regions rl) vm n i (regions rl1)" "rs \<le> vm" "0 < n"
    "rl1 = rl\<lparr>regions := regions rl1\<rparr>"
    using reserveSomeSpace_inserted [OF assms(1-5)] by metis
  with inserted_inv [OF assms(2) this(1) assms(5)] assms(6) show ?thesis by simp
qed

lemma detach_loop_Some:
  "detach_loop r l = Some l' \<Longrightarrow>
   \<exists>xs h ys. l = xs @ h # ys \<and> l' = xs @ ys \<and> rh_reg h = r \<and> (\<forall>x\<in>set xs. rh_reg x \<noteq> r)"
proof (induction l arbitrary: l')
  case (Cons a l)
  show ?case
  proof (cases "rh_reg a = r")
    case True
    with Cons.prems show ?thesis by (intro exI [of _ "[]"]) auto
  next
    case False
    with Cons.prems obtain m where "detach_loop r l = Some m" "l' = a # m" by auto
    with Cons.IH [of m] obtain xs h ys where
      "l = xs @ h # ys" "m = xs @ ys" "rh_reg h = r" "\<forall>x\<in>set xs. rh_reg x \<noteq> r" by auto
    with \<open>l' = a # m\<close> False show ?thesis by (intro exI [of _ "a # xs"]) auto
  qed
qed simp

lemma detach_loop_None: "detach_loop r l = None \<longleftrightarrow> (\<forall>h\<in>set l. rh_reg h \<noteq> r)"
  by (induction l) auto

lemma detach_inv: "detachRegion rl r = Inr rl' \<Longrightarrow> region_inv rl \<Longrightarrow> region_inv rl'"
  by (auto simp: detachRegion_def region_inv_def split: option.splits dest!: detach_loop_Some)

lemma change_type_Some:
  "change_type_loop va ty l = Some l' \<Longrightarrow>
   \<exists>xs h ys. l = xs @ h # ys \<and> rh_holds va h \<and> l' = xs @ h\<lparr>rh_type := ty\<rparr> # ys"
proof (induction l arbitrary: l')
  case (Cons a l)
  show ?case
  proof (cases "rh_holds va a")
    case True
    with Cons.prems show ?thesis by (intro exI [of _ "[]"]) auto
  next
    case False
    with Cons.prems obtain m where "change_type_loop va ty l = Some m" "l' = a # m" by auto
    with Cons.IH [of m] obtain xs h ys where
      "l = xs @ h # ys" "rh_holds va h" "m = xs @ h\<lparr>rh_type := ty\<rparr> # ys" by auto
    with \<open>l' = a # m\<close> show ?thesis by (intro exI [of _ "a # xs"]) auto
  qed
qed simp

lemma change_type_inv: "changeRegionType rl va ty = Inr rl' \<Longrightarrow> region_inv rl \<Longrightarrow> region_inv rl'"
  by (auto simp: changeRegionType_def region_inv_def rh_end_def split: option.splits
      dest!: change_type_Some)

text \<open>
  A truncation removes a region, cuts off its beginning or cuts off its end; the range
  must not wrap around the address space.
\<close>

lemma truncate_loop_Inr:
  assumes "truncate_loop start n l = Inr (r, l')" and "bounded lo hi l" and "hi < 2 ^ 64"
    and "start + n < 2 ^ 64"
  shows "\<exists>xs h ys. l = xs @ h # ys \<and> rh_reg h = r \<and> rh_vaddr h \<le> start \<and> start + n \<le> rh_end h \<and>
    (rh_vaddr h = start \<and> rh_size h = n \<and> l' = xs @ ys \<or>
     rh_vaddr h = start \<and> n < rh_size h \<and>
       l' = xs @ h\<lparr>rh_size := rh_size h - n, rh_vaddr := start + n\<rparr> # ys \<or>
     rh_vaddr h < start \<and> start + n = rh_end h \<and> l' = xs @ h\<lparr>rh_size := rh_size h - n\<rparr> # ys)"
  using assms(1,2)
proof (induction l arbitrary: l')
  case (Cons h l)
  have e: "uadd (rh_vaddr h) (rh_size h) = rh_end h" "uadd start n = start + n"
    using Cons.prems(2) assms(3,4) by (simp_all add: uadd_rh_end uadd_nowrap)
  show ?case
  proof (cases "rh_vaddr h \<le> start \<and> rh_end h \<ge> start + n")
    case True
    moreover have "rh_size h < 2 ^ 64" "n \<le> rh_size h"
      using True Cons.prems(2) assms(3) by (auto simp: rh_end_def)
    ultimately show ?thesis
      using Cons.prems(1) assms(4) e
      by (intro exI [of _ "[]"] exI [of _ h] exI [of _ l])
        (auto simp: usub_nowrap uadd_nowrap rh_end_def split: if_splits)
  next
    case False
    with Cons.prems(1) e obtain m where "truncate_loop start n l = Inr (r, m)" "l' = h # m"
      by (auto split: sum.splits if_splits)
    with Cons.IH [of m] Cons.prems(2) show ?thesis by (fastforce intro: exI [of _ "h # xs" for xs])
  qed
qed simp

text \<open>A region may be replaced by a part of it.\<close>

lemma shrink_holder:
  assumes "spaced (xs @ h # ys)" and "bounded lo hi (xs @ h # ys)"
    and "rh_vaddr h \<le> rh_vaddr h'" and "rh_end h' \<le> rh_end h" and "0 < rh_size h'"
  shows "spaced (xs @ h' # ys) \<and> bounded lo hi (xs @ h' # ys)"
proof -
  have "rh_end h' \<le> rh_vaddr y" if "y \<in> set ys" for y
    using assms(1,4) that by (auto intro: order_trans)
  moreover have "rh_end x \<le> rh_vaddr h'" if "x \<in> set xs" for x
    using assms(1,3) that by (auto intro: order_trans)
  ultimately show ?thesis using assms by auto
qed

lemma truncate_inv:
  assumes "locked_truncate rl start n = Inr (r, rl')" and "region_inv rl" and "start + n < 2 ^ 64"
  shows "region_inv rl'"
proof -
  obtain l' where t: "truncate_loop start n (regions rl) = Inr (r, l')" "rl' = rl\<lparr>regions := l'\<rparr>"
    using assms(1) by (auto simp: locked_truncate_def split: sum.splits)
  note inv = assms(2) [unfolded region_inv_def]
  from truncate_loop_Inr [OF t(1), of "regionsStart rl" "regionsEnd rl"] inv assms(3)
  obtain xs h ys where l: "regions rl = xs @ h # ys" and
    "l' = xs @ ys \<or>
     rh_vaddr h = start \<and> n < rh_size h \<and>
       l' = xs @ h\<lparr>rh_size := rh_size h - n, rh_vaddr := start + n\<rparr> # ys \<or>
     rh_vaddr h < start \<and> start + n = rh_end h \<and> l' = xs @ h\<lparr>rh_size := rh_size h - n\<rparr> # ys"
    by blast
  then have "spaced l' \<and> bounded (regionsStart rl) (regionsEnd rl) l'"
    using inv by (elim disjE conjE; hypsubst) (auto simp: rh_end_def intro!: shrink_holder [of xs h ys])
  with inv show ?thesis by (auto simp: region_inv_def t(2))
qed

lemma pre_exec_loop_eq:
  "pre_exec_loop l = (filter (\<lambda>h. rh_type h AND KeepOnExec \<noteq> 0) l,
                      filter (\<lambda>h. rh_type h AND KeepOnExec = 0) l)"
  by (induction l) (auto simp: Let_def)

lemma preExec_inv: "region_inv rl \<Longrightarrow> region_inv (snd (preExec rl))"
  by (auto simp: preExec_def pre_exec_loop_eq region_inv_def spaced_def bounded_def sorted_wrt_filter)

text \<open>The steps of a region list, with the requests whose arithmetic does not wrap.\<close>

inductive region_step :: "region_list \<Rightarrow> region_list \<Rightarrow> bool" where
  attach_fixed: "attachFixedRegion rl vaddr n reg ty = Inr rl' \<Longrightarrow> region_step rl rl'"
| attach_dynamic: "attachDynamicRegion rl n reg ty al = Inr (va, rl') \<Longrightarrow>
    alignment_fits (regionsAllocStart rl) al \<Longrightarrow> alignment_fits (regionsEnd rl) al \<Longrightarrow>
    region_step rl rl'"
| attach_within: "attachWithinRangeRegion rl vaddr vaddr2 n reg ty al = Inr (va, rl') \<Longrightarrow>
    alignment_fits vaddr al \<Longrightarrow> alignment_fits (regionsStart rl) al \<Longrightarrow>
    alignment_fits (regionsEnd rl) al \<Longrightarrow> region_step rl rl'"
| detach: "detachRegion rl reg = Inr rl' \<Longrightarrow> region_step rl rl'"
| truncate: "locked_truncate rl start n = Inr (reg, rl') \<Longrightarrow> start + n < 2 ^ 64 \<Longrightarrow>
    region_step rl rl'"
| replace: "truncateAndInsertInPlace rl start n va1 n1 r1 ty1 va2 n2 r2 ty2 = Inr rl' \<Longrightarrow>
    start + n < 2 ^ 64 \<Longrightarrow> region_step rl rl'"
| change_type: "changeRegionType rl vaddr ty = Inr rl' \<Longrightarrow> region_step rl rl'"
| exec: "region_step rl (snd (preExec rl))"
| clear: "region_step rl (purge rl)"

lemma used_alignment_default: "used_alignment (if al = 0 then PAGE_SIZE else al) = used_alignment al"
  by (simp add: used_alignment_def)

lemma attachDynamic_inv:
  assumes "attachDynamicRegion rl n reg ty al = Inr (va, rl')" and "region_inv rl"
    and "alignment_fits (regionsAllocStart rl) al" and "alignment_fits (regionsEnd rl) al"
  shows "region_inv rl'"
  using assms attachSome_inv [of rl n "regionsAllocStart rl" "regionsEnd rl" al]
  by (auto simp: attachDynamicRegion_def region_inv_def split: sum.splits)

lemma attachWithin_inv:
  assumes "attachWithinRangeRegion rl v v2 n reg ty al = Inr (va, rl')" and "region_inv rl"
    and "alignment_fits v al" and "alignment_fits (regionsStart rl) al"
    and "alignment_fits (regionsEnd rl) al"
  shows "region_inv rl'"
proof -
  let ?v = "if v < regionsStart rl then regionsStart rl else v"
  let ?al = "if al = 0 then PAGE_SIZE else al"
  obtain i rl1 where "reserveSomeSpace rl n ?v (if v2 > regionsEnd rl then regionsEnd rl else v2)
      ?al = Inr (i, rl1)" "rl' = attach_at rl1 i reg ty"
    using assms(1) by (auto simp: attachWithinRangeRegion_def Let_def split: sum.splits)
  moreover have "alignment_fits ?v ?al" "alignment_fits (regionsEnd rl) ?al"
    using assms(3-5) by (simp_all add: alignment_fits_def used_alignment_default)
  ultimately show ?thesis using assms(2) by (auto intro!: attachSome_inv [OF _ assms(2)])
qed

lemma region_step_inv: "region_step rl rl' \<Longrightarrow> region_inv rl \<Longrightarrow> region_inv rl'"
proof (induction rule: region_step.induct)
  case (replace rl start n va1 n1 r1 ty1 va2 n2 r2 ty2 rl')
  have "region_inv b" if "locked_truncate rl start n = Inr (a, b)" for a b
    using truncate_inv [OF that replace(3,2)] .
  with replace(1) show ?case
    by (auto simp: truncateAndInsertInPlace_def split: sum.splits if_splits)
      (metis attachFixed_inv)+
next
  case (clear rl)
  then show ?case by (simp add: region_inv_def purge_def)
qed (auto simp: attachFixedRegion_def
      intro: attachFixed_inv attachDynamic_inv attachWithin_inv detach_inv truncate_inv
        change_type_inv preExec_inv)

interpretation region_safety: invariant_steps region_step region_inv
  by unfold_locales (rule region_step_inv)

section \<open>Functional lemmas for the properties\<close>

lemma locked_attachFixed_bounds:
  assumes "locked_attachFixedRegion rl vm n r ty = Inr rl'"
  shows "regionsStart rl' = regionsStart rl \<and> regionsEnd rl' = regionsEnd rl"
  using assms
  by (auto simp: locked_attachFixedRegion_def reserveFixedSpace_def attach_at_def
      split: sum.splits if_splits list.splits)

lemma reserveSomeSpace_bounds:
  assumes "reserveSomeSpace rl n rs re al = Inr (i, rl')"
  shows "regionsStart rl' = regionsStart rl \<and> regionsEnd rl' = regionsEnd rl"
  using assms
  by (auto simp: reserveSomeSpace_def Let_def split: option.splits if_splits list.splits)

lemma region_step_bounds:
  "region_step rl rl' \<Longrightarrow> regionsStart rl' = regionsStart rl \<and> regionsEnd rl' = regionsEnd rl"
proof (induction rule: region_step.induct)
  case (attach_dynamic rl n reg ty al va rl')
  then show ?case
    by (auto simp: attachDynamicRegion_def attach_at_def split: sum.splits
        dest!: reserveSomeSpace_bounds)
next
  case (attach_within rl vaddr vaddr2 n reg ty al va rl')
  then show ?case
    by (auto simp: attachWithinRangeRegion_def Let_def attach_at_def split: sum.splits
        dest!: reserveSomeSpace_bounds)
next
  case (replace rl start n va1 n1 r1 ty1 va2 n2 r2 ty2 rl')
  then show ?case
    by (auto simp: truncateAndInsertInPlace_def locked_truncate_def split: sum.splits if_splits
        dest!: locked_attachFixed_bounds)
qed (auto simp: attachFixedRegion_def detachRegion_def locked_truncate_def changeRegionType_def
      preExec_def purge_def split: sum.splits option.splits prod.splits
      dest: locked_attachFixed_bounds)

definition region_inv_at :: "nat \<Rightarrow> nat \<Rightarrow> region_list \<Rightarrow> bool" where
  "region_inv_at lo hi rl \<longleftrightarrow> region_inv rl \<and> regionsStart rl = lo \<and> regionsEnd rl = hi"

interpretation region_bounds: invariant_steps region_step "region_inv_at lo hi" for lo hi
  by unfold_locales (auto simp: region_inv_at_def region_step_inv dest: region_step_bounds)

lemma find_region:
  assumes "spaced l" and "bounded lo hi l" and "hi < 2 ^ 64"
  shows "find (rh_holds va) l = Some h \<longleftrightarrow> h \<in> set l \<and> rh_vaddr h \<le> va \<and> va < rh_end h"
  using assms(1,2)
proof (induction l)
  case (Cons a l)
  have "uadd (rh_vaddr a) (rh_size a) = rh_end a"
    using Cons.prems(2) assms(3) by (simp add: uadd_rh_end)
  moreover have "\<not> (rh_vaddr x \<le> va \<and> va < rh_end a)" if "x \<in> set l" for x
    using Cons.prems(1) that by auto
  ultimately show ?case using Cons by (auto simp: rh_holds_def)
qed simp

lemma find_region_None:
  assumes "spaced l" and "bounded lo hi l" and "hi < 2 ^ 64"
  shows "find (rh_holds va) l = None \<longleftrightarrow> va \<notin> covered l"
proof -
  have "find (rh_holds va) l = None \<longleftrightarrow> (\<forall>h. find (rh_holds va) l \<noteq> Some h)" by auto
  also have "\<dots> \<longleftrightarrow> va \<notin> covered l" using find_region [OF assms] by (auto simp: covered_def)
  finally show ?thesis .
qed

lemma attachFixed_list:
  assumes "locked_attachFixedRegion rl vm n r ty = Inr rl'" and "region_inv rl"
  obtains xs ys where "regions rl = xs @ ys"
    and "rl' = rl\<lparr>regions := xs @ attachRegion (RegionHolder vm n) r ty # ys\<rparr>" and "0 < n"
    and "\<forall>h\<in>set xs. rh_end h \<le> vm" and "\<forall>h\<in>set ys. vm + n \<le> rh_vaddr h"
    and "vm + n \<le> regionsEnd rl" and "regionsStart rl \<le> vm" and "PAGE_SIZE dvd n"
proof -
  obtain i rl1 where 1: "reserveFixedSpace rl n vm = Inr (i, rl1)" "rl' = attach_at rl1 i r ty"
    using assms(1) by (auto simp: locked_attachFixedRegion_def split: sum.splits)
  note R = reserveFixedSpace_Inr [OF 1(1) assms(2)]
  from inserted_attach [OF R(1)] obtain xs ys where x: "regions rl = xs @ ys"
    "regions (attach_at rl1 i r ty) = xs @ attachRegion (RegionHolder vm n) r ty # ys"
    "vm + n \<le> regionsEnd rl" "\<forall>h\<in>set xs. rh_end h \<le> vm" "\<forall>h\<in>set ys. vm + n \<le> rh_vaddr h"
    by metis
  have "attach_at rl1 i r ty = rl\<lparr>regions := regions (attach_at rl1 i r ty)\<rparr>"
    by (subst R(2), subst (2) R(2)) (simp add: attach_at_def)
  with that [of xs ys] x R(3-5) 1(2) show thesis by simp
qed

lemma detach_loop_found:
  "\<forall>x\<in>set xs. rh_reg x \<noteq> r \<Longrightarrow> rh_reg h = r \<Longrightarrow> detach_loop r (xs @ h # ys) = Some (xs @ ys)"
  by (induction xs) auto

lemma acceptable_inserted:
  assumes "inserted re l vm n i l'" and "lo \<le> vm" and "al dvd vm"
  shows "acceptable l lo re al n vm"
  using assms unfolding inserted_def acceptable_def free_range_def by auto

section \<open>Properties\<close>

definition sample_regions :: region_list where
  "sample_regions = \<lparr>regions =
      [\<lparr>rh_type = 0x81, rh_vaddr = 0x10000, rh_size = 0x2000, rh_reg = 7\<rparr>,
       \<lparr>rh_type = 1, rh_vaddr = 0x14000, rh_size = 0x1000, rh_reg = 8\<rparr>],
     regionsAllocStart = 0x10000, regionsStart = 0x10000, regionsEnd = 0x100000\<rparr>"

lemma sample_regions_inv: "region_inv sample_regions"
  by (simp add: sample_regions_def region_inv_def rh_end_def)



text \<open>
  C30. On a well-formed list \<^verbatim>\<open>vaddrToRegion\<close> returns exactly the region whose range holds the
  address, and fails with EINVAL exactly for the addresses no region covers.
\<close>

theorem vaddrToRegion_correct:
  assumes "region_inv rl"
  shows "(vaddrToRegion rl va = Inr r \<longleftrightarrow>
      (\<exists>h\<in>set (regions rl). rh_reg h = r \<and> rh_vaddr h \<le> va \<and> va < rh_end h)) \<and>
    (vaddrToRegion rl va = Inl (SERROR 1485 100 EINVAL) \<longleftrightarrow> va \<notin> covered (regions rl))"
proof -
  have inv: "spaced (regions rl)" "bounded (regionsStart rl) (regionsEnd rl) (regions rl)"
    "regionsEnd rl < 2 ^ 64" using assms by (auto simp: region_inv_def)
  show ?thesis
  proof (cases "find (rh_holds va) (regions rl)")
    case None
    with find_region [OF inv, of va] find_region_None [OF inv, of va] show ?thesis
      by (auto simp: vaddrToRegion_def)
  next
    case (Some a)
    have uniq: "h = a" if "h \<in> set (regions rl)" "rh_vaddr h \<le> va" "va < rh_end h" for h
      using find_region [OF inv, of va h] Some that by simp
    have "a \<in> set (regions rl)" "rh_vaddr a \<le> va" "va < rh_end a"
      using find_region [OF inv, of va a] Some by simp_all
    then have "(\<exists>h\<in>set (regions rl). rh_reg h = r \<and> rh_vaddr h \<le> va \<and> va < rh_end h)
        \<longleftrightarrow> rh_reg a = r" using uniq by blast
    with Some find_region_None [OF inv, of va] show ?thesis by (simp add: vaddrToRegion_def)
  qed
qed

theorem vaddrToRegion_correct_witness:
  "region_inv sample_regions \<and> vaddrToRegion sample_regions 0x14004 = Inr 8"
  using sample_regions_inv vaddrToRegion_correct [OF sample_regions_inv, of "0x14004" 8]
  by (simp add: sample_regions_def rh_end_def)

text \<open>
  \<^verbatim>\<open>attachFixedRegion\<close> succeeds exactly when the request is a positive multiple of the page
  size, lies within the bounds of the list and is free; sizes that would wrap around the
  address space are refused.
\<close>

theorem attachFixed_succeeds_iff:
  assumes "region_inv rl"
  shows "(\<exists>rl'. attachFixedRegion rl vm n r ty = Inr rl') \<longleftrightarrow>
    0 < n \<and> PAGE_SIZE dvd n \<and> regionsStart rl \<le> vm \<and> vm + n \<le> regionsEnd rl \<and>
    free_range (regions rl) vm n"
proof
  assume "\<exists>rl'. attachFixedRegion rl vm n r ty = Inr rl'"
  then obtain rl' where "locked_attachFixedRegion rl vm n r ty = Inr rl'"
    by (auto simp: attachFixedRegion_def)
  from attachFixed_list [OF this assms] obtain xs ys where "regions rl = xs @ ys" "0 < n"
    "\<forall>h\<in>set xs. rh_end h \<le> vm" "\<forall>h\<in>set ys. vm + n \<le> rh_vaddr h" "vm + n \<le> regionsEnd rl"
    "regionsStart rl \<le> vm" "PAGE_SIZE dvd n" by metis
  then show "0 < n \<and> PAGE_SIZE dvd n \<and> regionsStart rl \<le> vm \<and> vm + n \<le> regionsEnd rl \<and>
      free_range (regions rl) vm n"
    by (auto simp: free_range_def)
next
  assume "0 < n \<and> PAGE_SIZE dvd n \<and> regionsStart rl \<le> vm \<and> vm + n \<le> regionsEnd rl \<and>
    free_range (regions rl) vm n"
  with reserveFixedSpace_Inl [of rl n vm] assms obtain p where "reserveFixedSpace rl n vm = Inr p"
    by (cases "reserveFixedSpace rl n vm") auto
  then show "\<exists>rl'. attachFixedRegion rl vm n r ty = Inr rl'"
    by (cases p) (simp add: attachFixedRegion_def locked_attachFixedRegion_def)
qed

theorem attachFixed_succeeds_iff_witness:
  "region_inv sample_regions \<and>
   (\<exists>rl'. attachFixedRegion sample_regions 0x12000 0x2000 9 1 = Inr rl') \<and>
   \<not> (\<exists>rl'. attachFixedRegion sample_regions 0x12000 0x3000 9 1 = Inr rl')"
  using sample_regions_inv attachFixed_succeeds_iff [OF sample_regions_inv, of "0x12000" "0x2000" 9 1]
    attachFixed_succeeds_iff [OF sample_regions_inv, of "0x12000" "0x3000" 9 1]
  by (simp add: sample_regions_def rh_end_def PAGE_SIZE_def)

text \<open>
  Attaching a region at a fixed address and detaching it gives back the original list, and
  between the two every address of the region translates to it.
\<close>

theorem attach_detach_roundtrip:
  assumes "region_inv rl" and "attachFixedRegion rl vm n r ty = Inr rl'"
    and "\<forall>h\<in>set (regions rl). rh_reg h \<noteq> r"
  shows "detachRegion rl' r = Inr rl \<and> (\<forall>a\<in>{vm..<vm + n}. vaddrToRegion rl' a = Inr r)"
proof -
  have att: "locked_attachFixedRegion rl vm n r ty = Inr rl'"
    using assms(2) by (simp add: attachFixedRegion_def)
  obtain xs ys where x: "regions rl = xs @ ys"
    "rl' = rl\<lparr>regions := xs @ attachRegion (RegionHolder vm n) r ty # ys\<rparr>"
    by (rule attachFixed_list [OF att assms(1)]) blast
  have "detach_loop r (regions rl') = Some (regions rl)"
    using assms(3) detach_loop_found [of xs r "attachRegion (RegionHolder vm n) r ty" ys]
    by (simp add: x)
  then have "detachRegion rl' r = Inr rl" by (simp add: detachRegion_def) (simp add: x(2))
  moreover have inv: "region_inv rl'" by (rule attachFixed_inv [OF att assms(1)])
  have fd: "spaced (regions rl')" "bounded (regionsStart rl') (regionsEnd rl') (regions rl')"
    "regionsEnd rl' < 2 ^ 64" using inv by (auto simp: region_inv_def)
  have "vaddrToRegion rl' a = Inr r" if "a \<in> {vm..<vm + n}" for a
    using find_region [OF fd, of a "attachRegion (RegionHolder vm n) r ty"] that x(2)
    by (simp add: vaddrToRegion_def)
  ultimately show ?thesis by blast
qed

theorem attach_detach_roundtrip_witness:
  "\<exists>rl'. attachFixedRegion sample_regions 0x12000 0x2000 9 1 = Inr rl' \<and>
     detachRegion rl' 9 = Inr sample_regions"
proof -
  obtain rl' where a: "attachFixedRegion sample_regions 0x12000 0x2000 9 1 = Inr rl'"
    by (simp add: attachFixedRegion_def locked_attachFixedRegion_def reserveFixedSpace_def
        sample_regions_def usub_def uadd_def MIN_PAGE_MASK_def PAGE_SIZE_def rfs_loop.simps)
  have "\<forall>h\<in>set (regions sample_regions). rh_reg h \<noteq> 9" by (simp add: sample_regions_def)
  from attach_detach_roundtrip [OF sample_regions_inv a this] a show ?thesis by simp
qed

text \<open>
  C31. \<^verbatim>\<open>attachDynamicRegion\<close> with a power-of-two alignment of at least a page places the region at
  the lowest aligned free address of the allocation range, and it succeeds whenever there
  is one.
\<close>

theorem attachDynamic_lowest:
  assumes "region_inv rl" and "used_alignment al = 2 ^ k" and "12 \<le> k" and "k < 64"
    and "0 < n" and "PAGE_SIZE dvd n"
    and "alignment_fits (regionsAllocStart rl) al" and "alignment_fits (regionsEnd rl) al"
    and "acceptable (regions rl) (regionsAllocStart rl) (regionsEnd rl) (2 ^ k) n a"
  shows "\<exists>va rl'. attachDynamicRegion rl n r ty al = Inr (va, rl') \<and> va \<le> a \<and>
    acceptable (regions rl) (regionsAllocStart rl) (regionsEnd rl) (2 ^ k) n va"
proof -
  let ?rs = "regionsAllocStart rl" and ?re = "regionsEnd rl" and ?al = "used_alignment al"
  let ?rs' = "ALIGN_UP ?rs ?al"
  note inv = assms(1) [unfolded region_inv_def]
  have fit: "?re + (?al - 1) < 2 ^ 64" "?rs + (?al - 1) < 2 ^ 64" "is_uval ?al"
    using assms(7,8) by (simp_all add: alignment_fits_def)
  have acc: "?rs \<le> a" "a + n \<le> ?re" "?al dvd a" "free_range (regions rl) a n"
    using assms(9) by (auto simp: acceptable_def assms(2))
  have rs': "?rs' \<le> a" "?al dvd ?rs'" "?rs \<le> ?rs'"
    using acc fit assms(2,4) alignment_fits_ge [OF assms(7)]
    by (auto intro: ALIGN_UP_least)
  have acc': "acceptable (regions rl) ?rs' ?re ?al n a" using acc rs'(1) by (simp add: acceptable_def)
  obtain i vm where h: "hole (regions rl) ?rs' ?re ?al n = Some (i, vm)" "vm \<le> a"
    using hole_first [OF acc' _ _ order_refl fit(1) assms(2,4,5)] inv by blast
  have safe: "inserted ?re (regions rl) vm n i (take i (regions rl) @ RegionHolder vm n # drop i (regions rl))"
      "?rs' \<le> vm"
    using hole_safe [OF h(1), of "regionsStart rl" ?re] inv fit used_alignment_pos acc(2) rs'(1)
    by auto
  have dv: "?al dvd vm"
    using hole_aligned [OF h(1), of "regionsStart rl" ?re] inv fit(1) assms(2,4) rs' acc(2) by auto
  have "PAGE_SIZE dvd ?al"
    using assms(2,3) le_imp_power_dvd [of 12 k 2] by (simp add: PAGE_SIZE_def)
  then have "PAGE_SIZE dvd al" by (auto simp: used_alignment_def split: if_splits)
  then have "request_ok n ?rs' ?re al"
    using assms(5,6) rs'(1) acc(2) by (auto simp: request_ok_def)
  then have res: "reserveSomeSpace rl n ?rs ?re al =
      Inr (i, rl\<lparr>regions := take i (regions rl) @ RegionHolder vm n # drop i (regions rl)\<rparr>)"
    using reserveSomeSpace_eq [of ?re _ ?rs al rl n i] h inv by auto
  have "acceptable (regions rl) ?rs ?re ?al n vm"
    by (rule acceptable_inserted [OF safe(1) _ dv]) (use safe(2) rs'(3) in simp)
  moreover obtain xs ys where "regions rl = xs @ ys" "i = length xs"
    using safe(1) unfolding inserted_def by blast
  ultimately show ?thesis
    using h(2) by (auto simp: attachDynamicRegion_def res nth_append assms(2))
qed

theorem attachDynamic_lowest_witness:
  "\<exists>va rl'. attachDynamicRegion sample_regions 0x1000 9 1 0 = Inr (va, rl') \<and> va \<le> 0x12000"
proof -
  have "used_alignment 0 = 2 ^ 12" by (simp add: used_alignment_def PAGE_SIZE_def)
  moreover have "alignment_fits (regionsAllocStart sample_regions) 0"
    "alignment_fits (regionsEnd sample_regions) 0"
    by (simp_all add: alignment_fits_def used_alignment_def PAGE_SIZE_def is_uval_def
        sample_regions_def)
  moreover have "acceptable (regions sample_regions) (regionsAllocStart sample_regions)
      (regionsEnd sample_regions) (2 ^ 12) 0x1000 0x12000"
    by (simp add: acceptable_def sample_regions_def rh_end_def)
  ultimately show ?thesis
    using attachDynamic_lowest [OF sample_regions_inv, of 0 12 "0x1000" "0x12000" 9 1]
    by (auto simp: PAGE_SIZE_def)
qed

text \<open>
  A successful truncation removes exactly the given address range from what the list
  covers, and it names the region the range was taken from.
\<close>

theorem truncate_uncovers_range:
  assumes "region_inv rl" and "locked_truncate rl start n = Inr (r, rl')" and "start + n < 2 ^ 64"
  shows "covered (regions rl') = covered (regions rl) - {start..<start + n} \<and>
    (\<exists>h\<in>set (regions rl). rh_reg h = r \<and> rh_vaddr h \<le> start \<and> start + n \<le> rh_end h)"
proof -
  note inv = assms(1) [unfolded region_inv_def]
  obtain l' where t: "truncate_loop start n (regions rl) = Inr (r, l')" "rl' = rl\<lparr>regions := l'\<rparr>"
    using assms(2) by (auto simp: locked_truncate_def split: sum.splits)
  from truncate_loop_Inr [OF t(1), of "regionsStart rl" "regionsEnd rl"] inv assms(3)
  obtain xs h ys where l: "regions rl = xs @ h # ys" "rh_reg h = r" "rh_vaddr h \<le> start"
      "start + n \<le> rh_end h" and
    shape: "rh_vaddr h = start \<and> rh_size h = n \<and> l' = xs @ ys \<or>
     rh_vaddr h = start \<and> n < rh_size h \<and>
       l' = xs @ h\<lparr>rh_size := rh_size h - n, rh_vaddr := start + n\<rparr> # ys \<or>
     rh_vaddr h < start \<and> start + n = rh_end h \<and> l' = xs @ h\<lparr>rh_size := rh_size h - n\<rparr> # ys"
    by blast
  have out: "covered xs \<inter> {rh_vaddr h..<rh_end h} = {}" "covered ys \<inter> {rh_vaddr h..<rh_end h} = {}"
    using inv l(1) by (fastforce simp: covered_def)+
  have sub: "{start..<start + n} \<subseteq> {rh_vaddr h..<rh_end h}" using l(3,4) by auto
  have "covered l' = covered xs \<union> covered ys \<union> ({rh_vaddr h..<rh_end h} - {start..<start + n})"
    using shape by (elim disjE conjE) (auto simp: rh_end_def)
  with out sub l t(2) show ?thesis by auto
qed

theorem truncate_uncovers_range_witness:
  "\<exists>r rl'. locked_truncate sample_regions 0x11000 0x1000 = Inr (r, rl') \<and>
     covered (regions rl') = covered (regions sample_regions) - {0x11000..<0x12000}"
proof -
  obtain r rl' where a: "locked_truncate sample_regions 0x11000 0x1000 = Inr (r, rl')"
    by (simp add: locked_truncate_def sample_regions_def uadd_def)
  from truncate_uncovers_range [OF sample_regions_inv a] a show ?thesis by auto
qed

text \<open>
  Rounding the start of the range up to the alignment can wrap around: a request for a region
  at the top of the address space is then granted at address 0, below the lowest address
  the list may use and outside the range asked for.
\<close>

theorem attachWithinRange_wraps_below_start:
  "\<exists>rl'. attachWithinRangeRegion sample_regions (2 ^ 64 - 1) (2 ^ 64 - 1) 0x1000 9 1 0
     = Inr (0, rl') \<and> \<not> region_inv rl' \<and> 0 < regionsStart sample_regions"
proof -
  have "ALIGN_UP (2 ^ 64 - 1) 4096 = 0" "ALIGN_UP (0 :: nat) 4096 = 0"
    using and_mask_nat [of 4094 12] and_mask_nat [of 4095 12]
    by (simp_all add: ALIGN_UP_def uadd_def usub_def and_not_def)
  then show ?thesis
    by (simp add: attachWithinRangeRegion_def reserveSomeSpace_def sample_regions_def
        MIN_PAGE_MASK_def PAGE_SIZE_def DFLT_ALIGNMENT_def usub_def attach_at_def region_inv_def
        attachRegion_def RegionHolder_def)
qed

text \<open>
  An exec keeps exactly the regions marked \<^verbatim>\<open>KeepOnExec\<close>, in their order, and destroys each of
  the others once, in list order.
\<close>

theorem preExec_keeps_marked:
  "regions (snd (preExec rl)) = filter (\<lambda>h. rh_type h AND KeepOnExec \<noteq> 0) (regions rl) \<and>
   fst (preExec rl) = map rh_reg (filter (\<lambda>h. rh_type h AND KeepOnExec = 0) (regions rl)) \<and>
   covered (regions (snd (preExec rl))) \<subseteq> covered (regions rl)"
  by (auto simp: preExec_def pre_exec_loop_eq covered_def)

end
