(* ===== verification/PageAllocator.thy ===== *)
theory PageAllocator
  imports K42_Prelude
begin

text \<open>
  The page allocator for user space: \<^verbatim>\<open>PageAllocatorDefault\<close> of
  \<^verbatim>\<open>lib/libc/alloc/PageAllocatorDefault.H\<close> and \<^verbatim>\<open>PageAllocatorDefault.C\<close>. Free blocks form a
  binary tree ordered by address and, from the root down, by decreasing size. Each
  descriptor has one parent pointer, so the tree of \<^verbatim>\<open>freePages\<close> is a datatype, and a
  \<^verbatim>\<open>freePages **top\<close> is the path from the anchor to the subtree it points to. The spare
  descriptors hang on \<^verbatim>\<open>freeList\<close>; only their number matters. Every operation holds the
  allocator's lock. \<^verbatim>\<open>getMoreMem\<close> of this class always fails.
\<close>

section \<open>Data\<close>

datatype freePages = Null | Node (fp_low: freePages) (fp_start: uval) (fp_size: uval) (fp_high: freePages)
  where "fp_low Null = Null" | "fp_start Null = 0" | "fp_size Null = 0" | "fp_high Null = Null"

datatype dir = Low | High

record page_alloc =
  anchor :: freePages
  freeList :: nat
  available :: uval

text \<open>\<^verbatim>\<open>sizeof(freePages)\<close> is 32: two pointers and two \<^verbatim>\<open>uval\<close>.\<close>

definition descriptors_per_page :: nat where
  "descriptors_per_page = PAGE_SIZE div 32"

fun subtree_at :: "dir list \<Rightarrow> freePages \<Rightarrow> freePages" where
  "subtree_at [] t = t"
| "subtree_at (Low # p) t = subtree_at p (fp_low t)"
| "subtree_at (High # p) t = subtree_at p (fp_high t)"

text \<open>\<^verbatim>\<open>*top = s\<close>.\<close>

fun replace_at :: "dir list \<Rightarrow> freePages \<Rightarrow> freePages \<Rightarrow> freePages" where
  "replace_at [] s t = s"
| "replace_at (d # p) s Null = Null"
| "replace_at (Low # p) s (Node l a m r) = Node (replace_at p s l) a m r"
| "replace_at (High # p) s (Node l a m r) = Node l a m (replace_at p s r)"

section \<open>Tree surgery\<close>

fun merge :: "freePages \<Rightarrow> freePages \<Rightarrow> freePages" where
  "merge Null high = high"
| "merge low Null = low"
| "merge (Node l1 a1 m1 r1) (Node l2 a2 m2 r2) =
     (if m1 > m2 then Node l1 a1 m1 (merge r1 (Node l2 a2 m2 r2))
      else Node (merge (Node l1 a1 m1 r1) l2) a2 m2 r2)"

text \<open>
  The loops \<^verbatim>\<open>findlow\<close> and \<^verbatim>\<open>findhigh\<close> of \<^verbatim>\<open>add\<close>: \<open>split_low\<close> splits the low subtree of a node
  above the new block, \<open>split_high\<close> the high subtree of a node below it. Both return the
  part below and the part above the address.
\<close>

fun split_low :: "uval \<Rightarrow> freePages \<Rightarrow> freePages \<times> freePages"
  and split_high :: "uval \<Rightarrow> freePages \<Rightarrow> freePages \<times> freePages" where
  "split_low s Null = (Null, Null)"
| "split_low s (Node l a m r) =
     (if a > s then (let (lo, hi) = split_low s l in (lo, Node hi a m r))
      else (let (lo, hi) = split_high s r in (Node l a m lo, hi)))"
| "split_high s Null = (Null, Null)"
| "split_high s (Node l a m r) =
     (if a < s then (let (lo, hi) = split_high s r in (Node l a m lo, hi))
      else (let (lo, hi) = split_low s l in (lo, Node hi a m r)))"

fun add :: "freePages \<Rightarrow> uval \<Rightarrow> uval \<Rightarrow> freePages" where
  "add Null s n = Node Null s n Null"
| "add (Node l a m r) s n =
     (if m > n then
        (if a < s then Node l a m (add r s n) else Node (add l s n) a m r)
      else if a < s then (let (lo, hi) = split_high s r in Node (Node l a m lo) s n hi)
      else (let (lo, hi) = split_low s l in Node lo s n (Node hi a m r)))"

section \<open>Descriptors\<close>

definition getFreePagesMemory :: "uval \<Rightarrow> uval \<Rightarrow> uval \<times> uval \<times> uval" where
  "getFreePagesMemory vaddr size' = (vaddr, uadd vaddr PAGE_SIZE, usub size' PAGE_SIZE)"

fun leftmost_path :: "freePages \<Rightarrow> dir list" where
  "leftmost_path Null = []"
| "leftmost_path (Node Null a m r) = []"
| "leftmost_path (Node (Node l b k h) a m r) = Low # leftmost_path (Node l b k h)"

text \<open>
  \<^verbatim>\<open>extendFreeList(vaddr, size)\<close> turns one page into descriptors: a page of the lowest free
  block, or of the caller's block when there is none. It is called with an empty list.
\<close>

definition extendFreeList :: "page_alloc \<Rightarrow> uval \<Rightarrow> uval \<Rightarrow> page_alloc \<times> uval \<times> uval" where
  "extendFreeList pa vaddr size' =
     (let avail = usub (available pa) PAGE_SIZE in
      case anchor pa of
        Null \<Rightarrow>
          (let (l, vaddr', size'') = getFreePagesMemory vaddr size'
           in (pa\<lparr>available := avail, freeList := descriptors_per_page + freeList pa\<rparr>, vaddr', size''))
      | Node _ _ _ _ \<Rightarrow>
          (let tp = leftmost_path (anchor pa);
               cur = subtree_at tp (anchor pa)
           in if fp_size cur = PAGE_SIZE then
                (pa\<lparr>available := avail, anchor := replace_at tp (fp_high cur) (anchor pa),
                    freeList := descriptors_per_page + 1\<rparr>, vaddr, size')
              else
                let start' = uadd (fp_start cur) PAGE_SIZE;
                    csize = usub (fp_size cur) PAGE_SIZE;
                    anchor' = (if fp_high cur \<noteq> Null \<and> fp_size (fp_high cur) > csize
                               then add (replace_at tp (fp_high cur) (anchor pa)) start' csize
                               else replace_at tp (Node (fp_low cur) start' csize (fp_high cur)) (anchor pa))
                in (pa\<lparr>available := avail, anchor := anchor',
                       freeList := descriptors_per_page + freeList pa\<rparr>, vaddr, size')))"

definition init :: "uval \<Rightarrow> uval \<Rightarrow> page_alloc" where
  "init start' size' =
     (let pa0 = \<lparr>anchor = Null, freeList = 0, available = size'\<rparr>;
          (pa1, start'', size'') = extendFreeList pa0 start' size'
      in pa1\<lparr>freeList := freeList pa1 - 1, anchor := Node Null start'' size'' Null\<rparr>)"

section \<open>Allocation\<close>

text \<open>
  \<^verbatim>\<open>allocFromBlock\<close> takes the range out of the block at \<^verbatim>\<open>top\<close>; what is left in front of it and
  after it goes back into the tree.
\<close>

definition allocFromBlock :: "page_alloc \<Rightarrow> dir list \<Rightarrow> uval \<Rightarrow> uval \<Rightarrow> page_alloc" where
  "allocFromBlock pa tp vaddr size' =
     (let cur = subtree_at tp (anchor pa);
          pa1 = pa\<lparr>anchor := replace_at tp (merge (fp_low cur) (fp_high cur)) (anchor pa)\<rparr>;
          extraaddr = (if vaddr > fp_start cur then fp_start cur else 0);
          extrasize = usub vaddr (fp_start cur);
          rest = usub (uadd (fp_start cur) (fp_size cur)) (uadd vaddr size')
      in if rest \<noteq> 0 then
           let pa2 = pa1\<lparr>anchor := add (anchor pa1) (uadd vaddr size') rest\<rparr>
           in if extraaddr \<noteq> 0 then
                let pa3 = pa2\<lparr>freeList := freeList pa2 - 1\<rparr>;
                    (pa4, ea, es) = (if freeList pa3 = 0 then extendFreeList pa3 extraaddr extrasize
                                     else (pa3, extraaddr, extrasize))
                in pa4\<lparr>anchor := add (anchor pa4) ea es\<rparr>
              else pa2
         else if extraaddr \<noteq> 0 then pa1\<lparr>anchor := add (anchor pa1) extraaddr extrasize\<rparr>
         else pa1\<lparr>freeList := freeList pa1 + 1\<rparr>)"

text \<open>
  The search of \<^verbatim>\<open>allocPages\<close>: it returns the address, the subtree that replaces the one
  searched, and the number of descriptors set free.
\<close>

function alloc_walk :: "freePages \<Rightarrow> uval \<Rightarrow> uval \<times> freePages \<times> nat" where
  "alloc_walk cur n =
     (if fp_low cur \<noteq> Null \<and> fp_size (fp_low cur) = fp_size cur then
        alloc_walk (Node (fp_low (fp_low cur)) (fp_start (fp_low cur)) (fp_size (fp_low cur))
                      (Node (fp_high (fp_low cur)) (fp_start cur) (fp_size cur) (fp_high cur))) n
      else if fp_low cur \<noteq> Null \<and> fp_size (fp_low cur) \<ge> n then
        (let (va, sub, k) = alloc_walk (fp_low cur) n
         in (va, Node sub (fp_start cur) (fp_size cur) (fp_high cur), k))
      else if fp_high cur \<noteq> Null \<and> fp_size (fp_high cur) \<ge> n then
        (let (va, sub, k) = alloc_walk (fp_high cur) n
         in (va, Node (fp_low cur) (fp_start cur) (fp_size cur) sub, k))
      else
        (let nxt = merge (fp_low cur) (fp_high cur);
             start' = uadd (fp_start cur) n;
             size' = usub (fp_size cur) n
         in if size' \<noteq> 0 then (fp_start cur, add nxt start' size', 0)
            else (fp_start cur, nxt, 1)))"
  by pat_completeness auto
termination
proof (relation "measures [\<lambda>(t, n). size t, \<lambda>(t, n). size (fp_low t)]", goal_cases)
  case (2 cur n)
  then show ?case by (cases cur; cases "fp_low cur") auto
next
  case (3 cur n)
  then show ?case by (cases cur) auto
next
  case (4 cur n)
  then show ?case by (cases cur) auto
qed simp

declare alloc_walk.simps [simp del]

definition allocPages :: "page_alloc \<Rightarrow> uval \<Rightarrow> sys_error + (uval \<times> page_alloc)" where
  "allocPages pa size0 =
     (let n = PAGE_ROUND_UP size0 in
      if anchor pa = Null \<or> fp_size (anchor pa) < n then Inl (SERROR 1474 0 ENOMEM)
      else
        let (vaddr, anchor', k) = alloc_walk (anchor pa) n
        in Inr (vaddr, pa\<lparr>anchor := anchor', freeList := freeList pa + k,
                          available := usub (available pa) n\<rparr>))"

fun find_block :: "freePages \<Rightarrow> uval \<Rightarrow> uval \<Rightarrow> dir list option" where
  "find_block Null vaddr n = None"
| "find_block (Node l a m r) vaddr n =
     (if a \<le> vaddr \<and> uadd a m > vaddr then
        (if uadd vaddr n \<le> uadd a m then Some [] else None)
      else if a > vaddr then map_option (Cons Low) (find_block l vaddr n)
      else map_option (Cons High) (find_block r vaddr n))"

definition allocPagesAt :: "page_alloc \<Rightarrow> uval \<Rightarrow> uval \<Rightarrow> sys_error + page_alloc" where
  "allocPagesAt pa vaddr n =
     (case find_block (anchor pa) vaddr n of
        Some tp \<Rightarrow> (let pa1 = allocFromBlock pa tp vaddr n
                    in Inr (pa1\<lparr>available := usub (available pa1) n\<rparr>))
      | None \<Rightarrow> Inl (SERROR 1475 0 ENOMEM))"

text \<open>
  The aligned search with its stack of 64 entries. A search state is the current subtree
  with its path, the stack and the path of the block found so far.
\<close>

definition STACK_SIZE :: nat where "STACK_SIZE = 64"

definition aligned_addr :: "uval \<Rightarrow> uval \<Rightarrow> uval \<Rightarrow> uval" where
  "aligned_addr start' align offset =
     uadd (umul (usub (usub (uadd start' align) offset) 1 div align) align) offset"

function aligned_walk ::
  "freePages \<Rightarrow> dir list \<Rightarrow> (freePages \<times> dir list) list \<Rightarrow> dir list option \<Rightarrow> uval \<Rightarrow> uval \<Rightarrow> uval \<Rightarrow> dir list option" where
  "aligned_walk cur tp stack found n align offset =
     (let vaddr = aligned_addr (fp_start cur) align offset;
          found' = (if uadd vaddr n \<le> uadd (fp_start cur) (fp_size cur) then Some tp else found)
      in if cur = Null then found'
         else if fp_size cur < n \<or> fp_low cur = Null \<and> fp_high cur = Null then
           (if found' \<noteq> None then found'
            else (case stack of
                    [] \<Rightarrow> None
                  | (c, p) # st \<Rightarrow> aligned_walk (fp_high c) (p @ [High]) st found' n align offset))
         else if fp_low cur \<noteq> Null then
           (let stack' = (if fp_high cur \<noteq> Null \<and> length stack < STACK_SIZE
                          then (cur, tp) # stack else stack)
            in aligned_walk (fp_low cur) (tp @ [Low]) stack' found' n align offset)
         else aligned_walk (fp_high cur) (tp @ [High]) stack found' n align offset)"
  by pat_completeness auto
termination
proof (relation "measure (\<lambda>(cur, tp, stack, _). 2 * size cur + (\<Sum>(c, p)\<leftarrow>stack. Suc (2 * size (fp_high c))))",
    goal_cases)
  case (2 cur tp stack found n align offset v f c p st)
  then show ?case by (cases cur) auto
next
  case (3 cur tp stack found n align offset v f st)
  then show ?case by (cases cur) auto
next
  case (4 cur tp stack found n align offset v f)
  then show ?case by (cases cur) auto
qed simp

declare aligned_walk.simps [simp del]

definition allocPagesAligned ::
  "page_alloc \<Rightarrow> uval \<Rightarrow> uval \<Rightarrow> uval \<Rightarrow> sys_error + (uval \<times> page_alloc)" where
  "allocPagesAligned pa size0 align offset =
     (let n = PAGE_ROUND_UP size0 in
      if anchor pa = Null then Inl (SERROR 1476 0 ENOMEM)
      else (case aligned_walk (anchor pa) [] [] None n align offset of
              None \<Rightarrow> Inl (SERROR 1476 0 ENOMEM)
            | Some tp \<Rightarrow>
                (let vaddr = aligned_addr (fp_start (subtree_at tp (anchor pa))) align offset;
                     pa1 = allocFromBlock pa tp vaddr n
                 in Inr (vaddr, pa1\<lparr>available := usub (available pa1) n\<rparr>))))"

section \<open>Freeing\<close>

datatype side = After | Before

fun find_adjacent :: "freePages \<Rightarrow> uval \<Rightarrow> uval \<Rightarrow> (dir list \<times> side) option" where
  "find_adjacent Null vaddr n = None"
| "find_adjacent (Node l a m r) vaddr n =
     (if uadd a m = vaddr then Some ([], After)
      else if uadd vaddr n = a then Some ([], Before)
      else if vaddr < a then map_option (apfst (Cons Low)) (find_adjacent l vaddr n)
      else map_option (apfst (Cons High)) (find_adjacent r vaddr n))"

fun rightmost_path :: "freePages \<Rightarrow> dir list" where
  "rightmost_path Null = []"
| "rightmost_path (Node l a m Null) = []"
| "rightmost_path (Node l a m (Node h b k r)) = High # rightmost_path (Node h b k r)"

text \<open>
  A block that ends where the freed range begins grows upwards and may swallow its
  successor; one that begins where the range ends grows downwards and may swallow its
  predecessor. The result is the new node and the number of descriptors set free.
\<close>

definition coalesce_after :: "freePages \<Rightarrow> uval \<Rightarrow> freePages \<times> nat" where
  "coalesce_after cur n =
     (let sz = uadd (fp_size cur) n;
          top1 = leftmost_path (fp_high cur);
          cur1 = subtree_at top1 (fp_high cur)
      in if fp_high cur \<noteq> Null \<and> uadd (fp_start cur) sz = fp_start cur1
         then (Node (fp_low cur) (fp_start cur) (uadd sz (fp_size cur1))
                 (replace_at top1 (fp_high cur1) (fp_high cur)), 1)
         else (Node (fp_low cur) (fp_start cur) sz (fp_high cur), 0))"

definition coalesce_before :: "freePages \<Rightarrow> uval \<Rightarrow> uval \<Rightarrow> freePages \<times> nat" where
  "coalesce_before cur vaddr n =
     (let sz = uadd (fp_size cur) n;
          top1 = rightmost_path (fp_low cur);
          cur1 = subtree_at top1 (fp_low cur)
      in if fp_low cur \<noteq> Null \<and> uadd (fp_start cur1) (fp_size cur1) = vaddr
         then (Node (replace_at top1 (fp_low cur1) (fp_low cur)) (fp_start cur1)
                 (uadd sz (fp_size cur1)) (fp_high cur), 1)
         else (Node (fp_low cur) vaddr sz (fp_high cur), 0))"

definition locked_deallocPages :: "page_alloc \<Rightarrow> uval \<Rightarrow> uval \<Rightarrow> page_alloc" where
  "locked_deallocPages pa vaddr size0 =
     (let n = PAGE_ROUND_UP size0;
          pa0 = pa\<lparr>available := uadd (available pa) n\<rparr>
      in case find_adjacent (anchor pa0) vaddr n of
           Some (tp, sd) \<Rightarrow>
             (let cur = subtree_at tp (anchor pa0);
                  (new, k) = (case sd of After \<Rightarrow> coalesce_after cur n
                                       | Before \<Rightarrow> coalesce_before cur vaddr n);
                  topSize = fp_size (subtree_at (butlast tp) (anchor pa0));
                  anchor' = (if tp \<noteq> [] \<and> fp_size new > topSize
                             then add (replace_at tp (merge (fp_low new) (fp_high new)) (anchor pa0))
                                    (fp_start new) (fp_size new)
                             else replace_at tp new (anchor pa0))
              in pa0\<lparr>anchor := anchor', freeList := freeList pa0 + k\<rparr>)
         | None \<Rightarrow>
             (let pa1 = pa0\<lparr>freeList := freeList pa0 - 1\<rparr>;
                  (pa2, va, n') = (if freeList pa1 = 0 then extendFreeList pa1 vaddr n
                                   else (pa1, vaddr, n))
              in if freeList pa1 = 0 \<and> n' = 0 then pa2
                 else pa2\<lparr>anchor := add (anchor pa2) va n'\<rparr>))"

definition deallocPages :: "page_alloc \<Rightarrow> uval \<Rightarrow> uval \<Rightarrow> page_alloc" where
  "deallocPages = locked_deallocPages"

definition getMemoryFree :: "page_alloc \<Rightarrow> uval" where
  "getMemoryFree pa = available pa"

text \<open>
  The consistency check of \<^verbatim>\<open>sanity\<close>, which walks the tree in address order with a stack:
  \<^const>\<open>None\<close> when it calls \<^verbatim>\<open>sanitybad\<close>, otherwise the free bytes it counted. The stack of the
  code has 900 entries and no bound check; the model's has no bound.
\<close>

definition node_bad :: "freePages \<Rightarrow> uval \<Rightarrow> uval \<Rightarrow> uval \<Rightarrow> bool" where
  "node_bad cur largest notfree notfreesize \<longleftrightarrow>
     fp_start cur = 0 \<or> fp_size cur = 0 \<or>
     (fp_start cur OR fp_size cur) AND (PAGE_SIZE - 1) \<noteq> 0 \<or>
     notfree \<le> fp_start cur \<and> uadd notfree notfreesize > fp_start cur \<or>
     fp_start cur \<le> notfree \<and> uadd (fp_start cur) (fp_size cur) > notfree \<or>
     largest \<ge> fp_start cur \<or>
     fp_low cur \<noteq> Null \<and> (fp_size (fp_low cur) > fp_size cur \<or> fp_start (fp_low cur) > fp_start cur) \<or>
     fp_high cur \<noteq> Null \<and> (fp_size (fp_high cur) > fp_size cur \<or> fp_start (fp_high cur) < fp_start cur)"

function sanity_walk :: "freePages \<Rightarrow> freePages list \<Rightarrow> uval \<Rightarrow> uval \<Rightarrow> uval \<Rightarrow> uval \<Rightarrow> uval option" where
  "sanity_walk Null [] largest avail nf nfs = Some avail"
| "sanity_walk Null (c # stack) largest avail nf nfs =
     (if largest \<ge> fp_start c then None
      else sanity_walk (fp_high c) stack (uadd (fp_start c) (fp_size c)) avail nf nfs)"
| "sanity_walk (Node l a m r) stack largest avail nf nfs =
     (if node_bad (Node l a m r) largest nf nfs then None
      else if l \<noteq> Null then sanity_walk l (Node l a m r # stack) largest (uadd avail m) nf nfs
      else sanity_walk r stack (uadd a m) (uadd avail m) nf nfs)"
  by pat_completeness auto
termination
  by (relation "measure (\<lambda>(cur, stack, _). 2 * size cur + (\<Sum>c\<leftarrow>stack. Suc (2 * size (fp_high c))))") auto

definition sanity :: "page_alloc \<Rightarrow> uval \<Rightarrow> uval \<Rightarrow> bool" where
  "sanity pa notfree notfreesize \<longleftrightarrow>
     sanity_walk (anchor pa) [] 0 0 notfree notfreesize = Some (available pa)"


section \<open>The abstract free list\<close>

text \<open>
  A tree stands for the list of its blocks in address order. The operations on trees are
  operations on that list; the shape of the tree only has to keep the largest block of
  every subtree at its root.
\<close>

type_synonym block = "uval \<times> uval"

primrec inorder :: "freePages \<Rightarrow> block list" where
  "inorder Null = []"
| "inorder (Node l a m r) = inorder l @ (a, m) # inorder r"

primrec heap :: "freePages \<Rightarrow> bool" where
  "heap Null \<longleftrightarrow> True"
| "heap (Node l a m r) \<longleftrightarrow> heap l \<and> heap r \<and> (\<forall>x \<in> set (inorder l @ inorder r). snd x \<le> m)"

definition sep :: "block list \<Rightarrow> bool" where
  "sep = sorted_wrt (\<lambda>x y. fst x + snd x < fst y)"

definition starts_sorted :: "block list \<Rightarrow> bool" where
  "starts_sorted = sorted_wrt (\<lambda>x y. fst x < fst y)"

definition block_ok :: "block \<Rightarrow> bool" where
  "block_ok x \<longleftrightarrow> 0 < fst x \<and> 0 < snd x \<and> PAGE_SIZE dvd fst x \<and> PAGE_SIZE dvd snd x \<and>
     fst x + snd x < 2 ^ 64"

definition total_size :: "block list \<Rightarrow> nat" where
  "total_size xs = (\<Sum>x\<leftarrow>xs. snd x)"

definition range_of :: "block \<Rightarrow> nat set" where
  "range_of x = {fst x ..< fst x + snd x}"

definition bytes_of :: "block list \<Rightarrow> nat set" where
  "bytes_of xs = (\<Union>x \<in> set xs. range_of x)"

text \<open>The memory the allocator has to give, and its well-formedness.\<close>

definition free_mem :: "page_alloc \<Rightarrow> nat set" where
  "free_mem pa = bytes_of (inorder (anchor pa))"

definition blocks_ok :: "block list \<Rightarrow> bool" where
  "blocks_ok xs \<longleftrightarrow> sep xs \<and> (\<forall>x \<in> set xs. block_ok x)"

definition pa_inv :: "page_alloc \<Rightarrow> bool" where
  "pa_inv pa \<longleftrightarrow> heap (anchor pa) \<and> blocks_ok (inorder (anchor pa)) \<and>
     available pa = total_size (inorder (anchor pa)) \<and> 0 < freeList pa"

lemma sep_simps [simp]:
  "sep []" "sep (x # xs) \<longleftrightarrow> (\<forall>y \<in> set xs. fst x + snd x < fst y) \<and> sep xs"
  "sep (xs @ ys) \<longleftrightarrow> sep xs \<and> sep ys \<and> (\<forall>x \<in> set xs. \<forall>y \<in> set ys. fst x + snd x < fst y)"
  by (auto simp: sep_def sorted_wrt_append)

lemma starts_sorted_simps [simp]:
  "starts_sorted []" "starts_sorted (x # xs) \<longleftrightarrow> (\<forall>y \<in> set xs. fst x < fst y) \<and> starts_sorted xs"
  "starts_sorted (xs @ ys) \<longleftrightarrow>
     starts_sorted xs \<and> starts_sorted ys \<and> (\<forall>x \<in> set xs. \<forall>y \<in> set ys. fst x < fst y)"
  by (auto simp: starts_sorted_def sorted_wrt_append)

lemma sep_starts_sorted: "sep xs \<Longrightarrow> starts_sorted xs"
  unfolding sep_def starts_sorted_def by (erule sorted_wrt_mono_rel [rotated]) simp

lemma total_simps [simp]:
  "total_size [] = 0" "total_size (x # xs) = snd x + total_size xs" "total_size (xs @ ys) = total_size xs + total_size ys"
  by (simp_all add: total_size_def)

lemma bytes_of_simps [simp]:
  "bytes_of [] = {}" "bytes_of (x # xs) = range_of x \<union> bytes_of xs"
  "bytes_of (xs @ ys) = bytes_of xs \<union> bytes_of ys"
  by (auto simp: bytes_of_def)

lemma blocks_ok_simps [simp]:
  "blocks_ok []"
  "blocks_ok (x # xs) \<longleftrightarrow> block_ok x \<and> (\<forall>y \<in> set xs. fst x + snd x < fst y) \<and> blocks_ok xs"
  "blocks_ok (xs @ ys) \<longleftrightarrow>
     blocks_ok xs \<and> blocks_ok ys \<and> (\<forall>x \<in> set xs. \<forall>y \<in> set ys. fst x + snd x < fst y)"
  by (auto simp: blocks_ok_def)

lemma total_bound:
  assumes "sep xs" "\<forall>x \<in> set xs. lo \<le> fst x \<and> fst x + snd x \<le> hi"
  shows "total_size xs \<le> hi - lo"
  using assms
proof (induction xs arbitrary: lo)
  case (Cons x xs)
  have "total_size xs \<le> hi - (fst x + snd x)" using Cons.prems by (intro Cons.IH) auto
  with Cons.prems show ?case by auto
qed simp

lemma total_less: "blocks_ok xs \<Longrightarrow> total_size xs < 2 ^ 64"
proof -
  assume ok: "blocks_ok xs"
  then have "total_size xs \<le> (2 ^ 64 - 1) - 0"
    by (intro total_bound) (auto simp: blocks_ok_def block_ok_def)
  then show ?thesis by simp
qed

lemma finite_range_of: "finite (range_of x)"
  by (simp add: range_of_def)

lemma card_range_of: "card (range_of x) = snd x"
  by (simp add: range_of_def)

lemma bytes_of_card:
  assumes "sep xs"
  shows "finite (bytes_of xs)" and "card (bytes_of xs) = total_size xs"
proof -
  show fin: "finite (bytes_of ys)" for ys by (simp add: bytes_of_def range_of_def)
  show "card (bytes_of xs) = total_size xs" using assms
  proof (induction xs)
    case (Cons x xs)
    then have "range_of x \<inter> bytes_of xs = {}" by (fastforce simp: bytes_of_def range_of_def)
    with Cons fin [of xs] show ?case
      by (simp add: card_Un_disjoint card_range_of finite_range_of)
  qed simp
qed

section \<open>Trees as lists\<close>

lemma inorder_merge [simp]: "inorder (merge l h) = inorder l @ inorder h"
  by (induction l h rule: merge.induct) auto

lemma heap_merge [simp]: "heap l \<Longrightarrow> heap h \<Longrightarrow> heap (merge l h)"
proof (induction l h rule: merge.induct)
  case (3 l1 a1 m1 r1 l2 a2 m2 r2)
  then show ?case by (cases "m2 < m1") (auto simp: ball_Un intro: order_trans less_imp_le)
qed auto

lemma split_inorder:
  "inorder t = inorder (fst (split_low s t)) @ inorder (snd (split_low s t))"
  "inorder t = inorder (fst (split_high s t)) @ inorder (snd (split_high s t))"
  by (induction s t and s t rule: split_low_split_high.induct) (auto split: prod.splits)

lemma split_bounds:
  "starts_sorted (inorder t) \<Longrightarrow> \<forall>x \<in> set (inorder t). fst x \<noteq> s \<Longrightarrow>
     (\<forall>x \<in> set (inorder (fst (split_low s t))). fst x < s) \<and>
     (\<forall>x \<in> set (inorder (snd (split_low s t))). s < fst x)"
  "starts_sorted (inorder t) \<Longrightarrow> \<forall>x \<in> set (inorder t). fst x \<noteq> s \<Longrightarrow>
     (\<forall>x \<in> set (inorder (fst (split_high s t))). fst x < s) \<and>
     (\<forall>x \<in> set (inorder (snd (split_high s t))). s < fst x)"
proof (induction s t and s t rule: split_low_split_high.induct)
  case (2 s l a m r)
  then show ?case by (cases "s < a") (auto split: prod.splits)
next
  case (4 s l a m r)
  then show ?case by (cases "a < s") (auto split: prod.splits)
qed auto

lemma split_heap:
  "heap t \<Longrightarrow> heap (fst (split_low s t)) \<and> heap (snd (split_low s t))"
  "heap t \<Longrightarrow> heap (fst (split_high s t)) \<and> heap (snd (split_high s t))"
proof (induction s t and s t rule: split_low_split_high.induct)
  case (2 s l a m r)
  then show ?case using split_inorder(1) [of l s] split_inorder(2) [of r s]
    by (auto split: prod.splits)
next
  case (4 s l a m r)
  then show ?case using split_inorder(1) [of l s] split_inorder(2) [of r s]
    by (auto split: prod.splits)
qed auto


lemma add_inorder:
  assumes "starts_sorted (inorder t)" "\<forall>x \<in> set (inorder t). fst x \<noteq> s"
  shows "\<exists>xs ys. inorder t = xs @ ys \<and> inorder (add t s n) = xs @ (s, n) # ys \<and>
     (\<forall>x \<in> set xs. fst x < s) \<and> (\<forall>y \<in> set ys. s < fst y)"
  using assms
proof (induction t s n rule: add.induct)
  case (2 l a m r s n)
  consider "n < m" "a < s" | "n < m" "\<not> a < s" | "\<not> n < m" "a < s" | "\<not> n < m" "\<not> a < s" by blast
  then show ?case
  proof cases
    case 1
    then obtain xs ys where "inorder r = xs @ ys" "inorder (add r s n) = xs @ (s, n) # ys"
        "\<forall>x \<in> set xs. fst x < s" "\<forall>y \<in> set ys. s < fst y"
      using 2 by auto
    with 1 "2.prems" show ?thesis
      by (intro exI [of _ "inorder l @ (a, m) # xs"] exI [of _ ys]) auto
  next
    case 2
    then obtain xs ys where "inorder l = xs @ ys" "inorder (add l s n) = xs @ (s, n) # ys"
        "\<forall>x \<in> set xs. fst x < s" "\<forall>y \<in> set ys. s < fst y"
      using "2.IH" "2.prems" by auto
    with 2 "2.prems" show ?thesis
      by (intro exI [of _ xs] exI [of _ "ys @ (a, m) # inorder r"]) auto
  next
    case 3
    with "2.prems" split_bounds(2) [of r s] split_inorder(2) [of r s] show ?thesis
      by (intro exI [of _ "inorder l @ (a, m) # inorder (fst (split_high s r))"]
            exI [of _ "inorder (snd (split_high s r))"]) (auto split: prod.splits simp: ball_Un)
  next
    case 4
    with "2.prems" split_bounds(1) [of l s] split_inorder(1) [of l s] show ?thesis
      by (intro exI [of _ "inorder (fst (split_low s l))"]
            exI [of _ "inorder (snd (split_low s l)) @ (a, m) # inorder r"])
         (auto split: prod.splits simp: ball_Un)
  qed
qed simp

lemma add_set: "starts_sorted (inorder t) \<Longrightarrow> \<forall>x \<in> set (inorder t). fst x \<noteq> s \<Longrightarrow>
    set (inorder (add t s n)) = insert (s, n) (set (inorder t))"
  using add_inorder [of t s n] by auto

lemma add_heap:
  assumes "heap t" "starts_sorted (inorder t)" "\<forall>x \<in> set (inorder t). fst x \<noteq> s"
  shows "heap (add t s n)"
  using assms
proof (induction t s n rule: add.induct)
  case (2 l a m r s n)
  consider "n < m" | "\<not> n < m" "a < s" | "\<not> n < m" "\<not> a < s" by blast
  then show ?case
  proof cases
    case 1
    with 2 show ?thesis by (auto simp: add_set)
  next
    case 2
    have "\<forall>x \<in> set (inorder l @ inorder r). snd x \<le> n"
      using 2(1) "2.prems"(1) by (auto intro: order_trans [of _ m n])
    with 2 "2.prems" split_heap(2) [of r s] split_inorder(2) [of r s] show ?thesis
      by (auto split: prod.splits simp: ball_Un)
  next
    case 3
    have "\<forall>x \<in> set (inorder l @ inorder r). snd x \<le> n"
      using 3(1) "2.prems"(1) by (auto intro: order_trans [of _ m n])
    with 3 "2.prems" split_heap(1) [of l s] split_inorder(1) [of l s] show ?thesis
      by (auto split: prod.splits simp: ball_Un)
  qed
qed simp

text \<open>Adding a block that touches no other.\<close>

definition apart :: "block \<Rightarrow> block list \<Rightarrow> bool" where
  "apart x ys \<longleftrightarrow> (\<forall>y \<in> set ys. fst y + snd y < fst x \<or> fst x + snd x < fst y)"

lemma add_block:
  assumes "heap t" "blocks_ok (inorder t)" "block_ok (s, n)" "apart (s, n) (inorder t)"
  shows "heap (add t s n)" "blocks_ok (inorder (add t s n))"
    "total_size (inorder (add t s n)) = total_size (inorder t) + n"
    "bytes_of (inorder (add t s n)) = bytes_of (inorder t) \<union> {s ..< s + n}"
proof -
  have sorted: "starts_sorted (inorder t)" using assms(2) by (simp add: blocks_ok_def sep_starts_sorted)
  have ne: "\<forall>x \<in> set (inorder t). fst x \<noteq> s" using assms(4) by (fastforce simp: apart_def)
  show "heap (add t s n)" by (rule add_heap) fact+
  obtain xs ys where t: "inorder t = xs @ ys" "inorder (add t s n) = xs @ (s, n) # ys"
    and b: "\<forall>x \<in> set xs. fst x < s" "\<forall>y \<in> set ys. s < fst y"
    using add_inorder [OF sorted ne] by blast
  have "\<forall>x \<in> set xs. fst x + snd x < s" "\<forall>y \<in> set ys. s + n < fst y"
    using b assms(4) t(1) by (force simp: apart_def)+
  with assms t show "blocks_ok (inorder (add t s n))" by auto
  show "total_size (inorder (add t s n)) = total_size (inorder t) + n" using t by simp
  show "bytes_of (inorder (add t s n)) = bytes_of (inorder t) \<union> {s ..< s + n}"
    using t by (auto simp: range_of_def)
qed

section \<open>Paths\<close>

lemma subtree_at_Null: "subtree_at p Null = Null"
  by (induction p "Null :: freePages" rule: subtree_at.induct) auto

lemma replace_inorder:
  assumes "subtree_at p t \<noteq> Null"
  shows "\<exists>xs ys. inorder t = xs @ inorder (subtree_at p t) @ ys \<and>
     (\<forall>s. inorder (replace_at p s t) = xs @ inorder s @ ys)"
  using assms
proof (induction p t rule: subtree_at.induct)
  case (2 p t)
  then obtain l a m r where t: "t = Node l a m r"
    by (cases t) (auto simp: subtree_at_Null)
  with 2 obtain xs ys where "inorder l = xs @ inorder (subtree_at p l) @ ys"
      "\<forall>s. inorder (replace_at p s l) = xs @ inorder s @ ys" by auto
  with t show ?case by (intro exI [of _ xs] exI [of _ "ys @ (a, m) # inorder r"]) auto
next
  case (3 p t)
  then obtain l a m r where t: "t = Node l a m r"
    by (cases t) (auto simp: subtree_at_Null)
  with 3 obtain xs ys where "inorder r = xs @ inorder (subtree_at p r) @ ys"
      "\<forall>s. inorder (replace_at p s r) = xs @ inorder s @ ys" by auto
  with t show ?case by (intro exI [of _ "inorder l @ (a, m) # xs"] exI [of _ ys]) auto
qed (auto intro: exI [of _ "[]"])


lemma replace_set:
  assumes "subtree_at p t \<noteq> Null"
  shows "set (inorder (replace_at p s t)) \<subseteq> set (inorder t) \<union> set (inorder s)"
    and "set (inorder (subtree_at p t)) \<subseteq> set (inorder t)"
  using replace_inorder [OF assms] by auto

lemma subtree_heap: "heap t \<Longrightarrow> heap (subtree_at p t)"
proof (induction p t rule: subtree_at.induct)
  case (2 p t) then show ?case by (cases t) auto
next
  case (3 p t) then show ?case by (cases t) auto
qed simp

text \<open>A subtree may be replaced by one with no larger blocks.\<close>

definition dominated :: "freePages \<Rightarrow> freePages \<Rightarrow> bool" where
  "dominated s t \<longleftrightarrow> (\<forall>x \<in> set (inorder s). \<exists>y \<in> set (inorder t). snd x \<le> snd y)"

lemma replace_bound:
  assumes "subtree_at p t \<noteq> Null" "dominated s (subtree_at p t)" "\<forall>x \<in> set (inorder t). snd x \<le> m"
  shows "\<forall>x \<in> set (inorder (replace_at p s t)). snd x \<le> m"
proof
  fix x assume "x \<in> set (inorder (replace_at p s t))"
  then consider "x \<in> set (inorder t)" | "x \<in> set (inorder s)" using replace_set(1) [OF assms(1)] by blast
  then show "snd x \<le> m"
  proof cases
    case 2
    then obtain y where "y \<in> set (inorder t)" "snd x \<le> snd y"
      using assms(2) replace_set(2) [OF assms(1)] unfolding dominated_def by blast
    with assms(3) show ?thesis by (meson le_trans)
  qed (use assms(3) in blast)
qed

lemma replace_heap:
  assumes "heap t" "subtree_at p t \<noteq> Null" "heap s" "dominated s (subtree_at p t)"
  shows "heap (replace_at p s t)"
  using assms
proof (induction p t rule: subtree_at.induct)
  case (2 p t)
  then obtain l a m r where t: "t = Node l a m r"
    by (cases t) (auto simp: subtree_at_Null)
  with 2 replace_bound [of p l s m] show ?case by (auto simp: ball_Un)
next
  case (3 p t)
  then obtain l a m r where t: "t = Node l a m r"
    by (cases t) (auto simp: subtree_at_Null)
  with 3 replace_bound [of p r s m] show ?case by (auto simp: ball_Un)
qed simp

text \<open>A subtree below the root may hold blocks up to the size of its parent.\<close>

lemma replace_heap_parent:
  assumes "heap t" "subtree_at p t \<noteq> Null" "heap s" "p \<noteq> []"
    "\<forall>x \<in> set (inorder s). snd x \<le> fp_size (subtree_at (butlast p) t)"
  shows "heap (replace_at p s t)"
  using assms
proof (induction p arbitrary: t)
  case (Cons d p)
  then obtain l a m r where t: "t = Node l a m r"
    by (cases t) (auto simp: subtree_at_Null)
  let ?c = "case d of Low \<Rightarrow> l | High \<Rightarrow> r"
  have c: "subtree_at p ?c \<noteq> Null" "heap ?c" "\<forall>x \<in> set (inorder ?c). snd x \<le> m"
    using Cons.prems t by (cases d; auto)+
  have "heap (replace_at p s ?c) \<and> (\<forall>x \<in> set (inorder s). snd x \<le> m)"
  proof (cases "p = []")
    case True
    with Cons.prems t show ?thesis by simp
  next
    case False
    let ?q = "subtree_at (butlast p) ?c"
    have par: "\<forall>x \<in> set (inorder s). snd x \<le> fp_size ?q"
      using Cons.prems t False by (cases d) auto
    have "?q \<noteq> Null"
    proof
      assume "?q = Null"
      moreover have "subtree_at (xs @ ys) u = subtree_at ys (subtree_at xs u)" for xs ys u
        by (induction xs u rule: subtree_at.induct) auto
      then have "subtree_at p ?c = subtree_at [last p] ?q"
        using False append_butlast_last_id by metis
      ultimately show False using c(1) by (simp add: subtree_at_Null)
    qed
    then have "(fp_start ?q, fp_size ?q) \<in> set (inorder ?q)" by (cases ?q) auto
    then have "fp_size ?q \<le> m" using replace_set(2) [OF \<open>?q \<noteq> Null\<close>] c(3) by fastforce
    with par Cons.IH [OF c(2,1) Cons.prems(3) False par] show ?thesis by fastforce
  qed
  then show ?case using Cons.prems t c replace_set(1) [OF c(1), of s]
    by (cases d) (auto simp: ball_Un)
qed simp

lemma leftmost:
  assumes "t \<noteq> Null"
  obtains a m r ys where "subtree_at (leftmost_path t) t = Node Null a m r"
    "inorder t = (a, m) # inorder r @ ys"
    "\<And>s. inorder (replace_at (leftmost_path t) s t) = inorder s @ ys"
proof -
  have "\<exists>a m r ys. subtree_at (leftmost_path t) t = Node Null a m r \<and>
      inorder t = (a, m) # inorder r @ ys \<and>
      (\<forall>s. inorder (replace_at (leftmost_path t) s t) = inorder s @ ys)"
    using assms by (induction t rule: leftmost_path.induct) auto
  with that show ?thesis by blast
qed

lemma rightmost:
  assumes "t \<noteq> Null"
  obtains l a m ys where "subtree_at (rightmost_path t) t = Node l a m Null"
    "inorder t = ys @ inorder l @ [(a, m)]"
    "\<And>s. inorder (replace_at (rightmost_path t) s t) = ys @ inorder s"
proof -
  have "\<exists>l a m ys. subtree_at (rightmost_path t) t = Node l a m Null \<and>
      inorder t = ys @ inorder l @ [(a, m)] \<and>
      (\<forall>s. inorder (replace_at (rightmost_path t) s t) = ys @ inorder s)"
    using assms by (induction t rule: rightmost_path.induct) auto
  with that show ?thesis by blast
qed


section \<open>Taking blocks out and putting them back\<close>

definition tree_ok :: "freePages \<Rightarrow> bool" where
  "tree_ok t \<longleftrightarrow> heap t \<and> blocks_ok (inorder t)"

definition tree_mem :: "freePages \<Rightarrow> nat set" where
  "tree_mem t = bytes_of (inorder t)"

lemma tree_mem_card: "tree_ok t \<Longrightarrow> finite (tree_mem t) \<and> card (tree_mem t) = total_size (inorder t)"
  by (simp add: tree_mem_def tree_ok_def blocks_ok_def bytes_of_card)

lemma pa_inv_alt:
  "pa_inv pa \<longleftrightarrow> tree_ok (anchor pa) \<and> available pa = card (free_mem pa) \<and> 0 < freeList pa"
  using tree_mem_card [of "anchor pa"]
  by (auto simp: pa_inv_def tree_ok_def free_mem_def tree_mem_def)

lemma tree_ok_sorted: "tree_ok t \<Longrightarrow> starts_sorted (inorder t)"
  by (simp add: tree_ok_def blocks_ok_def sep_starts_sorted)

lemma apart_sub: "apart (a, m) ys \<Longrightarrow> a \<le> s \<Longrightarrow> s + n \<le> a + m \<Longrightarrow> apart (s, n) ys"
  by (fastforce simp: apart_def)

lemma apart_insert:
  "apart x ys \<Longrightarrow> set zs = insert y (set ys) \<Longrightarrow> fst x + snd x < fst y \<Longrightarrow> apart x zs"
  by (simp add: apart_def)

lemma apart_starts: "apart (s, n) ys \<Longrightarrow> \<forall>y \<in> set ys. fst y \<noteq> s"
  by (fastforce simp: apart_def)

lemma tree_add:
  assumes "tree_ok t" "block_ok (s, n)" "apart (s, n) (inorder t)"
  shows "tree_ok (add t s n)" "tree_mem (add t s n) = tree_mem t \<union> {s ..< s + n}"
    "set (inorder (add t s n)) = insert (s, n) (set (inorder t))"
  using assms add_block [of t s n]
  by (auto simp: tree_ok_def tree_mem_def tree_ok_sorted [OF assms(1)] apart_starts [OF assms(3)] add_set)

lemma tree_remove:
  assumes "tree_ok t" "subtree_at p t = Node l a m r"
  defines "u \<equiv> replace_at p (merge l r) t"
  shows "tree_ok u" "tree_mem u = tree_mem t - {a ..< a + m}" "apart (a, m) (inorder u)"
    "block_ok (a, m)" "{a ..< a + m} \<subseteq> tree_mem t"
proof -
  obtain xs ys where t: "inorder t = xs @ inorder (Node l a m r) @ ys"
    and u: "inorder u = xs @ (inorder l @ inorder r) @ ys"
    using replace_inorder [of p t] assms(2) unfolding u_def by (metis freePages.distinct(1) inorder_merge)
  have "heap (Node l a m r)" using subtree_heap [of t p] assms by (simp add: tree_ok_def)
  then have "heap u" unfolding u_def using assms(1,2)
    by (intro replace_heap) (auto simp: tree_ok_def dominated_def)
  moreover have ok: "blocks_ok (inorder t)" using assms(1) by (simp add: tree_ok_def)
  ultimately show "tree_ok u" using t u by (auto simp: tree_ok_def)
  show ap: "apart (a, m) (inorder u)" using ok t u by (auto simp: apart_def)
  show "block_ok (a, m)" using ok t by simp
  show "{a ..< a + m} \<subseteq> tree_mem t" using t by (auto simp: tree_mem_def range_of_def)
  have "bytes_of (inorder u) \<inter> {a ..< a + m} = {}"
    using ap by (fastforce simp: apart_def bytes_of_def range_of_def)
  then show "tree_mem u = tree_mem t - {a ..< a + m}"
    using t u by (auto simp: tree_mem_def range_of_def)
qed

section \<open>The descriptor page\<close>

fun take_page :: "block list \<Rightarrow> block list" where
  "take_page [] = []"
| "take_page ((a, m) # xs) = (if m = PAGE_SIZE then xs else (a + PAGE_SIZE, m - PAGE_SIZE) # xs)"

lemma PAGE_SIZE_pos [simp]: "0 < PAGE_SIZE"
  by (simp add: PAGE_SIZE_def)

lemma block_ok_page: "block_ok (a, m) \<Longrightarrow> PAGE_SIZE \<le> m"
  by (auto simp: block_ok_def dvd_imp_le)

lemma take_page_ok:
  assumes "blocks_ok ((a, m) # xs)"
  shows "blocks_ok (take_page ((a, m) # xs))"
    "bytes_of (take_page ((a, m) # xs)) = bytes_of ((a, m) # xs) - {a ..< a + PAGE_SIZE}"
    "apart x ((a, m) # xs) \<Longrightarrow> apart x (take_page ((a, m) # xs))"
proof -
  have p: "PAGE_SIZE \<le> m" using assms block_ok_page [of a m] by simp
  show "blocks_ok (take_page ((a, m) # xs))"
    using assms p by (auto simp: block_ok_def dvd_diff_nat)
  have "bytes_of xs \<inter> {a ..< a + PAGE_SIZE} = {}"
    using assms p by (fastforce simp: bytes_of_def range_of_def)
  then show "bytes_of (take_page ((a, m) # xs)) = bytes_of ((a, m) # xs) - {a ..< a + PAGE_SIZE}"
    using p by (auto simp: range_of_def)
  show "apart x ((a, m) # xs) \<Longrightarrow> apart x (take_page ((a, m) # xs))"
    using p by (auto simp: apart_def)
qed

lemma inorder_add_front:
  assumes "starts_sorted (inorder t)" "\<forall>x \<in> set (inorder t). s < fst x"
  shows "inorder (add t s n) = (s, n) # inorder t"
proof -
  obtain xs ys where "inorder t = xs @ ys" "inorder (add t s n) = xs @ (s, n) # ys" "\<forall>x \<in> set xs. fst x < s"
    using add_inorder [OF assms(1), of s n] assms(2) by fastforce
  moreover then have "xs = []" using assms(2) by (cases xs) auto
  ultimately show ?thesis by simp
qed


lemma case_freePages_const: "(case t of Null \<Rightarrow> x | Node _ _ _ _ \<Rightarrow> y) = (if t = Null then x else y)"
  by (cases t) auto

lemma extendFreeList_eq:
  assumes "anchor pa \<noteq> Null" "subtree_at (leftmost_path (anchor pa)) (anchor pa) = Node Null a m r"
    "block_ok (a, m)"
  shows "extendFreeList pa v n =
     (pa\<lparr>available := usub (available pa) PAGE_SIZE,
         anchor := (if m = PAGE_SIZE then replace_at (leftmost_path (anchor pa)) r (anchor pa)
                    else if r \<noteq> Null \<and> m - PAGE_SIZE < fp_size r
                    then add (replace_at (leftmost_path (anchor pa)) r (anchor pa)) (a + PAGE_SIZE) (m - PAGE_SIZE)
                    else replace_at (leftmost_path (anchor pa)) (Node Null (a + PAGE_SIZE) (m - PAGE_SIZE) r)
                           (anchor pa)),
         freeList := descriptors_per_page + (if m = PAGE_SIZE then 1 else freeList pa)\<rparr>, v, n)"
proof -
  have "uadd a PAGE_SIZE = a + PAGE_SIZE" "usub m PAGE_SIZE = m - PAGE_SIZE"
    using assms(3) block_ok_page [of a m] by (auto simp: block_ok_def uval_simps)
  with assms show ?thesis by (simp add: extendFreeList_def Let_def case_freePages_const)
qed

lemma extendFreeList_tree:
  assumes ok: "tree_ok (anchor pa)" and ne: "anchor pa \<noteq> Null"
  obtains pa' where "extendFreeList pa v n = (pa', v, n)" "heap (anchor pa')"
    "inorder (anchor pa') = take_page (inorder (anchor pa))"
    "available pa' = usub (available pa) PAGE_SIZE" "descriptors_per_page \<le> freeList pa'"
proof -
  let ?t = "anchor pa" and ?p = "leftmost_path (anchor pa)"
  obtain a m r ys where sub: "subtree_at ?p ?t = Node Null a m r" and t: "inorder ?t = (a, m) # inorder r @ ys"
    and rep: "\<And>s. inorder (replace_at ?p s ?t) = inorder s @ ys"
    using leftmost [OF ne] by metis
  have blk: "block_ok (a, m)" and b: "\<forall>x \<in> set (inorder r @ ys). a + m < fst x"
    and srt: "starts_sorted (inorder r @ ys)" and h: "heap ?t" and hn: "heap (Node Null a m r)"
    using ok t sub subtree_heap [of ?t ?p] tree_ok_sorted [OF ok]
    by (auto simp: tree_ok_def)
  have pg: "PAGE_SIZE \<le> m" by (rule block_ok_page) fact
  have b2: "\<forall>x \<in> set (inorder r @ ys). a + PAGE_SIZE < fst x"
    using b pg by (auto intro: le_less_trans [of _ "a + m"])
  have h1: "heap (replace_at ?p r ?t)"
    using h hn sub by (intro replace_heap) (auto simp: dominated_def)
  have i1: "inorder (add (replace_at ?p r ?t) (a + PAGE_SIZE) k) = (a + PAGE_SIZE, k) # inorder r @ ys" for k
    using inorder_add_front [of "replace_at ?p r ?t" "a + PAGE_SIZE" k] srt b2 by (simp add: rep)
  have h2: "heap (add (replace_at ?p r ?t) (a + PAGE_SIZE) k)" for k
    using h1 srt b2 by (intro add_heap) (auto simp: rep dest!: bspec)
  have h3: "heap (replace_at ?p (Node Null (a + PAGE_SIZE) (m - PAGE_SIZE) r) ?t)"
    if "\<not> (r \<noteq> Null \<and> m - PAGE_SIZE < fp_size r)"
  proof -
    have "\<forall>x \<in> set (inorder r). snd x \<le> m - PAGE_SIZE"
      using that hn by (cases r) (auto intro: order_trans)
    then show ?thesis using h hn sub by (intro replace_heap) (auto simp: dominated_def)
  qed
  show ?thesis
    by (rule that [OF extendFreeList_eq [OF ne sub blk]]) (use h1 h2 h3 t in \<open>auto simp: i1 rep\<close>)
qed

lemma extendFreeList_ok:
  assumes "tree_ok (anchor pa)" "anchor pa \<noteq> Null"
  obtains pa' d where "extendFreeList pa v n = (pa', v, n)" "tree_ok (anchor pa')"
    "tree_mem (anchor pa') = tree_mem (anchor pa) - {d ..< d + PAGE_SIZE}"
    "{d ..< d + PAGE_SIZE} \<subseteq> tree_mem (anchor pa)" "PAGE_SIZE dvd d"
    "\<And>x. apart x (inorder (anchor pa)) \<Longrightarrow> apart x (inorder (anchor pa'))"
    "available pa' = usub (available pa) PAGE_SIZE" "0 < freeList pa'"
proof -
  obtain pa' where e: "extendFreeList pa v n = (pa', v, n)" "heap (anchor pa')"
    "inorder (anchor pa') = take_page (inorder (anchor pa))"
    "available pa' = usub (available pa) PAGE_SIZE" "descriptors_per_page \<le> freeList pa'"
    using extendFreeList_tree [OF assms] by blast
  obtain a m xs where t: "inorder (anchor pa) = (a, m) # xs"
    using assms(2) by (cases "inorder (anchor pa)") (auto, cases "anchor pa", auto)
  have ok: "blocks_ok ((a, m) # xs)" using assms(1) t by (simp add: tree_ok_def)
  then have "PAGE_SIZE dvd a" "PAGE_SIZE \<le> m" using block_ok_page [of a m] by (auto simp: block_ok_def)
  moreover have "0 < freeList pa'" using e(5) by (simp add: descriptors_per_page_def PAGE_SIZE_def)
  moreover have "{a ..< a + PAGE_SIZE} \<subseteq> range_of (a, m)"
    using \<open>PAGE_SIZE \<le> m\<close> by (auto simp: range_of_def)
  ultimately show ?thesis using that [of pa' a] e t take_page_ok [OF ok]
    by (auto simp: tree_ok_def tree_mem_def simp del: take_page.simps)
qed


section \<open>Allocation from a block\<close>

text \<open>
  An operation may spend one free page on descriptors, and only when the last spare
  descriptor is used up.
\<close>

definition descriptor_page :: "page_alloc \<Rightarrow> nat set \<Rightarrow> nat set \<Rightarrow> bool" where
  "descriptor_page pa S D \<longleftrightarrow> D = {} \<or>
     freeList pa = 1 \<and> D \<subseteq> S \<and> (\<exists>d. PAGE_SIZE dvd d \<and> D = {d ..< d + PAGE_SIZE})"

lemma descriptor_page_card: "descriptor_page pa S D \<Longrightarrow> D \<subseteq> S \<and> finite D \<and> (card D = 0 \<or> card D = PAGE_SIZE)"
  by (auto simp: descriptor_page_def)

lemma descriptor_page_empty: "descriptor_page pa S {}"
  by (simp add: descriptor_page_def)

lemma descriptor_page_one:
  "freeList pa = 1 \<Longrightarrow> {d ..< d + PAGE_SIZE} \<subseteq> S \<Longrightarrow> PAGE_SIZE dvd d \<Longrightarrow> descriptor_page pa S {d ..< d + PAGE_SIZE}"
  by (auto simp: descriptor_page_def)

lemma block_ok_split:
  assumes "block_ok (a, m)" "PAGE_SIZE dvd v" "PAGE_SIZE dvd n" "a \<le> v" "v + n \<le> a + m"
  shows "v + n < a + m \<Longrightarrow> block_ok (v + n, a + m - (v + n))" "a < v \<Longrightarrow> block_ok (a, v - a)"
  using assms by (auto simp: block_ok_def dvd_diff_nat)

lemma allocFromBlock_eq:
  assumes "subtree_at p (anchor pa) = Node l a m r" "block_ok (a, m)" "a \<le> v" "v + n \<le> a + m"
  defines "u \<equiv> replace_at p (merge l r) (anchor pa)"
  shows "allocFromBlock pa p v n =
     (if v + n < a + m then
        if a < v then
          let pa3 = pa\<lparr>anchor := add u (v + n) (a + m - (v + n)), freeList := freeList pa - 1\<rparr>;
              (pa4, ea, es) = (if freeList pa3 = 0 then extendFreeList pa3 a (v - a) else (pa3, a, v - a))
          in pa4\<lparr>anchor := add (anchor pa4) ea es\<rparr>
        else pa\<lparr>anchor := add u (v + n) (a + m - (v + n))\<rparr>
      else if a < v then pa\<lparr>anchor := add u a (v - a)\<rparr>
      else pa\<lparr>anchor := u, freeList := freeList pa + 1\<rparr>)"
proof -
  have "uadd v n = v + n" "uadd a m = a + m" "a < v \<Longrightarrow> usub v a = v - a"
      "usub (a + m) (v + n) = a + m - (v + n)" "a \<noteq> 0"
    using assms(2-4) by (auto simp: block_ok_def uval_simps)
  with assms(1,3,4) show ?thesis by (auto simp: allocFromBlock_def Let_def u_def)
qed

lemma cut_range:
  assumes "{a ..< b} \<subseteq> S" "a \<le> v" "w \<le> (b :: nat)"
  shows "S - {a ..< b} \<union> {w ..< b} \<union> {a ..< v} = S - {v ..< w} \<or> w < v"
  using assms by (auto simp: subset_iff)

text \<open>What \<^verbatim>\<open>allocFromBlock\<close> leaves: the range is gone, and perhaps a page for descriptors.\<close>

definition took :: "page_alloc \<Rightarrow> nat set \<Rightarrow> page_alloc \<Rightarrow> bool" where
  "took pa R pa' \<longleftrightarrow> tree_ok (anchor pa') \<and> 0 < freeList pa' \<and>
     (\<exists>D. descriptor_page pa (free_mem pa - R) D \<and> free_mem pa' = free_mem pa - R - D \<and>
          available pa' = (if D = {} then available pa else usub (available pa) PAGE_SIZE))"

lemma tookI_plain:
  "tree_ok t \<Longrightarrow> 0 < freeList pa' \<Longrightarrow> anchor pa' = t \<Longrightarrow> tree_mem t = free_mem pa - R \<Longrightarrow>
    available pa' = available pa \<Longrightarrow> took pa R pa'"
  unfolding took_def using descriptor_page_empty [of pa "free_mem pa - R"]
  by (auto intro!: exI [of _ "{}"] simp: free_mem_def tree_mem_def)

lemma allocFromBlock_middle:
  assumes w: "tree_ok w" "w \<noteq> Null" and blk: "block_ok (a, k)" and ap: "apart (a, k) (inorder w)"
    and one: "freeList pa = 1" and mem: "tree_mem w \<union> {a ..< a + k} = free_mem pa - R"
    and ext: "extendFreeList (pa\<lparr>anchor := w, freeList := freeList pa - 1\<rparr>) a k = (pa4, ea, es)"
  shows "took pa R (pa4\<lparr>anchor := add (anchor pa4) ea es\<rparr>)"
proof -
  let ?pa3 = "pa\<lparr>anchor := w, freeList := freeList pa - 1\<rparr>"
  obtain d where e: "ea = a" "es = k" "tree_ok (anchor pa4)"
      "tree_mem (anchor pa4) = tree_mem w - {d ..< d + PAGE_SIZE}"
      "{d ..< d + PAGE_SIZE} \<subseteq> tree_mem w" "PAGE_SIZE dvd d" "apart (a, k) (inorder (anchor pa4))"
      "available pa4 = usub (available pa) PAGE_SIZE" "0 < freeList pa4"
    by (rule extendFreeList_ok [of ?pa3 a k]) (use w ap ext in auto)
  note x = tree_add [OF e(3) blk e(7)]
  have "tree_mem w \<inter> {a ..< a + k} = {}"
    using ap by (fastforce simp: apart_def tree_mem_def bytes_of_def range_of_def)
  then have m: "free_mem (pa4\<lparr>anchor := add (anchor pa4) a k\<rparr>) = free_mem pa - R - {d ..< d + PAGE_SIZE}"
    using x(2) e(4,5) mem by (auto simp: free_mem_def tree_mem_def)
  have "{d ..< d + PAGE_SIZE} \<subseteq> free_mem pa - R" using e(5) mem by blast
  from descriptor_page_one [OF one this e(6)] m x(1) e show ?thesis
    unfolding took_def by (intro conjI exI [of _ "{d ..< d + PAGE_SIZE}"]) auto
qed

lemma allocFromBlock_ok:
  assumes ok: "tree_ok (anchor pa)" and fl: "0 < freeList pa" and sub: "subtree_at p (anchor pa) = Node l a m r"
    and rng: "a \<le> v" "v + n \<le> a + m" "0 < n" "PAGE_SIZE dvd v" "PAGE_SIZE dvd n"
  shows "took pa {v ..< v + n} (allocFromBlock pa p v n)"
proof -
  define u where "u = replace_at p (merge l r) (anchor pa)"
  note rem = tree_remove [OF ok sub, folded u_def]
  note eq = allocFromBlock_eq [OF sub rem(4) rng(1,2), folded u_def]
  note bs = block_ok_split [OF rem(4) rng(4,5,1,2)]
  let ?b = "a + m - (v + n)"
  have mem: "tree_mem u \<union> {v + n ..< a + m} \<union> {a ..< v} = free_mem pa - {v ..< v + n}"
    using cut_range [OF rem(5) rng(1,2)] rem(2) rng(3) by (simp add: free_mem_def tree_mem_def)
  consider "v + n < a + m" "a < v" | "v + n < a + m" "a = v" | "v + n = a + m" "a < v" | "v + n = a + m" "a = v"
    using rng by linarith
  then show ?thesis
  proof cases
    case 1
    have ap: "apart (v + n, ?b) (inorder u)" using rng by (intro apart_sub [OF rem(3)]) simp_all
    note w = tree_add [OF rem(1) bs(1) [OF 1(1)] ap]
    have ap2: "apart (a, v - a) (inorder (add u (v + n) ?b))"
      by (rule apart_insert [OF apart_sub [OF rem(3), of a "v - a"] w(3)]) (use 1 rng in simp_all)
    note x = tree_add [OF w(1) bs(2) [OF 1(2)] ap2]
    have m1: "tree_mem (add u (v + n) ?b) \<union> {a ..< a + (v - a)} = free_mem pa - {v ..< v + n}"
      using w(2) mem 1 by simp
    show ?thesis
    proof (cases "freeList pa = 1")
      case True
      have ne: "add u (v + n) ?b \<noteq> Null" using w(3) by auto
      show ?thesis unfolding eq using 1 True allocFromBlock_middle [OF w(1) ne bs(2) [OF 1(2)] ap2 True m1]
        by (auto simp: Let_def split: prod.splits)
    next
      case False
      then show ?thesis unfolding eq using 1 x(1,2) m1 fl
        by (auto simp: Let_def intro!: tookI_plain)
    qed
  next
    case 2
    have "apart (v + n, ?b) (inorder u)" using rng by (intro apart_sub [OF rem(3)]) simp_all
    note w = tree_add [OF rem(1) bs(1) [OF 2(1)] this]
    show ?thesis unfolding eq using 2 w(1,2) mem fl by (auto intro!: tookI_plain)
  next
    case 3
    have "apart (a, v - a) (inorder u)" using rng by (intro apart_sub [OF rem(3)]) simp_all
    note w = tree_add [OF rem(1) bs(2) [OF 3(2)] this]
    show ?thesis unfolding eq using 3 w(1,2) mem fl by (auto intro!: tookI_plain)
  next
    case 4
    then show ?thesis unfolding eq using rem(1,2) mem fl by (auto intro!: tookI_plain)
  qed
qed


section \<open>The searches\<close>

definition allocated :: "page_alloc \<Rightarrow> nat set \<Rightarrow> page_alloc \<Rightarrow> bool" where
  "allocated pa R pa' \<longleftrightarrow> R \<subseteq> free_mem pa \<and> pa_inv pa' \<and>
     (\<exists>D. descriptor_page pa (free_mem pa - R) D \<and> free_mem pa' = free_mem pa - R - D)"

lemma free_mem_finite: "finite (free_mem pa)"
  by (simp add: free_mem_def bytes_of_def finite_range_of)

lemma pa_inv_available: "pa_inv pa \<Longrightarrow> available pa < 2 ^ 64"
  unfolding pa_inv_def using total_less by simp

lemma took_allocated:
  assumes inv: "pa_inv pa" and took: "took pa {v ..< v + n} pa'" and R: "{v ..< v + n} \<subseteq> free_mem pa"
  shows "allocated pa {v ..< v + n} (pa'\<lparr>available := usub (available pa') n\<rparr>)"
proof -
  let ?R = "{v ..< v + n}"
  from took obtain D where D: "descriptor_page pa (free_mem pa - ?R) D" "free_mem pa' = free_mem pa - ?R - D"
    "available pa' = (if D = {} then available pa else usub (available pa) PAGE_SIZE)"
    and ok: "tree_ok (anchor pa')" "0 < freeList pa'"
    unfolding took_def by blast
  have DS: "D \<subseteq> free_mem pa - ?R" "finite D" "D \<noteq> {} \<longrightarrow> card D = PAGE_SIZE"
    using D(1) by (auto simp: descriptor_page_def)
  have c: "card (free_mem pa - ?R - D) = card (free_mem pa) - n - card D"
    using DS R by (simp add: card_Diff_subset free_mem_finite)
  have le: "n + card D \<le> card (free_mem pa)"
  proof -
    have "card (?R \<union> D) \<le> card (free_mem pa)"
      using DS R by (intro card_mono) (auto simp: free_mem_finite)
    moreover have "card (?R \<union> D) = n + card D" using DS by (subst card_Un_disjoint) auto
    ultimately show ?thesis by simp
  qed
  have av: "available pa = card (free_mem pa)" "available pa < 2 ^ 64"
    using inv pa_inv_available by (auto simp: pa_inv_alt)
  have "available pa' = card (free_mem pa) - card D"
    using D(3) DS(3) le av by (auto simp: uval_simps)
  then have "usub (available pa') n = card (free_mem pa')"
    using c le av D(2) by (simp add: uval_simps)
  with ok D R show ?thesis by (auto simp: allocated_def pa_inv_alt free_mem_def)
qed

lemma blocks_apart:
  assumes "blocks_ok xs" "x \<in> set xs" "y \<in> set xs" "x \<noteq> y"
  shows "fst x + snd x < fst y \<or> fst y + snd y < fst x"
  using assms by (induction xs) auto

lemma bytes_of_in_block:
  assumes "blocks_ok xs" "{v ..< v + n} \<subseteq> bytes_of xs" "0 < n"
  shows "\<exists>x \<in> set xs. fst x \<le> v \<and> v + n \<le> fst x + snd x"
proof -
  have "v \<in> bytes_of xs" using assms by auto
  then obtain x where x: "x \<in> set xs" "fst x \<le> v" "v < fst x + snd x"
    by (auto simp: bytes_of_def range_of_def)
  have "v + n \<le> fst x + snd x"
  proof (rule ccontr)
    assume "\<not> ?thesis"
    then have "fst x + snd x \<in> bytes_of xs" using assms(2) x by auto
    then obtain y where "y \<in> set xs" "fst y \<le> fst x + snd x" "fst x + snd x < fst y + snd y"
      by (auto simp: bytes_of_def range_of_def)
    moreover then have "y \<noteq> x" by auto
    ultimately show False using blocks_apart [OF assms(1) x(1)] by fastforce
  qed
  with x show ?thesis by blast
qed

lemma find_block_Some:
  assumes "find_block t v n = Some p" "blocks_ok (inorder t)" "v + n < 2 ^ 64"
  shows "\<exists>l a m r. subtree_at p t = Node l a m r \<and> a \<le> v \<and> v + n \<le> a + m"
  using assms
proof (induction t arbitrary: p)
  case (Node l a m r)
  have "uadd a m = a + m" "uadd v n = v + n"
    using Node.prems by (auto simp: block_ok_def uval_simps)
  with Node show ?case by (auto split: if_splits)
qed simp

lemma find_block_complete:
  assumes "x \<in> set (inorder t)" "fst x \<le> v" "v + n \<le> fst x + snd x" "0 < n" "blocks_ok (inorder t)"
  shows "find_block t v n \<noteq> None"
  using assms
proof (induction t)
  case (Node l a m r)
  have "fst x + snd x < 2 ^ 64" using Node.prems(1,5) by (auto simp: blocks_ok_def block_ok_def)
  then have nw: "uadd a m = a + m" "uadd v n = v + n"
    using Node.prems(3,5) by (auto simp: block_ok_def uval_simps)
  consider "x \<in> set (inorder l)" | "x = (a, m)" | "x \<in> set (inorder r)" using Node.prems by auto
  then show ?case
  proof cases
    case 1
    then have "v < a" using Node.prems by fastforce
    with 1 Node nw show ?thesis by auto
  next
    case 2
    with Node.prems nw show ?thesis by auto
  next
    case 3
    then have "a + m < v" using Node.prems by fastforce
    with 3 Node nw show ?thesis by auto
  qed
qed simp

lemma allocPagesAt_ok:
  assumes inv: "pa_inv pa" and a: "PAGE_SIZE dvd v" "PAGE_SIZE dvd n" "0 < n" "v + n < 2 ^ 64"
  shows "case allocPagesAt pa v n of
           Inr pa' \<Rightarrow> allocated pa {v ..< v + n} pa'
         | Inl e \<Rightarrow> e = SERROR 1475 0 ENOMEM \<and> \<not> {v ..< v + n} \<subseteq> free_mem pa"
proof -
  have ok: "tree_ok (anchor pa)" "0 < freeList pa" and b: "blocks_ok (inorder (anchor pa))"
    using inv by (auto simp: pa_inv_alt tree_ok_def)
  show ?thesis
  proof (cases "find_block (anchor pa) v n")
    case None
    then have "\<not> {v ..< v + n} \<subseteq> free_mem pa"
      using bytes_of_in_block [OF b _ a(3)] find_block_complete [of _ "anchor pa" v n] a(3) b
      unfolding free_mem_def by blast
    with None show ?thesis by (simp add: allocPagesAt_def)
  next
    case (Some p)
    then obtain l c m r where s: "subtree_at p (anchor pa) = Node l c m r" "c \<le> v" "v + n \<le> c + m"
      using find_block_Some b a(4) by blast
    have "{v ..< v + n} \<subseteq> free_mem pa"
      using tree_remove(5) [OF ok(1) s(1)] s by (auto simp: free_mem_def tree_mem_def)
    with Some took_allocated [OF inv allocFromBlock_ok [OF ok s a(3,1,2)]] show ?thesis
      by (simp add: allocPagesAt_def Let_def)
  qed
qed


text \<open>Every block of the one tree lies inside a block of the other.\<close>

definition inside :: "freePages \<Rightarrow> freePages \<Rightarrow> bool" where
  "inside s t \<longleftrightarrow>
     (\<forall>y \<in> set (inorder s). \<exists>z \<in> set (inorder t). fst z \<le> fst y \<and> fst y + snd y \<le> fst z + snd z)"

lemma inside_bound:
  assumes "inside s t" "\<forall>x \<in> set (inorder t). snd x \<le> m"
  shows "\<forall>x \<in> set (inorder s). snd x \<le> m"
proof
  fix y assume "y \<in> set (inorder s)"
  with assms(1) obtain z where "z \<in> set (inorder t)" "fst z \<le> fst y" "fst y + snd y \<le> fst z + snd z"
    unfolding inside_def by blast
  with assms(2) show "snd y \<le> m" by fastforce
qed

lemma inside_low:
  assumes "tree_ok (Node l a m r)" "tree_ok s" "inside s l" "R \<subseteq> tree_mem l" "tree_mem s = tree_mem l - R"
  shows "tree_ok (Node s a m r)" "inside (Node s a m r) (Node l a m r)"
    "R \<subseteq> tree_mem (Node l a m r)" "tree_mem (Node s a m r) = tree_mem (Node l a m r) - R"
proof -
  have sep: "\<forall>y \<in> set (inorder s). fst y + snd y < a \<and> (\<forall>z \<in> set (inorder r). fst y + snd y < fst z)"
    using assms(1,3) unfolding inside_def tree_ok_def by (fastforce dest: bspec)
  have siz: "\<forall>y \<in> set (inorder s). snd y \<le> m"
    using assms(1) by (intro inside_bound [OF assms(3)]) (simp add: tree_ok_def)
  show "tree_ok (Node s a m r)" using assms(1,2) sep siz by (auto simp: tree_ok_def ball_Un)
  show "inside (Node s a m r) (Node l a m r)" using assms(3) by (auto simp: inside_def ball_Un bex_Un)
  show "R \<subseteq> tree_mem (Node l a m r)" using assms(4) by (auto simp: tree_mem_def)
  have "tree_mem l \<inter> (range_of (a, m) \<union> bytes_of (inorder r)) = {}"
    using assms(1) by (fastforce simp: tree_mem_def tree_ok_def bytes_of_def range_of_def)
  then show "tree_mem (Node s a m r) = tree_mem (Node l a m r) - R"
    using assms(4,5) by (auto simp: tree_mem_def)
qed

lemma inside_high:
  assumes "tree_ok (Node l a m r)" "tree_ok s" "inside s r" "R \<subseteq> tree_mem r" "tree_mem s = tree_mem r - R"
  shows "tree_ok (Node l a m s)" "inside (Node l a m s) (Node l a m r)"
    "R \<subseteq> tree_mem (Node l a m r)" "tree_mem (Node l a m s) = tree_mem (Node l a m r) - R"
proof -
  have sep: "\<forall>y \<in> set (inorder s). a + m < fst y \<and> (\<forall>z \<in> set (inorder l). fst z + snd z < fst y)"
    using assms(1,3) unfolding inside_def tree_ok_def by (fastforce dest: bspec)
  have siz: "\<forall>y \<in> set (inorder s). snd y \<le> m"
    using assms(1) by (intro inside_bound [OF assms(3)]) (simp add: tree_ok_def)
  show "tree_ok (Node l a m s)" using assms(1,2) sep siz by (auto simp: tree_ok_def ball_Un)
  show "inside (Node l a m s) (Node l a m r)" using assms(3) by (auto simp: inside_def ball_Un bex_Un)
  show "R \<subseteq> tree_mem (Node l a m r)" using assms(4) by (auto simp: tree_mem_def)
  have "tree_mem r \<inter> (range_of (a, m) \<union> bytes_of (inorder l)) = {}"
    using assms(1) by (fastforce simp: tree_mem_def tree_ok_def bytes_of_def range_of_def)
  then show "tree_mem (Node l a m s) = tree_mem (Node l a m r) - R"
    using assms(4,5) by (auto simp: tree_mem_def)
qed

lemma alloc_here:
  assumes "tree_ok (Node l a m r)" "n \<le> m" "PAGE_SIZE dvd n"
  defines "s \<equiv> if m - n \<noteq> 0 then add (merge l r) (a + n) (m - n) else merge l r"
  shows "tree_ok s" "inside s (Node l a m r)" "{a ..< a + n} \<subseteq> tree_mem (Node l a m r)"
    "tree_mem s = tree_mem (Node l a m r) - {a ..< a + n}"
proof -
  have "subtree_at [] (Node l a m r) = Node l a m r" by simp
  note rem = tree_remove [OF assms(1) this, simplified]
  have ap: "apart (a + n, m - n) (inorder (merge l r))"
    using apart_sub [OF rem(3), of "a + n" "m - n"] assms(2) by simp
  have blk: "m - n \<noteq> 0 \<Longrightarrow> block_ok (a + n, m - n)" using rem(4) assms(2,3) by (auto simp: block_ok_def)
  note ad = tree_add [OF rem(1) blk ap]
  show "tree_ok s" using rem(1) ad(1) by (auto simp: s_def)
  show "inside s (Node l a m r)" using ad(3) assms(2)
    by (auto simp: s_def inside_def ball_Un bex_Un)
  show sub: "{a ..< a + n} \<subseteq> tree_mem (Node l a m r)" using rem(5) assms(2) by auto
  show "tree_mem s = tree_mem (Node l a m r) - {a ..< a + n}"
    using cut_range [OF rem(5), of a "a + n"] assms(2) rem(2) ad(2) by (auto simp: s_def)
qed


lemma tree_ok_children: "tree_ok (Node l a m r) \<Longrightarrow> tree_ok l \<and> tree_ok r \<and> block_ok (a, m)"
  by (simp add: tree_ok_def)

lemma reroot:
  assumes "tree_ok (Node (Node ll b k lh) a m r)" "k = m"
  shows "tree_ok (Node ll b k (Node lh a m r))"
    "inorder (Node ll b k (Node lh a m r)) = inorder (Node (Node ll b k lh) a m r)"
  using assms by (auto simp: tree_ok_def)

lemma alloc_walk_ok:
  assumes "alloc_walk t n = (v, s, k)" "tree_ok t" "t \<noteq> Null" "n \<le> fp_size t" "PAGE_SIZE dvd n"
  shows "tree_ok s \<and> inside s t \<and> {v ..< v + n} \<subseteq> tree_mem t \<and> tree_mem s = tree_mem t - {v ..< v + n} \<and>
    v \<in> fst ` set (inorder t)"
  using assms
proof (induction t n arbitrary: v s k rule: alloc_walk.induct)
  case (1 cur n)
  obtain l a m r where cur: "cur = Node l a m r" using 1(6) by (cases cur) auto
  have ch: "tree_ok l" "tree_ok r" "block_ok (a, m)" using tree_ok_children [of l a m r] 1(5) cur by simp_all
  consider (rr) "l \<noteq> Null" "fp_size l = m" | (low) "l \<noteq> Null" "fp_size l \<noteq> m" "n \<le> fp_size l"
    | (high) "l = Null \<or> fp_size l \<noteq> m \<and> \<not> n \<le> fp_size l" "r \<noteq> Null" "n \<le> fp_size r"
    | (here) "l = Null \<or> fp_size l \<noteq> m \<and> \<not> n \<le> fp_size l" "r = Null \<or> \<not> n \<le> fp_size r"
    by blast
  then show ?case
  proof cases
    case rr
    then obtain ll b lh where l: "l = Node ll b m lh" by (cases l) auto
    note rt = reroot [of ll b m lh a m r]
    have w: "alloc_walk (Node ll b m (Node lh a m r)) n = (v, s, k)"
      using 1(4) cur l by (subst (asm) alloc_walk.simps) simp
    from 1(1) [of v s k] w rt 1(5,7,8) cur l show ?thesis
      by (simp add: inside_def tree_mem_def)
  next
    case low
    obtain v' s' k' where w: "alloc_walk l n = (v', s', k')" by (metis prod_cases3)
    have e: "v = v'" "s = Node s' a m r"
      using 1(4) cur low w by (auto simp: alloc_walk.simps [of "Node l a m r"])
    have ih: "tree_ok s'" "inside s' l" "{v ..< v + n} \<subseteq> tree_mem l" "tree_mem s' = tree_mem l - {v ..< v + n}"
      "v \<in> fst ` set (inorder l)"
      using 1(2) [of v' s' k'] w low cur ch 1(8) e by auto
    with inside_low [OF 1(5) [unfolded cur] ih(1-4)] show ?thesis using cur e by auto
  next
    case high
    obtain v' s' k' where w: "alloc_walk r n = (v', s', k')" by (metis prod_cases3)
    have e: "v = v'" "s = Node l a m s'"
      using 1(4) cur high w by (auto simp: alloc_walk.simps [of "Node l a m r"])
    have ih: "tree_ok s'" "inside s' r" "{v ..< v + n} \<subseteq> tree_mem r" "tree_mem s' = tree_mem r - {v ..< v + n}"
      "v \<in> fst ` set (inorder r)"
      using 1(3) [of v' s' k'] w high cur ch 1(8) e by auto
    with inside_high [OF 1(5) [unfolded cur] ih(1-4)] show ?thesis using cur e by auto
  next
    case here
    have "uadd a n = a + n" "usub m n = m - n"
      using ch(3) 1(7) cur by (auto simp: block_ok_def uval_simps)
    then have "v = a" "s = (if m - n \<noteq> 0 then add (merge l r) (a + n) (m - n) else merge l r)"
      using 1(4) cur here by (auto simp: alloc_walk.simps [of "Node l a m r"] Let_def split: if_splits)
    with alloc_here [of l a m r n] 1(5,7,8) cur show ?thesis by auto
  qed
qed


lemma root_largest:
  assumes "tree_ok t" "{w ..< w + n} \<subseteq> tree_mem t" "0 < n"
  shows "t \<noteq> Null \<and> n \<le> fp_size t"
proof -
  obtain x where x: "x \<in> set (inorder t)" "fst x \<le> w" "w + n \<le> fst x + snd x"
    using bytes_of_in_block [of "inorder t" w n] assms by (auto simp: tree_ok_def tree_mem_def)
  then obtain l a m r where t: "t = Node l a m r" by (cases t) auto
  then have "snd x \<le> m" using assms(1) x(1) by (auto simp: tree_ok_def)
  with t x show ?thesis by simp
qed

lemma PAGE_ROUND_UP_dvd: "x + PAGE_SIZE \<le> 2 ^ 64 \<Longrightarrow> PAGE_SIZE dvd PAGE_ROUND_UP x"
  by (simp add: PAGE_ROUND_UP_eq)

lemma PAGE_ROUND_UP_ge: "x + PAGE_SIZE \<le> 2 ^ 64 \<Longrightarrow> x \<le> PAGE_ROUND_UP x"
proof -
  assume "x + PAGE_SIZE \<le> 2 ^ 64"
  then have "PAGE_ROUND_UP x = (x + PAGE_MASK) div PAGE_SIZE * PAGE_SIZE" by (rule PAGE_ROUND_UP_eq)
  moreover have "(x + PAGE_MASK) div PAGE_SIZE * PAGE_SIZE + (x + PAGE_MASK) mod PAGE_SIZE = x + PAGE_MASK"
    by (rule div_mult_mod_eq)
  moreover have "(x + PAGE_MASK) mod PAGE_SIZE \<le> PAGE_MASK" by (simp add: PAGE_MASK_def PAGE_SIZE_def)
  ultimately show ?thesis by linarith
qed

lemma allocated_plain:
  assumes inv: "pa_inv pa" and t: "tree_ok t" "tree_mem t = free_mem pa - {v ..< v + n}"
    and R: "{v ..< v + n} \<subseteq> free_mem pa"
  shows "allocated pa {v ..< v + n} (pa\<lparr>anchor := t, freeList := freeList pa + k, available := usub (available pa) n\<rparr>)"
proof -
  let ?pa = "pa\<lparr>anchor := t, freeList := freeList pa + k\<rparr>"
  have "took pa {v ..< v + n} ?pa" using inv t by (intro tookI_plain) (auto simp: pa_inv_alt)
  from took_allocated [OF inv this R] show ?thesis by simp
qed

lemma allocPages_ok:
  assumes inv: "pa_inv pa" and sz: "0 < size0" "size0 + PAGE_SIZE \<le> 2 ^ 64"
  defines "n \<equiv> PAGE_ROUND_UP size0"
  shows "case allocPages pa size0 of
           Inr (v, pa') \<Rightarrow> PAGE_SIZE dvd v \<and> 0 < v \<and> allocated pa {v ..< v + n} pa' \<and> freeList pa \<le> freeList pa' \<and>
             free_mem pa' = free_mem pa - {v ..< v + n}
         | Inl e \<Rightarrow> e = SERROR 1474 0 ENOMEM \<and> \<not> (\<exists>w. {w ..< w + n} \<subseteq> free_mem pa)"
proof (cases "anchor pa = Null \<or> fp_size (anchor pa) < n")
  case True
  have "0 < n" using PAGE_ROUND_UP_ge [OF sz(2)] sz(1) by (simp add: n_def)
  then have "\<not> (\<exists>w. {w ..< w + n} \<subseteq> free_mem pa)"
    using root_largest [of "anchor pa" _ n] True inv by (auto simp: pa_inv_alt free_mem_def tree_mem_def)
  with True show ?thesis by (simp add: allocPages_def n_def)
next
  case False
  obtain v t k where w: "alloc_walk (anchor pa) n = (v, t, k)" by (metis prod_cases3)
  have "PAGE_SIZE dvd n" unfolding n_def using sz(2) by (rule PAGE_ROUND_UP_dvd)
  with alloc_walk_ok [OF w] False inv
  have a: "tree_ok t" "{v ..< v + n} \<subseteq> free_mem pa" "tree_mem t = free_mem pa - {v ..< v + n}"
      "v \<in> fst ` set (inorder (anchor pa))"
    by (auto simp: pa_inv_alt free_mem_def tree_mem_def)
  have "PAGE_SIZE dvd v" "0 < v"
    using a(4) inv by (auto simp: pa_inv_def blocks_ok_def block_ok_def)
  with False w allocated_plain [OF inv a(1,3,2), of k] a(3) show ?thesis
    by (simp add: allocPages_def n_def [symmetric] Let_def) (simp add: free_mem_def tree_mem_def)
qed

section \<open>The aligned search\<close>

lemma aligned_addr_eq:
  assumes "0 < align" "offset < align" "a + 2 * align < 2 ^ 64"
  shows "aligned_addr a align offset = (a + align - offset - 1) div align * align + offset"
    "a \<le> aligned_addr a align offset" "aligned_addr a align offset < a + align"
    "aligned_addr a align offset mod align = offset"
proof -
  let ?x = "a + align - offset - 1"
  have d: "?x div align * align + ?x mod align = ?x" by (rule div_mult_mod_eq)
  have m: "?x mod align < align" using assms by simp
  have lt: "?x div align * align + offset < 2 ^ 64" using d assms by linarith
  have "usub (usub (uadd a align) offset) 1 = ?x" using assms by (simp add: uval_simps)
  then show e: "aligned_addr a align offset = ?x div align * align + offset"
    using lt by (simp add: aligned_addr_def uval_simps)
  show "a \<le> aligned_addr a align offset" "aligned_addr a align offset < a + align"
    unfolding e using d m assms by linarith+
  show "aligned_addr a align offset mod align = offset" unfolding e using assms by simp
qed

lemma aligned_addr_least:
  assumes "0 < align" "offset < align" "a + 2 * align < 2 ^ 64" "a \<le> v" "v mod align = offset"
  shows "aligned_addr a align offset \<le> v"
proof (rule ccontr)
  let ?w = "aligned_addr a align offset"
  assume "\<not> ?w \<le> v"
  then have lt: "v < ?w" "?w < v + align" using aligned_addr_eq(3) [OF assms(1-3)] assms(4) by linarith+
  have "?w mod align = v mod align" using aligned_addr_eq(4) [OF assms(1-3)] assms(5) by simp
  then have "align dvd ?w - v" using lt by (simp add: mod_eq_dvd_iff_nat)
  moreover have "0 < ?w - v" "?w - v < align" using lt by linarith+
  ultimately show False using nat_dvd_not_less by blast
qed


definition fits :: "uval \<Rightarrow> uval \<Rightarrow> uval \<Rightarrow> block \<Rightarrow> bool" where
  "fits n align offset x \<longleftrightarrow> uadd (aligned_addr (fst x) align offset) n \<le> uadd (fst x) (snd x)"

definition fit_path :: "freePages \<Rightarrow> uval \<Rightarrow> uval \<Rightarrow> uval \<Rightarrow> dir list \<Rightarrow> bool" where
  "fit_path t n align offset p \<longleftrightarrow> subtree_at p t \<noteq> Null \<and>
     fits n align offset (fp_start (subtree_at p t), fp_size (subtree_at p t))"

lemma subtree_at_append: "subtree_at (xs @ ys) u = subtree_at ys (subtree_at xs u)"
  by (induction xs u rule: subtree_at.induct) auto

lemma aligned_walk_sound:
  assumes "aligned_walk cur p stack found n align offset = Some q" "cur \<noteq> Null" "subtree_at p t = cur"
    "\<forall>(c, p') \<in> set stack. subtree_at p' t = c \<and> fp_high c \<noteq> Null"
    "\<forall>f. found = Some f \<longrightarrow> fit_path t n align offset f"
  shows "fit_path t n align offset q"
  using assms
proof (induction cur p stack found n align offset rule: aligned_walk.induct)
  case (1 cur p stack found n align offset)
  let ?found' = "if uadd (aligned_addr (fp_start cur) align offset) n \<le> uadd (fp_start cur) (fp_size cur)
    then Some p else found"
  have f: "\<forall>f. ?found' = Some f \<longrightarrow> fit_path t n align offset f"
    using "1.prems" by (auto simp: fit_path_def fits_def)
  consider (leaf) "fp_size cur < n \<or> fp_low cur = Null \<and> fp_high cur = Null"
    | (low) "\<not> (fp_size cur < n \<or> fp_low cur = Null \<and> fp_high cur = Null)" "fp_low cur \<noteq> Null"
    | (high) "\<not> (fp_size cur < n \<or> fp_low cur = Null \<and> fp_high cur = Null)" "fp_low cur = Null"
    by blast
  then show ?case
  proof cases
    case leaf
    show ?thesis
    proof (cases "?found' = None")
      case False
      with "1.prems"(1) leaf have "?found' = Some q"
        by (subst (asm) aligned_walk.simps) (auto simp: Let_def \<open>cur \<noteq> Null\<close> split: if_splits)
      with f show ?thesis by blast
    next
      case True
      then obtain c p' st where st: "stack = (c, p') # st"
        using "1.prems"(1,2) leaf by (subst (asm) aligned_walk.simps) (auto simp: Let_def split: list.splits if_splits)
      then have "aligned_walk (fp_high c) (p' @ [High]) st ?found' n align offset = Some q"
        using "1.prems"(1,2) leaf True by (subst (asm) aligned_walk.simps) (auto simp: Let_def)
      with "1.IH"(1) [OF refl refl "1.prems"(2) leaf _ st refl] True f "1.prems" st show ?thesis
        by (auto simp: subtree_at_append)
    qed
  next
    case low
    let ?st = "if fp_high cur \<noteq> Null \<and> length stack < STACK_SIZE then (cur, p) # stack else stack"
    have "aligned_walk (fp_low cur) (p @ [Low]) ?st ?found' n align offset = Some q"
      using "1.prems"(1,2) low by (subst (asm) aligned_walk.simps) (auto simp: Let_def)
    with "1.IH"(2) [OF refl refl "1.prems"(2) low refl] f "1.prems" low show ?thesis
      by (auto simp: subtree_at_append split: if_splits)
  next
    case high
    have "aligned_walk (fp_high cur) (p @ [High]) stack ?found' n align offset = Some q"
      using "1.prems"(1,2) high by (subst (asm) aligned_walk.simps) (auto simp: Let_def)
    with "1.IH"(3) [OF refl refl "1.prems"(2) high(1)] f "1.prems" high show ?thesis
      by (auto simp: subtree_at_append)
  qed
qed


primrec depth :: "freePages \<Rightarrow> nat" where
  "depth Null = 0"
| "depth (Node l a m r) = Suc (max (depth l) (depth r))"

fun stack_ok :: "(freePages \<times> dir list) list \<Rightarrow> bool" where
  "stack_ok [] \<longleftrightarrow> True"
| "stack_ok ((c, p) # st) \<longleftrightarrow> depth (fp_high c) + length st \<le> STACK_SIZE \<and> fp_high c \<noteq> Null \<and> stack_ok st"

lemma depth_children: "t \<noteq> Null \<Longrightarrow> depth (fp_low t) < depth t \<and> depth (fp_high t) < depth t"
  by (cases t) auto

lemma inorder_children:
  "t \<noteq> Null \<Longrightarrow> inorder t = inorder (fp_low t) @ (fp_start t, fp_size t) # inorder (fp_high t)"
  by (cases t) auto

lemma heap_children:
  "heap t \<Longrightarrow> heap (fp_low t) \<and> heap (fp_high t) \<and> (\<forall>x \<in> set (inorder t). snd x \<le> fp_size t)"
  by (cases t) auto

lemma aligned_walk_complete:
  assumes "aligned_walk cur p stack found n align offset = None" "cur \<noteq> Null" "heap cur"
    "\<forall>(c, p') \<in> set stack. heap (fp_high c)" "stack_ok stack" "depth cur + length stack \<le> STACK_SIZE"
    "\<And>x. snd x < n \<Longrightarrow> x \<in> set (inorder cur) \<union> (\<Union>(c, p') \<in> set stack. set (inorder (fp_high c))) \<Longrightarrow>
       \<not> fits n align offset x"
  shows "found = None \<and>
     (\<forall>x \<in> set (inorder cur) \<union> (\<Union>(c, p') \<in> set stack. set (inorder (fp_high c))). \<not> fits n align offset x)"
  using assms
proof (induction cur p stack found n align offset rule: aligned_walk.induct)
  case (1 cur p stack found n align offset)
  let ?here = "uadd (aligned_addr (fp_start cur) align offset) n \<le> uadd (fp_start cur) (fp_size cur)"
  let ?found' = "if ?here then Some p else found"
  note small = "1.prems"(7)
  note ch = heap_children [OF "1.prems"(3)] and dp = depth_children [OF "1.prems"(2)]
    and io = inorder_children [OF "1.prems"(2)]
  have fh: "?found' = None \<longleftrightarrow> found = None \<and> \<not> fits n align offset (fp_start cur, fp_size cur)"
    by (simp add: fits_def)
  consider (leaf) "fp_size cur < n \<or> fp_low cur = Null \<and> fp_high cur = Null"
    | (low) "\<not> (fp_size cur < n \<or> fp_low cur = Null \<and> fp_high cur = Null)" "fp_low cur \<noteq> Null"
    | (high) "\<not> (fp_size cur < n \<or> fp_low cur = Null \<and> fp_high cur = Null)" "fp_low cur = Null"
    by blast
  then show ?case
  proof cases
    case leaf
    have none: "?found' = None"
      using "1.prems"(1,2) leaf by (subst (asm) aligned_walk.simps) (auto simp: Let_def split: if_splits)
    have cur: "\<forall>x \<in> set (inorder cur). \<not> fits n align offset x"
    proof (cases "fp_size cur < n")
      case True
      with ch small show ?thesis by (meson UnI1 le_less_trans)
    next
      case False
      with leaf io none fh show ?thesis by auto
    qed
    show ?thesis
    proof (cases stack)
      case Nil
      with cur none fh show ?thesis by auto
    next
      case (Cons cp st)
      then obtain c p' where st: "stack = (c, p') # st" by (cases cp) auto
      have w: "aligned_walk (fp_high c) (p' @ [High]) st ?found' n align offset = None"
        using "1.prems"(1,2) leaf none st by (subst (asm) aligned_walk.simps) (auto simp: Let_def)
      have "?found' = None \<and> (\<forall>x \<in> set (inorder (fp_high c)) \<union> (\<Union>(c, p') \<in> set st. set (inorder (fp_high c))).
          \<not> fits n align offset x)"
        using "1.prems"(4,5) st small
        by (intro "1.IH"(1) [OF refl refl "1.prems"(2) leaf _ st refl w]) (use none in auto)
      with cur none fh st show ?thesis by auto
    qed
  next
    case low
    let ?st = "if fp_high cur \<noteq> Null \<and> length stack < STACK_SIZE then (cur, p) # stack else stack"
    have full: "length stack < STACK_SIZE" using "1.prems"(6) dp by linarith
    have w: "aligned_walk (fp_low cur) (p @ [Low]) ?st ?found' n align offset = None"
      using "1.prems"(1,2) low by (subst (asm) aligned_walk.simps) (auto simp: Let_def)
    have "?found' = None \<and> (\<forall>x \<in> set (inorder (fp_low cur)) \<union> (\<Union>(c, p') \<in> set ?st. set (inorder (fp_high c))).
        \<not> fits n align offset x)"
      using "1.prems"(4-6) small dp ch io full low(2)
      by (intro "1.IH"(2) [OF refl refl "1.prems"(2) low refl w]) (auto split: if_splits)
    with fh full io show ?thesis by (auto split: if_splits)
  next
    case high
    have w: "aligned_walk (fp_high cur) (p @ [High]) stack ?found' n align offset = None"
      using "1.prems"(1,2) high by (subst (asm) aligned_walk.simps) (auto simp: Let_def)
    have "?found' = None \<and> (\<forall>x \<in> set (inorder (fp_high cur)) \<union> (\<Union>(c, p') \<in> set stack. set (inorder (fp_high c))).
        \<not> fits n align offset x)"
    proof (rule "1.IH"(3) [OF refl refl "1.prems"(2) high(1) _ w])
      show "\<not> fp_low cur \<noteq> Null" "fp_high cur \<noteq> Null" using high by auto
    qed (use "1.prems"(4-6) small dp ch io in auto)
    with fh io high show ?thesis by auto
  qed
qed


lemma fits_iff:
  assumes "block_ok x" "fst x + snd x \<le> 2 ^ 63" "0 < align" "offset < align" "align \<le> 2 ^ 61" "n \<le> 2 ^ 61"
  shows "fits n align offset x \<longleftrightarrow> aligned_addr (fst x) align offset + n \<le> fst x + snd x"
proof -
  have "fst x + 2 * align < 2 ^ 64" using assms(2,5) by simp
  from aligned_addr_eq(2,3) [OF assms(3,4) this] assms show ?thesis
    by (simp add: fits_def uval_simps block_ok_def)
qed

lemma allocPagesAligned_ok:
  assumes inv: "pa_inv pa" and sz: "0 < size0" "PAGE_ROUND_UP size0 \<le> 2 ^ 61" "size0 \<le> 2 ^ 61"
    and al: "0 < align" "offset < align" "align \<le> 2 ^ 61" "PAGE_SIZE dvd align" "PAGE_SIZE dvd offset"
    and low: "free_mem pa \<subseteq> {..< 2 ^ 63}"
  defines "n \<equiv> PAGE_ROUND_UP size0"
  shows "case allocPagesAligned pa size0 align offset of
           Inr (v, pa') \<Rightarrow> v mod align = offset \<and> allocated pa {v ..< v + n} pa'
         | Inl e \<Rightarrow> e = SERROR 1476 0 ENOMEM \<and>
             (depth (anchor pa) \<le> STACK_SIZE \<longrightarrow>
                \<not> (\<exists>w. w mod align = offset \<and> {w ..< w + n} \<subseteq> free_mem pa))"
proof -
  let ?t = "anchor pa"
  have ok: "tree_ok ?t" "0 < freeList pa" and b: "blocks_ok (inorder ?t)" and h: "heap ?t"
    using inv by (auto simp: pa_inv_alt tree_ok_def)
  have sz': "size0 + PAGE_SIZE \<le> 2 ^ 64" using sz(3) by (simp add: PAGE_SIZE_def)
  have n: "0 < n" "PAGE_SIZE dvd n" "n \<le> 2 ^ 61"
    using PAGE_ROUND_UP_ge [OF sz'] PAGE_ROUND_UP_dvd [OF sz'] sz by (auto simp: n_def)
  have bnd: "block_ok x \<and> fst x + snd x \<le> 2 ^ 63" if "x \<in> set (inorder ?t)" for x
  proof -
    have x: "block_ok x" using b that by (simp add: blocks_ok_def)
    then have "fst x + snd x - 1 \<in> free_mem pa"
      using that by (auto simp: free_mem_def bytes_of_def range_of_def block_ok_def intro!: bexI [of _ x])
    then have "fst x + snd x - 1 < 2 ^ 63" using low by blast
    with x show ?thesis by simp
  qed
  note ft = fits_iff [OF conjunct1 [OF bnd] conjunct2 [OF bnd] al(1-3) n(3)]
  have nw: "fst x + 2 * align < 2 ^ 64" if "x \<in> set (inorder ?t)" for x
    using bnd [OF that] al(3) by auto
  show ?thesis
  proof (cases "?t \<noteq> Null \<and> aligned_walk ?t [] [] None n align offset \<noteq> None")
    case True
    then obtain p where w: "aligned_walk ?t [] [] None n align offset = Some p" by auto
    with True have fp: "fit_path ?t n align offset p" by (intro aligned_walk_sound [OF w]) auto
    then obtain l a m r where s: "subtree_at p ?t = Node l a m r"
      by (cases "subtree_at p ?t") (auto simp: fit_path_def)
    then have x: "(a, m) \<in> set (inorder ?t)" using replace_set(2) [of p ?t] by auto
    define v where "v = aligned_addr a align offset"
    have v: "a \<le> v" "v + n \<le> a + m" "v mod align = offset"
      using aligned_addr_eq [OF al(1,2) nw [OF x, unfolded fst_conv]] ft [OF x x] fp s
      by (auto simp: fit_path_def v_def)
    have "PAGE_SIZE dvd v" using v(3) al(4,5) by (metis dvd_mod_iff)
    note took = allocFromBlock_ok [OF ok s v(1,2) n(1) this n(2)]
    have "{v ..< v + n} \<subseteq> free_mem pa"
      using tree_remove(5) [OF ok(1) s] v by (auto simp: free_mem_def tree_mem_def)
    from took_allocated [OF inv took this] True w s v(3) show ?thesis
      by (simp add: allocPagesAligned_def n_def [symmetric] Let_def v_def [symmetric])
  next
    case False
    have "\<not> (\<exists>w. w mod align = offset \<and> {w ..< w + n} \<subseteq> free_mem pa)" if d: "depth ?t \<le> STACK_SIZE"
    proof
      assume "\<exists>w. w mod align = offset \<and> {w ..< w + n} \<subseteq> free_mem pa"
      then obtain w x where w: "w mod align = offset" and x: "x \<in> set (inorder ?t)" "fst x \<le> w" "w + n \<le> fst x + snd x"
        using bytes_of_in_block [OF b _ n(1)] unfolding free_mem_def by blast
      have "fits n align offset x"
        using ft [OF x(1) x(1)] aligned_addr_least [OF al(1,2) nw [OF x(1)] x(2) w] x(3) by simp
      moreover have ne: "?t \<noteq> Null" using x(1) by auto
      have "\<not> fits n align offset y" if "snd y < n" "y \<in> set (inorder ?t)" for y
        using ft [OF that(2) that(2)] aligned_addr_eq(2) [OF al(1,2) nw [OF that(2)]] that(1) by simp
      then have "\<forall>x \<in> set (inorder ?t). \<not> fits n align offset x"
        using aligned_walk_complete [of ?t "[]" "[]" None n align offset] ne False h d by auto
      ultimately show False using x(1) by blast
    qed
    with False show ?thesis by (auto simp: allocPagesAligned_def n_def [symmetric] Let_def split: option.splits)
  qed
qed


section \<open>Freeing\<close>

definition gave :: "page_alloc \<Rightarrow> nat set \<Rightarrow> page_alloc \<Rightarrow> bool" where
  "gave pa R pa' \<longleftrightarrow> pa_inv pa' \<and>
     (\<exists>D. descriptor_page pa (free_mem pa \<union> R) D \<and> free_mem pa' = (free_mem pa \<union> R) - D)"

text \<open>The range to free touches no free block yet.\<close>

definition clear :: "uval \<Rightarrow> uval \<Rightarrow> block list \<Rightarrow> bool" where
  "clear v n ys \<longleftrightarrow> (\<forall>y \<in> set ys. fst y + snd y \<le> v \<or> v + n \<le> fst y)"

lemma clear_simps [simp]:
  "clear v n []" "clear v n (x # ys) \<longleftrightarrow> (fst x + snd x \<le> v \<or> v + n \<le> fst x) \<and> clear v n ys"
  "clear v n (xs @ ys) \<longleftrightarrow> clear v n xs \<and> clear v n ys"
  by (auto simp: clear_def)

lemma clear_iff_disjoint:
  assumes "blocks_ok xs" "0 < n"
  shows "clear v n xs \<longleftrightarrow> {v ..< v + n} \<inter> bytes_of xs = {}"
proof
  assume "clear v n xs"
  then show "{v ..< v + n} \<inter> bytes_of xs = {}" by (fastforce simp: clear_def bytes_of_def range_of_def)
next
  assume d: "{v ..< v + n} \<inter> bytes_of xs = {}"
  have "fst y + snd y \<le> v \<or> v + n \<le> fst y" if y: "y \<in> set xs" for y
  proof (rule ccontr)
    assume "\<not> ?thesis"
    moreover have "0 < snd y" using assms(1) y by (auto simp: blocks_ok_def block_ok_def)
    ultimately have "max v (fst y) \<in> {v ..< v + n} \<inter> bytes_of xs"
      using y assms(2) by (auto simp: bytes_of_def range_of_def max_def intro!: bexI [of _ y])
    with d show False by blast
  qed
  then show "clear v n xs" by (simp add: clear_def)
qed

lemma find_adjacent_None:
  assumes "find_adjacent t v n = None" "blocks_ok (inorder t)" "clear v n (inorder t)" "v + n < 2 ^ 64" "0 < n"
  shows "apart (v, n) (inorder t)"
  using assms
proof (induction t)
  case (Node l a m r)
  have nw: "uadd a m = a + m" "uadd v n = v + n"
    using Node.prems by (auto simp: block_ok_def uval_simps)
  have ne: "a + m \<noteq> v" "v + n \<noteq> a" using Node.prems(1) nw by (auto split: if_splits)
  have ab: "\<forall>x \<in> set (inorder l). fst x + snd x < a" "\<forall>y \<in> set (inorder r). a + m < fst y" "0 < m"
    using Node.prems(2) by (auto simp: block_ok_def)
  show ?case
  proof (cases "v < a")
    case True
    then have lt: "v + n < a" using Node.prems(3) ne by auto
    have "find_adjacent l v n = None" using Node.prems(1) nw ne True by auto
    then have "apart (v, n) (inorder l)" using Node by auto
    moreover have "\<forall>y \<in> set (inorder r). v + n < fst y" using ab(2) lt by fastforce
    ultimately show ?thesis using lt by (auto simp: apart_def)
  next
    case False
    then have lt: "a + m < v" using Node.prems(3,5) ne by auto
    have "find_adjacent r v n = None" using Node.prems(1) nw ne False by auto
    then have "apart (v, n) (inorder r)" using Node by auto
    moreover have "\<forall>y \<in> set (inorder l). fst y + snd y < v" using ab(1) lt by fastforce
    ultimately show ?thesis using lt by (auto simp: apart_def)
  qed
qed (simp add: apart_def)

definition adjacent :: "side \<Rightarrow> freePages \<Rightarrow> uval \<Rightarrow> uval \<Rightarrow> bool" where
  "adjacent sd c v n \<longleftrightarrow> c \<noteq> Null \<and>
     (case sd of After \<Rightarrow> fp_start c + fp_size c = v | Before \<Rightarrow> v + n = fp_start c)"

lemma find_adjacent_Some:
  assumes "find_adjacent t v n = Some (p, sd)" "blocks_ok (inorder t)" "clear v n (inorder t)"
    "v + n < 2 ^ 64" "0 < n"
  shows "\<exists>xs ys. adjacent sd (subtree_at p t) v n \<and> inorder t = xs @ inorder (subtree_at p t) @ ys \<and>
     (\<forall>s. inorder (replace_at p s t) = xs @ inorder s @ ys) \<and>
     (\<forall>x \<in> set xs. fst x + snd x < v) \<and> (\<forall>y \<in> set ys. v + n < fst y)"
  using assms
proof (induction t arbitrary: p)
  case (Node l a m r)
  have nw: "uadd a m = a + m" "uadd v n = v + n"
    using Node.prems by (auto simp: block_ok_def uval_simps)
  have ab: "\<forall>x \<in> set (inorder l). fst x + snd x < a" "\<forall>y \<in> set (inorder r). a + m < fst y" "0 < m"
    using Node.prems(2) by (auto simp: block_ok_def)
  consider (here) "a + m = v \<or> v + n = a" | (low) "a + m \<noteq> v" "v + n \<noteq> a" "v < a"
    | (high) "a + m \<noteq> v" "v + n \<noteq> a" "\<not> v < a" by blast
  then show ?case
  proof cases
    case here
    then have "p = []" "adjacent sd (Node l a m r) v n"
      using Node.prems(1) nw by (auto simp: adjacent_def split: if_splits)
    then show ?thesis by (intro exI [of _ "[]"]) simp
  next
    case low
    then obtain q where q: "find_adjacent l v n = Some (q, sd)" "p = Low # q"
      using Node.prems(1) nw by auto
    have lt: "v + n < a" using Node.prems(3) low by auto
    then have r: "\<forall>y \<in> set (inorder r). v + n < fst y" using ab(2) by fastforce
    obtain xs ys where "adjacent sd (subtree_at q l) v n" "inorder l = xs @ inorder (subtree_at q l) @ ys"
      "\<forall>s. inorder (replace_at q s l) = xs @ inorder s @ ys"
      "\<forall>x \<in> set xs. fst x + snd x < v" "\<forall>y \<in> set ys. v + n < fst y"
      using Node.IH(1) [OF q(1)] Node.prems by auto
    with q lt r show ?thesis
      by (intro exI [of _ xs] exI [of _ "ys @ (a, m) # inorder r"]) auto
  next
    case high
    then obtain q where q: "find_adjacent r v n = Some (q, sd)" "p = High # q"
      using Node.prems(1) nw by auto
    have lt: "a + m < v" using Node.prems(3,5) high by auto
    then have l: "\<forall>x \<in> set (inorder l). fst x + snd x < v" using ab(1) by fastforce
    obtain xs ys where "adjacent sd (subtree_at q r) v n" "inorder r = xs @ inorder (subtree_at q r) @ ys"
      "\<forall>s. inorder (replace_at q s r) = xs @ inorder s @ ys"
      "\<forall>x \<in> set xs. fst x + snd x < v" "\<forall>y \<in> set ys. v + n < fst y"
      using Node.IH(2) [OF q(1)] Node.prems by auto
    with q lt l show ?thesis
      by (intro exI [of _ "inorder l @ (a, m) # xs"] exI [of _ ys]) auto
  qed
qed simp


text \<open>
  What growing the block at \<^term>\<open>cur\<close> gives: the range is added, blocks begin and end where they
  did or where the range does, and the other blocks are some of those there were.
\<close>

definition grown :: "freePages \<Rightarrow> uval \<Rightarrow> uval \<Rightarrow> freePages \<Rightarrow> bool" where
  "grown cur v n new \<longleftrightarrow> new \<noteq> Null \<and> tree_ok new \<and> tree_mem new = tree_mem cur \<union> {v ..< v + n} \<and>
     set (inorder (fp_low new) @ inorder (fp_high new)) \<subseteq> set (inorder cur) \<and>
     (\<forall>x \<in> set (inorder new). (fst x = v \<or> fst x \<in> fst ` set (inorder cur)) \<and>
        (fst x + snd x = v + n \<or> fst x + snd x \<in> (\<lambda>y. fst y + snd y) ` set (inorder cur)))"

lemma grownI:
  assumes "tree_ok (Node l a m r)" "heap l'" "heap r'"
    "set (inorder l') \<subseteq> set (inorder l)" "set (inorder r') \<subseteq> set (inorder r)" "m \<le> m'"
    "blocks_ok (inorder l' @ (a', m') # inorder r')"
    "bytes_of (inorder l' @ (a', m') # inorder r') = tree_mem (Node l a m r) \<union> {v ..< v + n}"
    "a' = v \<or> a' \<in> fst ` set (inorder (Node l a m r))"
    "a' + m' = v + n \<or> a' + m' \<in> (\<lambda>y. fst y + snd y) ` set (inorder (Node l a m r))"
  shows "grown (Node l a m r) v n (Node l' a' m' r')"
proof -
  have "\<forall>x \<in> set (inorder l') \<union> set (inorder r'). snd x \<le> m'"
    using assms(1,4-6) by (auto simp: tree_ok_def intro!: order_trans [of _ m m'])
  then have "tree_ok (Node l' a' m' r')" using assms(2,3,7) by (simp add: tree_ok_def)
  then show ?thesis using assms(4,5,8-10) by (auto simp: grown_def tree_mem_def)
qed

lemma coalesce_after_ok:
  assumes ok: "tree_ok (Node l a m r)" and adj: "a + m = v" and cl: "clear v n (inorder r)"
    and rng: "0 < n" "PAGE_SIZE dvd n" "v + n < 2 ^ 64" "\<forall>x \<in> set (inorder r). v < fst x"
    and res: "coalesce_after (Node l a m r) n = (new, k)"
  shows "grown (Node l a m r) v n new"
proof -
  note cut = ok [unfolded tree_ok_def, simplified]
  have nw: "uadd m n = m + n" "uadd a (m + n) = v + n" using adj rng(3) by (auto simp: uval_simps)
  have cv: "tree_mem (Node l a m r) = bytes_of (inorder l) \<union> range_of (a, m) \<union> bytes_of (inorder r)"
    by (auto simp: tree_mem_def)
  show ?thesis
  proof (cases "r \<noteq> Null \<and> v + n = fp_start (subtree_at (leftmost_path r) r)")
    case True
    then obtain b j h ys where lm: "subtree_at (leftmost_path r) r = Node Null b j h"
      and r: "inorder r = (b, j) # inorder h @ ys" "\<And>s. inorder (replace_at (leftmost_path r) s r) = inorder s @ ys"
      using leftmost [of r] by metis
    then have b: "b = v + n" "block_ok (b, j)" using True cut by auto
    have nw2: "uadd (m + n) j = m + n + j" using b adj by (auto simp: block_ok_def uval_simps)
    let ?r' = "replace_at (leftmost_path r) h r"
    have new: "new = Node l a (m + n + j) ?r'"
      using res conjunct1 [OF True] lm b(1) nw nw2 by (simp add: coalesce_after_def Let_def)
    have "heap ?r'" using cut lm subtree_heap [of r "leftmost_path r"]
      by (intro replace_heap) (auto simp: dominated_def)
    moreover have "blocks_ok (inorder l @ (a, m + n + j) # inorder ?r')"
      using cut r b adj rng by (auto simp: block_ok_def ball_Un add.assoc)
    moreover have "bytes_of (inorder l @ (a, m + n + j) # inorder ?r') = tree_mem (Node l a m r) \<union> {v ..< v + n}"
      unfolding cv using r b adj by (auto simp: range_of_def)
    moreover have "a + (m + n + j) \<in> (\<lambda>y. fst y + snd y) ` set (inorder (Node l a m r))"
      using r b adj by (auto intro!: image_eqI [of _ _ "(b, j)"])
    ultimately show ?thesis unfolding new using cut ok r by (intro grownI) auto
  next
    case False
    then have new: "new = Node l a (m + n) r"
      using res nw by (auto simp: coalesce_after_def Let_def)
    have "\<forall>x \<in> set (inorder r). v + n < fst x"
    proof (cases "r = Null")
      case r: False
      then obtain b j h ys where lm: "subtree_at (leftmost_path r) r = Node Null b j h"
        and io: "inorder r = (b, j) # inorder h @ ys" using leftmost [of r] by metis
      then have "v + n < b" using False r cl rng(4) by auto
      moreover have "\<forall>x \<in> set (inorder h @ ys). b + j < fst x" using cut io by simp
      then have "\<forall>x \<in> set (inorder h @ ys). b < fst x" using add_lessD1 by blast
      ultimately show ?thesis using io by (auto simp: ball_Un intro: less_trans)
    qed simp
    with cut rng adj have "blocks_ok (inorder l @ (a, m + n) # inorder r)" by (auto simp: block_ok_def)
    moreover have "bytes_of (inorder l @ (a, m + n) # inorder r) = tree_mem (Node l a m r) \<union> {v ..< v + n}"
      unfolding cv using adj by (auto simp: range_of_def)
    ultimately show ?thesis unfolding new using cut ok adj by (intro grownI) auto
  qed
qed

lemma coalesce_before_ok:
  assumes ok: "tree_ok (Node l a m r)" and adj: "v + n = a" and cl: "clear v n (inorder l)"
    and rng: "0 < n" "0 < v" "PAGE_SIZE dvd n" "PAGE_SIZE dvd v" "v + n < 2 ^ 64" "\<forall>x \<in> set (inorder l). fst x < v"
    and res: "coalesce_before (Node l a m r) v n = (new, k)"
  shows "grown (Node l a m r) v n new"
proof -
  note cut = ok [unfolded tree_ok_def, simplified]
  have nw: "uadd m n = m + n" using adj cut by (auto simp: uval_simps block_ok_def)
  have cv: "tree_mem (Node l a m r) = bytes_of (inorder l) \<union> range_of (a, m) \<union> bytes_of (inorder r)"
    by (auto simp: tree_mem_def)
  define c1 where "c1 = subtree_at (rightmost_path l) l"
  show ?thesis
  proof (cases "l \<noteq> Null \<and> uadd (fp_start c1) (fp_size c1) = v")
    case True
    then obtain h b j ys where lm: "c1 = Node h b j Null"
      and l: "inorder l = ys @ inorder h @ [(b, j)]" "\<And>s. inorder (replace_at (rightmost_path l) s l) = ys @ inorder s"
      using rightmost [of l] unfolding c1_def by metis
    have "block_ok (b, j)" using l cut by auto
    then have b: "b + j = v" "block_ok (b, j)" using True lm by (auto simp: block_ok_def uval_simps)
    have nw2: "uadd (m + n) j = m + n + j" using b adj cut by (auto simp: block_ok_def uval_simps)
    let ?l' = "replace_at (rightmost_path l) h l"
    have new: "new = Node ?l' b (m + n + j) r"
      using res True lm nw nw2 by (simp add: coalesce_before_def Let_def c1_def [symmetric])
    have "heap ?l'" using cut lm subtree_heap [of l "rightmost_path l"]
      by (intro replace_heap) (auto simp: dominated_def c1_def)
    moreover have "blocks_ok (inorder ?l' @ (b, m + n + j) # inorder r)"
      using cut l b adj rng by (auto simp: block_ok_def)
    moreover have "bytes_of (inorder ?l' @ (b, m + n + j) # inorder r) = tree_mem (Node l a m r) \<union> {v ..< v + n}"
      unfolding cv using l b adj by (auto simp: range_of_def)
    moreover have "b + (m + n + j) \<in> (\<lambda>y. fst y + snd y) ` set (inorder (Node l a m r))"
      using b adj by (auto intro!: image_eqI [of _ _ "(a, m)"])
    moreover have "b \<in> fst ` set (inorder (Node l a m r))" using l by force
    ultimately show ?thesis unfolding new using cut ok l by (intro grownI) auto
  next
    case False
    then have new: "new = Node l v (m + n) r"
      using res nw by (auto simp: coalesce_before_def Let_def c1_def [symmetric])
    have "\<forall>x \<in> set (inorder l). fst x + snd x < v"
    proof (cases "l = Null")
      case r: False
      then obtain h b j ys where lm: "c1 = Node h b j Null"
        and io: "inorder l = ys @ inorder h @ [(b, j)]" using rightmost [of l] unfolding c1_def by metis
      have "uadd b j = b + j" using io cut by (auto simp: block_ok_def uval_simps)
      moreover have bv: "b < v" "b + j \<le> v \<or> v + n \<le> b" using cl rng(6) io by auto
      ultimately have "b + j < v" using False r lm by auto
      moreover have "\<forall>x \<in> set (ys @ inorder h). fst x + snd x < b" using cut io by (simp add: ball_Un)
      ultimately show ?thesis using io bv(1) by (auto simp: ball_Un intro: less_trans)
    qed simp
    with cut rng adj have "blocks_ok (inorder l @ (v, m + n) # inorder r)" by (auto simp: block_ok_def)
    moreover have "bytes_of (inorder l @ (v, m + n) # inorder r) = tree_mem (Node l a m r) \<union> {v ..< v + n}"
      unfolding cv using adj by (auto simp: range_of_def)
    moreover have "v + (m + n) \<in> (\<lambda>y. fst y + snd y) ` set (inorder (Node l a m r))"
      using adj by (auto intro!: image_eqI [of _ _ "(a, m)"])
    ultimately show ?thesis unfolding new using cut ok by (intro grownI) auto
  qed
qed


lemma grown_replace:
  assumes ok: "tree_ok t" and cur: "subtree_at p t \<noteq> Null" and g: "grown (subtree_at p t) v n new"
    and t: "inorder t = xs @ inorder (subtree_at p t) @ ys" "\<And>s. inorder (replace_at p s t) = xs @ inorder s @ ys"
    and out: "\<forall>x \<in> set xs. fst x + snd x < v" "\<forall>y \<in> set ys. v + n < fst y"
  defines "t' \<equiv> if p \<noteq> [] \<and> fp_size new > fp_size (subtree_at (butlast p) t)
      then add (replace_at p (merge (fp_low new) (fp_high new)) t) (fp_start new) (fp_size new)
      else replace_at p new t"
  shows "tree_ok t'" "tree_mem t' = tree_mem t \<union> {v ..< v + n}"
proof -
  have b: "blocks_ok (xs @ inorder (subtree_at p t) @ ys)" using ok t(1) by (simp add: tree_ok_def)
  have g': "new \<noteq> Null" "heap new" "blocks_ok (inorder new)"
      "bytes_of (inorder new) = bytes_of (inorder (subtree_at p t)) \<union> {v ..< v + n}"
      "set (inorder (fp_low new) @ inorder (fp_high new)) \<subseteq> set (inorder (subtree_at p t))"
    using g by (auto simp: grown_def tree_ok_def tree_mem_def)
  have gx: "fst x = v \<or> (\<exists>y \<in> set (inorder (subtree_at p t)). fst x = fst y)"
      "fst x + snd x = v + n \<or> (\<exists>y \<in> set (inorder (subtree_at p t)). fst x + snd x = fst y + snd y)"
    if "x \<in> set (inorder new)" for x using g that unfolding grown_def by auto
  have sep1: "\<forall>x \<in> set xs. \<forall>y \<in> set (inorder new). fst x + snd x < fst y"
    using gx(1) b out(1) by (metis Un_iff blocks_ok_simps(3) set_append)
  have sep2: "\<forall>x \<in> set (inorder new). \<forall>y \<in> set ys. fst x + snd x < fst y"
    using gx(2) b out(2) by (metis blocks_ok_simps(3))
  have nb: "blocks_ok (inorder (replace_at p new t))" using b g'(3) sep1 sep2 unfolding t(2) by (simp add: ball_Un)
  have nm: "bytes_of (inorder (replace_at p new t)) = tree_mem t \<union> {v ..< v + n}"
    using g'(4) by (auto simp: t tree_mem_def)
  note io = inorder_children [OF g'(1)] and ch = heap_children [OF g'(2)]
  let ?u = "replace_at p (merge (fp_low new) (fp_high new)) t"
  have "tree_ok t' \<and> tree_mem t' = tree_mem t \<union> {v ..< v + n}"
  proof (cases "p \<noteq> [] \<and> fp_size new > fp_size (subtree_at (butlast p) t)")
    case True
    have "dominated (merge (fp_low new) (fp_high new)) (subtree_at p t)"
      using g'(5) by (auto simp: dominated_def)
    then have hu: "heap ?u" using ok cur ch by (intro replace_heap) (auto simp: tree_ok_def)
    have bu: "blocks_ok (inorder ?u)" using nb io unfolding t(2) by simp
    have nblk: "block_ok (fp_start new, fp_size new)" using nb io unfolding t(2) by simp
    have "apart (fp_start new, fp_size new) (inorder ?u)"
      using nb io unfolding t(2) by (auto simp: apart_def)
    from tree_add [OF _ nblk this] hu bu True nm io show ?thesis
      unfolding t'_def t(2) tree_ok_def by (auto simp: tree_mem_def t(2) range_of_def)
  next
    case False
    have "heap (replace_at p new t)"
    proof (cases "p = []")
      case ne: False
      have "\<forall>x \<in> set (inorder new). snd x \<le> fp_size (subtree_at (butlast p) t)"
        using ch False ne by (meson le_trans not_le)
      with ok cur g' ne show ?thesis by (intro replace_heap_parent) (auto simp: tree_ok_def)
    qed (use g' in simp)
    with nb nm False show ?thesis unfolding t'_def tree_ok_def tree_mem_def by auto
  qed
  then show "tree_ok t'" "tree_mem t' = tree_mem t \<union> {v ..< v + n}" by auto
qed


lemma free_mem_less: "pa_inv pa \<Longrightarrow> free_mem pa \<subseteq> {1 ..< 2 ^ 64}"
  by (fastforce simp: pa_inv_def blocks_ok_def block_ok_def free_mem_def bytes_of_def range_of_def)

lemma gaveI:
  assumes inv: "pa_inv pa" and R: "{v ..< v + n} \<inter> free_mem pa = {}" "0 < v" "v + n < 2 ^ 64"
    and ok: "tree_ok (anchor pa')" "0 < freeList pa'" "free_mem pa' = (free_mem pa \<union> {v ..< v + n}) - D"
    and D: "descriptor_page pa (free_mem pa \<union> {v ..< v + n}) D"
    and av: "available pa' =
      (if D = {} then uadd (available pa) n else usub (uadd (available pa) n) PAGE_SIZE)"
  shows "gave pa {v ..< v + n} pa'"
proof -
  let ?S = "free_mem pa \<union> {v ..< v + n}"
  have cS: "card ?S = card (free_mem pa) + n"
    using R(1) free_mem_finite by (subst card_Un_disjoint) auto
  have "card ?S \<le> card {1 ..< (2 ^ 64 :: nat)}"
    using free_mem_less [OF inv] R(2,3) by (intro card_mono) auto
  then have lt: "card (free_mem pa) + n < 2 ^ 64" using cS by simp
  have DS: "D \<subseteq> ?S" "finite D" "D \<noteq> {} \<longrightarrow> card D = PAGE_SIZE"
    using D by (auto simp: descriptor_page_def)
  have "card D \<le> card ?S" using DS(1) free_mem_finite by (intro card_mono) auto
  then have "available pa' = card ?S - card D"
    using av DS(3) lt inv cS by (auto simp: pa_inv_alt uval_simps)
  also have "\<dots> = card (free_mem pa')" using ok(3) DS(1,2) by (simp add: card_Diff_subset)
  finally have "pa_inv pa'" using ok by (simp add: pa_inv_alt)
  with ok(3) D show ?thesis unfolding gave_def by blast
qed

lemma dealloc_coalesce:
  assumes inv: "pa_inv pa" and rng: "{v ..< v + n} \<inter> free_mem pa = {}" "0 < v" "v + n < 2 ^ 64"
      "PAGE_SIZE dvd v" "PAGE_SIZE dvd n" "0 < n"
    and fnd: "find_adjacent (anchor pa) v n = Some (p, sd)"
    and new: "(case sd of After \<Rightarrow> coalesce_after (subtree_at p (anchor pa)) n
                        | Before \<Rightarrow> coalesce_before (subtree_at p (anchor pa)) v n) = (new, k)"
  defines "t' \<equiv> if p \<noteq> [] \<and> fp_size new > fp_size (subtree_at (butlast p) (anchor pa))
      then add (replace_at p (merge (fp_low new) (fp_high new)) (anchor pa)) (fp_start new) (fp_size new)
      else replace_at p new (anchor pa)"
  shows "tree_ok t'" "tree_mem t' = free_mem pa \<union> {v ..< v + n}"
proof -
  let ?t = "anchor pa" and ?c = "subtree_at p (anchor pa)"
  have ok: "tree_ok ?t" and b: "blocks_ok (inorder ?t)" using inv by (auto simp: pa_inv_alt tree_ok_def)
  have cl: "clear v n (inorder ?t)"
    using clear_iff_disjoint [OF b rng(6)] rng(1) by (simp add: free_mem_def)
  obtain xs ys where a: "adjacent sd ?c v n" and t: "inorder ?t = xs @ inorder ?c @ ys"
      "\<And>s. inorder (replace_at p s ?t) = xs @ inorder s @ ys"
    and out: "\<forall>x \<in> set xs. fst x + snd x < v" "\<forall>y \<in> set ys. v + n < fst y"
    using find_adjacent_Some [OF fnd b cl rng(3,6)] by blast
  obtain l c m r where cur: "?c = Node l c m r" using a by (cases ?c) (auto simp: adjacent_def)
  have okc: "tree_ok (Node l c m r)"
    using b t cur ok subtree_heap [of ?t p] by (auto simp: tree_ok_def)
  have clc: "clear v n (inorder l)" "clear v n (inorder r)" using cl t cur by auto
  have g: "grown ?c v n new"
  proof (cases sd)
    case After
    then have am: "c + m = v" using a cur by (simp add: adjacent_def)
    then have "\<forall>x \<in> set (inorder r). v < fst x" using okc by (simp add: tree_ok_def)
    from coalesce_after_ok [OF okc am clc(2) rng(6,5,3) this] new After cur show ?thesis by simp
  next
    case Before
    then have am: "v + n = c" using a cur by (simp add: adjacent_def)
    have "\<forall>x \<in> set (inorder l). fst x < v"
    proof
      fix x assume x: "x \<in> set (inorder l)"
      then have "fst x + snd x < c" "block_ok x" using okc by (auto simp: tree_ok_def blocks_ok_def)
      moreover have "fst x + snd x \<le> v \<or> v + n \<le> fst x" using clc(1) x by (auto simp: clear_def)
      ultimately show "fst x < v" using am by (auto simp: block_ok_def)
    qed
    from coalesce_before_ok [OF okc am clc(1) rng(6,2,5,4,3) this] new Before cur show ?thesis by simp
  qed
  have "?c \<noteq> Null" using cur by simp
  from grown_replace [OF ok this g t out]
  show "tree_ok t'" "tree_mem t' = free_mem pa \<union> {v ..< v + n}"
    unfolding t'_def by (auto simp: free_mem_def tree_mem_def)
qed


lemma dealloc_new_block:
  assumes inv: "pa_inv pa" and rng: "{v ..< v + n} \<inter> free_mem pa = {}" "0 < v" "v + n < 2 ^ 64"
      "PAGE_SIZE dvd v" "PAGE_SIZE dvd n" "0 < n"
    and fnd: "find_adjacent (anchor pa) v n = None"
  defines "pa1 \<equiv> pa\<lparr>available := uadd (available pa) n, freeList := freeList pa - 1\<rparr>"
  defines "q \<equiv> if freeList pa1 = 0 then extendFreeList pa1 v n else (pa1, v, n)"
  shows "gave pa {v ..< v + n}
     (if freeList pa1 = 0 \<and> snd (snd q) = 0 then fst q
      else (fst q)\<lparr>anchor := add (anchor (fst q)) (fst (snd q)) (snd (snd q))\<rparr>)"
proof -
  let ?t = "anchor pa"
  have ok: "tree_ok ?t" "0 < freeList pa" and b: "blocks_ok (inorder ?t)"
    using inv by (auto simp: pa_inv_alt tree_ok_def)
  have cl: "clear v n (inorder ?t)"
    using clear_iff_disjoint [OF b rng(6)] rng(1) by (simp add: free_mem_def)
  note ap = find_adjacent_None [OF fnd b cl rng(3,6)]
  have blk: "block_ok (v, n)" using rng by (simp add: block_ok_def)
  have pg: "PAGE_SIZE \<le> n" using blk by (rule block_ok_page)
  consider (many) "freeList pa \<noteq> 1" | (some) "freeList pa = 1" "?t \<noteq> Null" | (none) "freeList pa = 1" "?t = Null"
    by blast
  then show ?thesis
  proof cases
    case many
    with tree_add [OF ok(1) blk ap] ok(2) show ?thesis
      by (intro gaveI [OF inv rng(1-3), of _ "{}"] descriptor_page_empty)
         (auto simp: q_def pa1_def free_mem_def tree_mem_def)
  next
    case some
    obtain pa' d where e: "extendFreeList pa1 v n = (pa', v, n)" "tree_ok (anchor pa')"
      "tree_mem (anchor pa') = tree_mem ?t - {d ..< d + PAGE_SIZE}" "{d ..< d + PAGE_SIZE} \<subseteq> tree_mem ?t"
      "PAGE_SIZE dvd d" "apart (v, n) (inorder (anchor pa'))"
      "available pa' = usub (uadd (available pa) n) PAGE_SIZE" "0 < freeList pa'"
      by (rule extendFreeList_ok [of pa1 v n]) (use ok some ap in \<open>auto simp: pa1_def\<close>)
    let ?D = "{d ..< d + PAGE_SIZE}"
    have mem: "free_mem (pa'\<lparr>anchor := add (anchor pa') v n\<rparr>) = free_mem pa \<union> {v ..< v + n} - ?D"
      using tree_add(2) [OF e(2) blk e(6)] e(3,4) rng(1) by (auto simp: free_mem_def tree_mem_def)
    have "descriptor_page pa (free_mem pa \<union> {v ..< v + n}) ?D"
      using e(4,5) some by (intro descriptor_page_one) (auto simp: free_mem_def tree_mem_def)
    with mem tree_add(1) [OF e(2) blk e(6)] e some rng(6) show ?thesis
      by (intro gaveI [OF inv rng(1-3), of _ ?D]) (auto simp: q_def pa1_def PAGE_SIZE_def)
  next
    case none
    let ?D = "{v ..< v + PAGE_SIZE}"
    have emp: "free_mem pa = {}" using none by (simp add: free_mem_def)
    have nw: "uadd v PAGE_SIZE = v + PAGE_SIZE" "usub n PAGE_SIZE = n - PAGE_SIZE"
      using pg rng by (auto simp: uval_simps)
    have q: "q = (pa1\<lparr>available := usub (available pa1) PAGE_SIZE, freeList := descriptors_per_page + freeList pa1\<rparr>,
        v + PAGE_SIZE, n - PAGE_SIZE)"
      using none nw by (simp add: q_def pa1_def extendFreeList_def getFreePagesMemory_def Let_def)
    have "descriptor_page pa (free_mem pa \<union> {v ..< v + n}) ?D"
      using none pg rng(4) by (intro descriptor_page_one) auto
    moreover have "tree_ok (Node Null (v + PAGE_SIZE) (n - PAGE_SIZE) Null)" if "n \<noteq> PAGE_SIZE"
      using that blk pg by (auto simp: tree_ok_def block_ok_def dvd_diff_nat)
    ultimately show ?thesis using none pg emp
      by (intro gaveI [OF inv rng(1-3), of _ ?D])
         (auto simp: q pa1_def free_mem_def range_of_def descriptors_per_page_def PAGE_SIZE_def tree_ok_def)
  qed
qed

lemma locked_deallocPages_ok:
  assumes inv: "pa_inv pa" and sz: "0 < size0" "size0 + PAGE_SIZE \<le> 2 ^ 64"
    and v: "PAGE_SIZE dvd v" "0 < v" "v + PAGE_ROUND_UP size0 < 2 ^ 64"
      "{v ..< v + PAGE_ROUND_UP size0} \<inter> free_mem pa = {}"
  shows "gave pa {v ..< v + PAGE_ROUND_UP size0} (locked_deallocPages pa v size0)"
proof -
  define n where "n = PAGE_ROUND_UP size0"
  have n: "0 < n" "PAGE_SIZE dvd n"
    using PAGE_ROUND_UP_ge [OF sz(2)] PAGE_ROUND_UP_dvd [OF sz(2)] sz(1) by (auto simp: n_def)
  note rng = v(4,2,3,1) [folded n_def] n(2,1)
  show ?thesis
  proof (cases "find_adjacent (anchor pa) v n")
    case None
    from dealloc_new_block [OF inv rng None] None show ?thesis
      unfolding n_def [symmetric]
      by (auto simp: locked_deallocPages_def n_def [symmetric] Let_def case_prod_beta split: if_splits)
  next
    case (Some ps)
    then obtain p sd where f: "find_adjacent (anchor pa) v n = Some (p, sd)" by (cases ps) auto
    obtain new k where new: "(case sd of After \<Rightarrow> coalesce_after (subtree_at p (anchor pa)) n
        | Before \<Rightarrow> coalesce_before (subtree_at p (anchor pa)) v n) = (new, k)" by fastforce
    define t' where "t' = (if p \<noteq> [] \<and> fp_size new > fp_size (subtree_at (butlast p) (anchor pa))
      then add (replace_at p (merge (fp_low new) (fp_high new)) (anchor pa)) (fp_start new) (fp_size new)
      else replace_at p new (anchor pa))"
    note d = dealloc_coalesce [OF inv rng f new, folded t'_def]
    have eq: "locked_deallocPages pa v size0 =
        pa\<lparr>available := uadd (available pa) n, anchor := t', freeList := freeList pa + k\<rparr>"
      by (simp add: locked_deallocPages_def n_def [symmetric] f new Let_def t'_def)
    have "0 < freeList pa" using inv by (simp add: pa_inv_alt)
    with d show ?thesis unfolding n_def [symmetric] eq
      by (intro gaveI [OF inv rng(1-3), of _ "{}"] descriptor_page_empty)
         (simp_all add: free_mem_def tree_mem_def)
  qed
qed


section \<open>The consistency check\<close>

definition pending :: "freePages list \<Rightarrow> block list" where
  "pending stack = concat (map (\<lambda>c. (fp_start c, fp_size c) # inorder (fp_high c)) stack)"

lemma pending_simps [simp]:
  "pending [] = []" "pending (c # st) = (fp_start c, fp_size c) # inorder (fp_high c) @ pending st"
  by (simp_all add: pending_def)

lemma page_mask_or:
  assumes "PAGE_SIZE dvd a" "PAGE_SIZE dvd m"
  shows "(a OR m) AND (PAGE_SIZE - 1) = 0"
proof -
  have "(a OR m) AND PAGE_MASK = (a AND PAGE_MASK) OR (m AND PAGE_MASK)" 
    by (rule bit_eqI) (auto simp: bit_and_iff bit_or_iff)
  then have "(a OR m) AND PAGE_MASK = 0" using assms by (simp add: and_page_mask)
  then show ?thesis unfolding PAGE_MASK_def .
qed

lemma node_good:
  assumes "tree_ok (Node l a m r)" "clear v n [(a, m)]" "v + n < 2 ^ 64" "largest < a" "0 < n \<or> a + m \<le> v"
  shows "\<not> node_bad (Node l a m r) largest v n"
proof -
  have "block_ok (a, m)" "heap (Node l a m r)" "blocks_ok (inorder l @ (a, m) # inorder r)"
    using assms(1) by (auto simp: tree_ok_def)
  moreover then have "l \<noteq> Null \<longrightarrow> fp_size l \<le> m \<and> fp_start l < a" "r \<noteq> Null \<longrightarrow> fp_size r \<le> m \<and> a < fp_start r"
    by (cases l; cases r; auto)+
  ultimately show ?thesis using assms(2-5) page_mask_or [of a m]
    by (auto simp: node_bad_def block_ok_def uval_simps)
qed


lemma sanity_walk_ok:
  assumes "tree_ok cur" "\<forall>c \<in> set stack. tree_ok (fp_high c)" "blocks_ok (inorder cur @ pending stack)"
    "\<forall>x \<in> set (inorder cur @ pending stack). largest < fst x" "clear v n (inorder cur @ pending stack)"
    "\<forall>x \<in> set (inorder cur @ pending stack). 0 < n \<or> fst x + snd x \<le> v" "v + n < 2 ^ 64"
    "avail + total_size (inorder cur) + (\<Sum>c\<leftarrow>stack. total_size (inorder (fp_high c))) < 2 ^ 64"
  shows "sanity_walk cur stack largest avail v n =
    Some (avail + total_size (inorder cur) + (\<Sum>c\<leftarrow>stack. total_size (inorder (fp_high c))))"
  using assms
proof (induction cur stack largest avail v n rule: sanity_walk.induct)
  case (2 c stack largest avail nf nfs)
  then have "uadd (fp_start c) (fp_size c) = fp_start c + fp_size c" by (auto simp: block_ok_def uval_simps)
  with 2 show ?case by auto
next
  case (3 l a m r stack largest avail nf nfs)
  have good: "\<not> node_bad (Node l a m r) largest nf nfs" using 3 by (intro node_good) auto
  have nw: "uadd a m = a + m" "uadd avail m = avail + m" using "3.prems" by (auto simp: block_ok_def uval_simps)
  have ch: "tree_ok l" "tree_ok r" using tree_ok_children [OF "3.prems"(1)] by auto
  show ?case
  proof (cases "l = Null")
    case True
    have "sanity_walk r stack (uadd a m) (uadd avail m) nf nfs =
        Some (uadd avail m + total_size (inorder r) + (\<Sum>c\<leftarrow>stack. total_size (inorder (fp_high c))))"
      using "3.prems" ch nw True by (intro "3.IH"(2) [OF good]) (auto simp: ball_Un)
    with True good nw show ?thesis by simp
  next
    case False
    have "sanity_walk l (Node l a m r # stack) largest (uadd avail m) nf nfs =
        Some (uadd avail m + total_size (inorder l) +
          (\<Sum>c\<leftarrow>Node l a m r # stack. total_size (inorder (fp_high c))))"
      using "3.prems" ch nw False by (intro "3.IH"(1) [OF good]) (auto simp: ball_Un)
    with False good nw show ?thesis by simp
  qed
qed simp

lemma sanity_ok:
  assumes "pa_inv pa" "clear v n (inorder (anchor pa))" "v + n < 2 ^ 64"
    "\<forall>x \<in> set (inorder (anchor pa)). 0 < n \<or> fst x + snd x \<le> v"
  shows "sanity pa v n"
proof -
  have "\<forall>x \<in> set (inorder (anchor pa)). 0 < fst x"
    using assms(1) by (auto simp: pa_inv_def blocks_ok_def block_ok_def)
  then have "sanity_walk (anchor pa) [] 0 0 v n = Some (0 + total_size (inorder (anchor pa)) + 0)"
    using assms total_less [of "inorder (anchor pa)"] sanity_walk_ok [of "anchor pa" "[]" 0 v n 0]
    by (auto simp: pa_inv_def tree_ok_def)
  then show ?thesis using assms(1) by (simp add: sanity_def pa_inv_def)
qed

section \<open>Clients of a page pool\<close>

text \<open>
  What the clients of an allocator rely on: memory handed out was free and is no longer,
  and freeing adds at most what was freed. Blocks of different owners then never overlap.
\<close>

locale page_pool =
  fixes pinv :: "'s \<Rightarrow> bool"
    and good :: "block \<Rightarrow> bool"
    and free :: "'s \<Rightarrow> nat set"
    and acquires :: "'s \<Rightarrow> block \<Rightarrow> 's \<Rightarrow> bool"
    and releases :: "'s \<Rightarrow> block \<Rightarrow> 's \<Rightarrow> bool"
  assumes acquires_ok: "pinv s \<Longrightarrow> acquires s x s' \<Longrightarrow>
      pinv s' \<and> good x \<and> range_of x \<subseteq> free s \<and> free s' \<subseteq> free s - range_of x"
    and releases_ok: "pinv s \<Longrightarrow> good x \<Longrightarrow> range_of x \<inter> free s = {} \<Longrightarrow> releases s x s' \<Longrightarrow>
      pinv s' \<and> free s' \<subseteq> free s \<union> range_of x"
begin

lemma owned_acquire:
  assumes "pinv s" "acquires s x s'" "\<forall>y \<in> set owned. good y \<and> range_of y \<inter> free s = {}"
    "sorted_wrt (\<lambda>y z. range_of y \<inter> range_of z = {}) owned"
  shows "pinv s'" "\<forall>y \<in> set (x # owned). good y \<and> range_of y \<inter> free s' = {}"
    "sorted_wrt (\<lambda>y z. range_of y \<inter> range_of z = {}) (x # owned)"
    "free s' \<union> bytes_of (x # owned) \<subseteq> free s \<union> bytes_of owned"
  using acquires_ok [OF assms(1,2)] assms(3,4) by (auto 0 3)

lemma owned_release:
  assumes "pinv s" "releases s x s'" "\<forall>y \<in> set (ys @ x # zs). good y \<and> range_of y \<inter> free s = {}"
    "sorted_wrt (\<lambda>y z. range_of y \<inter> range_of z = {}) (ys @ x # zs)"
  shows "pinv s'" "\<forall>y \<in> set (ys @ zs). good y \<and> range_of y \<inter> free s' = {}"
    "sorted_wrt (\<lambda>y z. range_of y \<inter> range_of z = {}) (ys @ zs)"
    "free s' \<union> bytes_of (ys @ zs) \<subseteq> free s \<union> bytes_of (ys @ x # zs)"
proof -
  have r: "pinv s'" "free s' \<subseteq> free s \<union> range_of x"
    using releases_ok [OF assms(1) _ _ assms(2)] assms(3) by auto
  then show "pinv s'" by blast
  show "\<forall>y \<in> set (ys @ zs). good y \<and> range_of y \<inter> free s' = {}"
    using r(2) assms(3,4) by (fastforce simp: sorted_wrt_append)
  show "sorted_wrt (\<lambda>y z. range_of y \<inter> range_of z = {}) (ys @ zs)"
    using assms(4) by (auto simp: sorted_wrt_append)
  show "free s' \<union> bytes_of (ys @ zs) \<subseteq> free s \<union> bytes_of (ys @ x # zs)" using r(2) by auto
qed

end


inductive acquires :: "page_alloc \<Rightarrow> block \<Rightarrow> page_alloc \<Rightarrow> bool" where
  alloc: "0 < sz \<Longrightarrow> sz + PAGE_SIZE \<le> 2 ^ 64 \<Longrightarrow> allocPages pa sz = Inr (v, pa') \<Longrightarrow>
    acquires pa (v, PAGE_ROUND_UP sz) pa'"
| alloc_at: "PAGE_SIZE dvd v \<Longrightarrow> PAGE_SIZE dvd n \<Longrightarrow> 0 < n \<Longrightarrow> v + n < 2 ^ 64 \<Longrightarrow>
    allocPagesAt pa v n = Inr pa' \<Longrightarrow> acquires pa (v, n) pa'"
| alloc_aligned: "0 < sz \<Longrightarrow> sz \<le> 2 ^ 60 \<Longrightarrow> offset < align \<Longrightarrow> align \<le> 2 ^ 61 \<Longrightarrow>
    PAGE_SIZE dvd align \<Longrightarrow> PAGE_SIZE dvd offset \<Longrightarrow>
    allocPagesAligned pa sz align offset = Inr (v, pa') \<Longrightarrow> acquires pa (v, PAGE_ROUND_UP sz) pa'"

inductive releases :: "page_alloc \<Rightarrow> block \<Rightarrow> page_alloc \<Rightarrow> bool" where
  dealloc: "sz + PAGE_SIZE \<le> 2 ^ 64 \<Longrightarrow> n = PAGE_ROUND_UP sz \<Longrightarrow> releases pa (v, n) (deallocPages pa v sz)"

definition pool_inv :: "page_alloc \<Rightarrow> bool" where
  "pool_inv pa \<longleftrightarrow> pa_inv pa \<and> free_mem pa \<subseteq> {..< 2 ^ 63}"

definition owned_ok :: "block \<Rightarrow> bool" where
  "owned_ok x \<longleftrightarrow> block_ok x \<and> fst x + snd x \<le> 2 ^ 63"

lemma PAGE_ROUND_UP_le:
  assumes "sz \<le> 2 ^ 60" shows "PAGE_ROUND_UP sz \<le> 2 ^ 61"
proof -
  have "PAGE_ROUND_UP sz \<le> sz + PAGE_MASK"
    using assms by (subst PAGE_ROUND_UP_eq) (auto simp: PAGE_SIZE_def)
  then show ?thesis using assms by (simp add: PAGE_MASK_def PAGE_SIZE_def)
qed

lemma allocated_range:
  assumes "pool_inv pa" "allocated pa {v ..< v + n} pa'" "0 < n" "PAGE_SIZE dvd v" "PAGE_SIZE dvd n"
  shows "pool_inv pa' \<and> owned_ok (v, n) \<and> range_of (v, n) \<subseteq> free_mem pa \<and> free_mem pa' \<subseteq> free_mem pa - range_of (v, n)"
proof -
  have R: "{v ..< v + n} \<subseteq> free_mem pa" "pa_inv pa'" "free_mem pa' \<subseteq> free_mem pa - {v ..< v + n}"
    using assms(2) by (auto simp: allocated_def)
  have "v \<in> free_mem pa" "v + n - 1 \<in> free_mem pa" using R(1) assms(3) by auto
  then have "0 < v" "v + n - 1 < 2 ^ 63"
    using assms(1) free_mem_less [of pa] by (auto simp: pool_inv_def)
  then show ?thesis using R assms by (auto simp: owned_ok_def block_ok_def pool_inv_def range_of_def)
qed

lemma acquires_allocated:
  assumes "acquires pa x pa'" "pool_inv pa"
  shows "allocated pa (range_of x) pa' \<and> 0 < snd x \<and> PAGE_SIZE dvd fst x \<and> PAGE_SIZE dvd snd x"
  using assms
proof cases
  case (alloc sz v)
  with allocPages_ok [of pa sz] assms(2) PAGE_ROUND_UP_dvd [of sz] PAGE_ROUND_UP_ge [of sz] show ?thesis
    by (auto simp: pool_inv_def range_of_def)
next
  case (alloc_at v n)
  with allocPagesAt_ok [of pa v n] assms(2) show ?thesis by (auto simp: pool_inv_def range_of_def)
next
  case (alloc_aligned sz offset align v)
  have sz: "sz + PAGE_SIZE \<le> 2 ^ 64" using alloc_aligned by (simp add: PAGE_SIZE_def)
  have "case allocPagesAligned pa sz align offset of
      Inr (v, pa') \<Rightarrow> v mod align = offset \<and> allocated pa {v ..< v + PAGE_ROUND_UP sz} pa' | Inl e \<Rightarrow> True"
    using allocPagesAligned_ok [of pa sz align offset] alloc_aligned assms(2) PAGE_ROUND_UP_le [of sz]
    by (auto simp: pool_inv_def split: sum.splits)
  then have a: "v mod align = offset" "allocated pa {v ..< v + PAGE_ROUND_UP sz} pa'" using alloc_aligned by auto
  then have "PAGE_SIZE dvd v" using alloc_aligned by (metis dvd_mod_iff)
  with a alloc_aligned PAGE_ROUND_UP_dvd [OF sz] PAGE_ROUND_UP_ge [OF sz] show ?thesis
    by (auto simp: range_of_def)
qed

interpretation pool: page_pool pool_inv owned_ok free_mem acquires releases
proof
  fix pa x pa' assume "pool_inv pa" "acquires pa x pa'"
  then show "pool_inv pa' \<and> owned_ok x \<and> range_of x \<subseteq> free_mem pa \<and> free_mem pa' \<subseteq> free_mem pa - range_of x"
    using acquires_allocated [of pa x pa'] allocated_range [of pa "fst x" "snd x" pa'] by (auto simp: range_of_def)
next
  fix pa x pa' assume a: "pool_inv pa" "owned_ok x" "range_of x \<inter> free_mem pa = {}" "releases pa x pa'"
  from a(4) obtain sz where sz: "sz + PAGE_SIZE \<le> 2 ^ 64" "snd x = PAGE_ROUND_UP sz" "pa' = deallocPages pa (fst x) sz"
    by cases auto
  have "0 < sz" using sz(2) a(2) by (cases sz) (auto simp: owned_ok_def block_ok_def PAGE_ROUND_UP_eq PAGE_SIZE_def PAGE_MASK_def)
  then have "gave pa (range_of x) pa'"
    using locked_deallocPages_ok [of pa sz "fst x"] a sz
    by (auto simp: pool_inv_def owned_ok_def block_ok_def range_of_def deallocPages_def)
  then show "pool_inv pa' \<and> free_mem pa' \<subseteq> free_mem pa \<union> range_of x"
    using a(1,2) by (auto simp: gave_def pool_inv_def owned_ok_def range_of_def)
qed


inductive client_step :: "page_alloc \<times> block list \<Rightarrow> page_alloc \<times> block list \<Rightarrow> bool" where
  acquire: "acquires pa x pa' \<Longrightarrow> client_step (pa, owned) (pa', x # owned)"
| release: "releases pa x pa' \<Longrightarrow> client_step (pa, ys @ x # zs) (pa', ys @ zs)"

definition client_inv :: "nat set \<Rightarrow> page_alloc \<times> block list \<Rightarrow> bool" where
  "client_inv B s \<longleftrightarrow> pool_inv (fst s) \<and> (\<forall>y \<in> set (snd s). owned_ok y \<and> range_of y \<inter> free_mem (fst s) = {}) \<and>
     sorted_wrt (\<lambda>y z. range_of y \<inter> range_of z = {}) (snd s) \<and> free_mem (fst s) \<union> bytes_of (snd s) \<subseteq> B"

interpretation client: invariant_steps client_step "client_inv B"
proof
  fix s t assume inv: "client_inv B s" and "client_step s t"
  from this(2) show "client_inv B t"
  proof cases
    case (acquire pa x pa' owned)
    with inv pool.owned_acquire [OF _ acquire(3), of owned] show ?thesis
      by (simp add: client_inv_def) blast
  next
    case (release pa x pa' ys zs)
    have i: "pool_inv pa" "\<forall>y \<in> set (ys @ x # zs). owned_ok y \<and> range_of y \<inter> free_mem pa = {}"
      "sorted_wrt (\<lambda>y z. range_of y \<inter> range_of z = {}) (ys @ x # zs)"
      "free_mem pa \<union> bytes_of (ys @ x # zs) \<subseteq> B"
      using inv unfolding client_inv_def release(1) fst_conv snd_conv by blast+
    from pool.owned_release [OF i(1) release(3) i(2,3)] i(4) show ?thesis
      unfolding client_inv_def release(2) fst_conv snd_conv by blast
  qed
qed

lemma init_eq:
  assumes "PAGE_SIZE \<le> n" "s + n < 2 ^ 64"
  shows "init s n = \<lparr>anchor = Node Null (s + PAGE_SIZE) (n - PAGE_SIZE) Null, freeList = descriptors_per_page - 1,
    available = n - PAGE_SIZE\<rparr>"
proof -
  have "uadd s PAGE_SIZE = s + PAGE_SIZE" "usub n PAGE_SIZE = n - PAGE_SIZE" using assms by (auto simp: uval_simps)
  then show ?thesis by (simp add: init_def extendFreeList_def getFreePagesMemory_def)
qed

lemma init_inv:
  assumes "0 < s" "PAGE_SIZE dvd s" "PAGE_SIZE dvd n" "2 * PAGE_SIZE \<le> n" "s + n < 2 ^ 64"
  shows "pa_inv (init s n)" "free_mem (init s n) = {s + PAGE_SIZE ..< s + n}" "1 < freeList (init s n)"
proof -
  have p: "PAGE_SIZE \<le> n" "PAGE_SIZE < n" using assms(4) by (auto simp: PAGE_SIZE_def)
  note e = init_eq [OF p(1) assms(5)]
  show "pa_inv (init s n)" using assms p
    by (simp add: e pa_inv_def block_ok_def dvd_diff_nat) (simp add: descriptors_per_page_def PAGE_SIZE_def)
  show "free_mem (init s n) = {s + PAGE_SIZE ..< s + n}" using p by (simp add: e free_mem_def range_of_def)
  show "1 < freeList (init s n)" by (simp add: e descriptors_per_page_def PAGE_SIZE_def)
qed

section \<open>Properties\<close>

text \<open>
  C9. Memory handed out by the page allocator is never handed out twice. Starting from an
  initialised allocator, after any sequence of \<^verbatim>\<open>allocPages\<close>, \<^verbatim>\<open>allocPagesAt\<close>,
  \<^verbatim>\<open>allocPagesAligned\<close> and \<^verbatim>\<open>deallocPages\<close> of owned blocks, the allocator is well formed, the
  blocks its clients own are pairwise disjoint and disjoint from what is free, and all of
  it lies in the pool.
\<close>

theorem page_owners_never_overlap:
  assumes "0 < s" "PAGE_SIZE dvd s" "PAGE_SIZE dvd n" "2 * PAGE_SIZE \<le> n" "s + n \<le> 2 ^ 63"
    "client_step\<^sup>*\<^sup>* (init s n, []) (pa, owned)"
  shows "pa_inv pa \<and> (\<forall>x \<in> set owned. range_of x \<inter> free_mem pa = {}) \<and>
    sorted_wrt (\<lambda>y z. range_of y \<inter> range_of z = {}) owned \<and>
    free_mem pa \<union> bytes_of owned \<subseteq> {s + PAGE_SIZE ..< s + n}"
proof -
  have lt: "s + n < 2 ^ 64" using assms(5) by simp
  note i = init_inv [OF assms(1-4) lt]
  have "client_inv {s + PAGE_SIZE ..< s + n} (init s n, [])"
    using i(1,2) assms(5) by (auto simp: client_inv_def pool_inv_def)
  from client.steps_inv [OF assms(6) this] show ?thesis by (simp add: client_inv_def pool_inv_def)
qed

text \<open>A pool of seven pages, one of which goes to descriptors, with a hole in the middle.\<close>

definition sample_pool :: page_alloc where
  "sample_pool = init 4096 28672"

definition sample_holed :: page_alloc where
  "sample_holed = \<lparr>anchor = Node Null 8192 12288 (Node Null 24576 8192 Null), freeList = 126, available = 20480\<rparr>"

lemma sample_pool_eq: "sample_pool = \<lparr>anchor = Node Null 8192 24576 Null, freeList = 127, available = 24576\<rparr>"
  by (simp add: sample_pool_def init_eq PAGE_SIZE_def descriptors_per_page_def)

lemma sample_pool_inv: "pa_inv sample_pool"
  unfolding sample_pool_def by (rule init_inv) (simp_all add: PAGE_SIZE_def)

lemma PAGE_ROUND_UP_sample: "PAGE_ROUND_UP 4096 = 4096"
  by (subst PAGE_ROUND_UP_eq) (simp_all add: PAGE_SIZE_def PAGE_MASK_def)

lemma sample_hole: "allocPagesAt sample_pool 20480 4096 = Inr sample_holed"
  by (simp add: sample_pool_eq sample_holed_def allocPagesAt_def allocFromBlock_def uadd_def usub_def)

lemma sample_holed_inv: "pa_inv sample_holed"
  by (simp add: sample_holed_def pa_inv_def block_ok_def PAGE_SIZE_def)

theorem page_owners_never_overlap_witness:
  "pa_inv sample_holed \<and> range_of (20480, 4096) \<inter> free_mem sample_holed = {} \<and>
   free_mem sample_holed \<union> range_of (20480, 4096) \<subseteq> {8192 ..< 32768}"
proof -
  have "acquires sample_pool (20480, 4096) sample_holed"
    by (rule alloc_at [OF _ _ _ _ sample_hole]) (simp_all add: PAGE_SIZE_def)
  then have "client_step\<^sup>*\<^sup>* (sample_pool, []) (sample_holed, [(20480, 4096)])"
    by (intro r_into_rtranclp acquire)
  from page_owners_never_overlap [OF _ _ _ _ _ this [unfolded sample_pool_def]] show ?thesis
    by (simp add: PAGE_SIZE_def)
qed

text \<open>
  C28. \<^verbatim>\<open>allocPages\<close> gives page-aligned memory that was free, takes exactly that range out of the
  free memory and out of the available count, and fails with \<^verbatim>\<open>ENOMEM\<close> exactly when no
  contiguous range of the rounded size is free.
\<close>

theorem allocPages_exact:
  assumes "pa_inv pa" "0 < sz" "sz + PAGE_SIZE \<le> 2 ^ 64"
  shows "case allocPages pa sz of
           Inr (v, pa') \<Rightarrow> PAGE_SIZE dvd v \<and> {v ..< v + PAGE_ROUND_UP sz} \<subseteq> free_mem pa \<and> pa_inv pa' \<and>
             free_mem pa' = free_mem pa - {v ..< v + PAGE_ROUND_UP sz} \<and>
             getMemoryFree pa' = getMemoryFree pa - PAGE_ROUND_UP sz
         | Inl e \<Rightarrow> e = SERROR 1474 0 ENOMEM \<and> \<not> (\<exists>w. {w ..< w + PAGE_ROUND_UP sz} \<subseteq> free_mem pa)"
proof (cases "allocPages pa sz")
  case (Inr x)
  then obtain v pa' where x: "x = (v, pa')" by (cases x) auto
  with allocPages_ok [OF assms] Inr
  have a: "PAGE_SIZE dvd v" "{v ..< v + PAGE_ROUND_UP sz} \<subseteq> free_mem pa" "pa_inv pa'"
      "free_mem pa' = free_mem pa - {v ..< v + PAGE_ROUND_UP sz}"
    by (auto simp: allocated_def)
  then have "available pa' = card (free_mem pa) - PAGE_ROUND_UP sz"
    using free_mem_finite by (simp add: pa_inv_alt card_Diff_subset)
  with a Inr x assms(1) show ?thesis by (simp add: getMemoryFree_def pa_inv_alt)
qed (use allocPages_ok [OF assms] in auto)

theorem allocPages_exact_witness:
  "case allocPages sample_pool 4096 of
     Inr (v, pa') \<Rightarrow> free_mem pa' = free_mem sample_pool - {v ..< v + 4096} \<and> getMemoryFree pa' = 20480
   | Inl e \<Rightarrow> False"
proof -
  have "allocPages sample_pool 4096 =
      Inr (8192, \<lparr>anchor = Node Null 12288 20480 Null, freeList = 127, available = 20480\<rparr>)"
    by (simp add: sample_pool_eq allocPages_def PAGE_ROUND_UP_sample alloc_walk.simps uadd_def usub_def)
  with allocPages_exact [OF sample_pool_inv, of 4096] show ?thesis
    by (simp add: PAGE_SIZE_def PAGE_ROUND_UP_sample getMemoryFree_def)
qed


text \<open>
  \<^verbatim>\<open>allocPagesAt\<close> succeeds exactly when the whole range is free; it then takes the range
  out of the free memory, and at most one further page, for descriptors, when the last
  spare one is used up. Otherwise it fails with \<^verbatim>\<open>ENOMEM\<close>.
\<close>

theorem allocPagesAt_iff_free:
  assumes "pa_inv pa" "PAGE_SIZE dvd v" "PAGE_SIZE dvd n" "0 < n" "v + n < 2 ^ 64"
  shows "if {v ..< v + n} \<subseteq> free_mem pa
         then (\<exists>pa' D. allocPagesAt pa v n = Inr pa' \<and> pa_inv pa' \<and> free_mem pa' = free_mem pa - {v ..< v + n} - D \<and>
                descriptor_page pa (free_mem pa - {v ..< v + n}) D)
         else allocPagesAt pa v n = Inl (SERROR 1475 0 ENOMEM)"
proof (cases "allocPagesAt pa v n")
  case (Inr pa')
  with allocPagesAt_ok [OF assms] show ?thesis unfolding allocated_def by auto
next
  case (Inl e)
  with allocPagesAt_ok [OF assms] show ?thesis by simp
qed

theorem allocPagesAt_iff_free_witness:
  "allocPagesAt sample_pool 20480 4096 = Inr sample_holed \<and>
   free_mem sample_holed = free_mem sample_pool - {20480 ..< 24576}"
proof -
  have "\<forall>S D. descriptor_page sample_pool S D \<longrightarrow> D = {}" by (auto simp: descriptor_page_def sample_pool_eq)
  with allocPagesAt_iff_free [OF sample_pool_inv, of 20480 4096] sample_hole show ?thesis
    by (auto simp: PAGE_SIZE_def split: if_splits)
qed

text \<open>
  \<^verbatim>\<open>allocPagesAligned\<close> gives memory that was free at an address congruent to the offset modulo
  the alignment. When it fails and the tree is no deeper than its stack of 64 entries, no
  free range at such an address exists.
\<close>

theorem allocPagesAligned_correct:
  assumes "pa_inv pa" "0 < sz" "sz \<le> 2 ^ 60" "offset < align" "align \<le> 2 ^ 61"
    "PAGE_SIZE dvd align" "PAGE_SIZE dvd offset" "free_mem pa \<subseteq> {..< 2 ^ 63}"
  shows "case allocPagesAligned pa sz align offset of
           Inr (v, pa') \<Rightarrow> v mod align = offset \<and> {v ..< v + PAGE_ROUND_UP sz} \<subseteq> free_mem pa \<and> pa_inv pa' \<and>
             (\<exists>D. descriptor_page pa (free_mem pa - {v ..< v + PAGE_ROUND_UP sz}) D \<and>
                  free_mem pa' = free_mem pa - {v ..< v + PAGE_ROUND_UP sz} - D)
         | Inl e \<Rightarrow> e = SERROR 1476 0 ENOMEM \<and>
             (depth (anchor pa) \<le> STACK_SIZE \<longrightarrow>
                \<not> (\<exists>w. w mod align = offset \<and> {w ..< w + PAGE_ROUND_UP sz} \<subseteq> free_mem pa))"
proof -
  have sz: "PAGE_ROUND_UP sz \<le> 2 ^ 61" "sz \<le> 2 ^ 61" "0 < align"
    using assms(3,4) PAGE_ROUND_UP_le [of sz] by auto
  have "case allocPagesAligned pa sz align offset of
      Inr (v, pa') \<Rightarrow> v mod align = offset \<and> allocated pa {v ..< v + PAGE_ROUND_UP sz} pa'
    | Inl e \<Rightarrow> e = SERROR 1476 0 ENOMEM \<and> (depth (anchor pa) \<le> STACK_SIZE \<longrightarrow>
        \<not> (\<exists>w. w mod align = offset \<and> {w ..< w + PAGE_ROUND_UP sz} \<subseteq> free_mem pa))"
    by (rule allocPagesAligned_ok) (use assms sz in auto)
  then show ?thesis unfolding allocated_def by (simp split: sum.splits prod.splits)
qed

theorem allocPagesAligned_correct_witness:
  "case allocPagesAligned sample_pool 4096 16384 4096 of
     Inr (v, pa') \<Rightarrow> v mod 16384 = 4096 \<and> {v ..< v + 4096} \<subseteq> free_mem sample_pool
   | Inl e \<Rightarrow> False"
proof -
  have low: "free_mem sample_pool \<subseteq> {..< 2 ^ 63}" by (auto simp: sample_pool_eq free_mem_def range_of_def)
  have "\<exists>v pa'. allocPagesAligned sample_pool 4096 16384 4096 = Inr (v, pa')"
    by (simp add: sample_pool_eq allocPagesAligned_def PAGE_ROUND_UP_sample aligned_walk.simps aligned_addr_def
        uadd_def usub_def umul_def Let_def)
  with allocPagesAligned_correct [OF sample_pool_inv _ _ _ _ _ _ low, of 4096 4096 16384] show ?thesis
    by (auto simp: PAGE_SIZE_def PAGE_ROUND_UP_sample)
qed

text \<open>
  C29. Freeing a range that is not free makes exactly that range free, merges it with its
  neighbours so that no two free blocks touch (the invariant keeps them strictly apart), and
  keeps the available count exact; at most one page goes to descriptors, when the last
  spare one is used up.
\<close>

theorem deallocPages_frees:
  assumes "pa_inv pa" "0 < sz" "sz + PAGE_SIZE \<le> 2 ^ 64" "PAGE_SIZE dvd v" "0 < v"
    "v + PAGE_ROUND_UP sz < 2 ^ 64" "{v ..< v + PAGE_ROUND_UP sz} \<inter> free_mem pa = {}"
  shows "\<exists>D. descriptor_page pa (free_mem pa \<union> {v ..< v + PAGE_ROUND_UP sz}) D \<and>
     free_mem (deallocPages pa v sz) = free_mem pa \<union> {v ..< v + PAGE_ROUND_UP sz} - D \<and>
     pa_inv (deallocPages pa v sz) \<and> sep (inorder (anchor (deallocPages pa v sz)))"
  using locked_deallocPages_ok [OF assms] unfolding deallocPages_def gave_def
  by (auto simp: pa_inv_def blocks_ok_def)

theorem deallocPages_frees_witness:
  "free_mem (deallocPages sample_holed 20480 4096) = free_mem sample_holed \<union> {20480 ..< 24576}"
proof -
  have e: "\<forall>S D. descriptor_page sample_holed S D \<longrightarrow> D = {}" by (auto simp: descriptor_page_def sample_holed_def)
  have "{20480 ..< 20480 + PAGE_ROUND_UP 4096} \<inter> free_mem sample_holed = {}"
    by (auto simp: sample_holed_def free_mem_def range_of_def PAGE_ROUND_UP_sample)
  from deallocPages_frees [OF sample_holed_inv _ _ _ _ _ this] e show ?thesis
    by (auto simp: PAGE_SIZE_def PAGE_ROUND_UP_sample)
qed

text \<open>
  Allocating and freeing is a round trip: the free memory and the available count are
  those from before, unless a page had to go to descriptors.
\<close>

theorem alloc_dealloc_roundtrip:
  assumes "pa_inv pa" "0 < sz" "sz + PAGE_SIZE \<le> 2 ^ 64" "1 < freeList pa" "allocPages pa sz = Inr (v, pa')"
  shows "free_mem (deallocPages pa' v sz) = free_mem pa \<and> getMemoryFree (deallocPages pa' v sz) = getMemoryFree pa \<and>
     pa_inv (deallocPages pa' v sz)"
proof -
  let ?R = "{v ..< v + PAGE_ROUND_UP sz}"
  have a: "PAGE_SIZE dvd v" "0 < v" "?R \<subseteq> free_mem pa" "pa_inv pa'" "freeList pa \<le> freeList pa'"
      "free_mem pa' = free_mem pa - ?R"
    using allocPages_ok [OF assms(1-3)] assms(5) by (auto simp: allocated_def)
  have ge: "sz \<le> PAGE_ROUND_UP sz" by (rule PAGE_ROUND_UP_ge) fact
  then have "v + PAGE_ROUND_UP sz - 1 \<in> free_mem pa" using a(3) assms(2) by auto
  then have "v + PAGE_ROUND_UP sz - 1 < 2 ^ 64" using free_mem_less [OF assms(1)] by auto
  moreover have "v + PAGE_ROUND_UP sz \<noteq> 2 ^ 64"
  proof -
    obtain x where "x \<in> set (inorder (anchor pa))" "v + PAGE_ROUND_UP sz \<le> fst x + snd x"
      using bytes_of_in_block [of "inorder (anchor pa)" v "PAGE_ROUND_UP sz"] a(3) assms(1,2) ge
      by (auto simp: pa_inv_def free_mem_def)
    then show ?thesis using assms(1) by (auto simp: pa_inv_def blocks_ok_def block_ok_def)
  qed
  ultimately have lt: "v + PAGE_ROUND_UP sz < 2 ^ 64" by linarith
  have "?R \<inter> free_mem pa' = {}" using a(6) by blast
  from locked_deallocPages_ok [OF a(4) assms(2,3) a(1,2) lt this]
  have "pa_inv (deallocPages pa' v sz)" "free_mem (deallocPages pa' v sz) = free_mem pa' \<union> ?R"
    using a(5) assms(4) by (auto simp: gave_def descriptor_page_def deallocPages_def)
  moreover then have "free_mem (deallocPages pa' v sz) = free_mem pa" using a(3,6) by blast
  ultimately show ?thesis using assms(1) by (simp add: pa_inv_alt getMemoryFree_def)
qed

theorem alloc_dealloc_roundtrip_witness:
  "case allocPages sample_holed 4096 of
     Inr (v, pa') \<Rightarrow> free_mem (deallocPages pa' v 4096) = free_mem sample_holed
   | Inl e \<Rightarrow> False"
proof -
  obtain v pa' where a: "allocPages sample_holed 4096 = Inr (v, pa')"
    by (simp add: sample_holed_def allocPages_def PAGE_ROUND_UP_sample alloc_walk.simps uadd_def usub_def)
  from alloc_dealloc_roundtrip [OF sample_holed_inv _ _ _ a] a show ?thesis
    by (simp add: PAGE_SIZE_def sample_holed_def)
qed

text \<open>
  The consistency check of the code never reports a well-formed allocator, called with
  its defaults or with a range that is not free.
\<close>

theorem sanity_never_bad:
  assumes "pa_inv pa"
  shows "sanity pa (2 ^ 64 - 1) 0 \<and>
    (\<forall>v n. 0 < n \<and> v + n < 2 ^ 64 \<and> {v ..< v + n} \<inter> free_mem pa = {} \<longrightarrow> sanity pa v n)"
proof -
  have b: "blocks_ok (inorder (anchor pa))" using assms by (simp add: pa_inv_def)
  have "sanity pa (2 ^ 64 - 1) 0"
    using b by (intro sanity_ok [OF assms]) (auto simp: clear_def blocks_ok_def block_ok_def)
  moreover have "sanity pa v n" if "0 < n" "v + n < 2 ^ 64" "{v ..< v + n} \<inter> free_mem pa = {}" for v n
    using that clear_iff_disjoint [OF b that(1)] by (intro sanity_ok [OF assms]) (auto simp: free_mem_def)
  ultimately show ?thesis by blast
qed

theorem sanity_never_bad_witness: "sanity sample_holed 20480 4096"
proof -
  have "{20480 ..< 20480 + 4096} \<inter> free_mem sample_holed = {}"
    by (auto simp: sample_holed_def free_mem_def range_of_def)
  with sanity_never_bad [OF sample_holed_inv] show ?thesis by auto
qed

text \<open>
  \<^verbatim>\<open>allocPages\<close> does not always give the lowest address that fits, although its comments say
  so: it descends into the high subtree whenever that has a block that is big enough, past the
  current block, which lies lower. Here it gives 24576 while the range at 8192 is free.
\<close>

theorem allocPages_not_lowest:
  "\<exists>pa' pa''. allocPages sample_holed 4096 = Inr (24576, pa') \<and> allocPagesAt sample_holed 8192 4096 = Inr pa''"
  by (simp add: sample_holed_def allocPages_def allocPagesAt_def PAGE_ROUND_UP_sample alloc_walk.simps
      uadd_def usub_def Let_def)

end
