(* ===== verification/MemoryMgrPrimitive.thy ===== *)
theory MemoryMgrPrimitive
  imports PageAllocator
begin

text \<open>
  The allocator used while a processor is initialised: \<^verbatim>\<open>MemoryMgrPrimitive\<close> of
  \<^verbatim>\<open>lib/libc/alloc/MemoryMgrPrimitive.H\<close> and \<^verbatim>\<open>MemoryMgrPrimitive.C\<close>, and
  \<^verbatim>\<open>PageAllocatorDefault::deallocAllPages\<close>, which hands what is left to the page allocator. It
  cuts blocks off the front of one range and remembers up to 16 chunks of pages that were
  skipped for alignment. A call of \<^verbatim>\<open>breakpoint\<close> is the error \<^const>\<open>Panic\<close>. The debug filling of
  allocated memory and \<^verbatim>\<open>touchAllocated\<close> only touch memory contents.
\<close>

section \<open>Data\<close>

type_synonym chunk = "uval \<times> uval"

record mem_prim =
  allocStart :: uval
  allocEnd :: uval
  allocNext :: uval
  savedChunk :: "chunk list"
  minAlign :: uval

definition MAX_SAVED_CHUNKS :: nat where
  "MAX_SAVED_CHUNKS = 16"

definition PAGE_ROUND_DOWN :: "uval \<Rightarrow> uval" where
  "PAGE_ROUND_DOWN x = and_not x PAGE_MASK"

definition checkAlign :: "uval \<Rightarrow> bool" where
  "checkAlign v \<longleftrightarrow> PAGE_ROUND_DOWN v = v"

section \<open>Operations\<close>

definition prim_init :: "uval \<Rightarrow> uval \<Rightarrow> uval \<Rightarrow> sys_error + mem_prim" where
  "prim_init allocstart allocend minalign =
     (if \<not> checkAlign allocstart \<or> \<not> checkAlign allocend then Inl Panic
      else Inr \<lparr>allocStart = allocstart, allocEnd = allocend, allocNext = allocstart,
                savedChunk = [], minAlign = minalign\<rparr>)"

definition rememberChunk :: "mem_prim \<Rightarrow> uval \<Rightarrow> uval \<Rightarrow> sys_error + mem_prim" where
  "rememberChunk mp start end' =
     (if \<not> checkAlign start \<or> \<not> checkAlign end' \<or> start > end' \<or> length (savedChunk mp) \<ge> MAX_SAVED_CHUNKS
      then Inl Panic
      else Inr (mp\<lparr>savedChunk := savedChunk mp @ [(start, end')]\<rparr>))"

definition recoverSpace :: "mem_prim \<Rightarrow> uval \<Rightarrow> uval \<Rightarrow> sys_error + mem_prim" where
  "recoverSpace mp start end' =
     (if uadd (PAGE_ROUND_UP start) PAGE_SIZE < PAGE_ROUND_DOWN end'
      then rememberChunk mp (PAGE_ROUND_UP start) (PAGE_ROUND_DOWN end')
      else Inr mp)"

text \<open>The loop of \<^verbatim>\<open>retrieveChunk\<close> on the array from its end, here reversed.\<close>

fun retrieve_loop :: "chunk list \<Rightarrow> (chunk \<times> chunk list) option" where
  "retrieve_loop [] = None"
| "retrieve_loop ((s, e) # cs) = (if e > s then Some ((s, e), cs) else retrieve_loop cs)"

definition retrieveChunk :: "mem_prim \<Rightarrow> chunk option \<times> mem_prim" where
  "retrieveChunk mp =
     (case retrieve_loop (rev (savedChunk mp)) of
        None \<Rightarrow> (None, mp\<lparr>savedChunk := []\<rparr>)
      | Some (c, cs) \<Rightarrow> (Some c, mp\<lparr>savedChunk := rev cs\<rparr>))"

definition align_from :: "uval \<Rightarrow> uval \<Rightarrow> uval \<Rightarrow> uval" where
  "align_from a align offset =
     uadd (and_not (uadd a (usub (usub align offset) 1)) (usub align 1)) offset"

definition prim_alloc :: "mem_prim \<Rightarrow> uval \<Rightarrow> uval \<Rightarrow> uval \<Rightarrow> sys_error + (uval \<times> mem_prim)" where
  "prim_alloc mp size0 align0 offset =
     (let align = (if align0 < minAlign mp then minAlign mp else align0) in
      if offset \<ge> align then Inl Panic
      else
        let ptr = align_from (allocNext mp) align offset;
            n = ALIGN_UP size0 (minAlign mp)
        in if uadd ptr n > allocEnd mp then Inl Panic
           else case recoverSpace mp (allocNext mp) ptr of
                  Inl e \<Rightarrow> Inl e
                | Inr mp' \<Rightarrow> Inr (ptr, mp'\<lparr>allocNext := uadd ptr n\<rparr>))"

text \<open>
  The loop of \<^verbatim>\<open>allocFromChunks\<close> goes down from the last chunk: the first argument counts the
  chunks not looked at yet.
\<close>

fun chunk_loop :: "nat \<Rightarrow> mem_prim \<Rightarrow> uval \<Rightarrow> uval \<Rightarrow> uval \<Rightarrow> sys_error + (uval \<times> mem_prim)" where
  "chunk_loop 0 mp n align offset = Inl (SERROR 2875 0 ENOMEM)"
| "chunk_loop (Suc i) mp n align offset =
     (let (start, end') = savedChunk mp ! i;
          ptr = align_from start align offset
      in if uadd ptr n > end' then chunk_loop i mp n align offset
         else if ptr > start then
           (case recoverSpace (mp\<lparr>savedChunk := (savedChunk mp)[i := (start, ptr)]\<rparr>) (uadd ptr start) end' of
              Inl e \<Rightarrow> Inl e
            | Inr mp' \<Rightarrow> Inr (ptr, mp'))
         else Inr (ptr, mp\<lparr>savedChunk := (savedChunk mp)[i := (uadd ptr n, end')]\<rparr>))"

definition allocFromChunks :: "mem_prim \<Rightarrow> uval \<Rightarrow> uval \<Rightarrow> uval \<Rightarrow> sys_error + (uval \<times> mem_prim)" where
  "allocFromChunks mp n align0 offset =
     (let align = (if align0 < minAlign mp then minAlign mp else align0) in
      if offset \<ge> align then Inl (SERROR 2875 0 ENOMEM)
      else chunk_loop (length (savedChunk mp)) mp n align offset)"

definition allocNextPage :: "mem_prim \<Rightarrow> uval \<times> mem_prim" where
  "allocNextPage mp = (let a = ALIGN_UP (allocNext mp) PAGE_SIZE in (a, mp\<lparr>allocNext := a\<rparr>))"

definition allocAll :: "mem_prim \<Rightarrow> uval \<Rightarrow> uval \<Rightarrow> sys_error + (uval \<times> uval \<times> mem_prim)" where
  "allocAll mp align offset =
     (if offset \<ge> align then Inl Panic
      else
        let ptr = align_from (allocNext mp) align offset in
        case recoverSpace mp (allocNext mp) ptr of
          Inl e \<Rightarrow> Inl e
        | Inr mp1 \<Rightarrow>
            (let n = and_not (usub (allocEnd mp) ptr) (usub align 1) in
             case recoverSpace mp1 (uadd ptr n) (allocEnd mp) of
               Inl e \<Rightarrow> Inl e
             | Inr mp2 \<Rightarrow> Inr (ptr, n, mp2\<lparr>allocNext := allocEnd mp\<rparr>)))"

definition memorySize :: "mem_prim \<Rightarrow> uval" where
  "memorySize mp = foldl (\<lambda>n (s, e). uadd n (usub e s)) 0 (savedChunk mp)"

text \<open>
  \<^verbatim>\<open>deallocAllPages\<close> frees what \<^verbatim>\<open>allocAll\<close> gives and then every chunk that can be retrieved;
  \<^verbatim>\<open>deallocPages\<close> of the page allocator always succeeds.
\<close>

lemma retrieve_loop_length: "retrieve_loop cs = Some (c, ds) \<Longrightarrow> length ds < length cs"
  by (induction cs rule: retrieve_loop.induct) (auto split: if_splits)

lemma retrieveChunk_length: "retrieveChunk mp = (Some c, mp') \<Longrightarrow> length (savedChunk mp') < length (savedChunk mp)"
  by (auto simp: retrieveChunk_def split: option.splits dest!: retrieve_loop_length)

function dealloc_loop :: "page_alloc \<Rightarrow> mem_prim \<Rightarrow> page_alloc \<times> mem_prim" where
  "dealloc_loop pa mp =
     (case retrieveChunk mp of
        (None, mp') \<Rightarrow> (pa, mp')
      | (Some (start, end'), mp') \<Rightarrow> dealloc_loop (deallocPages pa start (usub end' start)) mp')"
  by pat_completeness auto
termination
  by (relation "measure (\<lambda>(pa, mp). length (savedChunk mp))") (auto dest: retrieveChunk_length [OF sym])

declare dealloc_loop.simps [simp del]

definition deallocAllPages :: "page_alloc \<Rightarrow> mem_prim \<Rightarrow> sys_error + (page_alloc \<times> mem_prim)" where
  "deallocAllPages pa mp =
     (case allocAll mp PAGE_SIZE 0 of
        Inl e \<Rightarrow> Inl e
      | Inr (start, n, mp1) \<Rightarrow> Inr (dealloc_loop (deallocPages pa start n) mp1))"

section \<open>Alignment and recovered chunks\<close>

lemma and_not_pow2: "and_not x (2 ^ k - 1) = x div 2 ^ k * 2 ^ k"
  unfolding and_not_def and_mask_nat by (rule minus_mod_eq_div_mult)

lemma align_from_eq:
  assumes "k < 62" "offset < 2 ^ k" "a + 2 * 2 ^ k < 2 ^ 64"
  shows "align_from a (2 ^ k) offset = aligned_addr a (2 ^ k) offset"
proof -
  let ?al = "2 ^ k :: nat" and ?x = "a + 2 ^ k - offset - 1"
  have al: "0 < ?al" "?al < 2 ^ 64" using assms(3) by auto
  have d: "?x div ?al * ?al \<le> ?x" by simp
  have "usub (usub ?al offset) 1 = ?al - offset - 1" "usub ?al 1 = ?al - 1"
    using al assms(2) by (simp_all add: uval_simps)
  moreover have "uadd a (?al - offset - 1) = ?x" using assms by (simp add: uval_simps)
  moreover have "?x div ?al * ?al + offset < 2 ^ 64" using d assms by linarith
  ultimately have "align_from a ?al offset = ?x div ?al * ?al + offset"
    by (simp add: align_from_def and_not_pow2 [simplified] uval_simps)
  with aligned_addr_eq(1) [OF al(1) assms(2,3)] show ?thesis by simp
qed

lemma PAGE_ROUND_DOWN_eq: "PAGE_ROUND_DOWN x = x div PAGE_SIZE * PAGE_SIZE"
  by (simp add: PAGE_ROUND_DOWN_def and_not_def and_page_mask minus_mod_eq_div_mult)

lemma checkAlign_iff: "checkAlign v \<longleftrightarrow> PAGE_SIZE dvd v"
  by (auto simp: checkAlign_def PAGE_ROUND_DOWN_eq dvd_eq_mod_eq_0 minus_mod_eq_div_mult [symmetric] PAGE_SIZE_def)

lemma recoverSpace_cases:
  assumes "recoverSpace mp s e = Inr mp'" "e < 2 ^ 63" "s \<le> e"
  shows "mp' = mp \<or> (\<exists>s' e'. s \<le> s' \<and> s' < e' \<and> e' \<le> e \<and> PAGE_SIZE dvd s' \<and> PAGE_SIZE dvd e' \<and>
     mp' = mp\<lparr>savedChunk := savedChunk mp @ [(s', e')]\<rparr>)"
proof (cases "uadd (PAGE_ROUND_UP s) PAGE_SIZE < PAGE_ROUND_DOWN e")
  case True
  have up: "s \<le> PAGE_ROUND_UP s" "PAGE_ROUND_UP s \<le> s + PAGE_MASK" "PAGE_SIZE dvd PAGE_ROUND_UP s"
  proof -
    have "s + PAGE_SIZE \<le> 2 ^ 64" using assms(2,3) by (simp add: PAGE_SIZE_def)
    then show "s \<le> PAGE_ROUND_UP s" "PAGE_ROUND_UP s \<le> s + PAGE_MASK" "PAGE_SIZE dvd PAGE_ROUND_UP s"
      by (auto simp: PAGE_ROUND_UP_ge PAGE_ROUND_UP_dvd) (simp add: PAGE_ROUND_UP_eq)
  qed
  then have "uadd (PAGE_ROUND_UP s) PAGE_SIZE = PAGE_ROUND_UP s + PAGE_SIZE"
    using assms(2,3) by (simp add: uval_simps PAGE_MASK_def PAGE_SIZE_def)
  then have "PAGE_ROUND_UP s < PAGE_ROUND_DOWN e" using True by simp
  moreover have "PAGE_ROUND_DOWN e \<le> e" "PAGE_SIZE dvd PAGE_ROUND_DOWN e" by (simp_all add: PAGE_ROUND_DOWN_eq)
  ultimately show ?thesis using assms(1) True up
    by (auto simp: recoverSpace_def rememberChunk_def split: if_splits)
qed (use assms(1) in \<open>simp add: recoverSpace_def\<close>)


section \<open>Blocks and chunks never overlap\<close>

text \<open>Two ranges \<open>[start, end)\<close> without a common address.\<close>

definition no_common :: "chunk \<Rightarrow> chunk \<Rightarrow> bool" where
  "no_common x y \<longleftrightarrow> {fst x ..< snd x} \<inter> {fst y ..< snd y} = {}"

definition prim_inv :: "mem_prim \<times> chunk list \<Rightarrow> bool" where
  "prim_inv s \<longleftrightarrow> (let mp = fst s; cs = savedChunk mp @ snd s in
     (\<exists>j < 61. minAlign mp = 2 ^ j) \<and> allocStart mp \<le> allocNext mp \<and> allocNext mp \<le> allocEnd mp \<and>
     allocEnd mp < 2 ^ 62 \<and> (\<forall>c \<in> set cs. allocStart mp \<le> fst c \<and> fst c \<le> snd c \<and> snd c \<le> allocNext mp) \<and>
     (\<forall>c \<in> set (savedChunk mp). fst c < snd c \<and> PAGE_SIZE dvd fst c \<and> PAGE_SIZE dvd snd c) \<and>
     sorted_wrt no_common cs)"

inductive prim_step :: "mem_prim \<times> chunk list \<Rightarrow> mem_prim \<times> chunk list \<Rightarrow> bool" where
  alloc: "k < 61 \<Longrightarrow> sz < 2 ^ 61 \<Longrightarrow> prim_alloc mp sz (2 ^ k) offset = Inr (ptr, mp') \<Longrightarrow>
    prim_step (mp, owned) (mp', owned @ [(ptr, ptr + ALIGN_UP sz (minAlign mp))])"
| next_page: "allocNextPage mp = (a, mp') \<Longrightarrow> a \<le> allocEnd mp \<Longrightarrow> prim_step (mp, owned) (mp', owned)"
| retrieve: "retrieveChunk mp = (c, mp') \<Longrightarrow>
    prim_step (mp, owned) (mp', (case c of None \<Rightarrow> owned | Some x \<Rightarrow> x # owned))"

lemma prim_alloc_ok:
  assumes inv: "prim_inv (mp, owned)" and b: "k < 61" "sz < 2 ^ 61"
    and res: "prim_alloc mp sz (2 ^ k) offset = Inr (ptr, mp')"
  defines "al \<equiv> max (minAlign mp) (2 ^ k)" and "n \<equiv> ALIGN_UP sz (minAlign mp)"
  shows "ptr mod al = offset \<and> allocNext mp \<le> ptr \<and> sz \<le> n \<and> ptr + n \<le> allocEnd mp \<and>
    (\<exists>mp1. mp' = mp1\<lparr>allocNext := ptr + n\<rparr> \<and> recoverSpace mp (allocNext mp) ptr = Inr mp1)"
proof -
  obtain j where j: "j < 61" "minAlign mp = 2 ^ j" using inv by (auto simp: prim_inv_def Let_def)
  have lim: "allocNext mp \<le> allocEnd mp" "allocEnd mp < 2 ^ 62" using inv by (auto simp: prim_inv_def Let_def)
  obtain i where i: "i < 61" "al = 2 ^ i"
    by (rule that [of "max j k"]) (use j b(1) in \<open>auto simp: al_def max_def\<close>)
  have al: "(if 2 ^ k < minAlign mp then minAlign mp else 2 ^ k) = al" by (simp add: al_def max_def)
  have off: "offset < al" using res by (auto simp: prim_alloc_def Let_def al split: if_splits)
  have pow: "(2 :: nat) ^ i \<le> 2 ^ 60" "(2 :: nat) ^ j \<le> 2 ^ 60" using i(1) j(1) by (intro power_increasing; simp)+
  then have lt: "allocNext mp + 2 * 2 ^ i < 2 ^ 64" using lim by simp
  have e: "align_from (allocNext mp) al offset = aligned_addr (allocNext mp) (2 ^ i) offset"
    using align_from_eq [of i offset "allocNext mp"] i off lt by simp
  have ptr: "ptr = aligned_addr (allocNext mp) (2 ^ i) offset" "uadd ptr n \<le> allocEnd mp"
    and mp': "\<exists>mp1. mp' = mp1\<lparr>allocNext := uadd ptr n\<rparr> \<and> recoverSpace mp (allocNext mp) ptr = Inr mp1"
    using res off by (auto simp: prim_alloc_def Let_def al e n_def split: if_splits sum.splits)
  have "is_uval (2 ^ j)" using pow(2) by (simp add: is_uval_def)
  then have n: "sz \<le> n" "n \<le> sz + (2 ^ j - 1)"
    using ALIGN_UP_bounds [of "2 ^ j" sz] pow(2) b(2) by (auto simp: n_def j(2))
  note a = aligned_addr_eq(2-4) [OF _ off [unfolded i(2)] lt, folded ptr(1)]
  have "uadd ptr n = ptr + n" using a(2) n(2) pow lim b(2) by (simp add: uval_simps)
  with a n ptr mp' i show ?thesis by auto
qed

lemma no_common_le: "snd x \<le> fst y \<Longrightarrow> no_common x y" "snd x \<le> fst y \<Longrightarrow> no_common y x"
  by (auto simp: no_common_def)

lemma sorted_wrt_no_common_snoc:
  "sorted_wrt no_common cs \<Longrightarrow> \<forall>c \<in> set cs. snd c \<le> fst x \<Longrightarrow> sorted_wrt no_common (cs @ [x])"
  by (auto simp: sorted_wrt_append no_common_def)

lemma retrieve_loop_Some:
  "retrieve_loop cs = Some (c, ds) \<Longrightarrow> fst c < snd c \<and> (\<exists>es. cs = es @ c # ds \<and> (\<forall>e \<in> set es. snd e \<le> fst e))"
proof (induction cs rule: retrieve_loop.induct)
  case (2 s e cs)
  show ?case
  proof (cases "s < e")
    case False
    with 2 obtain es where "fst c < snd c" "cs = es @ c # ds" "\<forall>e \<in> set es. snd e \<le> fst e" by auto
    with False show ?thesis by (intro conjI exI [of _ "(s, e) # es"]) auto
  qed (use "2.prems" in \<open>auto intro!: exI [of _ "[]"]\<close>)
qed simp


lemma recovered_inv:
  assumes inv: "prim_inv (mp, owned)" and rec: "recoverSpace mp (allocNext mp) p = Inr mp1"
    and p: "allocNext mp \<le> p" "p + n \<le> allocEnd mp"
  shows "prim_inv (mp1\<lparr>allocNext := p + n\<rparr>, owned @ [(p, p + n)])"
proof -
  have "p < 2 ^ 63" using inv p by (auto simp: prim_inv_def Let_def)
  from recoverSpace_cases [OF rec this p(1)] show ?thesis
  proof (elim disjE exE conjE)
    assume "mp1 = mp"
    with inv p sorted_wrt_no_common_snoc [of "savedChunk mp @ owned" "(p, p + n)"] show ?thesis
      by (auto simp: prim_inv_def Let_def intro: order_trans)
  next
    fix s e assume c: "allocNext mp \<le> s" "s < e" "e \<le> p" "PAGE_SIZE dvd s" "PAGE_SIZE dvd e"
      "mp1 = mp\<lparr>savedChunk := savedChunk mp @ [(s, e)]\<rparr>"
    have b: "\<forall>c \<in> set (savedChunk mp @ owned). snd c \<le> allocNext mp" "sorted_wrt no_common (savedChunk mp @ owned)"
      using inv by (auto simp: prim_inv_def Let_def)
    have "no_common c (s, e) \<and> no_common (s, e) c \<and> no_common c (p, p + n)"
      if "c \<in> set (savedChunk mp @ owned)" for c
      using b(1) that c(1-3) no_common_le [of c "(s, e)"] no_common_le [of c "(p, p + n)"] by fastforce
    moreover have "no_common (s, e) (p, p + n)" using c(3) no_common_le [of "(s, e)" "(p, p + n)"] by simp
    ultimately have "sorted_wrt no_common ((savedChunk mp @ [(s, e)] @ owned) @ [(p, p + n)])"
      using b(2) by (simp add: sorted_wrt_append)
    with inv p c show ?thesis by (auto simp: prim_inv_def Let_def intro: order_trans)
  qed
qed

lemma ALIGN_UP_page_ge: "a < 2 ^ 62 \<Longrightarrow> a \<le> ALIGN_UP a PAGE_SIZE"
  by (rule ALIGN_UP_bounds) (auto simp: is_uval_def PAGE_SIZE_def)

interpretation prim: invariant_steps prim_step prim_inv
proof
  fix s t assume inv: "prim_inv s" and "prim_step s t"
  from this(2) show "prim_inv t"
  proof cases
    case (alloc k sz mp offset ptr mp' owned)
    with prim_alloc_ok [OF inv [unfolded alloc(1)] alloc(3-5)] recovered_inv [OF inv [unfolded alloc(1)]]
    show ?thesis by auto
  next
    case (next_page mp a mp' owned)
    have "a = ALIGN_UP (allocNext mp) PAGE_SIZE" "mp' = mp\<lparr>allocNext := a\<rparr>"
      using next_page(3) by (auto simp: allocNextPage_def Let_def)
    moreover have "allocNext mp < 2 ^ 62" using inv next_page(1) by (auto simp: prim_inv_def Let_def)
    ultimately show ?thesis using inv next_page ALIGN_UP_page_ge [of "allocNext mp"]
      by (auto simp: prim_inv_def Let_def intro: order_trans)
  next
    case (retrieve mp c mp' owned)
    show ?thesis
    proof (cases "retrieve_loop (rev (savedChunk mp))")
      case None
      then show ?thesis using retrieve inv
        by (auto simp: retrieveChunk_def prim_inv_def Let_def sorted_wrt_append ball_Un)
    next
      case (Some x)
      then obtain d ds es where x: "x = (d, ds)" "rev (savedChunk mp) = es @ d # ds"
        using retrieve_loop_Some [of "rev (savedChunk mp)"] by (cases x) blast
      then have sv: "savedChunk mp = rev ds @ d # rev es" by (simp add: rev_swap)
      have t: "t = (mp\<lparr>savedChunk := rev ds\<rparr>, d # owned)"
        using Some x retrieve by (auto simp: retrieveChunk_def)
      have "sorted_wrt no_common (rev ds @ d # rev es @ owned)" using inv retrieve(1) sv by (simp add: prim_inv_def Let_def)
      then have "sorted_wrt no_common (rev ds @ d # owned)" by (simp add: sorted_wrt_append)
      with inv retrieve(1) sv show ?thesis unfolding t by (simp add: prim_inv_def Let_def ball_Un)
    qed
  qed
qed


section \<open>Handing memory to the page allocator\<close>

definition dealloc_chunks :: "page_alloc \<Rightarrow> chunk list \<Rightarrow> page_alloc" where
  "dealloc_chunks = foldl (\<lambda>pa (s, e). deallocPages pa s (usub e s))"

lemma dealloc_loop_eq:
  assumes "\<forall>c \<in> set (savedChunk mp). fst c < snd c"
  shows "dealloc_loop pa mp = (dealloc_chunks pa (rev (savedChunk mp)), mp\<lparr>savedChunk := []\<rparr>)"
  using assms
proof (induction pa mp rule: dealloc_loop.induct)
  case (1 pa mp)
  show ?case
  proof (cases "rev (savedChunk mp)")
    case Nil
    then have "retrieveChunk mp = (None, mp\<lparr>savedChunk := []\<rparr>)" by (simp add: retrieveChunk_def)
    with Nil show ?thesis by (simp add: dealloc_loop.simps [of pa mp] dealloc_chunks_def)
  next
    case (Cons c cs)
    obtain s e where c: "c = (s, e)" by (cases c)
    have "c \<in> set (rev (savedChunk mp))" unfolding Cons by simp
    then have lt: "s < e" using "1.prems" c by auto
    have sub: "set cs \<subseteq> set (savedChunk mp)" using arg_cong [OF Cons, of set] by auto
    have r: "retrieveChunk mp = (Some (s, e), mp\<lparr>savedChunk := rev cs\<rparr>)"
      using Cons lt c by (simp add: retrieveChunk_def)
    have "dealloc_loop (deallocPages pa s (usub e s)) (mp\<lparr>savedChunk := rev cs\<rparr>) =
        (dealloc_chunks (deallocPages pa s (usub e s)) cs, mp\<lparr>savedChunk := []\<rparr>)"
      using 1(1) [OF r [symmetric] refl refl] "1.prems" sub by auto
    with r Cons c show ?thesis by (simp add: dealloc_loop.simps [of pa mp] dealloc_chunks_def)
  qed
qed

lemma PAGE_ROUND_UP_id:
  assumes "PAGE_SIZE dvd x" "x + PAGE_SIZE \<le> 2 ^ 64" shows "PAGE_ROUND_UP x = x"
proof -
  obtain q where "x = PAGE_SIZE * q" using assms(1) ..
  then show ?thesis unfolding PAGE_ROUND_UP_eq [OF assms(2)] by (simp add: PAGE_MASK_def PAGE_SIZE_def)
qed

lemma dealloc_freeList:
  assumes "1 < freeList pa"
  shows "freeList pa \<le> Suc (freeList (deallocPages pa v sz))"
  using assms
  by (auto simp: deallocPages_def locked_deallocPages_def Let_def case_prod_beta split: option.split)

lemma dealloc_aligned:
  assumes "pa_inv pa" "1 < freeList pa" "PAGE_SIZE dvd s" "PAGE_SIZE dvd n" "0 < s" "0 < n" "s + n < 2 ^ 62"
    "{s ..< s + n} \<inter> free_mem pa = {}"
  shows "pa_inv (deallocPages pa s n)" "free_mem (deallocPages pa s n) = free_mem pa \<union> {s ..< s + n}"
proof -
  have sz: "n + PAGE_SIZE \<le> 2 ^ 64" using assms(7) by (simp add: PAGE_SIZE_def)
  note id = PAGE_ROUND_UP_id [OF assms(4) sz]
  have "gave pa {s ..< s + n} (deallocPages pa s n)"
    using locked_deallocPages_ok [OF assms(1,6) sz assms(3,5)] assms(7,8) by (simp add: id deallocPages_def)
  then show "pa_inv (deallocPages pa s n)" "free_mem (deallocPages pa s n) = free_mem pa \<union> {s ..< s + n}"
    using assms(2) by (auto simp: gave_def descriptor_page_def)
qed

lemma dealloc_chunks_ok:
  assumes "pa_inv pa" "length cs < freeList pa" "sorted_wrt no_common cs"
    "\<forall>c \<in> set cs. 0 < fst c \<and> fst c < snd c \<and> snd c < 2 ^ 62 \<and> PAGE_SIZE dvd fst c \<and> PAGE_SIZE dvd snd c \<and>
       {fst c ..< snd c} \<inter> free_mem pa = {}"
  shows "pa_inv (dealloc_chunks pa cs) \<and>
    free_mem (dealloc_chunks pa cs) = free_mem pa \<union> (\<Union>c \<in> set cs. {fst c ..< snd c})"
  using assms
proof (induction cs arbitrary: pa)
  case (Cons c cs)
  obtain s e where c: "c = (s, e)" by (cases c)
  have se: "0 < s" "s < e" "e < 2 ^ 62" "PAGE_SIZE dvd s" "PAGE_SIZE dvd e" "{s ..< e} \<inter> free_mem pa = {}"
    using Cons.prems(4) c by auto
  let ?pa = "deallocPages pa s (e - s)"
  have fl: "1 < freeList pa" using Cons.prems(2) by (cases cs) auto
  have d: "pa_inv ?pa" "free_mem ?pa = free_mem pa \<union> {s ..< e}"
    using dealloc_aligned [OF Cons.prems(1) fl se(4), of "e - s"] se by (auto simp: dvd_diff_nat)
  have "length cs < freeList ?pa" using dealloc_freeList [OF fl, of s "e - s"] Cons.prems(2) by simp
  moreover have "\<forall>x \<in> set cs. {fst x ..< snd x} \<inter> free_mem ?pa = {}"
    using Cons.prems(3,4) c d(2) by (auto simp: no_common_def)
  ultimately have "pa_inv (dealloc_chunks ?pa cs) \<and>
      free_mem (dealloc_chunks ?pa cs) = free_mem ?pa \<union> (\<Union>c \<in> set cs. {fst c ..< snd c})"
    using Cons.prems(3,4) d(1) by (intro Cons.IH) auto
  moreover have "usub e s = e - s" using se by (simp add: uval_simps)
  ultimately show ?case using d(2) c by (auto simp: dealloc_chunks_def)
qed (simp add: dealloc_chunks_def)


lemma allocAll_eq:
  assumes "PAGE_SIZE dvd allocEnd mp" "allocEnd mp < 2 ^ 62" "PAGE_ROUND_UP (allocNext mp) \<le> allocEnd mp"
    "allocNext mp \<le> allocEnd mp"
  shows "allocAll mp PAGE_SIZE 0 =
    Inr (PAGE_ROUND_UP (allocNext mp), allocEnd mp - PAGE_ROUND_UP (allocNext mp), mp\<lparr>allocNext := allocEnd mp\<rparr>)"
proof -
  let ?a = "allocNext mp" and ?E = "allocEnd mp" and ?p = "PAGE_ROUND_UP (allocNext mp)"
  have a: "?a + PAGE_SIZE \<le> 2 ^ 64" "?E + PAGE_SIZE \<le> 2 ^ 64" using assms(2,4) by (auto simp: PAGE_SIZE_def)
  have ps: "PAGE_SIZE = 2 ^ 12" by (simp add: PAGE_SIZE_def)
  have lt: "?a + 2 * 2 ^ 12 < 2 ^ 64" using assms(2,4) by simp
  have al: "align_from ?a PAGE_SIZE 0 = ?p"
    unfolding PAGE_ROUND_UP_eq [OF a(1)] using align_from_eq [of 12 0 ?a] aligned_addr_eq(1) [of "2 ^ 12" 0 ?a] lt
    by (simp add: ps PAGE_MASK_def)
  have dp: "PAGE_SIZE dvd ?p" by (rule PAGE_ROUND_UP_dvd) fact
  have r1: "recoverSpace m ?a ?p = Inr m" for m
    using dp assms(2,3) by (simp add: recoverSpace_def uval_simps PAGE_ROUND_DOWN_eq PAGE_SIZE_def)
  have r2: "recoverSpace m ?E ?E = Inr m" for m
    using assms(1,2) PAGE_ROUND_UP_id [OF assms(1) a(2)]
    by (simp add: recoverSpace_def uval_simps PAGE_ROUND_DOWN_eq PAGE_SIZE_def)
  have "usub ?E ?p = ?E - ?p" "usub PAGE_SIZE 1 = 2 ^ 12 - 1"
    using assms(2,3) by (simp_all add: uval_simps PAGE_SIZE_def)
  moreover have "and_not (?E - ?p) (2 ^ 12 - 1) = ?E - ?p"
  proof -
    have "2 ^ 12 dvd ?E - ?p" using dp assms(1) unfolding ps by (rule dvd_diff_nat [rotated])
    then show ?thesis unfolding and_not_pow2 by (rule dvd_div_mult_self)
  qed
  moreover have "uadd ?p (?E - ?p) = ?E" using assms(2,3) by (simp add: uval_simps)
  ultimately show ?thesis using r1 r2 by (simp add: allocAll_def al Let_def)
qed

section \<open>Properties\<close>

text \<open>
  C36. During initialisation no memory is handed out twice. After any sequence of \<^verbatim>\<open>alloc\<close>,
  \<^verbatim>\<open>allocNextPage\<close> and \<^verbatim>\<open>retrieveChunk\<close> from an initialised allocator, the blocks handed out and
  the chunks remembered are pairwise disjoint and lie in the range given.
\<close>

theorem prim_alloc_never_overlaps:
  assumes "prim_init st en (2 ^ j) = Inr mp0" "j < 61" "st \<le> en" "en < 2 ^ 62"
    "prim_step\<^sup>*\<^sup>* (mp0, []) (mp, owned)"
  shows "sorted_wrt no_common (savedChunk mp @ owned) \<and>
    (\<forall>c \<in> set (savedChunk mp @ owned). st \<le> fst c \<and> snd c \<le> en)"
proof -
  have mp0: "mp0 = \<lparr>allocStart = st, allocEnd = en, allocNext = st, savedChunk = [], minAlign = 2 ^ j\<rparr>"
    using assms(1) by (auto simp: prim_init_def split: if_splits)
  have "prim_inv (mp0, [])" using assms(2-4) by (auto simp: mp0 prim_inv_def)
  then have i: "prim_inv (mp, owned)" by (rule prim.steps_inv [OF assms(5)])
  have "allocStart mp = st \<and> allocEnd mp = en"
    using assms(5)
  proof (induction "(mp, owned)" arbitrary: mp owned rule: rtranclp_induct)
    case (step y)
    from step(2) show ?case using step(3) by cases
      (auto simp: prim_alloc_def allocNextPage_def retrieveChunk_def recoverSpace_def rememberChunk_def Let_def
         split: if_splits sum.splits option.splits)
  qed (simp add: mp0)
  with i show ?thesis by (auto simp: prim_inv_def Let_def ball_Un intro: order_trans)
qed


definition sample_prim :: mem_prim where
  "sample_prim = \<lparr>allocStart = 4096, allocEnd = 1048576, allocNext = 4096, savedChunk = [], minAlign = 8\<rparr>"

definition sample_prim2 :: mem_prim where
  "sample_prim2 = \<lparr>allocStart = 4096, allocEnd = 1048576, allocNext = 65632, savedChunk = [(4096, 65536)], minAlign = 8\<rparr>"

lemma sample_prim_alloc: "prim_alloc sample_prim 90 65536 0 = Inr (65536, sample_prim2)"
  by (simp add: sample_prim_def sample_prim2_def prim_alloc_def align_from_def recoverSpace_def rememberChunk_def
      PAGE_ROUND_UP_def PAGE_ROUND_DOWN_def checkAlign_def ALIGN_UP_def and_not_def uadd_def usub_def
      PAGE_SIZE_def PAGE_MASK_def MAX_SAVED_CHUNKS_def)

theorem prim_alloc_never_overlaps_witness:
  "sorted_wrt no_common [(4096, 65536), (65536, 65632)] \<and> savedChunk sample_prim2 = [(4096, 65536)]"
proof -
  have n: "ALIGN_UP 90 (minAlign sample_prim) = 96"
    by (simp add: sample_prim_def ALIGN_UP_def and_not_def uadd_def usub_def)
  have "prim_step (sample_prim, []) (sample_prim2, [] @ [(65536, 65536 + ALIGN_UP 90 (minAlign sample_prim))])"
    by (rule alloc [of 16 90 _ 0]) (simp_all add: sample_prim_alloc)
  then have "prim_step\<^sup>*\<^sup>* (sample_prim, []) (sample_prim2, [(65536, 65632)])"
    unfolding n by (simp add: r_into_rtranclp)
  moreover have "prim_init 4096 1048576 (2 ^ 3) = Inr sample_prim"
    by (simp add: prim_init_def sample_prim_def checkAlign_iff PAGE_SIZE_def)
  ultimately show ?thesis
    using prim_alloc_never_overlaps [of 4096 1048576 3 sample_prim sample_prim2 "[(65536, 65632)]"]
    by (simp add: sample_prim2_def)
qed

text \<open>
  \<^verbatim>\<open>alloc\<close> returns an address with the requested residue, at or above the allocation pointer,
  with room for the size before the end of the range.
\<close>

theorem prim_alloc_correct:
  assumes "prim_inv (mp, owned)" "k < 61" "sz < 2 ^ 61" "prim_alloc mp sz (2 ^ k) offset = Inr (ptr, mp')"
  shows "ptr mod max (minAlign mp) (2 ^ k) = offset \<and> allocNext mp \<le> ptr \<and> ptr + sz \<le> allocNext mp' \<and>
    allocNext mp' \<le> allocEnd mp \<and> prim_inv (mp', owned @ [(ptr, allocNext mp')])"
proof -
  note a = prim_alloc_ok [OF assms]
  then have "prim_inv (mp', owned @ [(ptr, ptr + ALIGN_UP sz (minAlign mp))])"
    using recovered_inv [OF assms(1)] by auto
  with a show ?thesis by auto
qed

theorem prim_alloc_correct_witness:
  "prim_inv (sample_prim2, [(65536, 65632)])"
proof -
  have "prim_inv (sample_prim, [])" by (auto simp: prim_inv_def sample_prim_def intro!: exI [of _ 3])
  from prim_alloc_correct [OF this, of 16 90 0 65536 sample_prim2] sample_prim_alloc show ?thesis
    by (simp add: sample_prim2_def)
qed

text \<open>
  \<^verbatim>\<open>allocFromChunks\<close> recovers the wrong part of a chunk: it passes \<^verbatim>\<open>ptr+start\<close> where the end of
  the block, \<^verbatim>\<open>ptr+size\<close>, is meant. From a chunk at 4096 a block of 65536 bytes aligned to 8192 is
  given at 8192, and the chunk remembered for later use, from 12288 on, overlaps it.
\<close>

theorem allocFromChunks_overlaps:
  "\<exists>mp'. allocFromChunks (sample_prim\<lparr>savedChunk := [(4096, 1048576)]\<rparr>) 65536 8192 0 = Inr (8192, mp') \<and>
     savedChunk mp' = [(4096, 8192), (12288, 1048576)] \<and> \<not> no_common (8192, 8192 + 65536) (12288, 1048576)"
proof -
  have "\<not> no_common (8192, 8192 + 65536) (12288, 1048576)" by (simp add: no_common_def)
  then show ?thesis
    by (simp add: allocFromChunks_def sample_prim_def align_from_def recoverSpace_def rememberChunk_def
        PAGE_ROUND_UP_def PAGE_ROUND_DOWN_def checkAlign_def and_not_def uadd_def usub_def
        PAGE_SIZE_def PAGE_MASK_def MAX_SAVED_CHUNKS_def)
qed

text \<open>
  \<^verbatim>\<open>deallocAllPages\<close> hands over all of the memory left: afterwards the free memory of the page
  allocator is what it was, the whole pages past the allocation pointer and every remembered
  chunk, provided there are spare descriptors and at least a page is left.
\<close>

theorem deallocAllPages_hands_over:
  assumes "pa_inv pa" "prim_inv (mp, [])" "0 < allocStart mp" "PAGE_SIZE dvd allocEnd mp"
    "PAGE_ROUND_UP (allocNext mp) < allocEnd mp" "{allocStart mp ..< allocEnd mp} \<inter> free_mem pa = {}"
    "length (savedChunk mp) + 1 < freeList pa"
  shows "\<exists>pa' mp'. deallocAllPages pa mp = Inr (pa', mp') \<and> pa_inv pa' \<and> savedChunk mp' = [] \<and>
    free_mem pa' = free_mem pa \<union> {PAGE_ROUND_UP (allocNext mp) ..< allocEnd mp} \<union>
      (\<Union>c \<in> set (savedChunk mp). {fst c ..< snd c})"
proof -
  let ?p = "PAGE_ROUND_UP (allocNext mp)" and ?E = "allocEnd mp" and ?cs = "savedChunk mp"
  have lim: "allocNext mp \<le> ?E" "?E < 2 ^ 62" "allocStart mp \<le> allocNext mp"
    and cs: "\<forall>c \<in> set ?cs. allocStart mp \<le> fst c \<and> fst c < snd c \<and> snd c \<le> allocNext mp \<and>
      PAGE_SIZE dvd fst c \<and> PAGE_SIZE dvd snd c" "sorted_wrt no_common ?cs"
    using assms(2) by (auto simp: prim_inv_def Let_def)
  have sz: "allocNext mp + PAGE_SIZE \<le> 2 ^ 64" using lim by (simp add: PAGE_SIZE_def)
  note up = PAGE_ROUND_UP_ge [OF sz] PAGE_ROUND_UP_dvd [OF sz]
  let ?pa = "deallocPages pa ?p (?E - ?p)"
  have "{?p ..< ?E} \<subseteq> {allocStart mp ..< ?E}" using up(1) lim(3) by auto
  then have "{?p ..< ?E} \<inter> free_mem pa = {}" using assms(6) by blast
  then have d: "pa_inv ?pa" "free_mem ?pa = free_mem pa \<union> {?p ..< ?E}"
    using dealloc_aligned [OF assms(1) _ up(2), of "?E - ?p"] assms(3-5,7) up lim by (auto simp: dvd_diff_nat)
  have fl: "length ?cs < freeList ?pa" using dealloc_freeList [of pa ?p "?E - ?p"] assms(7) by simp
  have rng: "0 < fst c \<and> fst c < snd c \<and> snd c < 2 ^ 62 \<and> PAGE_SIZE dvd fst c \<and> PAGE_SIZE dvd snd c \<and>
      {fst c ..< snd c} \<inter> free_mem ?pa = {}" if "c \<in> set ?cs" for c
  proof -
    have c: "allocStart mp \<le> fst c" "fst c < snd c" "snd c \<le> allocNext mp" "PAGE_SIZE dvd fst c" "PAGE_SIZE dvd snd c"
      using cs(1) that by auto
    have "{fst c ..< snd c} \<inter> {?p ..< ?E} = {}" using c(3) up(1) by auto
    moreover have "{fst c ..< snd c} \<subseteq> {allocStart mp ..< ?E}" using c lim by auto
    ultimately have "{fst c ..< snd c} \<inter> free_mem ?pa = {}" using assms(6) unfolding d(2) by blast
    with c lim assms(3) show ?thesis by linarith
  qed
  have "(\<lambda>x y. no_common y x) = no_common" by (intro ext) (auto simp only: no_common_def Int_commute)
  then have srt: "sorted_wrt no_common (rev ?cs)" using cs(2) by (simp add: sorted_wrt_rev)
  from dealloc_chunks_ok [OF d(1), of "rev ?cs"] fl srt rng
  have "pa_inv (dealloc_chunks ?pa (rev ?cs))"
    "free_mem (dealloc_chunks ?pa (rev ?cs)) = free_mem ?pa \<union> (\<Union>c \<in> set ?cs. {fst c ..< snd c})"
    by auto
  with d(2) cs(1) assms(5) lim show ?thesis
    by (simp add: deallocAllPages_def allocAll_eq [OF assms(4)] dealloc_loop_eq)
qed

theorem deallocAllPages_hands_over_witness:
  "\<exists>pa' mp'. deallocAllPages (init 2097152 28672) sample_prim2 = Inr (pa', mp') \<and>
     free_mem pa' = {2101248 ..< 2125824} \<union> {69632 ..< 1048576} \<union> {4096 ..< 65536}"
proof -
  note i = init_inv [of 2097152 28672, simplified PAGE_SIZE_def, simplified]
  have p: "prim_inv (sample_prim2, [])"
    by (auto simp: prim_inv_def sample_prim2_def PAGE_SIZE_def intro!: exI [of _ 3])
  have up: "PAGE_ROUND_UP (allocNext sample_prim2) = 69632"
    by (simp add: sample_prim2_def PAGE_ROUND_UP_eq PAGE_SIZE_def PAGE_MASK_def)
  have dis: "{allocStart sample_prim2 ..< allocEnd sample_prim2} \<inter> free_mem (init 2097152 28672) = {}"
    using i(2) by (auto simp: sample_prim2_def)
  have fl: "length (savedChunk sample_prim2) + 1 < freeList (init 2097152 28672)"
    by (simp add: sample_prim2_def init_eq PAGE_SIZE_def descriptors_per_page_def)
  from deallocAllPages_hands_over [OF i(1) p _ _ _ dis fl] up i(2) show ?thesis
    by (auto simp: sample_prim2_def PAGE_SIZE_def)
qed

text \<open>
  When no whole page is left, \<^verbatim>\<open>deallocAllPages\<close> frees a range of size 0, and the page
  allocator inserts a block of size 0 into its tree, which its consistency check rejects.
\<close>

theorem deallocAllPages_inserts_empty_block:
  "\<exists>pa' mp'. deallocAllPages sample_pool (sample_prim\<lparr>allocNext := 1048576\<rparr>) = Inr (pa', mp') \<and>
     anchor pa' = Node Null 8192 24576 (Node Null 1048576 0 Null) \<and> \<not> sanity pa' (2 ^ 64 - 1) 0"
proof -
  let ?mp = "sample_prim\<lparr>allocNext := 1048576\<rparr>"
  have up: "PAGE_ROUND_UP 1048576 = 1048576" "PAGE_ROUND_UP 0 = 0"
    by (simp_all add: PAGE_ROUND_UP_eq PAGE_SIZE_def PAGE_MASK_def)
  have all: "allocAll ?mp PAGE_SIZE 0 = Inr (1048576, 0, ?mp)"
    by (subst allocAll_eq) (simp_all add: sample_prim_def up PAGE_SIZE_def)
  have d: "deallocPages sample_pool 1048576 0 =
      \<lparr>anchor = Node Null 8192 24576 (Node Null 1048576 0 Null), freeList = 126, available = 24576\<rparr>"
    by (simp add: deallocPages_def locked_deallocPages_def sample_pool_eq up uadd_def)
  have "dealloc_loop pa ?mp = (pa, ?mp)" for pa
    by (subst dealloc_loop_eq) (simp_all add: sample_prim_def dealloc_chunks_def)
  then have "deallocAllPages sample_pool ?mp = Inr (deallocPages sample_pool 1048576 0, ?mp)"
    by (simp add: deallocAllPages_def all)
  moreover have "\<not> sanity (deallocPages sample_pool 1048576 0) (2 ^ 64 - 1) 0"
    by (simp add: d sanity_def node_bad_def uadd_def PAGE_SIZE_def)
  ultimately show ?thesis by (simp add: d)
qed

end
