(* ===== verification/DispatchHeap.thy ===== *)
theory DispatchHeap
  imports K42_Prelude
begin

text \<open>
  The heap of runnable CPU domains: \<^verbatim>\<open>DispatchQueue::Heap\<close> of
  \<^verbatim>\<open>os/kernel/exception/DispatchQueue.H\<close> and \<^verbatim>\<open>DispatchQueue.C\<close>, a binary heap in an array of 16
  elements, the smallest priority value first. A domain is a pointer, here a number. Elements
  move by filling a hole. The check of \<^verbatim>\<open>insert\<close> against overflow is a \<^verbatim>\<open>passertMsg\<close>, which stops the
  system; what a \<^verbatim>\<open>tassertMsg\<close> checks in debug builds only is a hypothesis of the theorems.
\<close>

section \<open>Data and operations\<close>

type_synonym cda_ptr = nat
type_synonym element = "nat \<times> cda_ptr"

definition HEAP_SIZE :: nat where
  "HEAP_SIZE = 16"

record dheap =
  count :: nat
  element :: "element list"

definition heap_init :: dheap where
  "heap_init = \<lparr>count = 0, element = replicate HEAP_SIZE (0, 0)\<rparr>"

definition heap_clear :: "dheap \<Rightarrow> dheap" where
  "heap_clear h = h\<lparr>count := 0\<rparr>"

definition getHead :: "dheap \<Rightarrow> cda_ptr" where
  "getHead h = snd (element h ! 0)"

text \<open>
  The two loops: towards the leaves while a child is smaller, towards the root while the
  parent is larger. They return where the hole ends and the array.
\<close>

function sift_down :: "nat \<Rightarrow> nat \<Rightarrow> nat \<Rightarrow> element list \<Rightarrow> nat \<times> element list" where
  "sift_down n priority hole e =
     (let child = 2 * hole + 1; alt = child + 1 in
      if alt \<ge> n then
        (if alt = n \<and> priority > fst (e ! child) then (child, e[hole := e ! child]) else (hole, e))
      else
        let child' = (if fst (e ! alt) < fst (e ! child) then alt else child) in
        if priority \<le> fst (e ! child') then (hole, e)
        else sift_down n priority child' (e[hole := e ! child']))"
  by pat_completeness auto
termination
  by (relation "measure (\<lambda>(n, p, hole, e). n - hole)") (auto split: if_splits)

declare sift_down.simps [simp del]

function sift_up :: "nat \<Rightarrow> nat \<Rightarrow> element list \<Rightarrow> nat \<times> element list" where
  "sift_up priority hole e =
     (if hole > 0 then
        let parent = (hole - 1) div 2 in
        if priority \<ge> fst (e ! parent) then (hole, e)
        else sift_up priority parent (e[hole := e ! parent])
      else (hole, e))"
  by pat_completeness auto
termination
  by (relation "measure (\<lambda>(p, hole, e). hole)") auto

declare sift_up.simps [simp del]

definition replaceHead :: "dheap \<Rightarrow> nat \<Rightarrow> cda_ptr \<Rightarrow> dheap" where
  "replaceHead h priority cda =
     (let (hole, e) = sift_down (count h) priority 0 (element h)
      in h\<lparr>element := e[hole := (priority, cda)]\<rparr>)"

definition deleteHead :: "dheap \<Rightarrow> dheap" where
  "deleteHead h =
     (let h1 = h\<lparr>count := count h - 1\<rparr>
      in replaceHead h1 (fst (element h ! count h1)) (snd (element h ! count h1)))"

definition heap_insert :: "dheap \<Rightarrow> nat \<Rightarrow> cda_ptr \<Rightarrow> sys_error + dheap" where
  "heap_insert h priority cda =
     (if \<not> count h < HEAP_SIZE then Inl Panic
      else
        let (hole, e) = sift_up priority (count h) (element h)
        in Inr (h\<lparr>count := count h + 1, element := e[hole := (priority, cda)]\<rparr>))"

fun find_cda :: "nat \<Rightarrow> nat \<Rightarrow> element list \<Rightarrow> cda_ptr \<Rightarrow> nat" where
  "find_cda 0 hole e cda = hole"
| "find_cda (Suc k) hole e cda = (if snd (e ! hole) = cda then hole else find_cda k (hole + 1) e cda)"

definition heap_swap :: "dheap \<Rightarrow> nat \<Rightarrow> cda_ptr \<Rightarrow> cda_ptr \<Rightarrow> dheap" where
  "heap_swap h priority newCDA oldCDA =
     (let hole0 = find_cda (count h) 0 (element h) oldCDA;
          (hole1, e1) = sift_up priority hole0 (element h);
          (hole2, e2) = sift_down (count h) priority hole1 e1
      in h\<lparr>element := e2[hole2 := (priority, newCDA)]\<rparr>)"

definition heap_remove :: "dheap \<Rightarrow> cda_ptr \<Rightarrow> dheap" where
  "heap_remove h cda =
     (let h1 = h\<lparr>count := count h - 1\<rparr>;
          newCDA = snd (element h ! count h1)
      in if newCDA \<noteq> cda then heap_swap h1 (fst (element h ! count h1)) newCDA cda else h1)"

section \<open>Heap order with a hole\<close>

definition parent :: "nat \<Rightarrow> nat" where
  "parent i = (i - 1) div 2"

definition heap_list :: "nat \<Rightarrow> element list \<Rightarrow> bool" where
  "heap_list n e \<longleftrightarrow> (\<forall>i. 0 < i \<and> i < n \<longrightarrow> fst (e ! parent i) \<le> fst (e ! i))"

text \<open>
  The order holds away from the hole, and the parent of the hole is no larger than the
  children of the hole.
\<close>

definition holed :: "nat \<Rightarrow> nat \<Rightarrow> element list \<Rightarrow> bool" where
  "holed n h e \<longleftrightarrow> h < n \<and> n \<le> length e \<and>
     (\<forall>i. 0 < i \<and> i < n \<and> i \<noteq> h \<and> parent i \<noteq> h \<longrightarrow> fst (e ! parent i) \<le> fst (e ! i)) \<and>
     (\<forall>i. 0 < i \<and> i < n \<and> parent i = h \<and> 0 < h \<longrightarrow> fst (e ! parent h) \<le> fst (e ! i))"

definition above_ok :: "nat \<Rightarrow> nat \<Rightarrow> element list \<Rightarrow> bool" where
  "above_ok p h e \<longleftrightarrow> (0 < h \<longrightarrow> fst (e ! parent h) \<le> p)"

definition below_ok :: "nat \<Rightarrow> nat \<Rightarrow> nat \<Rightarrow> element list \<Rightarrow> bool" where
  "below_ok n p h e \<longleftrightarrow> (\<forall>i. 0 < i \<and> i < n \<and> parent i = h \<longrightarrow> p \<le> fst (e ! i))"

lemma parent_less: "0 < i \<Longrightarrow> parent i < i"
  by (auto simp: parent_def)

lemma parent_iff: "0 < i \<Longrightarrow> parent i = h \<longleftrightarrow> i = 2 * h + 1 \<or> i = 2 * h + 2"
  by (auto simp: parent_def)

lemma below_ok_iff:
  "below_ok n p h e \<longleftrightarrow>
     (2 * h + 1 < n \<longrightarrow> p \<le> fst (e ! (2 * h + 1))) \<and> (2 * h + 2 < n \<longrightarrow> p \<le> fst (e ! (2 * h + 2)))"
proof -
  have "0 < i \<and> i < n \<and> parent i = h \<longleftrightarrow> i < n \<and> (i = 2 * h + 1 \<or> i = 2 * h + 2)" for i
    using parent_iff [of i h] by auto
  then show ?thesis unfolding below_ok_def by auto
qed

lemma holed_of_heap: "heap_list n e \<Longrightarrow> h < n \<Longrightarrow> n \<le> length e \<Longrightarrow> holed n h e"
  by (auto simp: heap_list_def holed_def dest: parent_less intro: order_trans)

lemma fill_heap:
  assumes "holed n h e" "above_ok p h e" "below_ok n p h e"
  shows "heap_list n (e[h := (p, x)])"
  using assms unfolding heap_list_def holed_def above_ok_def below_ok_def
  by (auto simp: nth_list_update dest: parent_less)

lemma mset_move_hole:
  assumes "h < n" "c < n" "n \<le> length e" "h \<noteq> c"
  shows "mset (take n (e[h := e ! c, c := x])) = mset (take n (e[h := x]))"
proof -
  let ?l = "take n (e[h := x])"
  have "take n (e[h := e ! c, c := x]) = ?l[c := ?l ! h, h := ?l ! c]"
    using assms by (intro nth_equalityI) (auto simp: nth_list_update)
  also have "mset \<dots> = mset ?l" using assms by (intro mset_swap) auto
  finally show ?thesis .
qed


lemma holed_move_down:
  assumes hol: "holed n h e" and c: "0 < c" "c < n" "parent c = h"
    and sm: "\<And>i. 0 < i \<Longrightarrow> i < n \<Longrightarrow> parent i = h \<Longrightarrow> fst (e ! c) \<le> fst (e ! i)"
  shows "holed n c (e[h := e ! c])"
proof -
  have lt: "h < c" "h < length e" using c hol parent_less [of c] by (auto simp: holed_def)
  have "fst (e[h := e ! c] ! parent i) \<le> fst (e[h := e ! c] ! i)"
    if "0 < i" "i < n" "i \<noteq> c" "parent i \<noteq> c" for i
    using that hol sm [OF that(1,2)] c lt parent_less [OF that(1)]
    by (cases "i = h"; cases "parent i = h") (auto simp: holed_def nth_list_update)
  moreover have "fst (e[h := e ! c] ! parent c) \<le> fst (e[h := e ! c] ! i)"
    if "0 < i" "i < n" "parent i = c" for i
    using that hol c lt parent_less [OF that(1)] by (auto simp: holed_def nth_list_update)
  ultimately show ?thesis using hol c by (auto simp: holed_def)
qed

lemma sift_down_ok:
  assumes "sift_down n p h e = (h', e')" "holed n h e" "above_ok p h e"
  shows "holed n h' e' \<and> above_ok p h' e' \<and> below_ok n p h' e' \<and> length e' = length e \<and>
    mset (take n (e'[h' := x])) = mset (take n (e[h := x]))"
  using assms
proof (induction n p h e arbitrary: h' e' rule: sift_down.induct)
  case (1 n p h e)
  let ?c = "2 * h + 1" and ?a = "2 * h + 1 + 1"
  have len: "h < n" "n \<le> length e" using "1.prems"(2) by (auto simp: holed_def)
  have kids: "parent i = h \<longleftrightarrow> i = ?c \<or> i = ?a" if "0 < i" for i using parent_iff [OF that] by simp
  define child where "child = (if fst (e ! ?a) < fst (e ! ?c) then ?a else ?c)"
  have down: "holed n c (e[h := e ! c]) \<and> above_ok p c (e[h := e ! c]) \<and>
      mset (take n (e[h := e ! c, c := x])) = mset (take n (e[h := x]))"
    if "0 < c" "c < n" "parent c = h" "fst (e ! c) < p"
      "\<And>i. 0 < i \<Longrightarrow> i < n \<Longrightarrow> parent i = h \<Longrightarrow> fst (e ! c) \<le> fst (e ! i)" for c
  proof -
    have "h \<noteq> c" using parent_less [OF that(1)] that(3) by simp
    then have m: "mset (take n (e[h := e ! c, c := x])) = mset (take n (e[h := x]))"
      by (rule mset_move_hole [OF len(1) that(2) len(2)])
    have "above_ok p c (e[h := e ! c])" using that(3,4) len by (simp add: above_ok_def)
    with m holed_move_down [OF "1.prems"(2) that(1-3,5)] show ?thesis by blast
  qed
  consider (stop1) "n \<le> ?a" "\<not> (?a = n \<and> fst (e ! ?c) < p)" | (last) "?a = n" "fst (e ! ?c) < p"
    | (stop2) "?a < n" "p \<le> fst (e ! child)" | (go) "?a < n" "fst (e ! child) < p" by linarith
  then show ?case
  proof cases
    case stop1
    then have "h' = h" "e' = e" using "1.prems"(1) by (auto simp: sift_down.simps [of n p h e] Let_def)
    moreover have "below_ok n p h e" using stop1 by (auto simp: below_ok_iff)
    ultimately show ?thesis using "1.prems" by simp
  next
    case last
    then have e: "h' = ?c" "e' = e[h := e ! ?c]" using "1.prems"(1) by (auto simp: sift_down.simps [of n p h e] Let_def)
    have "below_ok n p ?c e'" using last by (auto simp: below_ok_iff)
    with down [of ?c] last e show ?thesis by (auto simp: kids)
  next
    case stop2
    then have "h' = h" "e' = e"
      using "1.prems"(1) by (auto simp: sift_down.simps [of n p h e] Let_def child_def split: if_splits)
    moreover have "below_ok n p h e" using stop2 by (auto simp: below_ok_iff child_def split: if_splits)
    ultimately show ?thesis using "1.prems" by simp
  next
    case go
    have ch: "0 < child" "child < n" "parent child = h"
      "\<And>i. 0 < i \<Longrightarrow> i < n \<Longrightarrow> parent i = h \<Longrightarrow> fst (e ! child) \<le> fst (e ! i)"
      using go(1) by (auto simp: child_def kids split: if_splits)
    from down [OF ch(1-3) go(2) ch(4)]
    have d: "holed n child (e[h := e ! child])" "above_ok p child (e[h := e ! child])"
      "mset (take n (e[h := e ! child, child := x])) = mset (take n (e[h := x]))" by blast+
    have not: "\<not> n \<le> ?a" "\<not> p \<le> fst (e ! child)" using go by linarith+
    have rec: "sift_down n p child (e[h := e ! child]) = (h', e')"
      using go "1.prems"(1) unfolding sift_down.simps [of n p h e]
      by (auto simp: Let_def child_def split: if_splits)
    have "holed n h' e' \<and> above_ok p h' e' \<and> below_ok n p h' e' \<and> length e' = length (e[h := e ! child]) \<and>
        mset (take n (e'[h' := x])) = mset (take n (e[h := e ! child, child := x]))"
      by (rule "1.IH" [OF refl refl not(1) child_def not(2) rec d(1,2)])
    with d(3) show ?thesis by (metis length_list_update)
  qed
qed

lemma holed_move_up:
  assumes hol: "holed n h e" and h: "0 < h"
  shows "holed n (parent h) (e[h := e ! parent h])"
    "p < fst (e ! parent h) \<Longrightarrow> below_ok n p (parent h) (e[h := e ! parent h])"
proof -
  let ?q = "parent h"
  have lt: "?q < h" "h < n" "n \<le> length e" using hol h parent_less [of h] by (auto simp: holed_def)
  have a: "fst (e ! parent i) \<le> fst (e ! i)" if "0 < i" "i < n" "i \<noteq> h" "parent i \<noteq> h" for i
    using hol that by (auto simp: holed_def)
  have b: "fst (e ! ?q) \<le> fst (e ! i)" if "0 < i" "i < n" "parent i = h" for i
    using hol that h by (auto simp: holed_def)
  have sib: "fst (e ! ?q) \<le> fst (e[h := e ! ?q] ! i)" if "0 < i" "i < n" "parent i = ?q" for i
    using a [OF that(1,2)] that lt by (cases "i = h") (auto simp: nth_list_update)
  have "fst (e[h := e ! ?q] ! parent i) \<le> fst (e[h := e ! ?q] ! i)"
    if "0 < i" "i < n" "i \<noteq> ?q" "parent i \<noteq> ?q" for i
    using that a [OF that(1,2)] b [OF that(1,2)] lt by (cases "parent i = h") (auto simp: nth_list_update)
  moreover have "fst (e[h := e ! ?q] ! parent ?q) \<le> fst (e[h := e ! ?q] ! i)"
    if "0 < i" "i < n" "parent i = ?q" "0 < ?q" for i
    using sib [OF that(1-3)] a [of ?q] that(4) lt parent_less [OF that(4)]
    by (auto simp: nth_list_update intro: order_trans)
  ultimately show "holed n ?q (e[h := e ! ?q])" using lt by (auto simp: holed_def)
  show "below_ok n p ?q (e[h := e ! ?q])" if "p < fst (e ! ?q)"
    using sib that unfolding below_ok_def by (meson le_trans less_imp_le)
qed

lemma sift_up_ok:
  assumes "sift_up p h e = (h', e')" "holed n h e"
  shows "holed n h' e' \<and> above_ok p h' e' \<and> (below_ok n p h e \<longrightarrow> below_ok n p h' e') \<and> length e' = length e \<and>
    mset (take n (e'[h' := x])) = mset (take n (e[h := x]))"
  using assms
proof (induction p h e arbitrary: h' e' rule: sift_up.induct)
  case (1 p h e)
  show ?case
  proof (cases "0 < h \<and> p < fst (e ! parent h)")
    case False
    then have "h' = h" "e' = e"
      using "1.prems"(1) by (auto simp: sift_up.simps [of p h e] Let_def parent_def split: if_splits)
    with False "1.prems"(2) show ?thesis by (auto simp: above_ok_def)
  next
    case True
    let ?q = "parent h"
    have rec: "sift_up p ?q (e[h := e ! ?q]) = (h', e')"
      using True "1.prems"(1) by (auto simp: sift_up.simps [of p h e] Let_def parent_def split: if_splits)
    have up: "holed n ?q (e[h := e ! ?q])" "below_ok n p ?q (e[h := e ! ?q])"
      using holed_move_up [OF "1.prems"(2)] True by auto
    have ih: "holed n h' e' \<and> above_ok p h' e' \<and>
        (below_ok n p ?q (e[h := e ! ?q]) \<longrightarrow> below_ok n p h' e') \<and> length e' = length (e[h := e ! ?q]) \<and>
        mset (take n (e'[h' := x])) = mset (take n (e[h := e ! ?q, ?q := x]))"
      by (rule "1.IH" [OF _ parent_def _ rec up(1)]) (use True in auto)
    have "mset (take n (e[h := e ! ?q, ?q := x])) = mset (take n (e[h := x]))"
      using "1.prems"(2) True parent_less [of h] by (intro mset_move_hole) (auto simp: holed_def)
    with ih up show ?thesis by auto
  qed
qed


section \<open>The operations on contents\<close>

definition heap_ok :: "dheap \<Rightarrow> bool" where
  "heap_ok h \<longleftrightarrow> length (element h) = HEAP_SIZE \<and> count h \<le> HEAP_SIZE \<and> heap_list (count h) (element h)"

definition contents :: "dheap \<Rightarrow> element multiset" where
  "contents h = mset (take (count h) (element h))"

lemma mset_take_update:
  "h < n \<Longrightarrow> n \<le> length e \<Longrightarrow> mset (take n (e[h := x])) = add_mset x (mset (take n e) - {#e ! h#})"
  by (simp add: take_update_swap mset_update)

lemma heap_head_min:
  assumes "heap_list n e" "i < n"
  shows "fst (e ! 0) \<le> fst (e ! i)"
  using assms(2)
proof (induction i rule: less_induct)
  case (less i)
  show ?case
  proof (cases "i = 0")
    case False
    then have "parent i < i" by (simp add: parent_less)
    then have "fst (e ! 0) \<le> fst (e ! parent i)" using less by auto
    also have "\<dots> \<le> fst (e ! i)" using assms(1) False less.prems by (simp add: heap_list_def)
    finally show ?thesis .
  qed simp
qed

lemma getHead_in: "heap_ok h \<Longrightarrow> 0 < count h \<Longrightarrow> element h ! 0 \<in># contents h"
  unfolding contents_def set_mset_mset by (auto simp: in_set_conv_nth heap_ok_def intro!: exI [of _ 0])

lemma head_min:
  assumes "heap_ok h" "x \<in># contents h"
  shows "fst (element h ! 0) \<le> fst x"
proof -
  obtain i where "i < count h" "x = element h ! i"
    using assms by (auto simp: contents_def in_set_conv_nth heap_ok_def)
  with assms(1) heap_head_min show ?thesis by (auto simp: heap_ok_def)
qed

lemma replaceHead_ok:
  assumes "heap_ok h" "0 < count h"
  shows "heap_ok (replaceHead h p c)"
    "contents (replaceHead h p c) = add_mset (p, c) (contents h - {#element h ! 0#})"
    "count (replaceHead h p c) = count h"
proof -
  let ?n = "count h" and ?e = "element h"
  obtain k e where s: "sift_down ?n p 0 ?e = (k, e)" by fastforce
  have l: "?n \<le> length ?e" "length ?e = HEAP_SIZE" using assms by (auto simp: heap_ok_def)
  have "holed ?n 0 ?e" using assms l by (intro holed_of_heap) (auto simp: heap_ok_def)
  note d = sift_down_ok [OF s this, of "(p, c)"]
  have d: "holed ?n k e" "above_ok p k e" "below_ok ?n p k e" "length e = length ?e"
    "mset (take ?n (e[k := (p, c)])) = mset (take ?n (?e[0 := (p, c)]))"
    using d by (simp_all add: above_ok_def)
  then show "heap_ok (replaceHead h p c)" "count (replaceHead h p c) = count h"
    using assms fill_heap [of ?n k e p c] by (auto simp: replaceHead_def s heap_ok_def)
  show "contents (replaceHead h p c) = add_mset (p, c) (contents h - {#element h ! 0#})"
    using d(5) assms(2) l(1) by (simp add: replaceHead_def s contents_def mset_take_update)
qed

lemma heap_ok_shrink: "heap_ok h \<Longrightarrow> heap_ok (h\<lparr>count := count h - k\<rparr>)"
  by (auto simp: heap_ok_def heap_list_def)

lemma contents_shrink:
  assumes "heap_ok h" "0 < count h"
  shows "contents h = add_mset (element h ! (count h - 1)) (contents (h\<lparr>count := count h - 1\<rparr>))"
proof -
  have "take (Suc (count h - 1)) (element h) = take (count h - 1) (element h) @ [element h ! (count h - 1)]"
    using assms by (intro take_Suc_conv_app_nth) (auto simp: heap_ok_def HEAP_SIZE_def)
  with assms(2) show ?thesis by (simp add: contents_def)
qed

lemma deleteHead_ok:
  assumes "heap_ok h" "1 < count h"
  shows "heap_ok (deleteHead h)" "contents (deleteHead h) = contents h - {#element h ! 0#}"
    "count (deleteHead h) = count h - 1"
proof -
  let ?h = "h\<lparr>count := count h - 1\<rparr>" and ?x = "element h ! (count h - 1)"
  have d: "deleteHead h = replaceHead ?h (fst ?x) (snd ?x)" by (simp add: deleteHead_def Let_def)
  have "heap_ok ?h" "0 < count ?h" using heap_ok_shrink [OF assms(1)] assms(2) by auto
  note r = replaceHead_ok [OF this, of "fst ?x" "snd ?x", folded d]
  show "heap_ok (deleteHead h)" "count (deleteHead h) = count h - 1" using r by auto
  have "element ?h ! 0 \<in># contents ?h" using getHead_in [OF \<open>heap_ok ?h\<close>] assms(2) by simp
  then show "contents (deleteHead h) = contents h - {#element h ! 0#}"
    using r(2) contents_shrink [OF assms(1)] assms(2) by simp
qed

lemma deleteHead_last:
  assumes "heap_ok h" "count h = 1"
  shows "heap_ok (deleteHead h)" "contents (deleteHead h) = {#}"
  using assms by (auto simp: deleteHead_def replaceHead_def sift_down.simps Let_def heap_ok_def heap_list_def contents_def)

lemma deleteHead_any:
  assumes "heap_ok h" "0 < count h"
  shows "heap_ok (deleteHead h)" "contents (deleteHead h) = contents h - {#element h ! 0#}"
proof -
  have "heap_ok (deleteHead h) \<and> contents (deleteHead h) = contents h - {#element h ! 0#}"
  proof (cases "count h = 1")
    case True
    then have "contents h = {#element h ! 0#}"
      using assms(1) by (cases "element h") (auto simp: contents_def heap_ok_def HEAP_SIZE_def)
    with deleteHead_last [OF assms(1) True] show ?thesis by simp
  qed (use deleteHead_ok [OF assms(1)] assms(2) in auto)
  then show "heap_ok (deleteHead h)" "contents (deleteHead h) = contents h - {#element h ! 0#}" by auto
qed

lemma heap_insert_ok:
  assumes "heap_ok h" "count h < HEAP_SIZE"
  obtains h' where "heap_insert h p c = Inr h'" "heap_ok h'" "contents h' = add_mset (p, c) (contents h)"
    "count h' = count h + 1"
proof -
  let ?n = "count h" and ?e = "element h"
  obtain k e where s: "sift_up p ?n ?e = (k, e)" by fastforce
  have l: "length ?e = HEAP_SIZE" using assms by (auto simp: heap_ok_def)
  have kids: "parent i \<noteq> ?n" if "0 < i" "i < Suc ?n" for i using parent_less [OF that(1)] that(2) by simp
  have "holed (Suc ?n) ?n ?e"
    using assms l kids by (auto simp: holed_def heap_ok_def heap_list_def less_Suc_eq)
  moreover have "below_ok (Suc ?n) p ?n ?e" using kids by (auto simp: below_ok_def)
  ultimately have d: "holed (Suc ?n) k e" "above_ok p k e" "below_ok (Suc ?n) p k e" "length e = length ?e"
    "mset (take (Suc ?n) (e[k := (p, c)])) = mset (take (Suc ?n) (?e[?n := (p, c)]))"
    using sift_up_ok [OF s, of "Suc ?n" "(p, c)"] by auto
  have "take (Suc ?n) (?e[?n := (p, c)]) = take ?n ?e @ [(p, c)]"
    using assms(2) l by (subst take_Suc_conv_app_nth) auto
  with d assms l fill_heap [OF d(1-3), of c] show ?thesis
    by (intro that [of "h\<lparr>count := count h + 1, element := e[k := (p, c)]\<rparr>"])
       (auto simp: heap_insert_def s heap_ok_def contents_def)
qed


lemma find_cda_ok:
  assumes "\<exists>i. j \<le> i \<and> i < j + k \<and> snd (e ! i) = cda"
  shows "find_cda k j e cda < j + k \<and> snd (e ! find_cda k j e cda) = cda"
  using assms
proof (induction k arbitrary: j)
  case (Suc k)
  show ?case
  proof (cases "snd (e ! j) = cda")
    case False
    with Suc.prems have "\<exists>i. j + 1 \<le> i \<and> i < j + 1 + k \<and> snd (e ! i) = cda"
      by (metis Suc_eq_plus1 Suc_leI add_Suc_right add_Suc_shift le_neq_implies_less)
    from Suc.IH [OF this] False show ?thesis by simp
  qed simp
qed auto

lemma heap_swap_ok:
  assumes "heap_ok h" "\<exists>q. (q, old) \<in># contents h"
  obtains q where "(q, old) \<in># contents h" "heap_ok (heap_swap h p new old)"
    "contents (heap_swap h p new old) = add_mset (p, new) (contents h - {#(q, old)#})"
    "count (heap_swap h p new old) = count h"
proof -
  let ?n = "count h" and ?e = "element h"
  define k where "k = find_cda ?n 0 ?e old"
  have l: "?n \<le> length ?e" "length ?e = HEAP_SIZE" using assms by (auto simp: heap_ok_def)
  obtain q' where "(q', old) \<in> set (take ?n ?e)" using assms(2) by (auto simp: contents_def)
  then obtain i where "i < ?n" "snd (?e ! i) = old" using l by (auto simp: in_set_conv_nth)
  then have k: "k < ?n" "snd (?e ! k) = old" using find_cda_ok [of 0 ?n ?e old] by (auto simp: k_def)
  obtain k1 e1 where up: "sift_up p k ?e = (k1, e1)" by fastforce
  obtain k2 e2 where down: "sift_down ?n p k1 e1 = (k2, e2)" by fastforce
  have "holed ?n k ?e" using assms k l by (intro holed_of_heap) (auto simp: heap_ok_def)
  from sift_up_ok [OF up this, of "(p, new)"]
  have u: "holed ?n k1 e1" "above_ok p k1 e1" "length e1 = length ?e"
    "mset (take ?n (e1[k1 := (p, new)])) = mset (take ?n (?e[k := (p, new)]))" by auto
  from sift_down_ok [OF down u(1,2), of "(p, new)"]
  have d: "holed ?n k2 e2" "above_ok p k2 e2" "below_ok ?n p k2 e2" "length e2 = length ?e"
    "mset (take ?n (e2[k2 := (p, new)])) = mset (take ?n (?e[k := (p, new)]))" using u(3,4) by auto
  have s: "heap_swap h p new old = h\<lparr>element := e2[k2 := (p, new)]\<rparr>"
    by (simp add: heap_swap_def Let_def k_def [symmetric] up down)
  have ek: "?e ! k = (fst (?e ! k), old)" using k(2) by (metis prod.collapse)
  have "?e ! k \<in> set (take ?n ?e)" using k(1) l by (auto simp: in_set_conv_nth)
  then have "(fst (?e ! k), old) \<in># contents h" using ek by (simp add: contents_def)
  moreover have "contents (heap_swap h p new old) = add_mset (p, new) (contents h - {#(fst (?e ! k), old)#})"
    using d(5) mset_take_update [OF k(1) l(1)] ek by (simp add: s contents_def)
  moreover have "heap_ok (heap_swap h p new old)"
    using assms(1) d(4) fill_heap [OF d(1-3)] by (auto simp: s heap_ok_def)
  ultimately show ?thesis using that [of "fst (?e ! k)"] by (simp add: s)
qed

lemma heap_remove_ok:
  assumes "heap_ok h" "1 < count h" "\<exists>q. (q, cda) \<in># contents h"
  obtains q where "(q, cda) \<in># contents h" "heap_ok (heap_remove h cda)"
    "contents (heap_remove h cda) = contents h - {#(q, cda)#}" "count (heap_remove h cda) = count h - 1"
proof -
  let ?h = "h\<lparr>count := count h - 1\<rparr>" and ?x = "element h ! (count h - 1)"
  have ok: "heap_ok ?h" by (rule heap_ok_shrink [OF assms(1)])
  have c: "contents h = add_mset ?x (contents ?h)" using contents_shrink [OF assms(1)] assms(2) by simp
  show ?thesis
  proof (cases "snd ?x = cda")
    case True
    then have x: "?x = (fst ?x, cda)" by (metis prod.collapse)
    show ?thesis
      by (rule that [of "fst ?x"]) (use True x c ok in \<open>auto simp: heap_remove_def Let_def\<close>)
  next
    case False
    obtain q0 where q0: "(q0, cda) \<in># contents h" using assms(3) ..
    have "(q0, cda) \<noteq> ?x" using False by (metis snd_conv)
    then have "(q0, cda) \<in># contents ?h" using q0 unfolding c by simp
    then have "\<exists>q. (q, cda) \<in># contents ?h" ..
    then obtain q where q: "(q, cda) \<in># contents ?h" "heap_ok (heap_swap ?h (fst ?x) (snd ?x) cda)"
      "contents (heap_swap ?h (fst ?x) (snd ?x) cda) = add_mset (fst ?x, snd ?x) (contents ?h - {#(q, cda)#})"
      "count (heap_swap ?h (fst ?x) (snd ?x) cda) = count ?h"
      using heap_swap_ok [OF ok] by metis
    have r: "heap_remove h cda = heap_swap ?h (fst ?x) (snd ?x) cda"
      using False by (simp add: heap_remove_def Let_def)
    show ?thesis by (rule that [of q]) (use q c in \<open>auto simp: r\<close>)
  qed
qed

section \<open>The interface of a priority queue\<close>

text \<open>
  What the dispatcher relies on: the head is an element of smallest priority value, and the
  operations add and remove one element.
\<close>

locale domain_queue =
  fixes ok :: "'h \<Rightarrow> bool"
    and elems :: "'h \<Rightarrow> element multiset"
    and hd_elem :: "'h \<Rightarrow> element"
    and replace :: "'h \<Rightarrow> nat \<Rightarrow> cda_ptr \<Rightarrow> 'h"
    and del_head :: "'h \<Rightarrow> 'h"
  assumes head_in: "ok h \<Longrightarrow> elems h \<noteq> {#} \<Longrightarrow> hd_elem h \<in># elems h"
    and head_least: "ok h \<Longrightarrow> x \<in># elems h \<Longrightarrow> fst (hd_elem h) \<le> fst x"
    and replace_law: "ok h \<Longrightarrow> elems h \<noteq> {#} \<Longrightarrow> ok (replace h p c) \<and>
      elems (replace h p c) = add_mset (p, c) (elems h - {#hd_elem h#})"
    and del_head_law: "ok h \<Longrightarrow> size (elems h) > 1 \<Longrightarrow> ok (del_head h) \<and> elems (del_head h) = elems h - {#hd_elem h#}"
begin

lemma del_head_increases:
  assumes "ok h" "size (elems h) > 1"
  shows "fst (hd_elem h) \<le> fst (hd_elem (del_head h))"
proof -
  have d: "ok (del_head h)" "elems (del_head h) = elems h - {#hd_elem h#}" using del_head_law assms by auto
  moreover have "elems h \<noteq> {#}" using assms(2) by auto
  ultimately have "size (elems (del_head h)) = size (elems h) - 1" using head_in assms(1) by (simp add: size_Diff_singleton)
  then have "elems (del_head h) \<noteq> {#}" using assms(2) by auto
  then have "hd_elem (del_head h) \<in># elems (del_head h)" using head_in d(1) by blast
  then have "hd_elem (del_head h) \<in># elems h" unfolding d(2) by (rule in_diffD)
  then show ?thesis by (rule head_least [OF assms(1)])
qed

lemma replace_head_least:
  assumes "ok h" "elems h \<noteq> {#}"
  shows "fst (hd_elem (replace h p c)) \<le> p" "x \<in># elems h - {#hd_elem h#} \<Longrightarrow> fst (hd_elem (replace h p c)) \<le> fst x"
  using replace_law [OF assms, of p c] head_least [of "replace h p c"] by fastforce+

end

lemma size_contents: "heap_ok h \<Longrightarrow> size (contents h) = count h"
  by (simp add: contents_def heap_ok_def HEAP_SIZE_def)

interpretation dq: domain_queue heap_ok contents "\<lambda>h. element h ! 0" replaceHead deleteHead
proof
  fix h assume ok: "heap_ok h"
  have pos: "contents h \<noteq> {#} \<Longrightarrow> 0 < count h" using size_contents [OF ok] by (cases "count h") auto
  show "contents h \<noteq> {#} \<Longrightarrow> element h ! 0 \<in># contents h" by (rule getHead_in [OF ok pos])
  show "x \<in># contents h \<Longrightarrow> fst (element h ! 0) \<le> fst x" for x by (rule head_min [OF ok])
  show "contents h \<noteq> {#} \<Longrightarrow> heap_ok (replaceHead h p c) \<and>
      contents (replaceHead h p c) = add_mset (p, c) (contents h - {#element h ! 0#})" for p c
    using replaceHead_ok [OF ok pos] by simp
  show "1 < size (contents h) \<Longrightarrow> heap_ok (deleteHead h) \<and> contents (deleteHead h) = contents h - {#element h ! 0#}"
    using deleteHead_ok [OF ok] size_contents [OF ok] by simp
qed


section \<open>The heap as a priority queue\<close>

text \<open>
  The calls the dispatcher makes, with the conditions their callers keep: the head is only
  deleted or replaced when there is one, and swapped or removed domains are in the heap.
\<close>

datatype heap_call = Insert nat cda_ptr | ReplaceHead nat cda_ptr | DeleteHead | Swap nat cda_ptr cda_ptr | Remove cda_ptr

fun run_call :: "heap_call \<Rightarrow> dheap \<Rightarrow> sys_error + dheap" where
  "run_call (Insert p c) h = heap_insert h p c"
| "run_call (ReplaceHead p c) h = Inr (replaceHead h p c)"
| "run_call DeleteHead h = Inr (deleteHead h)"
| "run_call (Swap p new old) h = Inr (heap_swap h p new old)"
| "run_call (Remove c) h = Inr (heap_remove h c)"

fun call_ok :: "heap_call \<Rightarrow> element multiset \<Rightarrow> bool" where
  "call_ok (Insert p c) M \<longleftrightarrow> size M < HEAP_SIZE"
| "call_ok (ReplaceHead p c) M \<longleftrightarrow> M \<noteq> {#}"
| "call_ok DeleteHead M \<longleftrightarrow> M \<noteq> {#}"
| "call_ok (Swap p new old) M \<longleftrightarrow> old \<in># image_mset snd M"
| "call_ok (Remove c) M \<longleftrightarrow> c \<in># image_mset snd M"

text \<open>The abstract queue is the multiset of its elements; equal priorities leave it a choice.\<close>

definition least :: "element \<Rightarrow> element multiset \<Rightarrow> bool" where
  "least x M \<longleftrightarrow> x \<in># M \<and> (\<forall>y \<in># M. fst x \<le> fst y)"

inductive pq_step :: "heap_call \<Rightarrow> element multiset \<Rightarrow> element multiset \<Rightarrow> bool" where
  "pq_step (Insert p c) M (add_mset (p, c) M)"
| "least x M \<Longrightarrow> pq_step (ReplaceHead p c) M (add_mset (p, c) (M - {#x#}))"
| "least x M \<Longrightarrow> pq_step DeleteHead M (M - {#x#})"
| "(q, old) \<in># M \<Longrightarrow> pq_step (Swap p new old) M (add_mset (p, new) (M - {#(q, old)#}))"
| "(q, c) \<in># M \<Longrightarrow> pq_step (Remove c) M (M - {#(q, c)#})"

inductive pq_steps :: "heap_call list \<Rightarrow> element multiset \<Rightarrow> element multiset \<Rightarrow> bool" where
  "pq_steps [] M M"
| "pq_step x M N \<Longrightarrow> pq_steps xs N P \<Longrightarrow> pq_steps (x # xs) M P"

fun run_calls :: "heap_call list \<Rightarrow> dheap \<Rightarrow> (sys_error + dheap) option" where
  "run_calls [] h = Some (Inr h)"
| "run_calls (x # xs) h =
     (if \<not> call_ok x (contents h) then None
      else case run_call x h of Inl e \<Rightarrow> Some (Inl e) | Inr h' \<Rightarrow> run_calls xs h')"

lemma head_least: "heap_ok h \<Longrightarrow> contents h \<noteq> {#} \<Longrightarrow> least (element h ! 0) (contents h)"
  using dq.head_in dq.head_least by (simp add: least_def)

lemma heap_remove_any:
  assumes "heap_ok h" "c \<in># image_mset snd (contents h)"
  shows "\<exists>q. (q, c) \<in># contents h \<and> heap_ok (heap_remove h c) \<and> contents (heap_remove h c) = contents h - {#(q, c)#}"
proof (cases "1 < count h")
  case True
  have "\<exists>q. (q, c) \<in># contents h" using assms(2) by force
  from heap_remove_ok [OF assms(1) True this] show ?thesis by blast
next
  case False
  moreover have "0 < count h" using assms(2) by (cases "count h") (auto simp: contents_def)
  ultimately have one: "count h = 1" by simp
  have c: "contents h = {#element h ! 0#}"
    using assms(1) one by (cases "element h") (auto simp: contents_def heap_ok_def HEAP_SIZE_def)
  then have "snd (element h ! 0) = c" using assms(2) by simp
  then show ?thesis using assms(1) one c
    by (auto simp: heap_remove_def heap_ok_def heap_list_def contents_def Let_def intro!: exI [of _ "fst (element h ! 0)"])
qed

lemma run_call_refines:
  assumes ok: "heap_ok h" and g: "call_ok x (contents h)"
  shows "\<exists>h'. run_call x h = Inr h' \<and> heap_ok h' \<and> pq_step x (contents h) (contents h')"
proof (cases x)
  case (Insert p c)
  then have "count h < HEAP_SIZE" using g size_contents [OF ok] by simp
  from heap_insert_ok [OF ok this] show ?thesis using Insert pq_step.intros(1) by (metis run_call.simps(1))
next
  case (ReplaceHead p c)
  then show ?thesis using dq.replace_law [OF ok] pq_step.intros(2) [OF head_least [OF ok]] g by simp
next
  case DeleteHead
  then have ne: "contents h \<noteq> {#}" using g by simp
  then have "0 < count h" using size_contents [OF ok] by (cases "count h") auto
  then show ?thesis using DeleteHead deleteHead_any [OF ok] pq_step.intros(3) [OF head_least [OF ok ne]] by simp
next
  case (Swap p new old)
  then have "\<exists>q. (q, old) \<in># contents h" using g by force
  from heap_swap_ok [OF ok this, of p new] show ?thesis using Swap pq_step.intros(4) by (metis run_call.simps(4))
next
  case (Remove c)
  then show ?thesis using heap_remove_any [OF ok] g pq_step.intros(5) by (metis call_ok.simps(5) run_call.simps(5))
qed

text \<open>
  C15. A heap that starts empty behaves as a priority queue for any sequence of calls that
  respects their conditions: no call fails, the contents of the heap follow the
  abstract queue, and the head is an element of least priority.
\<close>

theorem heap_refines_priority_queue:
  assumes "run_calls xs heap_init = Some r"
  shows "\<exists>h. r = Inr h \<and> heap_ok h \<and> pq_steps xs {#} (contents h) \<and>
    (contents h \<noteq> {#} \<longrightarrow> least (element h ! 0) (contents h))"
proof -
  have gen: "\<exists>h'. r = Inr h' \<and> heap_ok h' \<and> pq_steps xs (contents h) (contents h')"
    if "run_calls xs h = Some r" "heap_ok h" for h
    using that
  proof (induction xs arbitrary: h)
    case Nil
    then show ?case by (auto intro: pq_steps.intros)
  next
    case (Cons x xs)
    then have g: "call_ok x (contents h)" by (auto split: if_splits)
    from run_call_refines [OF Cons.prems(2) g] obtain h1
      where h1: "run_call x h = Inr h1" "heap_ok h1" "pq_step x (contents h) (contents h1)" by blast
    with Cons.prems(1) g have "run_calls xs h1 = Some r" by simp
    from Cons.IH [OF this h1(2)] h1(3) show ?case by (auto intro: pq_steps.intros)
  qed
  have "heap_ok heap_init" "contents heap_init = {#}"
    by (simp_all add: heap_init_def heap_ok_def heap_list_def contents_def)
  from gen [OF assms this(1)] this(2) show ?thesis using head_least by auto
qed

theorem heap_refines_priority_queue_witness:
  "\<exists>h. run_calls [Insert 5 1, Insert 3 2, Insert 4 3, DeleteHead] heap_init = Some (Inr h) \<and>
     least (element h ! 0) (contents h) \<and> getHead h = 3"
proof -
  let ?xs = "[Insert 5 1, Insert 3 2, Insert 4 3, DeleteHead]"
  have "case run_calls ?xs heap_init of Some (Inr h) \<Rightarrow> getHead h = 3 \<and> contents h \<noteq> {#} | _ \<Rightarrow> False"
    by code_simp
  then obtain h where h: "run_calls ?xs heap_init = Some (Inr h)" "getHead h = 3" "contents h \<noteq> {#}"
    by (auto split: option.splits sum.splits)
  from heap_refines_priority_queue [OF h(1)] h show ?thesis by auto
qed

end
