(* ===== verification/CPUDomain.thy ===== *)
theory CPUDomain
  imports DispatchHeap
begin

text \<open>
  CPU domains and the process annexes that run in them: \<^verbatim>\<open>CPUDomainAnnex\<close> and the scheduling
  fields of \<^verbatim>\<open>ProcessAnnex\<close> (\<^verbatim>\<open>os/kernel/exception/CPUDomainAnnex.H\<close>, \<^verbatim>\<open>CPUDomainAnnex.C\<close>,
  \<^verbatim>\<open>ProcessAnnex.H\<close>, \<^verbatim>\<open>ProcessAnnex.C\<close>) and the constants of \<^verbatim>\<open>os/kernel/sys/KernelScheduler.H\<close>.
  Objects live in a store: a pointer is a number, 0 is \<^verbatim>\<open>NULL\<close>, and the annexes of a domain that
  may run form a ring through \<^verbatim>\<open>cpuDomainNext\<close>. Everything runs with interrupts disabled on one
  processor. The test \<^verbatim>\<open>dispatcher->hasWork || dispatcher->interrupts.pending()\<close> reads two
  flags of the annex.
\<close>

section \<open>Constants\<close>

definition PRIORITY_CLASS_KERNEL :: nat where "PRIORITY_CLASS_KERNEL = 1"
definition PRIORITY_CLASS_IDLE :: nat where "PRIORITY_CLASS_IDLE = 6"
definition PRIORITY_CLASS_UNRUNNABLE :: nat where "PRIORITY_CLASS_UNRUNNABLE = 7"
definition NUM_PRIORITY_CLASSES :: nat where "NUM_PRIORITY_CLASSES = 8"
definition MIN_WEIGHT :: uval where "MIN_WEIGHT = 1"
definition MAX_WEIGHT :: uval where "MAX_WEIGHT = 4096"
definition MIN_QUANTUM_MICROSECS :: uval where "MIN_QUANTUM_MICROSECS = 100"
definition MAX_QUANTUM_MICROSECS :: uval where "MAX_QUANTUM_MICROSECS = 40000"
definition MIN_PULSE_MICROSECS :: uval where "MIN_PULSE_MICROSECS = 100"
definition MAX_PULSE_MICROSECS :: uval where "MAX_PULSE_MICROSECS = 40000"
definition EXPONENT_BITS :: nat where "EXPONENT_BITS = 40"
definition MANTISSA_BITS :: nat where "MANTISSA_BITS = 20"

section \<open>Process annexes\<close>

type_synonym pa_ptr = nat

record pannex =
  cpuDomainNext :: pa_ptr
  cpuDomainAnnex :: cda_ptr
  reservedThread :: nat
  hasWork :: bool
  intrPending :: bool
  awaitingDispatch :: bool
  terminating :: bool
  dispatchTicks :: uval
  pulseTicks :: uval
  warningTicks :: uval
  pa_pp :: nat

definition SysTimeMax :: uval where "SysTimeMax = 2 ^ 64 - 1"

definition stillRunnable_pa :: "pannex \<Rightarrow> bool" where
  "stillRunnable_pa p \<longleftrightarrow> reservedThread p = 0 \<and> (hasWork p \<or> intrPending p)"

definition addTime :: "uval \<Rightarrow> pannex \<Rightarrow> pannex" where
  "addTime delta p = p\<lparr>dispatchTicks := uadd (dispatchTicks p) delta\<rparr>"

definition setWarning :: "uval \<Rightarrow> pannex \<Rightarrow> pannex" where
  "setWarning warningQuantum p = p\<lparr>warningTicks := uadd (dispatchTicks p) warningQuantum\<rparr>"

definition clearWarning :: "pannex \<Rightarrow> pannex" where
  "clearWarning p = p\<lparr>warningTicks := SysTimeMax\<rparr>"

definition hasWarning :: "pannex \<Rightarrow> bool" where
  "hasWarning p \<longleftrightarrow> warningTicks p \<noteq> SysTimeMax"

definition warningExpired :: "pannex \<Rightarrow> bool" where
  "warningExpired p \<longleftrightarrow> dispatchTicks p \<ge> warningTicks p"

definition pulseNeeded :: "pannex \<Rightarrow> bool" where
  "pulseNeeded p \<longleftrightarrow> dispatchTicks p \<ge> pulseTicks p"

definition resetPulse :: "uval \<Rightarrow> pannex \<Rightarrow> pannex" where
  "resetPulse pulseInterval p = p\<lparr>pulseTicks := uadd (dispatchTicks p) pulseInterval\<rparr>"

text \<open>
  The loop of \<^verbatim>\<open>reschedulePulse\<close>: it ends when the pulse is no longer in the past. The value is
  \<^const>\<open>None\<close> when it does not end, as with an interval of 0.
\<close>

partial_function (option) pulse_loop :: "uval \<Rightarrow> uval \<Rightarrow> uval \<Rightarrow> uval option" where
  "pulse_loop interval ticks pulse =
     (let pulse' = uadd pulse interval
      in if pulse' < ticks then pulse_loop interval ticks pulse' else Some pulse')"

definition pa_getTimeout :: "pannex \<Rightarrow> uval" where
  "pa_getTimeout p =
     min (usub (warningTicks p) (dispatchTicks p)) (usub (pulseTicks p) (dispatchTicks p))"

section \<open>CPU domains\<close>

text \<open>The priority is one word of three fields: 4 bits of class, 40 of exponent, 20 of mantissa.\<close>

record cdomain =
  pclass :: nat
  exponent :: nat
  mantissa :: nat
  consumedTicks :: uval
  quantum :: uval
  pulseInterval :: uval
  drag :: uval
  weight :: uval
  currentPA :: pa_ptr
  cda_pp :: nat

definition getPriority :: "cdomain \<Rightarrow> nat" where
  "getPriority c = pclass c * 2 ^ (EXPONENT_BITS + MANTISSA_BITS) + exponent c * 2 ^ MANTISSA_BITS + mantissa c"

definition hasHigherPriorityThan :: "cdomain \<Rightarrow> cdomain \<Rightarrow> bool" where
  "hasHigherPriorityThan c d \<longleftrightarrow> getPriority c < getPriority d"

function tick_scale_loop :: "nat \<Rightarrow> nat \<Rightarrow> nat" where
  "tick_scale_loop scale maxMantissa =
     (if maxMantissa div 2 ^ MANTISSA_BITS > 0 then tick_scale_loop (scale + 1) (maxMantissa div 2) else scale)"
  by pat_completeness auto
termination
  by (relation "measure snd") (auto simp: MANTISSA_BITS_def)

declare tick_scale_loop.simps [simp del]

definition TickScale :: "uval \<Rightarrow> nat" where
  "TickScale inflationInterval =
     tick_scale_loop 0 (umul (umul (MAX_WEIGHT div MIN_WEIGHT) 3) inflationInterval)"

definition cda_init :: "uval \<Rightarrow> nat \<Rightarrow> nat \<Rightarrow> uval \<Rightarrow> uval \<Rightarrow> uval \<Rightarrow> cdomain" where
  "cda_init ticksPerSecond vp pcls wght quantumMicrosecs pulseMicrosecs =
     \<lparr>pclass = pcls, exponent = 0, mantissa = 0, consumedTicks = 0,
      quantum = umul ticksPerSecond quantumMicrosecs div 1000000,
      pulseInterval = umul ticksPerSecond pulseMicrosecs div 1000000,
      drag = MAX_WEIGHT div wght, weight = wght, currentPA = 0, cda_pp = vp\<rparr>"

text \<open>\<^verbatim>\<open>Create\<close> checks its arguments; the allocation of the object can fail.\<close>

definition cda_create :: "bool \<Rightarrow> uval \<Rightarrow> nat \<Rightarrow> nat \<Rightarrow> uval \<Rightarrow> uval \<Rightarrow> uval \<Rightarrow> sys_error + cdomain" where
  "cda_create memory ticksPerSecond vp pcls wght quantumMicrosecs pulseMicrosecs =
     (if pcls < PRIORITY_CLASS_KERNEL \<or> pcls > PRIORITY_CLASS_UNRUNNABLE then Inl (SERROR 2627 0 EINVAL)
      else if quantumMicrosecs < MIN_QUANTUM_MICROSECS \<or> quantumMicrosecs > MAX_QUANTUM_MICROSECS
      then Inl (SERROR 2628 0 EINVAL)
      else if pulseMicrosecs < MIN_PULSE_MICROSECS \<or> pulseMicrosecs > MAX_PULSE_MICROSECS
      then Inl (SERROR 2628 0 EINVAL)
      else if wght < MIN_WEIGHT \<or> wght > MAX_WEIGHT then Inl (SERROR 2629 0 EINVAL)
      else if \<not> memory then Inl (SERROR 2630 0 ENOMEM)
      else Inr (cda_init ticksPerSecond vp pcls wght quantumMicrosecs pulseMicrosecs))"

text \<open>
  The mantissa decays by a factor of two for every inflation step since it was last adjusted.
  The shift by the number of steps has a value in C only when it is smaller than the width of
  the operand; larger counts are outside what the theorems below cover.
\<close>

definition adjustPriority :: "nat \<Rightarrow> nat \<Rightarrow> uval \<Rightarrow> cdomain \<Rightarrow> cdomain" where
  "adjustPriority infl tickScale delta c =
     c\<lparr>mantissa := (mantissa c div 2 ^ usub infl (exponent c) + umul (drag c) delta div 2 ^ tickScale) mod 2 ^ MANTISSA_BITS,
       exponent := infl mod 2 ^ EXPONENT_BITS\<rparr>"

definition flushQuantum :: "nat \<Rightarrow> nat \<Rightarrow> cdomain \<Rightarrow> cdomain" where
  "flushQuantum infl tickScale c = (adjustPriority infl tickScale (consumedTicks c) c)\<lparr>consumedTicks := 0\<rparr>"

definition hasFreshQuantum :: "cdomain \<Rightarrow> bool" where
  "hasFreshQuantum c \<longleftrightarrow> consumedTicks c = 0"

definition cda_getTimeout :: "cdomain \<Rightarrow> uval" where
  "cda_getTimeout c = usub (quantum c) (consumedTicks c)"


section \<open>The ring of a domain\<close>

type_synonym pa_store = "pa_ptr \<Rightarrow> pannex"

definition set_next :: "pa_ptr \<Rightarrow> pa_ptr \<Rightarrow> pa_store \<Rightarrow> pa_store" where
  "set_next pa nxt pas = pas(pa := (pas pa)\<lparr>cpuDomainNext := nxt\<rparr>)"

definition may_run :: "pa_store \<Rightarrow> pa_ptr \<Rightarrow> bool" where
  "may_run pas pa \<longleftrightarrow> stillRunnable_pa (pas pa) \<or> awaitingDispatch (pas pa)"

text \<open>
  The loop of \<^verbatim>\<open>stillRunnable\<close>: it takes annexes that cannot run out of the ring until it finds one
  that can, or is back at the current one. The number counts the calls of \<^verbatim>\<open>statPANotRunnable\<close>.
\<close>

partial_function (option) ring_scan ::
  "pa_ptr \<Rightarrow> pa_ptr \<Rightarrow> pa_store \<Rightarrow> nat \<Rightarrow> (pa_ptr option \<times> pa_store \<times> nat) option" where
  "ring_scan cur pa pas n =
     (if pa = cur then Some (None, pas, n)
      else if may_run pas pa then Some (Some pa, pas, n)
      else ring_scan cur (cpuDomainNext (pas pa)) (set_next pa 0 pas) (n + 1))"

definition stillRunnable :: "pa_store \<Rightarrow> cdomain \<Rightarrow> (bool \<times> pa_store \<times> cdomain \<times> nat) option" where
  "stillRunnable pas c =
     (let cur = currentPA c in
      if may_run pas cur then Some (True, pas, c, 0)
      else case ring_scan cur (cpuDomainNext (pas cur)) pas 0 of
             None \<Rightarrow> None
           | Some (Some pa, pas', n) \<Rightarrow> Some (True, set_next cur pa pas', c\<lparr>currentPA := pa\<rparr>, n)
           | Some (None, pas', n) \<Rightarrow> Some (False, set_next cur 0 pas', c\<lparr>currentPA := 0\<rparr>, n + 1))"

text \<open>The search for the predecessor in \<^verbatim>\<open>removeProcessAnnex\<close>.\<close>

partial_function (option) find_prev :: "pa_store \<Rightarrow> pa_ptr \<Rightarrow> pa_ptr \<Rightarrow> pa_ptr option" where
  "find_prev pas pa prev =
     (if cpuDomainNext (pas prev) \<noteq> pa then find_prev pas pa (cpuDomainNext (pas prev)) else Some prev)"

section \<open>Tick scale and mantissa\<close>

lemma tick_scale_loop_ok:
  "scale \<le> tick_scale_loop scale m \<and> m div 2 ^ (tick_scale_loop scale m - scale) < 2 ^ MANTISSA_BITS \<and>
    (scale < tick_scale_loop scale m \<longrightarrow> 2 ^ MANTISSA_BITS \<le> 2 * (m div 2 ^ (tick_scale_loop scale m - scale)) + 1)"
proof (induction scale m rule: tick_scale_loop.induct)
  case (1 scale m)
  show ?case
  proof (cases "m div 2 ^ MANTISSA_BITS > 0")
    case False
    then show ?thesis by (simp add: tick_scale_loop.simps [of scale m] MANTISSA_BITS_def)
  next
    case True
    let ?r = "tick_scale_loop (scale + 1) (m div 2)"
    have r: "tick_scale_loop scale m = ?r" using True by (simp add: tick_scale_loop.simps [of scale m])
    note ih = 1 [OF True]
    then obtain k where k: "?r = scale + 1 + k" using le_Suc_ex by blast
    have e: "m div 2 ^ Suc k = m div 2 div 2 ^ k" by (simp add: div_mult2_eq)
    show ?thesis
    proof (cases "k = 0")
      case False
      with ih show ?thesis unfolding r k by (simp add: e [simplified])
    next
      case zero: True
      have "2 ^ MANTISSA_BITS \<le> m" using True by (metis div_less not_le not_less0)
      then have "2 ^ MANTISSA_BITS \<le> 2 * (m div 2) + 1" by linarith
      with ih zero show ?thesis unfolding r k by simp
    qed
  qed
qed

lemma TickScale_ok:
  assumes "12288 * interval < 2 ^ 64"
  shows "12288 * interval div 2 ^ TickScale interval < 2 ^ MANTISSA_BITS"
proof -
  have "umul (umul (MAX_WEIGHT div MIN_WEIGHT) 3) interval = 12288 * interval"
    using assms by (simp add: MAX_WEIGHT_def MIN_WEIGHT_def umul_def)
  then show ?thesis
    using tick_scale_loop_ok [of 0 "12288 * interval"] unfolding TickScale_def by simp
qed

text \<open>
  A domain with the ticks charged to it in the current inflation step. In one step at most
  one and a half intervals can be charged: the interval itself and the rest of a quantum, which
  is at most half an interval, that began before.
\<close>

inductive charge :: "uval \<Rightarrow> cdomain \<times> nat \<Rightarrow> cdomain \<times> nat \<Rightarrow> bool" for interval where
  same: "2 * (a + delta) \<le> 3 * interval \<Longrightarrow>
    charge interval (c, a) (adjustPriority (exponent c) (TickScale interval) delta c, a + delta)"
| later: "exponent c < infl \<Longrightarrow> infl - exponent c < 32 \<Longrightarrow> infl < 2 ^ EXPONENT_BITS \<Longrightarrow> 2 * delta \<le> 3 * interval \<Longrightarrow>
    charge interval (c, a) (adjustPriority infl (TickScale interval) delta c, delta)"

definition charged :: "uval \<Rightarrow> cdomain \<times> nat \<Rightarrow> bool" where
  "charged interval s \<longleftrightarrow> drag (fst s) \<le> 4096 \<and> exponent (fst s) < 2 ^ EXPONENT_BITS \<and> 2 * snd s \<le> 3 * interval \<and>
     12288 * interval < 2 ^ 64 \<and>
     2 * mantissa (fst s) * 2 ^ TickScale interval \<le> drag (fst s) * (3 * interval + 2 * snd s)"

lemma umul_drag:
  assumes "d \<le> 4096" "2 * delta \<le> 3 * interval" "12288 * interval < 2 ^ 64"
  shows "umul d delta = d * delta"
proof -
  have "d * (2 * delta) \<le> 4096 * (3 * interval)" using assms(1,2) by (rule mult_le_mono)
  then have "2 * (d * delta) \<le> 12288 * interval" by (simp add: algebra_simps)
  then show ?thesis using assms(3) by (intro umul_nowrap) linarith
qed

lemma charged_raw:
  assumes inv: "charged interval (c, a)" and d: "2 * (if k = 0 then a + delta else delta) \<le> 3 * interval"
  defines "raw \<equiv> mantissa c div 2 ^ k + umul (drag c) delta div 2 ^ TickScale interval"
  shows "2 * raw * 2 ^ TickScale interval \<le> drag c * (3 * interval + 2 * (if k = 0 then a + delta else delta))"
    "raw < 2 ^ MANTISSA_BITS"
proof -
  let ?T = "2 ^ TickScale interval :: nat" and ?D = "drag c"
  have D: "?D \<le> 4096" and I: "12288 * interval < 2 ^ 64"
    and m: "2 * mantissa c * ?T \<le> ?D * (3 * interval + 2 * a)" and a: "2 * a \<le> 3 * interval"
    using inv by (auto simp: charged_def)
  have "2 * delta \<le> 3 * interval" using d by (auto split: if_splits)
  note u = umul_drag [OF D this I]
  have q: "?D * delta div ?T * ?T \<le> ?D * delta" by simp
  show main: "2 * raw * ?T \<le> ?D * (3 * interval + 2 * (if k = 0 then a + delta else delta))"
  proof (cases "k = 0")
    case True
    have "2 * raw * ?T = 2 * mantissa c * ?T + 2 * (?D * delta div ?T * ?T)" by (simp add: raw_def u True algebra_simps)
    also have "\<dots> \<le> ?D * (3 * interval + 2 * a) + 2 * (?D * delta)" using m q by linarith
    finally show ?thesis using True by (simp add: algebra_simps)
  next
    case False
    then obtain j where k: "k = Suc j" by (cases k) auto
    have "2 * (mantissa c div 2 ^ k) \<le> mantissa c div 2 ^ j"
      unfolding k power_Suc2 div_mult2_eq by simp
    also have "\<dots> \<le> mantissa c" by simp
    finally have "2 * (mantissa c div 2 ^ k) * ?T \<le> mantissa c * ?T" by simp
    also have "\<dots> \<le> ?D * (3 * interval)"
    proof -
      have "2 * (mantissa c * ?T) \<le> ?D * (3 * interval + 2 * a)" using m by (simp add: mult.assoc)
      also have "\<dots> \<le> ?D * (2 * (3 * interval))" using a by (intro mult_le_mono) auto
      finally show ?thesis by (simp add: algebra_simps)
    qed
    finally have "2 * (mantissa c div 2 ^ k) * ?T \<le> ?D * (3 * interval)" .
    moreover have "2 * raw * ?T = 2 * (mantissa c div 2 ^ k) * ?T + 2 * (?D * delta div ?T * ?T)"
      by (simp add: raw_def u algebra_simps)
    ultimately have "2 * raw * ?T \<le> ?D * (3 * interval) + 2 * (?D * delta)" using q by linarith
    then show ?thesis using False by (simp add: algebra_simps)
  qed
  have "?D * (3 * interval + 2 * (if k = 0 then a + delta else delta)) \<le> 4096 * (2 * (3 * interval))"
    using D d by (intro mult_le_mono) auto
  then have "raw * ?T \<le> 12288 * interval" using main by linarith
  then have "raw \<le> 12288 * interval div ?T" by (simp add: less_eq_div_iff_mult_less_eq)
  then show "raw < 2 ^ MANTISSA_BITS" using TickScale_ok [OF I] by linarith
qed


interpretation charging: invariant_steps "charge interval" "charged interval"
proof
  fix s t assume inv: "charged interval s" and "charge interval s t"
  from this(2) show "charged interval t"
  proof cases
    case (same a delta c)
    with inv charged_raw [of interval c a 0 delta] show ?thesis
      by (auto simp: charged_def adjustPriority_def usub_def)
  next
    case (later c infl delta a)
    have "infl < 2 ^ 64" using later(5) by (simp add: EXPONENT_BITS_def)
    then have "usub infl (exponent c) = infl - exponent c" using later(3) by (simp add: uval_simps)
    with later inv charged_raw [of interval c a "infl - exponent c" delta] show ?thesis
      by (auto simp: charged_def adjustPriority_def)
  qed
qed


definition sample_cda :: cdomain where
  "sample_cda = cda_init 1000000 0 4 1 40000 40000"



section \<open>Rings\<close>

fun links :: "pa_store \<Rightarrow> pa_ptr list \<Rightarrow> pa_ptr \<Rightarrow> bool" where
  "links pas [] y \<longleftrightarrow> True"
| "links pas [x] y \<longleftrightarrow> cpuDomainNext (pas x) = y"
| "links pas (x # z # zs) y \<longleftrightarrow> cpuDomainNext (pas x) = z \<and> links pas (z # zs) y"

text \<open>The ring of a domain as the list of its annexes, the current one first.\<close>

definition ring :: "pa_store \<Rightarrow> pa_ptr list \<Rightarrow> bool" where
  "ring pas xs \<longleftrightarrow> xs \<noteq> [] \<and> distinct xs \<and> 0 \<notin> set xs \<and> links pas xs (hd xs)"

lemma links_append:
  "xs \<noteq> [] \<Longrightarrow> ys \<noteq> [] \<Longrightarrow> links pas (xs @ ys) y \<longleftrightarrow> links pas xs (hd ys) \<and> links pas ys y"
proof (induction xs rule: induct_list012)
  case (2 x)
  then show ?case by (cases ys) auto
qed auto

lemma links_cong: "\<forall>x \<in> set xs. cpuDomainNext (pas' x) = cpuDomainNext (pas x) \<Longrightarrow> links pas' xs y = links pas xs y"
  by (induction pas xs y rule: links.induct) auto

lemma links_Cons: "links pas (x # xs) y \<longleftrightarrow> cpuDomainNext (pas x) = (if xs = [] then y else hd xs) \<and> links pas xs y"
  by (cases xs) auto

lemma set_next_simps [simp]:
  "cpuDomainNext (set_next a n pas x) = (if x = a then n else cpuDomainNext (pas x))"
  "may_run (set_next a n pas) x = may_run pas x"
  by (auto simp: set_next_def may_run_def stillRunnable_pa_def)

definition unlinked :: "pa_ptr list \<Rightarrow> pa_store \<Rightarrow> pa_store" where
  "unlinked us pas = fold (\<lambda>u. set_next u 0) us pas"

lemma unlinked_simps [simp]: "unlinked [] pas = pas" "unlinked (u # us) pas = unlinked us (set_next u 0 pas)"
  by (simp_all add: unlinked_def)

lemma unlinked_next: "cpuDomainNext (unlinked us pas x) = (if x \<in> set us then 0 else cpuDomainNext (pas x))"
  by (induction us arbitrary: pas) auto

lemma ring_scan_skip:
  assumes "links pas us q" "\<forall>u \<in> set us. \<not> may_run pas u \<and> u \<noteq> cur" "distinct us" "q \<notin> set us"
  shows "ring_scan cur (hd (us @ [q])) pas n = ring_scan cur q (unlinked us pas) (n + length us)"
  using assms
proof (induction us arbitrary: pas n)
  case (Cons u us)
  have nx: "cpuDomainNext (pas u) = hd (us @ [q])" "links pas us q"
    using Cons.prems(1) by (cases us; simp)+
  have "links (set_next u 0 pas) us q"
    using nx(2) Cons.prems(3) by (subst links_cong [of _ _ pas]) auto
  then have "ring_scan cur (hd (us @ [q])) (set_next u 0 pas) (n + 1) =
      ring_scan cur q (unlinked us (set_next u 0 pas)) (n + 1 + length us)"
    using Cons.prems by (intro Cons.IH) auto
  moreover have "ring_scan cur u pas n = ring_scan cur (hd (us @ [q])) (set_next u 0 pas) (n + 1)"
    using Cons.prems(2) nx(1) by (subst ring_scan.simps) simp
  ultimately show ?case by simp
qed simp

lemma ring_tail_links: "ring pas (cur # ys) \<Longrightarrow> links pas ys cur \<and> cpuDomainNext (pas cur) = hd (ys @ [cur])"
  by (cases ys) (auto simp: ring_def)

lemma may_run_unlinked [simp]: "may_run (unlinked us pas) x = may_run pas x"
  by (induction us arbitrary: pas) auto

lemma stillRunnable_found:
  assumes "ring pas (cur # us @ p # vs)" "currentPA c = cur" "\<not> may_run pas cur" "\<forall>u \<in> set us. \<not> may_run pas u"
    "may_run pas p"
  shows "stillRunnable pas c = Some (True, set_next cur p (unlinked us pas), c\<lparr>currentPA := p\<rparr>, length us)"
    "ring (set_next cur p (unlinked us pas)) (p # vs @ [cur])"
proof -
  have d: "distinct (cur # us @ p # vs)" "0 \<notin> set (cur # us @ p # vs)" using assms(1) by (auto simp: ring_def)
  have l: "links pas (us @ p # vs) cur" "cpuDomainNext (pas cur) = hd (us @ [p])"
    using ring_tail_links [OF assms(1)] by (cases us; auto)+
  have lu: "links pas us p" using l(1) by (cases "us = []") (auto simp: links_append)
  have lp: "links pas (p # vs) cur" using l(1) by (cases "us = []") (auto simp: links_append)
  have "ring_scan cur (hd (us @ [p])) pas 0 = Some (Some p, unlinked us pas, length us)"
    using ring_scan_skip [OF lu, of cur 0] d assms(4,5) by (auto simp: ring_scan.simps [of cur p])
  then show "stillRunnable pas c = Some (True, set_next cur p (unlinked us pas), c\<lparr>currentPA := p\<rparr>, length us)"
    using assms(2,3) l(2) by (simp add: stillRunnable_def)
  have "links (set_next cur p (unlinked us pas)) (p # vs) cur"
    using lp d by (subst links_cong [of _ _ pas]) (auto simp: unlinked_next)
  then have "links (set_next cur p (unlinked us pas)) ((p # vs) @ [cur]) p"
    by (subst links_append) auto
  then show "ring (set_next cur p (unlinked us pas)) (p # vs @ [cur])" using d by (auto simp: ring_def)
qed

lemma stillRunnable_none:
  assumes "ring pas (cur # us)" "currentPA c = cur" "\<forall>u \<in> set (cur # us). \<not> may_run pas u"
  shows "stillRunnable pas c =
    Some (False, set_next cur 0 (unlinked us pas), c\<lparr>currentPA := 0\<rparr>, length us + 1)"
proof -
  have d: "distinct (cur # us)" using assms(1) by (simp add: ring_def)
  note l = ring_tail_links [OF assms(1)]
  have "ring_scan cur (hd (us @ [cur])) pas 0 = Some (None, unlinked us pas, length us)"
    using ring_scan_skip [of pas us cur cur 0] l d assms(3) by (auto simp: ring_scan.simps [of cur cur])
  then show ?thesis using assms(2,3) l by (simp add: stillRunnable_def)
qed

text \<open>What \<^verbatim>\<open>stillRunnable\<close> may change in the store: only links of annexes of the ring.\<close>

definition relinks :: "pa_ptr set \<Rightarrow> pa_store \<Rightarrow> pa_store \<Rightarrow> bool" where
  "relinks A pas pas' \<longleftrightarrow> (\<forall>x. \<exists>n. pas' x = (pas x)\<lparr>cpuDomainNext := n\<rparr>) \<and> (\<forall>x. x \<notin> A \<longrightarrow> pas' x = pas x)"

lemma relinks_refl: "relinks A pas pas"
proof -
  have "pas x = (pas x)\<lparr>cpuDomainNext := cpuDomainNext (pas x)\<rparr>" for x by simp
  then show ?thesis unfolding relinks_def by blast
qed

lemma relinks_set_next:
  assumes "relinks A pas pas'" "x \<in> A"
  shows "relinks A pas (set_next x n pas')"
proof -
  have "\<exists>k. set_next x n pas' y = (pas y)\<lparr>cpuDomainNext := k\<rparr>" for y
  proof -
    obtain k where "pas' y = (pas y)\<lparr>cpuDomainNext := k\<rparr>" using assms(1) by (auto simp: relinks_def)
    then show ?thesis by (cases "y = x") (auto simp: set_next_def)
  qed
  with assms show ?thesis by (auto simp: relinks_def set_next_def)
qed

lemma relinks_unlinked: "relinks A pas pas' \<Longrightarrow> set us \<subseteq> A \<Longrightarrow> relinks A pas (unlinked us pas')"
  by (induction us arbitrary: pas') (auto simp: relinks_set_next)

lemma relinks_skip: "set us \<subseteq> A \<Longrightarrow> x \<in> A \<Longrightarrow> relinks A pas (set_next x n (unlinked us pas))"
  by (intro relinks_set_next relinks_unlinked relinks_refl)

lemma stillRunnable_spec:
  assumes "ring pas xs" "currentPA c = hd xs"
  obtains b pas' k n ys where "stillRunnable pas c = Some (b, pas', c\<lparr>currentPA := k\<rparr>, n)"
    "b \<longleftrightarrow> (\<exists>x \<in> set xs. may_run pas x)" "relinks (set xs) pas pas'"
    "b \<longrightarrow> ring pas' ys \<and> k = hd ys \<and> may_run pas' (hd ys)" "\<not> b \<longrightarrow> ys = [] \<and> k = 0"
    "set ys \<subseteq> set xs" "\<forall>x \<in> set xs - set ys. cpuDomainNext (pas' x) = 0 \<and> \<not> may_run pas x"
    "length xs = length ys + n"
proof -
  obtain cur us where xs: "xs = cur # us" using assms(1) by (cases xs) (auto simp: ring_def)
  consider (cur) "may_run pas cur" | (none) "\<forall>u \<in> set (cur # us). \<not> may_run pas u"
    | (found) "\<not> may_run pas cur" "\<exists>u \<in> set us. may_run pas u" by auto
  then show ?thesis
  proof cases
    case cur
    with assms(2) xs have s: "stillRunnable pas c = Some (True, pas, c\<lparr>currentPA := cur\<rparr>, 0)"
      by (simp add: stillRunnable_def)
    show ?thesis by (rule that [OF s, of xs]) (use cur assms xs relinks_refl in auto)
  next
    case none
    have s: "stillRunnable pas c = Some (False, set_next cur 0 (unlinked us pas), c\<lparr>currentPA := 0\<rparr>, length us + 1)"
      using stillRunnable_none [OF assms(1) [unfolded xs] _ none] assms(2) xs by simp
    show ?thesis
      by (rule that [OF s, of "[]"])
         (use none xs in \<open>auto simp: unlinked_next intro!: relinks_skip\<close>)
  next
    case found
    then obtain vs p ws where us: "us = vs @ p # ws" "may_run pas p" "\<forall>v \<in> set vs. \<not> may_run pas v"
      using split_list_first_propE [of us "may_run pas"] by metis
    note f = stillRunnable_found [OF assms(1) [unfolded xs us] _ found(1) us(3,2)]
    have s: "stillRunnable pas c = Some (True, set_next cur p (unlinked vs pas), c\<lparr>currentPA := p\<rparr>, length vs)"
      and r: "ring (set_next cur p (unlinked vs pas)) (p # ws @ [cur])"
      using f assms(2) xs by auto
    show ?thesis
      by (rule that [OF s, of "p # ws @ [cur]"])
         (use r us xs in \<open>auto simp: unlinked_next intro!: relinks_skip\<close>)
  qed
qed

text \<open>
  \<^verbatim>\<open>stillRunnable\<close> always returns, and says whether some annex of the domain's ring can run. When
  one can, the domain's current annex can run, the ring is still a ring without the annexes
  skipped, and those are marked as not in the ring; when none can, the domain has no current
  annex and every annex is marked. Each annex taken out is counted once.
\<close>

theorem stillRunnable_correct:
  assumes "ring pas xs" "currentPA c = hd xs"
  shows "\<exists>b pas' c' n. stillRunnable pas c = Some (b, pas', c', n) \<and> (b \<longleftrightarrow> (\<exists>x \<in> set xs. may_run pas x)) \<and>
    (\<exists>ys. (b \<longrightarrow> ring pas' ys \<and> currentPA c' = hd ys \<and> may_run pas' (hd ys)) \<and> (\<not> b \<longrightarrow> ys = [] \<and> currentPA c' = 0) \<and>
       set ys \<subseteq> set xs \<and> (\<forall>x \<in> set xs - set ys. cpuDomainNext (pas' x) = 0 \<and> \<not> may_run pas x) \<and>
       length xs = length ys + n)"
proof -
  obtain b pas' k n ys where r: "stillRunnable pas c = Some (b, pas', c\<lparr>currentPA := k\<rparr>, n)"
    "b \<longleftrightarrow> (\<exists>x \<in> set xs. may_run pas x)" "relinks (set xs) pas pas'"
    "b \<longrightarrow> ring pas' ys \<and> k = hd ys \<and> may_run pas' (hd ys)" "\<not> b \<longrightarrow> ys = [] \<and> k = 0"
    "set ys \<subseteq> set xs" "\<forall>x \<in> set xs - set ys. cpuDomainNext (pas' x) = 0 \<and> \<not> may_run pas x"
    "length xs = length ys + n"
    by (rule stillRunnable_spec [OF assms])
  have k: "currentPA (c\<lparr>currentPA := k\<rparr>) = k" by simp
  show ?thesis
    by (intro exI [of _ b] exI [of _ pas'] exI [of _ "c\<lparr>currentPA := k\<rparr>"] exI [of _ n] conjI exI [of _ ys]; (unfold k)?; fact r)
qed

theorem stillRunnable_correct_witness:
  "\<exists>b pas' c' n. stillRunnable (\<lambda>x. \<lparr>cpuDomainNext = (if x = 1 then 2 else if x = 2 then 3 else 1), cpuDomainAnnex = 9,
       reservedThread = 0, hasWork = (x = 3), intrPending = False, awaitingDispatch = False, terminating = False,
       dispatchTicks = 0, pulseTicks = 0, warningTicks = 0, pa_pp = 0\<rparr>) (sample_cda\<lparr>currentPA := 1\<rparr>) =
     Some (b, pas', c', n) \<and> b"
proof -
  let ?pas = "\<lambda>x :: nat. \<lparr>cpuDomainNext = (if x = 1 then 2 else if x = 2 then 3 else 1), cpuDomainAnnex = 9,
       reservedThread = 0, hasWork = (x = 3), intrPending = False, awaitingDispatch = False, terminating = False,
       dispatchTicks = 0, pulseTicks = 0, warningTicks = 0, pa_pp = 0\<rparr>"
  have "ring ?pas [1, 2, 3]" by (simp add: ring_def)
  from stillRunnable_correct [OF this, of "sample_cda\<lparr>currentPA := 1\<rparr>"]
  show ?thesis by (auto simp: may_run_def stillRunnable_pa_def)
qed


section \<open>Pulses\<close>

lemma pulse_loop_ends:
  assumes "0 < interval" "ticks + interval < 2 ^ 64" "pulse \<le> ticks"
  shows "\<exists>t. pulse_loop interval ticks pulse = Some t \<and> ticks \<le> t \<and> t < ticks + interval + 1"
  using assms
proof (induction "ticks - pulse" arbitrary: pulse rule: less_induct)
  case less
  have u: "uadd pulse interval = pulse + interval" using less.prems by (simp add: uval_simps)
  show ?case
  proof (cases "pulse + interval < ticks")
    case True
    then have "\<exists>t. pulse_loop interval ticks (pulse + interval) = Some t \<and> ticks \<le> t \<and> t < ticks + interval + 1"
      using less.prems by (intro less.hyps) auto
    with True u show ?thesis by (simp add: pulse_loop.simps [of interval ticks pulse])
  next
    case False
    with u less.prems show ?thesis by (simp add: pulse_loop.simps [of interval ticks pulse])
  qed
qed

lemma ring_rotate: "ring pas (x # ys) \<Longrightarrow> ring pas (ys @ [x]) \<and> cpuDomainNext (pas x) = hd (ys @ [x])"
proof (cases ys)
  case (Cons y zs)
  assume r: "ring pas (x # ys)"
  then have "links pas ys x" "cpuDomainNext (pas x) = y" using Cons by (auto simp: ring_def)
  then have "links pas (ys @ [x]) y" using Cons by (subst links_append) auto
  then show ?thesis using r Cons by (auto simp: ring_def)
qed (auto simp: ring_def)

lemma ring_unique:
  assumes "links pas (x # xs) z" "links pas (x # ys) z" "z \<notin> set xs" "z \<notin> set ys"
  shows "xs = ys"
  using assms
proof (induction xs arbitrary: x ys)
  case Nil
  then show ?case by (cases ys) auto
next
  case (Cons a xs)
  then obtain b ys' where "ys = b # ys'" by (cases ys) auto
  with Cons show ?case by auto
qed

lemma relinks_same:
  assumes "relinks A pas pas'"
  shows "may_run pas' x = may_run pas x" "cpuDomainAnnex (pas' x) = cpuDomainAnnex (pas x)"
    "dispatchTicks (pas' x) = dispatchTicks (pas x)" "x \<notin> A \<Longrightarrow> pas' x = pas x"
proof -
  obtain n where "pas' x = (pas x)\<lparr>cpuDomainNext := n\<rparr>" using assms by (auto simp: relinks_def)
  then show "may_run pas' x = may_run pas x" "cpuDomainAnnex (pas' x) = cpuDomainAnnex (pas x)"
    "dispatchTicks (pas' x) = dispatchTicks (pas x)" by (auto simp: may_run_def stillRunnable_pa_def)
  show "x \<notin> A \<Longrightarrow> pas' x = pas x" using assms by (auto simp: relinks_def)
qed

end
