(* ===== verification/DispatchQueue.thy ===== *)
theory DispatchQueue
  imports CPUDomain "HOL-Library.Monad_Syntax"
begin

text \<open>
  The dispatcher of one processor: \<^verbatim>\<open>DispatchQueue\<close> (\<^verbatim>\<open>os/kernel/exception/DispatchQueue.H\<close> and
  \<^verbatim>\<open>DispatchQueue.C\<close>), the operations of \<^verbatim>\<open>CPUDomainAnnex\<close> and \<^verbatim>\<open>ProcessAnnex\<close> that call it, and the
  statistics it publishes. The state is one record with the store of annexes and domains. The
  time of day is an argument of the operations that read the clock. Every operation returns
  an option: \<^const>\<open>None\<close> when it does not come back, because a \<^verbatim>\<open>passert\<close> stops the system or a loop
  does not end. What \<^verbatim>\<open>tassertMsg\<close> checks in debug builds is a hypothesis of theorems. Tracing has
  no effect on the state. The constructor, which carves objects out of boot memory, is not here.
\<close>

section \<open>State\<close>

record cur_stats =
  dispatchTimeAccum :: uval
  runnableWeightAccum :: uval
  runnableWeight :: uval

record smooth_stats =
  smDispatchTimeAccum :: uval
  smRunnableWeightAccum :: uval

record dqueue =
  pas :: pa_store
  cdas :: "cda_ptr \<Rightarrow> cdomain"
  heap :: dheap
  dispatchedCDA :: cda_ptr
  dispatchedPA :: pa_ptr
  lastDispatchTime :: uval
  inflation :: uval
  nextInflationTime :: uval
  inflationInterval :: uval
  tickScale :: uval
  warningQuantum :: uval
  currentStats :: "nat \<Rightarrow> cur_stats"
  smooth :: "nat \<Rightarrow> smooth_stats"
  runnableCPUDomainCount :: uval
  runnableDispatcherCount :: uval
  cdaBorrowersTop :: int
  cdaBorrowers :: "pa_ptr list"
  preemptedPA :: "nat \<Rightarrow> pa_ptr"
  kernelProcessAnnex :: pa_ptr
  thisVP :: nat
  dispatchTimer :: "uval \<times> uval"
  unblocked :: "nat list"

definition upd_pa :: "(pannex \<Rightarrow> pannex) \<Rightarrow> pa_ptr \<Rightarrow> dqueue \<Rightarrow> dqueue" where
  "upd_pa f p s = s\<lparr>pas := (pas s)(p := f (pas s p))\<rparr>"

definition upd_cda :: "(cdomain \<Rightarrow> cdomain) \<Rightarrow> cda_ptr \<Rightarrow> dqueue \<Rightarrow> dqueue" where
  "upd_cda f c s = s\<lparr>cdas := (cdas s)(c := f (cdas s c))\<rparr>"

section \<open>Statistics\<close>

definition updateRunnableWeight :: "(uval \<Rightarrow> uval) \<Rightarrow> nat \<Rightarrow> dqueue \<Rightarrow> dqueue" where
  "updateRunnableWeight f k s =
     s\<lparr>currentStats := (currentStats s)(k := (currentStats s k)\<lparr>runnableWeight := f (runnableWeight (currentStats s k))\<rparr>)\<rparr>"

definition statCDARunnable :: "cda_ptr \<Rightarrow> dqueue \<Rightarrow> dqueue" where
  "statCDARunnable c s =
     (let s1 = updateRunnableWeight (\<lambda>w. uadd w (weight (cdas s c))) (pclass (cdas s c)) s
      in s1\<lparr>runnableCPUDomainCount := uadd (runnableCPUDomainCount s1) 1\<rparr>)"

definition statCDANotRunnable :: "cda_ptr \<Rightarrow> dqueue \<Rightarrow> dqueue" where
  "statCDANotRunnable c s =
     (let s1 = updateRunnableWeight (\<lambda>w. usub w (weight (cdas s c))) (pclass (cdas s c)) s
      in s1\<lparr>runnableCPUDomainCount := usub (runnableCPUDomainCount s1) 1\<rparr>)"

definition statPARunnable :: "dqueue \<Rightarrow> dqueue" where
  "statPARunnable s = s\<lparr>runnableDispatcherCount := uadd (runnableDispatcherCount s) 1\<rparr>"

definition statPANotRunnable :: "nat \<Rightarrow> dqueue \<Rightarrow> dqueue" where
  "statPANotRunnable n s = s\<lparr>runnableDispatcherCount := ((\<lambda>k. usub k 1) ^^ n) (runnableDispatcherCount s)\<rparr>"

definition cs_advance :: "uval \<Rightarrow> cur_stats \<Rightarrow> cur_stats" where
  "cs_advance delta c =
     c\<lparr>runnableWeightAccum := uadd (runnableWeightAccum c) (umul delta (runnableWeight c)),
       dispatchTimeAccum := uadd (dispatchTimeAccum c) delta\<rparr>"

definition statAdvance :: "cda_ptr \<Rightarrow> uval \<Rightarrow> dqueue \<Rightarrow> dqueue" where
  "statAdvance c delta s =
     (let k = pclass (cdas s c) in s\<lparr>currentStats := (currentStats s)(k := cs_advance delta (currentStats s k))\<rparr>)"

definition update_smooth :: "uval \<Rightarrow> uval \<Rightarrow> smooth_stats \<Rightarrow> smooth_stats" where
  "update_smooth newDspTimeAccum newRunWgtAccum m =
     m\<lparr>smDispatchTimeAccum := uadd (umul (smDispatchTimeAccum m) 7 div 2 ^ 3) newDspTimeAccum,
       smRunnableWeightAccum := uadd (umul (smRunnableWeightAccum m) 7 div 2 ^ 3) newRunWgtAccum\<rparr>"

definition publish :: "nat \<Rightarrow> dqueue \<Rightarrow> dqueue" where
  "publish k s =
     (let c = currentStats s k in
      s\<lparr>smooth := (smooth s)(k := update_smooth (dispatchTimeAccum c) (runnableWeightAccum c) (smooth s k)),
        currentStats := (currentStats s)(k := c\<lparr>dispatchTimeAccum := 0, runnableWeightAccum := 0\<rparr>)\<rparr>)"

definition statPublish :: "dqueue \<Rightarrow> dqueue" where
  "statPublish s = fold publish [PRIORITY_CLASS_KERNEL ..< PRIORITY_CLASS_IDLE + 1] s"

section \<open>Borrowers of a domain\<close>

definition CDA_BORROWERS_SIZE :: int where
  "CDA_BORROWERS_SIZE = 8"

definition clearCDABorrowers :: "dqueue \<Rightarrow> dqueue" where
  "clearCDABorrowers s = s\<lparr>cdaBorrowersTop := -1\<rparr>"

definition cdaBorrowersEmpty :: "dqueue \<Rightarrow> bool" where
  "cdaBorrowersEmpty s \<longleftrightarrow> cdaBorrowersTop s < 0"

definition resetCDABorrowers :: "pa_ptr \<Rightarrow> dqueue \<Rightarrow> dqueue" where
  "resetCDABorrowers pa s = s\<lparr>cdaBorrowersTop := 0, cdaBorrowers := (cdaBorrowers s)[0 := pa]\<rparr>"

definition pushCDABorrower :: "pa_ptr \<Rightarrow> dqueue \<Rightarrow> dqueue" where
  "pushCDABorrower pa s =
     (let t = (cdaBorrowersTop s + 1) mod CDA_BORROWERS_SIZE
      in s\<lparr>cdaBorrowersTop := t, cdaBorrowers := (cdaBorrowers s)[nat t := pa]\<rparr>)"

definition popCDABorrower :: "dqueue \<Rightarrow> dqueue" where
  "popCDABorrower s = (if cdaBorrowersTop s \<ge> 0 then s\<lparr>cdaBorrowersTop := cdaBorrowersTop s - 1\<rparr> else s)"

definition currentCDABorrower :: "dqueue \<Rightarrow> pa_ptr" where
  "currentCDABorrower s = (if cdaBorrowersTop s < 0 then 0 else cdaBorrowers s ! nat (cdaBorrowersTop s))"

definition dispatchTimeout :: "dqueue \<Rightarrow> dqueue" where
  "dispatchTimeout = clearCDABorrowers"

section \<open>Domains and annexes becoming runnable\<close>

definition addCPUDomainAnnex :: "cda_ptr \<Rightarrow> dqueue \<Rightarrow> dqueue option" where
  "addCPUDomainAnnex c s =
     (let s1 = statCDARunnable c s in
      case heap_insert (heap s1) (getPriority (cdas s1 c)) c of
        Inl e \<Rightarrow> None
      | Inr h \<Rightarrow>
          (let s2 = s1\<lparr>heap := h\<rparr> in
           Some (if c = getHead h \<and> hasHigherPriorityThan (cdas s2 c) (cdas s2 (dispatchedCDA s2))
                 then clearCDABorrowers s2 else s2)))"

definition cda_addProcessAnnex :: "cda_ptr \<Rightarrow> pa_ptr \<Rightarrow> dqueue \<Rightarrow> dqueue option" where
  "cda_addProcessAnnex c pa s =
     (let s1 = upd_pa (resetPulse (pulseInterval (cdas s c))) pa (statPARunnable s);
          cur = currentPA (cdas s1 c)
      in if cur = 0 then
           addCPUDomainAnnex c (upd_cda (currentPA_update (\<lambda>_. pa)) c (s1\<lparr>pas := set_next pa pa (pas s1)\<rparr>))
         else Some (s1\<lparr>pas := set_next cur pa (set_next pa (cpuDomainNext (pas s1 cur)) (pas s1))\<rparr>))"

definition makeReady :: "pa_ptr \<Rightarrow> dqueue \<Rightarrow> dqueue option" where
  "makeReady pa s =
     (if cpuDomainNext (pas s pa) = 0 then cda_addProcessAnnex (cpuDomainAnnex (pas s pa)) pa s else Some s)"

definition attach :: "cda_ptr \<Rightarrow> pa_ptr \<Rightarrow> dqueue \<Rightarrow> dqueue option" where
  "attach c pa s = makeReady pa (upd_pa (\<lambda>p. p\<lparr>cpuDomainAnnex := c, pa_pp := cda_pp (cdas s c)\<rparr>) pa s)"

definition makeCurrent :: "cda_ptr \<Rightarrow> pa_ptr \<Rightarrow> dqueue \<Rightarrow> dqueue" where
  "makeCurrent c pa = upd_cda (currentPA_update (\<lambda>_. pa)) c"

section \<open>Dispatching\<close>

definition cda_flush :: "cda_ptr \<Rightarrow> dqueue \<Rightarrow> dqueue" where
  "cda_flush c s = upd_cda (flushQuantum (inflation s) (tickScale s)) c s"

definition adjustQuantum :: "cda_ptr \<Rightarrow> uval \<Rightarrow> dqueue \<Rightarrow> dqueue" where
  "adjustQuantum c delta s =
     (let s1 = upd_cda (\<lambda>d. d\<lparr>consumedTicks := uadd (consumedTicks d) delta\<rparr>) c s
      in if consumedTicks (cdas s1 c) \<ge> quantum (cdas s1 c) then
           (let s2 = cda_flush c s1;
                s3 = upd_pa (resetPulse 0) (currentPA (cdas s2 c)) s2
            in upd_cda (\<lambda>d. d\<lparr>currentPA := cpuDomainNext (pas s3 (currentPA d))\<rparr>) c s3)
         else s1)"

definition inflate :: "uval \<Rightarrow> dqueue \<Rightarrow> dqueue" where
  "inflate now s =
     (if now \<ge> nextInflationTime s then
        (let t = s\<lparr>inflation := uadd (inflation s) 1,
                   nextInflationTime := uadd (nextInflationTime s) (inflationInterval s)\<rparr>;
             u = (if now \<ge> nextInflationTime t
                  then t\<lparr>nextInflationTime := uadd now (inflationInterval t),
                         lastDispatchTime := usub now (inflationInterval t)\<rparr>
                  else t)
         in statPublish u)
      else s)"

definition startDispatch :: "uval \<Rightarrow> dqueue \<Rightarrow> dqueue" where
  "startDispatch now s =
     (let s1 = inflate now s;
          delta = usub now (lastDispatchTime s1);
          s2 = upd_pa (addTime delta) (dispatchedPA s1) (s1\<lparr>lastDispatchTime := now\<rparr>)
      in statAdvance (dispatchedCDA s2) delta (adjustQuantum (dispatchedCDA s2) delta s2))"

definition finishDispatch :: "uval \<Rightarrow> dqueue \<Rightarrow> dqueue option" where
  "finishDispatch now s = do {
     s1 \<leftarrow> (let p = pas s (dispatchedPA s) in
            if pulseNeeded p then
              do { t \<leftarrow> pulse_loop (pulseInterval (cdas s (dispatchedCDA s))) (dispatchTicks p) (pulseTicks p);
                   Some (upd_pa (\<lambda>p. p\<lparr>intrPending := True, pulseTicks := t\<rparr>) (dispatchedPA s) s) }
            else Some s);
     let cdaTimeout = cda_getTimeout (cdas s1 (dispatchedCDA s1));
         paTimeout = pa_getTimeout (pas s1 (dispatchedPA s1))
     in Some (resetCDABorrowers (dispatchedPA s1) (s1\<lparr>dispatchTimer := (now, min cdaTimeout paTimeout)\<rparr>)) }"

definition cda_stillRunnable :: "cda_ptr \<Rightarrow> dqueue \<Rightarrow> (bool \<times> dqueue) option" where
  "cda_stillRunnable c s = do {
     (b, pas', d, n) \<leftarrow> stillRunnable (pas s) (cdas s c);
     Some (b, statPANotRunnable n (s\<lparr>pas := pas', cdas := (cdas s)(c := d)\<rparr>)) }"

partial_function (option) cleanHeap :: "dqueue \<Rightarrow> dqueue option" where
  "cleanHeap s = do {
     (b, s1) \<leftarrow> cda_stillRunnable (getHead (heap s)) s;
     if b then Some s1
     else (let s2 = statCDANotRunnable (getHead (heap s)) (cda_flush (getHead (heap s)) s1)
           in cleanHeap (s2\<lparr>heap := deleteHead (heap s2)\<rparr>)) }"

text \<open>The choice of the next domain and annex in \<^verbatim>\<open>getNextProcessAnnex\<close>, after the heap is clean.\<close>

definition choose_cda :: "dqueue \<Rightarrow> dqueue option" where
  "choose_cda s = do {
     let head = getHead (heap s); disp = dispatchedCDA s in do {
     (b, s1) \<leftarrow> cda_stillRunnable disp s;
     Some (if b then
             (if hasHigherPriorityThan (cdas s1 head) (cdas s1 disp)
              then s1\<lparr>heap := replaceHead (heap s1) (getPriority (cdas s1 disp)) disp, dispatchedCDA := head\<rparr>
              else s1)
           else (let s2 = statCDANotRunnable disp (cda_flush disp s1)
                 in s2\<lparr>heap := deleteHead (heap s2), dispatchedCDA := head\<rparr>)) } }"

definition take_preempted :: "dqueue \<Rightarrow> dqueue" where
  "take_preempted s =
     (let k = pclass (cdas s (dispatchedCDA s)); pre = preemptedPA s k in
      if pre \<noteq> 0 then
        (let s1 = (if dispatchedPA s \<noteq> pre then
                     (let pc = cpuDomainAnnex (pas s pre);
                          s0 = (if dispatchedCDA s \<noteq> pc
                                then s\<lparr>heap := heap_swap (heap s) (getPriority (cdas s (dispatchedCDA s))) (dispatchedCDA s) pc,
                                       dispatchedCDA := pc\<rparr>
                                else s)
                      in s0\<lparr>dispatchedPA := pre\<rparr>)
                   else s)
         in s1\<lparr>preemptedPA := (preemptedPA s1)(k := 0)\<rparr>)
      else s)"

definition signalDispatch :: "pa_ptr \<Rightarrow> dqueue \<Rightarrow> dqueue" where
  "signalDispatch pa s =
     upd_pa (awaitingDispatch_update (\<lambda>_. False)) pa (s\<lparr>unblocked := unblocked s @ [reservedThread (pas s pa)]\<rparr>)"

definition getNextProcessAnnex :: "uval \<Rightarrow> dqueue \<Rightarrow> (pa_ptr \<times> dqueue) option" where
  "getNextProcessAnnex now s = do {
     s1 \<leftarrow> cleanHeap (startDispatch now s);
     s2 \<leftarrow> choose_cda s1;
     let s3 = take_preempted (s2\<lparr>dispatchedPA := currentPA (cdas s2 (dispatchedCDA s2))\<rparr>);
         pa = dispatchedPA s3;
         (ret, s4) = (if awaitingDispatch (pas s3 pa) then (kernelProcessAnnex s3, signalDispatch pa s3) else (pa, s3));
         s5 = upd_pa clearWarning (dispatchedPA s4) s4
     in do { s6 \<leftarrow> finishDispatch now s5; Some (ret, s6) } }"

section \<open>Removal\<close>

definition removeProcessAnnex :: "uval \<Rightarrow> pa_ptr \<Rightarrow> dqueue \<Rightarrow> dqueue option" where
  "removeProcessAnnex now pa s =
     (let c = cpuDomainAnnex (pas s pa) in
      if pa = dispatchedPA s then do {
        let s1 = startDispatch now s; kpa = kernelProcessAnnex s1; kc = cpuDomainAnnex (pas s1 kpa) in do {
        s2 \<leftarrow> makeReady kpa (s1\<lparr>dispatchedPA := kpa, dispatchedCDA := kc\<rparr>);
        let s3 = makeCurrent kc kpa s2 in
        finishDispatch now (s3\<lparr>heap := heap_swap (heap s3) (getPriority (cdas s3 c)) c kc\<rparr>) } }
      else
        Some (let k = pclass (cdas s c) in
              if preemptedPA s k = pa then s\<lparr>preemptedPA := (preemptedPA s)(k := 0)\<rparr> else s))"

definition removeCPUDomainAnnex :: "cda_ptr \<Rightarrow> dqueue \<Rightarrow> dqueue" where
  "removeCPUDomainAnnex c s = statCDANotRunnable c (cda_flush c (s\<lparr>heap := heap_remove (heap s) c\<rparr>))"

definition cda_removeProcessAnnex :: "uval \<Rightarrow> cda_ptr \<Rightarrow> pa_ptr \<Rightarrow> dqueue \<Rightarrow> dqueue option" where
  "cda_removeProcessAnnex now c pa s = do {
     s1 \<leftarrow> removeProcessAnnex now pa s;
     prev \<leftarrow> find_prev (pas s1) pa (currentPA (cdas s1 c));
     let s2 = (if prev = pa then upd_cda (currentPA_update (\<lambda>_. 0)) c (removeCPUDomainAnnex c s1)
               else (let nxt = cpuDomainNext (pas s1 pa);
                         t = s1\<lparr>pas := set_next prev nxt (pas s1)\<rparr>
                     in if currentPA (cdas t c) = pa then upd_cda (currentPA_update (\<lambda>_. nxt)) c t else t))
     in Some (statPANotRunnable 1 (s2\<lparr>pas := set_next pa 0 (pas s2)\<rparr>)) }"

definition makeNotReady :: "uval \<Rightarrow> pa_ptr \<Rightarrow> dqueue \<Rightarrow> dqueue option" where
  "makeNotReady now pa s =
     (if cpuDomainNext (pas s pa) \<noteq> 0 then cda_removeProcessAnnex now (cpuDomainAnnex (pas s pa)) pa s else Some s)"

definition detach :: "uval \<Rightarrow> nat \<Rightarrow> pa_ptr \<Rightarrow> dqueue \<Rightarrow> dqueue option" where
  "detach now noPP pa s = do {
     s1 \<leftarrow> makeNotReady now pa s;
     Some (upd_pa (\<lambda>p. p\<lparr>pa_pp := noPP, cpuDomainAnnex := 0\<rparr>) pa s1) }"

section \<open>Changing a domain's parameters\<close>

definition setPriorityClass :: "cda_ptr \<Rightarrow> nat \<Rightarrow> dqueue \<Rightarrow> (sys_error + dqueue) option" where
  "setPriorityClass c k s =
     (if thisVP s \<noteq> cda_pp (cdas s c) then Some (Inl (SERROR 2631 0 EINVAL))
      else if k < PRIORITY_CLASS_KERNEL \<or> k > PRIORITY_CLASS_UNRUNNABLE then Some (Inl (SERROR 2632 0 EINVAL))
      else
        let s1 = upd_cda (pclass_update (\<lambda>_. k)) c s in
        if currentPA (cdas s1 c) \<noteq> 0
        then map_option Inr (addCPUDomainAnnex c (removeCPUDomainAnnex c s1))
        else Some (Inr s1))"

definition setWeight :: "cda_ptr \<Rightarrow> uval \<Rightarrow> dqueue \<Rightarrow> sys_error + dqueue" where
  "setWeight c w s =
     (if thisVP s \<noteq> cda_pp (cdas s c) then Inl (SERROR 2633 0 EINVAL)
      else if w < MIN_WEIGHT \<or> w > MAX_WEIGHT then Inl (SERROR 2634 0 EINVAL)
      else Inr (upd_cda (\<lambda>d. d\<lparr>weight := w, drag := MAX_WEIGHT div w\<rparr>) c s))"

section \<open>Waiting for the processor\<close>

text \<open>
  \<^verbatim>\<open>awaitDispatch\<close> of a kernel thread that holds an annex. One round ends in one of three ways:
  the thread terminates, it has to wait for its annex to be dispatched, after which the round
  starts again, or it goes on.
\<close>

datatype round = Terminate dqueue | Wait dqueue | Proceed dqueue

definition switch_to_newPA :: "pa_ptr \<Rightarrow> cda_ptr \<Rightarrow> dqueue \<Rightarrow> dqueue option" where
  "switch_to_newPA newPA newCDA s =
     (if dispatchedPA s \<noteq> newPA then do {
        s1 \<leftarrow> makeReady newPA s;
        let s2 = makeCurrent newCDA newPA s1; disp = dispatchedCDA s2 in do {
        s5 \<leftarrow> (if disp \<noteq> newCDA then do {
                 (b, s3) \<leftarrow> cda_stillRunnable disp s2;
                 let s4 = (if b then s3\<lparr>heap := heap_swap (heap s3) (getPriority (cdas s3 disp)) disp newCDA\<rparr>
                           else (let t = statCDANotRunnable disp (cda_flush disp s3)
                                 in t\<lparr>heap := heap_remove (heap t) newCDA\<rparr>))
                 in Some (s4\<lparr>dispatchedCDA := newCDA\<rparr>) }
               else Some s2);
        Some (s5\<lparr>dispatchedPA := newPA\<rparr>) } }
      else Some s)"

definition await_round :: "uval \<Rightarrow> pa_ptr \<Rightarrow> cda_ptr \<Rightarrow> nat \<Rightarrow> dqueue \<Rightarrow> round option" where
  "await_round now newPA newCDA newPClass s =
     (if terminating (pas s newPA) then Some (Terminate s)
      else do {
        s1 \<leftarrow> switch_to_newPA newPA newCDA s;
        s2 \<leftarrow> cleanHeap s1;
        let head = getHead (heap s2) in
        if pclass (cdas s2 head) < newPClass \<or> preemptedPA s2 newPClass \<noteq> 0 \<or> warningExpired (pas s2 newPA) then do {
          let kpa = kernelProcessAnnex s2 in do {
          s3 \<leftarrow> makeReady kpa (s2\<lparr>dispatchedPA := kpa\<rparr>);
          let kc = cpuDomainAnnex (pas s3 kpa);
              s4 = makeCurrent kc kpa (s3\<lparr>dispatchedCDA := kc\<rparr>);
              s5 = s4\<lparr>heap := heap_swap (heap s4) (getPriority (cdas s4 newCDA)) newCDA kc\<rparr>;
              s6 = (if preemptedPA s5 newPClass = 0 \<and> \<not> warningExpired (pas s5 newPA)
                    then s5\<lparr>preemptedPA := (preemptedPA s5)(newPClass := newPA)\<rparr> else s5)
          in map_option Wait (finishDispatch now s6) } }
        else
          let s3 = (if \<not> hasHigherPriorityThan (cdas s2 head) (cdas s2 newCDA) \<and> currentPA (cdas s2 newCDA) = newPA
                    then upd_pa clearWarning newPA s2
                    else if \<not> hasWarning (pas s2 newPA)
                    then upd_pa (\<lambda>p. setWarning (warningQuantum s2) (p\<lparr>intrPending := True\<rparr>)) newPA s2
                    else s2)
          in map_option Proceed (finishDispatch now s3) })"

definition awaitDispatch :: "uval \<Rightarrow> pa_ptr \<Rightarrow> dqueue \<Rightarrow> round option" where
  "awaitDispatch now newPA s =
     (let newCDA = cpuDomainAnnex (pas s newPA)
      in await_round now newPA newCDA (pclass (cdas s newCDA)) (startDispatch now s))"


section \<open>The invariant of the queue\<close>

definition dom_ok :: "dqueue \<Rightarrow> cda_ptr \<Rightarrow> pa_ptr list \<Rightarrow> bool" where
  "dom_ok s c xs \<longleftrightarrow> ring (pas s) xs \<and> currentPA (cdas s c) = hd xs \<and> (\<forall>x \<in> set xs. cpuDomainAnnex (pas s x) = c)"

definition queued :: "dqueue \<Rightarrow> cda_ptr multiset" where
  "queued s = image_mset snd (contents (heap s))"

text \<open>
  The heap is in order, its keys are the priorities of the domains in it, no domain is in it
  twice, the dispatched domain is not in it, and every such domain has a ring of its own annexes.
\<close>

definition q_inv :: "dqueue \<Rightarrow> bool" where
  "q_inv s \<longleftrightarrow> heap_ok (heap s) \<and> (\<forall>x \<in># contents (heap s). fst x = getPriority (cdas s (snd x))) \<and>
     (\<forall>c. Multiset.count (add_mset (dispatchedCDA s) (queued s)) c \<le> 1) \<and>
     (\<forall>c \<in># add_mset (dispatchedCDA s) (queued s). \<exists>xs. dom_ok s c xs)"

definition can_run :: "dqueue \<Rightarrow> cda_ptr \<Rightarrow> bool" where
  "can_run s c \<longleftrightarrow> (\<exists>xs. dom_ok s c xs \<and> (\<exists>x \<in> set xs. may_run (pas s) x))"

text \<open>What the queue's operations leave alone in annexes and domains.\<close>

definition frame :: "cda_ptr set \<Rightarrow> dqueue \<Rightarrow> dqueue \<Rightarrow> bool" where
  "frame C s s' \<longleftrightarrow>
     (\<forall>x. cpuDomainAnnex (pas s' x) = cpuDomainAnnex (pas s x) \<and> may_run (pas s') x = may_run (pas s) x \<and>
          dispatchTicks (pas s' x) = dispatchTicks (pas s x)) \<and>
     (\<forall>x. cpuDomainAnnex (pas s x) \<notin> C \<longrightarrow> cpuDomainNext (pas s' x) = cpuDomainNext (pas s x)) \<and>
     (\<forall>c. c \<notin> C \<longrightarrow> cdas s' c = cdas s c) \<and>
     (\<forall>c. pulseInterval (cdas s' c) = pulseInterval (cdas s c)) \<and>
     preemptedPA s' = preemptedPA s"

lemma frame_trans: "frame C s t \<Longrightarrow> frame D t u \<Longrightarrow> frame (C \<union> D) s u"
  by (auto simp: frame_def)

lemma frame_mono: "frame C s t \<Longrightarrow> C \<subseteq> D \<Longrightarrow> frame D s t"
  by (auto simp: frame_def)

lemma frame_dom_ok: "frame C s s' \<Longrightarrow> c \<notin> C \<Longrightarrow> dom_ok s' c xs = dom_ok s c xs"
  using links_cong [of xs "pas s'" "pas s"] by (fastforce simp: frame_def dom_ok_def ring_def)

lemma frame_can_run: "frame C s s' \<Longrightarrow> c \<notin> C \<Longrightarrow> can_run s' c = can_run s c"
  using frame_dom_ok [of C s s' c] by (auto simp: can_run_def frame_def)

lemma dom_ok_unique: "dom_ok s c xs \<Longrightarrow> dom_ok s c ys \<Longrightarrow> xs = ys"
  using ring_unique [of "pas s" "hd xs" "tl xs" "hd xs" "tl ys"]
  by (cases xs; cases ys) (auto simp: dom_ok_def ring_def)

lemma can_run_iff: "dom_ok s c xs \<Longrightarrow> can_run s c \<longleftrightarrow> (\<exists>x \<in> set xs. may_run (pas s) x)"
  by (auto simp: can_run_def dest: dom_ok_unique)

lemma statPANotRunnable_simps [simp]:
  "pas (statPANotRunnable n s) = pas s" "cdas (statPANotRunnable n s) = cdas s" "heap (statPANotRunnable n s) = heap s"
  "dispatchedCDA (statPANotRunnable n s) = dispatchedCDA s" "preemptedPA (statPANotRunnable n s) = preemptedPA s"
  by (simp_all add: statPANotRunnable_def)

lemma statCDANotRunnable_simps [simp]:
  "pas (statCDANotRunnable c s) = pas s" "cdas (statCDANotRunnable c s) = cdas s" "heap (statCDANotRunnable c s) = heap s"
  "dispatchedCDA (statCDANotRunnable c s) = dispatchedCDA s" "preemptedPA (statCDANotRunnable c s) = preemptedPA s"
  by (simp_all add: statCDANotRunnable_def updateRunnableWeight_def Let_def)


lemma cda_stillRunnable_ok:
  assumes "dom_ok s c xs"
  obtains b s' where "cda_stillRunnable c s = Some (b, s')" "b \<longleftrightarrow> can_run s c" "frame {c} s s'" "heap s' = heap s"
    "dispatchedCDA s' = dispatchedCDA s" "getPriority (cdas s' c) = getPriority (cdas s c)"
    "b \<longrightarrow> (\<exists>ys. dom_ok s' c ys \<and> may_run (pas s') (hd ys))"
proof -
  have r: "ring (pas s) xs" "currentPA (cdas s c) = hd xs" "\<forall>x \<in> set xs. cpuDomainAnnex (pas s x) = c"
    using assms by (auto simp: dom_ok_def)
  obtain b st k n ys where e: "stillRunnable (pas s) (cdas s c) = Some (b, st, (cdas s c)\<lparr>currentPA := k\<rparr>, n)"
    "b \<longleftrightarrow> (\<exists>x \<in> set xs. may_run (pas s) x)" "relinks (set xs) (pas s) st"
    "b \<longrightarrow> ring st ys \<and> k = hd ys \<and> may_run st (hd ys)" "set ys \<subseteq> set xs"
    using stillRunnable_spec [OF r(1,2)] by metis
  let ?s = "statPANotRunnable n (s\<lparr>pas := st, cdas := (cdas s)(c := (cdas s c)\<lparr>currentPA := k\<rparr>)\<rparr>)"
  have "cda_stillRunnable c s = Some (b, ?s)" by (simp add: cda_stillRunnable_def e(1))
  moreover have "frame {c} s ?s"
    unfolding frame_def using relinks_same [OF e(3)] r(3) by auto
  moreover have "b \<longrightarrow> (\<exists>ys. dom_ok ?s c ys \<and> may_run (pas ?s) (hd ys))"
    using e(4,5) r(3) relinks_same(2) [OF e(3)] by (auto simp: dom_ok_def intro!: exI [of _ ys])
  ultimately show ?thesis using that [of b ?s] e(2) can_run_iff [OF assms] by (auto simp: getPriority_def)
qed

lemma cda_flush_frame:
  "frame {c} s (cda_flush c s)" "heap (cda_flush c s) = heap s" "dispatchedCDA (cda_flush c s) = dispatchedCDA s"
  by (auto simp: frame_def cda_flush_def upd_cda_def flushQuantum_def adjustPriority_def)

lemma frame_heap: "frame C s s' \<Longrightarrow> frame C s (s'\<lparr>heap := h\<rparr>)" "frame C s s' \<Longrightarrow> frame C s (s'\<lparr>dispatchedCDA := d\<rparr>)"
  "frame C s s' \<Longrightarrow> frame C s (statCDANotRunnable c s')"
  by (auto simp: frame_def)

text \<open>A domain that left the queue may have changed; the rest of the queue is as before.\<close>

lemma q_inv_frame:
  assumes inv: "q_inv s" and fr: "frame C s s'" and h: "heap_ok (heap s')" "contents (heap s') \<subseteq># contents (heap s)"
    and d: "dispatchedCDA s' = dispatchedCDA s"
    and C: "\<forall>c \<in> C. c \<notin># add_mset (dispatchedCDA s') (queued s')"
  shows "q_inv s'"
proof -
  have sub: "queued s' \<subseteq># queued s" unfolding queued_def by (rule image_mset_subseteq_mono) fact
  have "fst x = getPriority (cdas s' (snd x))" if "x \<in># contents (heap s')" for x
  proof -
    have "snd x \<in># queued s'" using that by (auto simp: queued_def)
    then have "cdas s' (snd x) = cdas s (snd x)" using C fr by (auto simp: frame_def)
    moreover have "x \<in># contents (heap s)" using that h(2) by (rule mset_subset_eqD [rotated])
    ultimately show ?thesis using inv by (auto simp: q_inv_def)
  qed
  moreover have "Multiset.count (add_mset (dispatchedCDA s') (queued s')) c \<le> 1" for c
  proof -
    have "add_mset (dispatchedCDA s') (queued s') \<subseteq># add_mset (dispatchedCDA s) (queued s)" using sub d by simp
    then have "Multiset.count (add_mset (dispatchedCDA s') (queued s')) c \<le> Multiset.count (add_mset (dispatchedCDA s) (queued s)) c"
      by (rule mset_subset_eq_count)
    also have "\<dots> \<le> 1" using inv unfolding q_inv_def by blast
    finally show ?thesis .
  qed
  moreover have "\<exists>xs. dom_ok s' c xs" if c: "c \<in># add_mset (dispatchedCDA s') (queued s')" for c
  proof -
    have "c \<in># add_mset (dispatchedCDA s) (queued s)" using c sub d by (auto dest: mset_subset_eqD)
    then obtain xs where "dom_ok s c xs" using inv unfolding q_inv_def by blast
    moreover have "c \<notin> C" using C c by blast
    ultimately show ?thesis using frame_dom_ok [OF fr] by blast
  qed
  ultimately show ?thesis using h(1) unfolding q_inv_def by blast
qed

lemma q_inv_head:
  assumes "q_inv s" "contents (heap s) \<noteq> {#}"
  defines "c \<equiv> getHead (heap s)"
  shows "(getPriority (cdas s c), c) \<in># contents (heap s)" "element (heap s) ! 0 = (getPriority (cdas s c), c)"
    "c \<in># queued s" "c \<noteq> dispatchedCDA s"
    "\<forall>x \<in># contents (heap s). getPriority (cdas s c) \<le> fst x" "c \<notin># queued s - {#c#}"
proof -
  have ok: "heap_ok (heap s)" using assms(1) by (simp add: q_inv_def)
  have i: "element (heap s) ! 0 \<in># contents (heap s)" by (rule dq.head_in [OF ok assms(2)])
  then have "fst (element (heap s) ! 0) = getPriority (cdas s c)"
    using assms(1) unfolding q_inv_def c_def getHead_def by blast
  then show e: "element (heap s) ! 0 = (getPriority (cdas s c), c)"
    unfolding c_def getHead_def by (metis prod.collapse)
  with i show "(getPriority (cdas s c), c) \<in># contents (heap s)" by simp
  then show q: "c \<in># queued s" by (force simp: queued_def)
  have cnt: "Multiset.count (add_mset (dispatchedCDA s) (queued s)) c \<le> 1" using assms(1) unfolding q_inv_def by blast
  show "c \<noteq> dispatchedCDA s"
  proof
    assume "c = dispatchedCDA s"
    with cnt have "Multiset.count (queued s) c = 0" by simp
    then have "c \<notin># queued s" unfolding not_in_iff .
    with q show False by blast
  qed
  show "c \<notin># queued s - {#c#}" unfolding not_in_iff using cnt by (simp split: if_splits)
  show "\<forall>x \<in># contents (heap s). getPriority (cdas s c) \<le> fst x"
    using dq.head_least [OF ok] e by fastforce
qed


lemma cleanHeap_ok:
  assumes "q_inv s" "\<exists>c \<in># queued s. can_run s c"
  shows "\<exists>s' C. cleanHeap s = Some s' \<and> q_inv s' \<and> dispatchedCDA s' = dispatchedCDA s \<and> frame C s s' \<and>
    dispatchedCDA s \<notin> C \<and> contents (heap s') \<noteq> {#} \<and> contents (heap s') \<subseteq># contents (heap s) \<and>
    (\<forall>c \<in># queued s. can_run s c \<longrightarrow> c \<in># queued s' \<and> can_run s' c) \<and>
    (\<exists>ys. dom_ok s' (getHead (heap s')) ys \<and> may_run (pas s') (hd ys))"
  using assms
proof (induction "size (contents (heap s))" arbitrary: s rule: less_induct)
  case less
  let ?c = "getHead (heap s)"
  have ne: "contents (heap s) \<noteq> {#}" using less.prems(2) by (auto simp: queued_def)
  note hd = q_inv_head [OF less.prems(1) ne]
  have ok: "heap_ok (heap s)" using less.prems(1) by (simp add: q_inv_def)
  have "?c \<in># add_mset (dispatchedCDA s) (queued s)" using hd(3) by simp
  then obtain xs where xs: "dom_ok s ?c xs" using less.prems(1) unfolding q_inv_def by blast
  obtain b s1 where r: "cda_stillRunnable ?c s = Some (b, s1)" "b \<longleftrightarrow> can_run s ?c" "frame {?c} s s1" "heap s1 = heap s"
    "dispatchedCDA s1 = dispatchedCDA s" "getPriority (cdas s1 ?c) = getPriority (cdas s ?c)"
    "b \<longrightarrow> (\<exists>ys. dom_ok s1 ?c ys \<and> may_run (pas s1) (hd ys))"
    by (rule cda_stillRunnable_ok [OF xs])
  show ?case
  proof (cases b)
    case True
    then obtain ys where ys: "dom_ok s1 ?c ys" "may_run (pas s1) (hd ys)" using r(7) by blast
    have keys: "getPriority (cdas s1 d) = getPriority (cdas s d)" for d
      using r(3,6) by (cases "d = ?c") (auto simp: frame_def)
    have "\<exists>zs. dom_ok s1 d zs" if "d \<in># add_mset (dispatchedCDA s1) (queued s1)" for d
    proof (cases "d = ?c")
      case False
      have "d \<in># add_mset (dispatchedCDA s) (queued s)" using that r(4,5) unfolding queued_def by simp
      then have "\<exists>zs. dom_ok s d zs" using less.prems(1) unfolding q_inv_def by blast
      then show ?thesis using frame_dom_ok [OF r(3)] False by blast
    qed (use ys in blast)
    then have "q_inv s1" using less.prems(1) keys r(4,5) unfolding q_inv_def queued_def by simp
    moreover have "cleanHeap s = Some s1" using r(1) True by (simp add: cleanHeap.simps [of s])
    moreover have "can_run s1 c" if "can_run s c" for c
    proof (cases "c = ?c")
      case True
      have "hd ys \<in> set ys" using ys(1) by (simp add: dom_ok_def ring_def)
      then show ?thesis using ys True unfolding can_run_def by blast
    qed (use that frame_can_run [OF r(3)] in auto)
    ultimately show ?thesis using r(3-5) ys ne hd(4)
      by (intro exI [of _ s1] exI [of _ "{?c}"]) (auto simp: queued_def)
  next
    case False
    define s2 where "s2 = statCDANotRunnable ?c (cda_flush ?c s1)"
    define s3 where "s3 = s2\<lparr>heap := deleteHead (heap s2)\<rparr>"
    have fr: "frame {?c} s s3"
      using frame_trans [OF r(3) cda_flush_frame(1) [of ?c s1]] by (auto simp: s3_def s2_def intro!: frame_heap)
    have s3: "heap s3 = deleteHead (heap s)" "dispatchedCDA s3 = dispatchedCDA s"
      using r(4,5) by (simp_all add: s3_def s2_def cda_flush_frame)
    have "\<exists>d \<in># queued s. d \<noteq> ?c \<and> can_run s d" using less.prems(2) False r(2) by metis
    then obtain d where d: "d \<in># queued s" "d \<noteq> ?c" "can_run s d" by blast
    have "0 < dheap.count (heap s)" using ne size_contents [OF ok] by (cases "dheap.count (heap s)") auto
    note del = deleteHead_any [OF ok this]
    have cs: "contents (heap s3) = contents (heap s) - {#(getPriority (cdas s ?c), ?c)#}"
      using del(2) hd(2) s3(1) by simp
    then have q3: "queued s3 = queued s - {#?c#}"
      using hd(1) by (simp add: queued_def image_mset_Diff)
    have "q_inv s3"
      by (rule q_inv_frame [OF less.prems(1) fr]) (use del s3 cs q3 hd in auto)
    moreover have "d \<in># queued s3" unfolding q3 using d(1,2) hd(3) by (metis insert_DiffM insert_noteq_member)
    moreover have "can_run s3 d" using frame_can_run [OF fr] d by blast
    moreover have "size (contents (heap s3)) < size (contents (heap s))"
      using cs hd(1) by (simp add: size_Diff1_less)
    ultimately obtain s' C where ih: "cleanHeap s3 = Some s'" "q_inv s'" "dispatchedCDA s' = dispatchedCDA s3"
      "frame C s3 s'" "dispatchedCDA s3 \<notin> C" "contents (heap s') \<noteq> {#}" "contents (heap s') \<subseteq># contents (heap s3)"
      "\<forall>c \<in># queued s3. can_run s3 c \<longrightarrow> c \<in># queued s' \<and> can_run s' c"
      "\<exists>ys. dom_ok s' (getHead (heap s')) ys \<and> may_run (pas s') (hd ys)"
      using less.hyps [of s3] by blast
    have "cleanHeap s = Some s'"
      using r(1,4) False ih(1) by (simp add: cleanHeap.simps [of s] Let_def s2_def s3_def)
    moreover have "frame (insert ?c C) s s'" using frame_trans [OF fr ih(4)] by simp
    moreover have "contents (heap s') \<subseteq># contents (heap s)"
      by (rule subset_mset.order_trans [OF ih(7)]) (simp add: cs)
    moreover have "c \<in># queued s' \<and> can_run s' c" if c: "c \<in># queued s" "can_run s c" for c
    proof -
      have "c \<noteq> ?c" using c False r(2) by metis
      then have "c \<in># queued s3" unfolding q3 using c(1) hd(3) by (metis insert_DiffM insert_noteq_member)
      moreover have "can_run s3 c" using frame_can_run [OF fr] c(2) \<open>c \<noteq> ?c\<close> by blast
      ultimately show ?thesis using ih(8) by blast
    qed
    ultimately show ?thesis using ih(2,3,5,6,9) s3(2) hd(4) by (intro exI [of _ s'] exI [of _ "insert ?c C"]) auto
  qed
qed


text \<open>The dispatched domain can run and no domain in the heap has a smaller priority value.\<close>

definition best :: "dqueue \<Rightarrow> bool" where
  "best s \<longleftrightarrow> (\<forall>x \<in># contents (heap s). getPriority (cdas s (dispatchedCDA s)) \<le> fst x \<and>
       fst x = getPriority (cdas s (snd x))) \<and>
     (\<exists>ys. dom_ok s (dispatchedCDA s) ys \<and> may_run (pas s) (hd ys))"

lemma choose_cda_ok:
  assumes inv: "q_inv s" and ne: "contents (heap s) \<noteq> {#}"
    and hr: "\<exists>ys. dom_ok s (getHead (heap s)) ys \<and> may_run (pas s) (hd ys)"
  shows "\<exists>s'. choose_cda s = Some s' \<and> best s' \<and> frame {dispatchedCDA s} s s' \<and>
    (\<forall>c \<in># add_mset (dispatchedCDA s) (queued s). can_run s c \<longrightarrow> c \<in># add_mset (dispatchedCDA s') (queued s'))"
proof -
  let ?h = "getHead (heap s)" and ?d = "dispatchedCDA s"
  note hd = q_inv_head [OF inv ne]
  have ok: "heap_ok (heap s)" using inv by (simp add: q_inv_def)
  have keys: "\<forall>x \<in># contents (heap s). fst x = getPriority (cdas s (snd x))" using inv by (simp add: q_inv_def)
  have dq: "?d \<notin># queued s"
  proof -
    have "Multiset.count (add_mset ?d (queued s)) ?d \<le> 1" using inv unfolding q_inv_def by blast
    then show ?thesis unfolding not_in_iff by simp
  qed
  obtain xs where "dom_ok s ?d xs" using inv unfolding q_inv_def by auto
  then obtain b s1 where r: "cda_stillRunnable ?d s = Some (b, s1)" "frame {?d} s s1" "heap s1 = heap s"
    "dispatchedCDA s1 = ?d" "getPriority (cdas s1 ?d) = getPriority (cdas s ?d)"
    "b \<longrightarrow> (\<exists>ys. dom_ok s1 ?d ys \<and> may_run (pas s1) (hd ys))" "b \<longleftrightarrow> can_run s ?d"
    using cda_stillRunnable_ok by metis
  have in_heap: "cdas s1 (snd x) = cdas s (snd x)" if "x \<in># contents (heap s)" for x
  proof -
    have "snd x \<in># queued s" using that by (auto simp: queued_def)
    then have "snd x \<noteq> ?d" using dq by metis
    then show ?thesis using r(2) by (auto simp: frame_def)
  qed
  have hd1: "cdas s1 ?h = cdas s ?h" using in_heap [OF hd(1)] by simp
  have hr1: "\<exists>ys. dom_ok s' ?h ys \<and> may_run (pas s') (hd ys)" if "frame {?d} s s'" for s'
    using hr frame_dom_ok [OF that, of ?h] hd(4) that by (auto simp: frame_def)
  consider (keep) "b" "\<not> hasHigherPriorityThan (cdas s1 ?h) (cdas s1 ?d)"
    | (swap) "b" "hasHigherPriorityThan (cdas s1 ?h) (cdas s1 ?d)" | (drop) "\<not> b" by blast
  then show ?thesis
  proof cases
    case keep
    then have e: "choose_cda s = Some s1" using r(1) by (simp add: choose_cda_def Let_def)
    have "getPriority (cdas s1 ?d) \<le> fst x" if "x \<in># contents (heap s)" for x
      using keep(2) hd(5) that hd1 by (fastforce simp: hasHigherPriorityThan_def)
    then have "best s1" using r(3-6) keep(1) keys in_heap by (auto simp: best_def)
    with e r show ?thesis by (auto simp: queued_def)
  next
    case swap
    let ?s = "s1\<lparr>heap := replaceHead (heap s1) (getPriority (cdas s1 ?d)) ?d, dispatchedCDA := ?h\<rparr>"
    have e: "choose_cda s = Some ?s" using r(1) swap by (simp add: choose_cda_def Let_def)
    have c: "contents (heap ?s) = add_mset (getPriority (cdas s1 ?d), ?d) (contents (heap s) - {#element (heap s) ! 0#})"
      using dq.replace_law [OF ok ne] r(3) by simp
    have fr: "frame {?d} s ?s" using r(2) by (auto intro: frame_heap simp: frame_def)
    have "getPriority (cdas s1 ?h) \<le> fst x \<and> fst x = getPriority (cdas s1 (snd x))" if "x \<in># contents (heap ?s)" for x
    proof (cases "x = (getPriority (cdas s1 ?d), ?d)")
      case True
      then show ?thesis using swap(2) by (simp add: hasHigherPriorityThan_def)
    next
      case False
      then have "x \<in># contents (heap s)" using that c by (auto dest: in_diffD)
      then show ?thesis using hd(5) keys in_heap hd1 by auto
    qed
    then have "best ?s" using hr1 [OF fr] by (auto simp: best_def)
    moreover have "queued ?s = add_mset ?d (queued s - {#?h#})"
      unfolding queued_def c using hd(1,2) by (simp add: image_mset_Diff)
    then have "add_mset (dispatchedCDA ?s) (queued ?s) = add_mset ?d (queued s)" using hd(3) by (simp add: add_mset_commute)
    ultimately show ?thesis using e fr by (intro exI [of _ ?s]) simp
  next
    case drop
    let ?t = "statCDANotRunnable ?d (cda_flush ?d s1)"
    let ?s = "?t\<lparr>heap := deleteHead (heap ?t), dispatchedCDA := ?h\<rparr>"
    have e: "choose_cda s = Some ?s" using r(1) drop by (simp add: choose_cda_def Let_def)
    have fr: "frame {?d} s ?s"
      using frame_trans [OF r(2) cda_flush_frame(1) [of ?d s1]] by (auto intro!: frame_heap simp: frame_def)
    have "0 < dheap.count (heap s)" using ne size_contents [OF ok] by (cases "dheap.count (heap s)") auto
    then have c: "contents (heap ?s) = contents (heap s) - {#element (heap s) ! 0#}"
      using deleteHead_any [OF ok] r(3) by (simp add: cda_flush_frame)
    have "getPriority (cdas ?s ?h) \<le> fst x \<and> fst x = getPriority (cdas ?s (snd x))" if "x \<in># contents (heap ?s)" for x
    proof -
      have x: "x \<in># contents (heap s)" using that c by (auto dest: in_diffD)
      then have "snd x \<in># queued s" by (auto simp: queued_def)
      then have "snd x \<noteq> ?d" using dq by metis
      then have "cdas ?s (snd x) = cdas s (snd x)" "cdas ?s ?h = cdas s ?h"
        using fr hd(4) by (auto simp: frame_def)
      then show ?thesis using hd(5) keys x by auto
    qed
    then have "best ?s" using hr1 [OF fr] by (auto simp: best_def)
    moreover have "queued ?s = queued s - {#?h#}"
      unfolding queued_def c using hd(1,2) by (simp add: image_mset_Diff)
    then have "add_mset (dispatchedCDA ?s) (queued ?s) = queued s" using hd(3) by simp
    ultimately show ?thesis using e fr r(7) drop by (intro exI [of _ ?s]) auto
  qed
qed


text \<open>Accounting changes no link, and in domains only the dispatched one.\<close>

definition accounted :: "dqueue \<Rightarrow> dqueue \<Rightarrow> bool" where
  "accounted s s' \<longleftrightarrow> heap s' = heap s \<and> dispatchedCDA s' = dispatchedCDA s \<and> dispatchedPA s' = dispatchedPA s \<and>
     preemptedPA s' = preemptedPA s \<and>
     (\<forall>x. cpuDomainNext (pas s' x) = cpuDomainNext (pas s x) \<and> cpuDomainAnnex (pas s' x) = cpuDomainAnnex (pas s x) \<and>
          may_run (pas s') x = may_run (pas s) x) \<and>
     (\<forall>x. x \<noteq> dispatchedPA s \<longrightarrow> dispatchTicks (pas s' x) = dispatchTicks (pas s x)) \<and>
     (\<forall>c. c \<noteq> dispatchedCDA s \<longrightarrow> cdas s' c = cdas s c) \<and>
     (\<forall>c. pulseInterval (cdas s' c) = pulseInterval (cdas s c)) \<and>
     (currentPA (cdas s' (dispatchedCDA s)) = currentPA (cdas s (dispatchedCDA s)) \<or>
      currentPA (cdas s' (dispatchedCDA s)) = cpuDomainNext (pas s (currentPA (cdas s (dispatchedCDA s)))))"

lemma publish_simps [simp]:
  "pas (fold publish ks s) = pas s" "cdas (fold publish ks s) = cdas s" "heap (fold publish ks s) = heap s"
  "dispatchedCDA (fold publish ks s) = dispatchedCDA s" "dispatchedPA (fold publish ks s) = dispatchedPA s"
  "preemptedPA (fold publish ks s) = preemptedPA s" "lastDispatchTime (fold publish ks s) = lastDispatchTime s"
  by (induction ks arbitrary: s) (auto simp: publish_def Let_def)

lemma pannex_ticks_simps [simp]:
  "stillRunnable_pa (addTime d p) = stillRunnable_pa p" "stillRunnable_pa (resetPulse d p) = stillRunnable_pa p"
  by (auto simp: stillRunnable_pa_def addTime_def resetPulse_def)

lemma inflate_simps [simp]:
  "pas (inflate now s) = pas s" "cdas (inflate now s) = cdas s" "heap (inflate now s) = heap s"
  "dispatchedCDA (inflate now s) = dispatchedCDA s" "dispatchedPA (inflate now s) = dispatchedPA s"
  "preemptedPA (inflate now s) = preemptedPA s"
  by (simp_all add: inflate_def statPublish_def Let_def)

lemma statAdvance_simps [simp]:
  "pas (statAdvance c d s) = pas s" "cdas (statAdvance c d s) = cdas s" "heap (statAdvance c d s) = heap s"
  "dispatchedCDA (statAdvance c d s) = dispatchedCDA s" "dispatchedPA (statAdvance c d s) = dispatchedPA s"
  "preemptedPA (statAdvance c d s) = preemptedPA s"
  by (simp_all add: statAdvance_def Let_def)

lemma adjustQuantum_simps [simp]:
  "heap (adjustQuantum c d s) = heap s" "dispatchedCDA (adjustQuantum c d s) = dispatchedCDA s"
  "dispatchedPA (adjustQuantum c d s) = dispatchedPA s" "preemptedPA (adjustQuantum c d s) = preemptedPA s"
  "cpuDomainNext (pas (adjustQuantum c d s) x) = cpuDomainNext (pas s x)"
  "cpuDomainAnnex (pas (adjustQuantum c d s) x) = cpuDomainAnnex (pas s x)"
  "may_run (pas (adjustQuantum c d s)) x = may_run (pas s) x"
  "dispatchTicks (pas (adjustQuantum c d s) x) = dispatchTicks (pas s x)"
  "c' \<noteq> c \<Longrightarrow> cdas (adjustQuantum c d s) c' = cdas s c'"
  "pulseInterval (cdas (adjustQuantum c d s) c') = pulseInterval (cdas s c')"
  by (simp_all add: adjustQuantum_def cda_flush_def upd_pa_def upd_cda_def Let_def may_run_def resetPulse_def
      flushQuantum_def adjustPriority_def stillRunnable_pa_def)

lemma adjustQuantum_current:
  "currentPA (cdas (adjustQuantum c d s) c) = currentPA (cdas s c) \<or>
   currentPA (cdas (adjustQuantum c d s) c) = cpuDomainNext (pas s (currentPA (cdas s c)))"
  by (simp add: adjustQuantum_def cda_flush_def upd_pa_def upd_cda_def Let_def resetPulse_def
      flushQuantum_def adjustPriority_def)

lemma upd_pa_addTime [simp]:
  "cpuDomainNext (pas (upd_pa (addTime d) p s) x) = cpuDomainNext (pas s x)"
  "cpuDomainAnnex (pas (upd_pa (addTime d) p s) x) = cpuDomainAnnex (pas s x)"
  "may_run (pas (upd_pa (addTime d) p s)) x = may_run (pas s) x"
  "x \<noteq> p \<Longrightarrow> dispatchTicks (pas (upd_pa (addTime d) p s) x) = dispatchTicks (pas s x)"
  "dispatchTicks (pas (upd_pa (addTime d) p s) p) = uadd (dispatchTicks (pas s p)) d"
  by (simp_all add: upd_pa_def may_run_def addTime_def stillRunnable_pa_def)

lemma upd_pa_simps [simp]:
  "cdas (upd_pa f p s) = cdas s" "heap (upd_pa f p s) = heap s" "dispatchedCDA (upd_pa f p s) = dispatchedCDA s"
  "dispatchedPA (upd_pa f p s) = dispatchedPA s" "preemptedPA (upd_pa f p s) = preemptedPA s"
  by (simp_all add: upd_pa_def)

lemma startDispatch_accounted: "accounted s (startDispatch now s)"
proof -
  let ?s = "upd_pa (addTime (usub now (lastDispatchTime (inflate now s)))) (dispatchedPA s) (inflate now s\<lparr>lastDispatchTime := now\<rparr>)"
  have e: "startDispatch now s = statAdvance (dispatchedCDA s) (usub now (lastDispatchTime (inflate now s)))
      (adjustQuantum (dispatchedCDA s) (usub now (lastDispatchTime (inflate now s))) ?s)"
    by (simp add: startDispatch_def Let_def)
  show ?thesis unfolding accounted_def e
    using adjustQuantum_current [of "dispatchedCDA s" "usub now (lastDispatchTime (inflate now s))" ?s] by simp
qed

lemma accounted_dom_ok: "accounted s s' \<Longrightarrow> c \<noteq> dispatchedCDA s \<Longrightarrow> dom_ok s' c xs = dom_ok s c xs"
  using links_cong [of xs "pas s'" "pas s"] by (auto simp: accounted_def dom_ok_def ring_def)

lemma accounted_dispatched:
  assumes "accounted s s'" "dom_ok s (dispatchedCDA s) xs"
  shows "\<exists>ys. dom_ok s' (dispatchedCDA s) ys \<and> set ys = set xs"
proof -
  obtain x zs where xs: "xs = x # zs" using assms(2) by (cases xs) (auto simp: dom_ok_def ring_def)
  have r: "ring (pas s) (x # zs)" "ring (pas s) (zs @ [x])" "cpuDomainNext (pas s x) = hd (zs @ [x])"
    using assms(2) xs ring_rotate by (auto simp: dom_ok_def)
  have same: "ring (pas s') ws = ring (pas s) ws" for ws
    using links_cong [of ws "pas s'" "pas s"] assms(1) by (auto simp: accounted_def ring_def)
  consider "currentPA (cdas s' (dispatchedCDA s)) = x" | "currentPA (cdas s' (dispatchedCDA s)) = hd (zs @ [x])"
    using assms r(3) xs by (auto simp: accounted_def dom_ok_def)
  then show ?thesis
  proof cases
    case 1
    then show ?thesis using r same assms xs by (intro exI [of _ "x # zs"]) (auto simp: dom_ok_def accounted_def)
  next
    case 2
    then show ?thesis using r same assms xs by (intro exI [of _ "zs @ [x]"]) (auto simp: dom_ok_def accounted_def)
  qed
qed

lemma accounted_inv:
  assumes inv: "q_inv s" and acc: "accounted s s'"
  shows "q_inv s'" "c \<in># add_mset (dispatchedCDA s) (queued s) \<Longrightarrow> can_run s' c = can_run s c" "queued s' = queued s"
proof -
  have same: "heap s' = heap s" "dispatchedCDA s' = dispatchedCDA s" using acc by (auto simp: accounted_def)
  then show q: "queued s' = queued s" by (simp add: queued_def)
  have cnt: "Multiset.count (add_mset (dispatchedCDA s) (queued s)) d \<le> 1" for d using inv unfolding q_inv_def by blast
  have dq: "d \<noteq> dispatchedCDA s" if "d \<in># queued s" for d
  proof
    assume "d = dispatchedCDA s"
    with cnt [of d] have "d \<notin># queued s" unfolding not_in_iff by simp
    with that show False by blast
  qed
  have ex: "\<forall>c \<in># add_mset (dispatchedCDA s) (queued s). \<exists>xs. dom_ok s c xs" using inv unfolding q_inv_def by blast
  show "can_run s' c = can_run s c" if "c \<in># add_mset (dispatchedCDA s) (queued s)"
  proof (cases "c = dispatchedCDA s")
    case True
    from ex obtain xs where xs: "dom_ok s (dispatchedCDA s) xs" by auto
    from accounted_dispatched [OF acc xs] obtain ys where "dom_ok s' (dispatchedCDA s) ys" "set ys = set xs" by blast
    then show ?thesis using can_run_iff xs True acc by (auto simp: accounted_def)
  next
    case False
    then show ?thesis using accounted_dom_ok [OF acc False] acc by (auto simp: can_run_def accounted_def)
  qed
  have "fst x = getPriority (cdas s' (snd x))" if "x \<in># contents (heap s)" for x
  proof -
    have "snd x \<in># queued s" using that by (auto simp: queued_def)
    from dq [OF this] have "cdas s' (snd x) = cdas s (snd x)" using acc by (auto simp: accounted_def)
    then show ?thesis using inv that by (auto simp: q_inv_def)
  qed
  moreover have "\<exists>xs. dom_ok s' d xs" if "d \<in># add_mset (dispatchedCDA s) (queued s)" for d
  proof -
    from ex that obtain xs where xs: "dom_ok s d xs" by blast
    show ?thesis
    proof (cases "d = dispatchedCDA s")
      case True
      with accounted_dispatched [OF acc] xs show ?thesis by blast
    next
      case False
      with accounted_dom_ok [OF acc False] xs show ?thesis by blast
    qed
  qed
  moreover have "heap_ok (heap s)" using inv by (simp add: q_inv_def)
  ultimately show "q_inv s'" using cnt unfolding q_inv_def same q by blast
qed


section \<open>Dispatch\<close>

text \<open>Clock and tick counts far enough from the end of 64 bits.\<close>

definition ticks_ok :: "uval \<Rightarrow> dqueue \<Rightarrow> bool" where
  "ticks_ok now s \<longleftrightarrow> now < 2 ^ 61 \<and> lastDispatchTime s \<le> now \<and> inflationInterval s \<le> now \<and>
     (\<forall>x. dispatchTicks (pas s x) < 2 ^ 61) \<and> (\<forall>c. 0 < pulseInterval (cdas s c) \<and> pulseInterval (cdas s c) < 2 ^ 61)"

lemma publish_clock [simp]: "lastDispatchTime (statPublish s) = lastDispatchTime s"
  by (simp add: statPublish_def)

lemma inflate_clock: "ticks_ok now s \<Longrightarrow> lastDispatchTime (inflate now s) \<le> now"
  by (simp add: inflate_def ticks_ok_def Let_def uval_simps)

lemma startDispatch_dispatchTicks:
  "dispatchTicks (pas (startDispatch now s) x) =
     (if x = dispatchedPA s then uadd (dispatchTicks (pas s x)) (usub now (lastDispatchTime (inflate now s)))
      else dispatchTicks (pas s x))"
  by (simp add: startDispatch_def Let_def)

lemma startDispatch_ticks:
  assumes "ticks_ok now s"
  shows "dispatchTicks (pas (startDispatch now s) x) < 2 ^ 62"
proof -
  have "usub now (lastDispatchTime (inflate now s)) \<le> now"
    using inflate_clock [OF assms] assms by (simp add: ticks_ok_def uval_simps)
  moreover have "now < 2 ^ 61" "dispatchTicks (pas s x) < 2 ^ 61" using assms by (auto simp: ticks_ok_def)
  ultimately show ?thesis by (auto simp: startDispatch_dispatchTicks uval_simps)
qed

lemma finishDispatch_ok:
  assumes "dispatchTicks (pas s (dispatchedPA s)) < 2 ^ 62"
    "0 < pulseInterval (cdas s (dispatchedCDA s))" "pulseInterval (cdas s (dispatchedCDA s)) < 2 ^ 61"
  shows "\<exists>s' p. finishDispatch now s = Some s' \<and> heap s' = heap s \<and> cdas s' = cdas s \<and> dispatchedCDA s' = dispatchedCDA s \<and>
     dispatchedPA s' = dispatchedPA s \<and> unblocked s' = unblocked s \<and> kernelProcessAnnex s' = kernelProcessAnnex s \<and>
     preemptedPA s' = preemptedPA s \<and>
     pas s' = (pas s)(dispatchedPA s := p) \<and> p = pas s (dispatchedPA s)\<lparr>intrPending := intrPending p, pulseTicks := pulseTicks p\<rparr> \<and>
     (intrPending (pas s (dispatchedPA s)) \<longrightarrow> intrPending p)"
proof (cases "pulseNeeded (pas s (dispatchedPA s))")
  case True
  let ?p = "pas s (dispatchedPA s)" and ?i = "pulseInterval (cdas s (dispatchedCDA s))"
  have "\<exists>t. pulse_loop ?i (dispatchTicks ?p) (pulseTicks ?p) = Some t \<and> dispatchTicks ?p \<le> t \<and> t < dispatchTicks ?p + ?i + 1"
    by (rule pulse_loop_ends) (use assms True in \<open>auto simp: pulseNeeded_def\<close>)
  then obtain t where t: "pulse_loop ?i (dispatchTicks ?p) (pulseTicks ?p) = Some t" by blast
  show ?thesis
    by (simp add: finishDispatch_def True t Let_def resetCDABorrowers_def upd_pa_def)
      (rule exI [of _ "?p\<lparr>intrPending := True, pulseTicks := t\<rparr>"], simp)
next
  case False
  then show ?thesis
    by (simp add: finishDispatch_def Let_def resetCDABorrowers_def exI [of _ "pas s (dispatchedPA s)"])
qed


lemma take_preempted_none:
  "\<forall>k. preemptedPA s k = 0 \<Longrightarrow> take_preempted (s\<lparr>dispatchedPA := x\<rparr>) = s\<lparr>dispatchedPA := x\<rparr>"
  by (simp add: take_preempted_def)

lemma not_awaiting [simp]: "\<not> awaitingDispatch p \<Longrightarrow> p\<lparr>awaitingDispatch := False\<rparr> = p"
  by (cases p) simp

text \<open>The last part of \<^verbatim>\<open>getNextProcessAnnex\<close>, from a state whose dispatched domain is chosen.\<close>

lemma dispatch_chosen:
  assumes t: "cleanHeap (startDispatch now s) = Some s1" "choose_cda s1 = Some s2" and b: "best s2"
    and pre: "\<forall>k. preemptedPA s2 k = 0" and ticks: "\<forall>x. dispatchTicks (pas s2 x) < 2 ^ 62"
    and iv: "\<forall>c. 0 < pulseInterval (cdas s2 c) \<and> pulseInterval (cdas s2 c) < 2 ^ 61"
  shows "\<exists>ret s'. getNextProcessAnnex now s = Some (ret, s') \<and> heap s' = heap s2 \<and> cdas s' = cdas s2 \<and>
    dispatchedCDA s' = dispatchedCDA s2 \<and> may_run (pas s2) (dispatchedPA s') \<and>
    cpuDomainAnnex (pas s' (dispatchedPA s')) = dispatchedCDA s' \<and>
    (ret = dispatchedPA s' \<and> stillRunnable_pa (pas s' ret) \<or>
     ret = kernelProcessAnnex s' \<and> \<not> awaitingDispatch (pas s' (dispatchedPA s')) \<and>
     last (unblocked s') = reservedThread (pas s' (dispatchedPA s')))"
proof -
  let ?pa = "currentPA (cdas s2 (dispatchedCDA s2))"
  have pa: "may_run (pas s2) ?pa" "cpuDomainAnnex (pas s2 ?pa) = dispatchedCDA s2"
    using b by (auto simp: best_def dom_ok_def ring_def)
  let ?s3 = "s2\<lparr>dispatchedPA := ?pa\<rparr>"
  define a where "a \<longleftrightarrow> awaitingDispatch (pas s2 ?pa)"
  define s5 where "s5 = upd_pa clearWarning ?pa (if a then signalDispatch ?pa ?s3 else ?s3)"
  have s5: "heap s5 = heap s2" "cdas s5 = cdas s2" "dispatchedCDA s5 = dispatchedCDA s2" "dispatchedPA s5 = ?pa"
    "kernelProcessAnnex s5 = kernelProcessAnnex s2"
    by (simp_all add: s5_def signalDispatch_def) (simp_all add: upd_pa_def)
  have p5: "pas s5 ?pa = clearWarning ((pas s2 ?pa)\<lparr>awaitingDispatch := False\<rparr>)"
    by (cases a) (simp_all add: s5_def signalDispatch_def upd_pa_def a_def)
  have u5: "unblocked s5 = (if a then unblocked s2 @ [reservedThread (pas s2 ?pa)] else unblocked s2)"
    by (simp add: s5_def signalDispatch_def upd_pa_def)
  have "dispatchTicks (pas s5 ?pa) < 2 ^ 62" using ticks by (simp add: p5 clearWarning_def)
  then obtain s6 p where f: "finishDispatch now s5 = Some s6" "heap s6 = heap s5" "cdas s6 = cdas s5"
    "dispatchedCDA s6 = dispatchedCDA s5" "dispatchedPA s6 = ?pa" "unblocked s6 = unblocked s5"
    "kernelProcessAnnex s6 = kernelProcessAnnex s5" "pas s6 = (pas s5)(?pa := p)"
    "p = pas s5 ?pa\<lparr>intrPending := intrPending p, pulseTicks := pulseTicks p\<rparr>" "intrPending (pas s5 ?pa) \<longrightarrow> intrPending p"
    using finishDispatch_ok [of s5 now] iv s5 by auto
  have g: "getNextProcessAnnex now s = Some (if a then kernelProcessAnnex s2 else ?pa, s6)"
    using f(1) by (cases a)
      (simp_all add: getNextProcessAnnex_def t take_preempted_none [OF pre] Let_def s5_def a_def signalDispatch_def upd_pa_def)
  have fields: "cpuDomainAnnex p = dispatchedCDA s2" "\<not> awaitingDispatch p" "reservedThread p = reservedThread (pas s2 ?pa)"
    using pa(2) by (subst f(9), simp add: p5 clearWarning_def)+
  show ?thesis
  proof (cases a)
    case True
    then show ?thesis using g f s5 u5 pa fields by simp
  next
    case False
    then have "stillRunnable_pa p"
      using pa(1) f(9,10) p5 by (cases p) (auto simp: a_def may_run_def stillRunnable_pa_def clearWarning_def)
    with False show ?thesis using g f s5 u5 pa fields by simp
  qed
qed




definition ex_annex :: "nat \<Rightarrow> pannex" where
  "ex_annex x = \<lparr>cpuDomainNext = x, cpuDomainAnnex = x, reservedThread = 0, hasWork = True, intrPending = False,
     awaitingDispatch = False, terminating = False, dispatchTicks = 0, pulseTicks = 10, warningTicks = SysTimeMax, pa_pp = 0\<rparr>"

definition ex_domain :: "nat \<Rightarrow> cdomain" where
  "ex_domain c = \<lparr>pclass = c, exponent = 0, mantissa = 0, consumedTicks = 0, quantum = 100, pulseInterval = 10,
     drag = 1, weight = 5, currentPA = c, cda_pp = 0\<rparr>"

text \<open>Domain 2 is dispatched, domain 1 waits in the heap with a more urgent class.\<close>

definition ex_queue :: dqueue where
  "ex_queue = \<lparr>pas = ex_annex, cdas = ex_domain,
     heap = \<lparr>count = 1, element = (getPriority (ex_domain 1), 1) # replicate 15 (0, 0)\<rparr>,
     dispatchedCDA = 2, dispatchedPA = 2, lastDispatchTime = 0, inflation = 0, nextInflationTime = 1000,
     inflationInterval = 40, tickScale = 0, warningQuantum = 20,
     currentStats = (\<lambda>_. \<lparr>dispatchTimeAccum = 0, runnableWeightAccum = 0, runnableWeight = 5\<rparr>),
     smooth = (\<lambda>_. \<lparr>smDispatchTimeAccum = 0, smRunnableWeightAccum = 0\<rparr>),
     runnableCPUDomainCount = 2, runnableDispatcherCount = 2, cdaBorrowersTop = 0, cdaBorrowers = replicate 8 2,
     preemptedPA = (\<lambda>_. 0), kernelProcessAnnex = 9, thisVP = 0, dispatchTimer = (0, 0), unblocked = []\<rparr>"



section \<open>Weights in the statistics\<close>

lemma runnableWeight_frames [simp]:
  "currentStats (clearCDABorrowers s) = currentStats s" "currentStats (upd_cda f c s) = currentStats s"
  "currentStats (cda_flush c s) = currentStats s" "cdas (updateRunnableWeight g k s) = cdas s"
  by (simp_all add: clearCDABorrowers_def upd_cda_def cda_flush_def updateRunnableWeight_def)

lemma addCPUDomainAnnex_cdas: "addCPUDomainAnnex c s = Some s' \<Longrightarrow> cdas s' = cdas s"
  by (auto simp: addCPUDomainAnnex_def statCDARunnable_def clearCDABorrowers_def Let_def split: sum.splits if_splits)

lemma runnableWeight_add: "addCPUDomainAnnex c s = Some s' \<Longrightarrow>
  runnableWeight (currentStats s' j) = (if j = pclass (cdas s c) then uadd (runnableWeight (currentStats s j)) (weight (cdas s c))
    else runnableWeight (currentStats s j))"
  by (auto simp: addCPUDomainAnnex_def statCDARunnable_def updateRunnableWeight_def Let_def split: sum.splits if_splits)

lemma runnableWeight_remove:
  "runnableWeight (currentStats (removeCPUDomainAnnex c s) j) =
     (if j = pclass (cdas s c) then usub (runnableWeight (currentStats s j)) (weight (cdas s c))
      else runnableWeight (currentStats s j))"
  "pclass (cdas (removeCPUDomainAnnex c s) c) = pclass (cdas s c)" "weight (cdas (removeCPUDomainAnnex c s) c) = weight (cdas s c)"
  by (simp_all add: removeCPUDomainAnnex_def statCDANotRunnable_def updateRunnableWeight_def Let_def cda_flush_def upd_cda_def
      flushQuantum_def adjustPriority_def)

text \<open>
  A change of class never moves a domain's weight between the statistics of the two classes:
  \<^verbatim>\<open>_setPriorityClass\<close> writes the new class before it takes the domain out of the queue, so the weight
  is subtracted from and added to the new class, and the old one keeps the weight of a
  domain it no longer has.
\<close>

theorem setPriorityClass_keeps_class_weights:
  assumes "setPriorityClass c k s = Some (Inr s')"
    and "\<forall>j. runnableWeight (currentStats s j) < 2 ^ 64" "weight (cdas s c) < 2 ^ 64"
  shows "pclass (cdas s' c) = k \<and> runnableWeight (currentStats s' j) = runnableWeight (currentStats s j)"
proof -
  let ?s = "upd_cda (pclass_update (\<lambda>_. k)) c s"
  have w: "cdas ?s c = (cdas s c)\<lparr>pclass := k\<rparr>" by (simp add: upd_cda_def)
  consider "currentPA (cdas s c) = 0" "s' = ?s"
    | "currentPA (cdas s c) \<noteq> 0" "addCPUDomainAnnex c (removeCPUDomainAnnex c ?s) = Some s'"
    using assms(1) w by (auto simp: setPriorityClass_def Let_def split: if_splits)
  then show ?thesis
  proof cases
    case 2
    show ?thesis using runnableWeight_add [OF 2(2), of j] addCPUDomainAnnex_cdas [OF 2(2)] runnableWeight_remove [of c ?s]
        w assms(2,3) by (auto simp: uadd_usub_cancel)
  qed (use w in auto)
qed


theorem setPriorityClass_keeps_class_weights_witness:
  "\<exists>s'. setPriorityClass 1 3 ex_queue = Some (Inr s') \<and> pclass (cdas s' 1) = 3 \<and>
     runnableWeight (currentStats s' 1) = runnableWeight (currentStats ex_queue 1)"
proof -
  have "\<exists>s'. setPriorityClass 1 3 ex_queue = Some (Inr s')"
    by (simp add: setPriorityClass_def ex_queue_def ex_domain_def upd_cda_def PRIORITY_CLASS_KERNEL_def
        PRIORITY_CLASS_UNRUNNABLE_def addCPUDomainAnnex_def removeCPUDomainAnnex_def heap_remove_def heap_insert_def
        HEAP_SIZE_def Let_def statCDARunnable_def statCDANotRunnable_def updateRunnableWeight_def cda_flush_def split: prod.splits)
  then obtain s' where s': "setPriorityClass 1 3 ex_queue = Some (Inr s')" by blast
  moreover have "\<forall>j. runnableWeight (currentStats ex_queue j) < 2 ^ 64" "weight (cdas ex_queue 1) < 2 ^ 64"
    by (simp_all add: ex_queue_def ex_domain_def)
  ultimately show ?thesis using setPriorityClass_keeps_class_weights [of 1 3 ex_queue s' 1] by blast
qed

text \<open>
  A change of weight while a domain is runnable stays in the statistics for good:
  \<^verbatim>\<open>_setWeight\<close> does not account for it, so a domain that became runnable with one
  weight and stops being runnable with another leaves the difference behind in its class.
\<close>

theorem setWeight_drift:
  assumes "setWeight c w (statCDARunnable c s) = Inr t"
  shows "runnableWeight (currentStats (statCDANotRunnable c t) (pclass (cdas s c))) =
    usub (uadd (runnableWeight (currentStats s (pclass (cdas s c)))) (weight (cdas s c))) w"
  using assms
  by (auto simp: setWeight_def statCDARunnable_def statCDANotRunnable_def updateRunnableWeight_def upd_cda_def Let_def
      split: if_splits)

theorem setWeight_drift_witness:
  "\<exists>t. setWeight 1 (weight (cdas ex_queue 1) + 1) (statCDARunnable 1 ex_queue) = Inr t \<and>
     runnableWeight (currentStats (statCDANotRunnable 1 t) 1) = 4 \<and> runnableWeight (currentStats ex_queue 1) = 5"
proof -
  let ?t = "upd_cda (\<lambda>d. d\<lparr>weight := 6, drag := MAX_WEIGHT div 6\<rparr>) 1 (statCDARunnable 1 ex_queue)"
  have t: "setWeight 1 (weight (cdas ex_queue 1) + 1) (statCDARunnable 1 ex_queue) = Inr ?t"
    by (simp add: setWeight_def ex_queue_def ex_domain_def statCDARunnable_def updateRunnableWeight_def
        MIN_WEIGHT_def MAX_WEIGHT_def Let_def)
  have "pclass (cdas ex_queue 1) = 1" "weight (cdas ex_queue 1) = 5" "runnableWeight (currentStats ex_queue 1) = 5"
    by (simp_all add: ex_queue_def ex_domain_def)
  with setWeight_drift [OF t] t show ?thesis by (auto simp: uadd_def usub_def)
qed

end
