(* ===== verification/HashSimple.thy ===== *)
theory HashSimple
  imports K42_Prelude "HOL-Library.Monad_Syntax"
begin

text \<open>
  The hash table of the system library, \<^verbatim>\<open>HashSimpleBase\<close> in \<^verbatim>\<open>lib/libc/misc/HashSimple.H\<close> and
  \<^verbatim>\<open>HashSimple.C\<close>: chains of nodes under an array of heads whose size is a power of two. A chain is
  the list of its nodes from the head, so that a node can be on one chain only. The shift of the keys
  is the template argument. Whether memory for a larger array is there is an argument of
  the operations that ask for it; nodes are taken to be allocated, since the code uses them
  unchecked. A scan returns \<^const>\<open>None\<close> for 0 and a key with its datum for 1. The locked variants are
  the same operations between an acquire and a release.
\<close>

section \<open>Table and operations\<close>

type_synonym hash_node = "uval \<times> uval"

record hash_table =
  chains :: "hash_node list list"
  hashMask :: uval
  numNodes :: uval
  allocated :: bool

definition InitialHashTableSize :: nat where
  "InitialHashTableSize = 4"

definition HashSimple_new :: hash_table where
  "HashSimple_new = \<lparr>chains = replicate InitialHashTableSize [], hashMask = InitialHashTableSize - 1,
     numNodes = 0, allocated = False\<rparr>"

definition hash :: "nat \<Rightarrow> hash_table \<Rightarrow> uval \<Rightarrow> uval" where
  "hash keyshift h key = (key div 2 ^ keyshift) AND hashMask h"

definition enqueue :: "nat \<Rightarrow> hash_node \<Rightarrow> hash_table \<Rightarrow> hash_table" where
  "enqueue keyshift node h =
     (let index = hash keyshift h (fst node)
      in h\<lparr>chains := (chains h)[index := node # chains h ! index], numNodes := uadd (numNodes h) 1\<rparr>)"

text \<open>The size of a larger table: the loop doubles until the table is less than half full.\<close>

partial_function (option) grow :: "uval \<Rightarrow> uval \<Rightarrow> uval option" where
  "grow n i = (if umul 2 n \<ge> i then grow n (umul 2 i) else Some i)"

definition extendHash :: "nat \<Rightarrow> bool \<Rightarrow> hash_table \<Rightarrow> hash_table option" where
  "extendHash keyshift memory h = do {
     let i0 = umul 2 (uadd (hashMask h) 1) in do {
     i \<leftarrow> grow (numNodes h) (if i0 < 128 then 128 else i0);
     Some (if \<not> memory then h
           else fold (enqueue keyshift) (concat (chains h))
                  (h\<lparr>chains := replicate i [], hashMask := i - 1, numNodes := 0, allocated := True\<rparr>)) } }"

definition hash_add :: "nat \<Rightarrow> bool \<Rightarrow> uval \<Rightarrow> uval \<Rightarrow> hash_table \<Rightarrow> hash_table option" where
  "hash_add keyshift memory key datum h = do {
     h1 \<leftarrow> (if umul 2 (numNodes h) > hashMask h then extendHash keyshift memory h else Some h);
     Some (enqueue keyshift (key, datum) h1) }"

fun find_node :: "hash_node list \<Rightarrow> uval \<Rightarrow> uval option" where
  "find_node [] key = None"
| "find_node (node # ns) key = (if fst node = key then Some (snd node) else find_node ns key)"

definition hash_find :: "nat \<Rightarrow> uval \<Rightarrow> hash_table \<Rightarrow> uval option" where
  "hash_find keyshift key h = find_node (chains h ! hash keyshift h key) key"

fun unlink_node :: "hash_node list \<Rightarrow> uval \<Rightarrow> (uval \<times> hash_node list) option" where
  "unlink_node [] key = None"
| "unlink_node (node # ns) key =
     (if fst node = key then Some (snd node, ns)
      else map_option (\<lambda>(d, ns'). (d, node # ns')) (unlink_node ns key))"

definition hash_remove :: "nat \<Rightarrow> uval \<Rightarrow> hash_table \<Rightarrow> uval option \<times> hash_table" where
  "hash_remove keyshift key h =
     (let index = hash keyshift h key in
      case unlink_node (chains h ! index) key of
        None \<Rightarrow> (None, h)
      | Some (d, ns) \<Rightarrow> (Some d, h\<lparr>chains := (chains h)[index := ns], numNodes := usub (numNodes h) 1\<rparr>))"

section \<open>Scans\<close>

text \<open>The loops over the heads of the chains, from an index to the end of the table.\<close>

function removeNext :: "hash_table \<Rightarrow> uval \<Rightarrow> hash_node option \<times> uval \<times> hash_table" where
  "removeNext h restart =
     (if restart \<le> hashMask h then
        (case chains h ! restart of
           node # ns \<Rightarrow>
             (Some node, restart, h\<lparr>chains := (chains h)[restart := ns], numNodes := usub (numNodes h) 1\<rparr>)
         | [] \<Rightarrow> removeNext h (restart + 1))
      else (None, restart, h))"
  by pat_completeness auto
termination
  by (relation "measure (\<lambda>(h, r). hashMask h + 1 - r)") auto

function first_from :: "hash_table \<Rightarrow> uval \<Rightarrow> hash_node option" where
  "first_from h index =
     (if index \<le> hashMask h then
        (case chains h ! index of node # ns \<Rightarrow> Some node | [] \<Rightarrow> first_from h (index + 1))
      else None)"
  by pat_completeness auto
termination
  by (relation "measure (\<lambda>(h, r). hashMask h + 1 - r)") auto

declare removeNext.simps [simp del] first_from.simps [simp del]

definition getFirst :: "hash_table \<Rightarrow> hash_node option" where
  "getFirst h = first_from h 0"

text \<open>The rest of a chain behind the node of a key.\<close>

fun after_node :: "hash_node list \<Rightarrow> uval \<Rightarrow> hash_node list option" where
  "after_node [] key = None"
| "after_node (node # ns) key = (if fst node = key then Some ns else after_node ns key)"

definition getNext :: "nat \<Rightarrow> uval \<Rightarrow> hash_table \<Rightarrow> sys_error + hash_node option" where
  "getNext keyshift key h =
     (let index = hash keyshift h key in
      case after_node (chains h ! index) key of
        None \<Rightarrow> Inl (SERROR 1881 0 ENOENT)
      | Some (node # ns) \<Rightarrow> Inr (Some node)
      | Some [] \<Rightarrow> Inr (first_from h (index + 1)))"

definition getNextWithFF :: "nat \<Rightarrow> uval \<Rightarrow> hash_table \<Rightarrow> hash_node option" where
  "getNextWithFF keyshift key h =
     (let index = hash keyshift h key in
      case after_node (chains h ! index) key of
        Some (node # ns) \<Rightarrow> Some node
      | _ \<Rightarrow> first_from h (index + 1))"

text \<open>
  The loop of a partial rewind, from the chain before an index down. Its condition
  \<^verbatim>\<open>index >= 0\<close> always holds of an unsigned index, so that below chain 0 it reads outside the
  table: no value.
\<close>

fun rewind :: "hash_table \<Rightarrow> uval \<Rightarrow> hash_node option" where
  "rewind h 0 = None"
| "rewind h (Suc index) = (case chains h ! index of node # ns \<Rightarrow> Some node | [] \<Rightarrow> rewind h index)"

definition getNextWithRW :: "nat \<Rightarrow> uval \<Rightarrow> nat \<Rightarrow> hash_table \<Rightarrow> hash_node option option" where
  "getNextWithRW keyshift key full h =
     (let index = hash keyshift h key in
      case after_node (chains h ! index) key of
        Some (node # ns) \<Rightarrow> Some (Some node)
      | Some [] \<Rightarrow> Some (first_from h (index + 1))
      | None \<Rightarrow>
          (if full \<noteq> 1 then
             (case chains h ! index of node # ns \<Rightarrow> Some (Some node) | [] \<Rightarrow> map_option Some (rewind h index))
           else Some (getFirst h)))"

section \<open>The invariant\<close>

definition entries :: "hash_table \<Rightarrow> hash_node list" where
  "entries h = concat (chains h)"

definition hash_ok :: "nat \<Rightarrow> hash_table \<Rightarrow> bool" where
  "hash_ok keyshift h \<longleftrightarrow> length (chains h) = hashMask h + 1 \<and> (\<exists>k. hashMask h + 1 = 2 ^ k) \<and>
     numNodes h = length (entries h) \<and> numNodes h < 2 ^ 64 \<and>
     (\<forall>i < length (chains h). \<forall>node \<in> set (chains h ! i). hash keyshift h (fst node) = i) \<and>
     distinct (map fst (entries h))"

text \<open>What the table stands for: a finite map from keys to data.\<close>

definition lookup :: "hash_table \<Rightarrow> uval \<Rightarrow> uval option" where
  "lookup h = map_of (entries h)"

text \<open>A table and a number of nodes that fit into memory.\<close>

definition room :: "hash_table \<Rightarrow> bool" where
  "room h \<longleftrightarrow> hashMask h < 2 ^ 40 \<and> numNodes h < 2 ^ 40"


lemma concat_nth: "i < length xs \<Longrightarrow> concat xs = concat (take i xs) @ xs ! i @ concat (drop (Suc i) xs)"
  by (metis concat.simps(2) concat_append id_take_nth_drop)

lemma concat_update: "i < length xs \<Longrightarrow> concat (xs[i := y]) = concat (take i xs) @ y @ concat (drop (Suc i) xs)"
  using concat_nth [of i "xs[i := y]"] by simp

lemma hash_less: "hash_ok sh h \<Longrightarrow> hash sh h k < length (chains h)"
  using and_le_right [of "k div 2 ^ sh" "hashMask h"] by (simp add: hash_ok_def hash_def)

lemma hash_cong: "hashMask h' = hashMask h \<Longrightarrow> hash sh h' k = hash sh h k"
  by (simp add: hash_def)

lemma chain_key:
  assumes "hash_ok sh h" "i < length (chains h)" "node \<in> set (chains h ! i)"
  shows "hash sh h (fst node) = i"
  using assms by (simp add: hash_ok_def)

lemma entries_split:
  assumes "hash_ok sh h"
  shows "entries h = concat (take (hash sh h k) (chains h)) @ chains h ! hash sh h k @
      concat (drop (Suc (hash sh h k)) (chains h))"
    "k \<notin> fst ` set (concat (take (hash sh h k) (chains h)))"
    "k \<notin> fst ` set (concat (drop (Suc (hash sh h k)) (chains h)))"
proof -
  let ?i = "hash sh h k"
  show "entries h = concat (take ?i (chains h)) @ chains h ! ?i @ concat (drop (Suc ?i) (chains h))"
    unfolding entries_def by (rule concat_nth [OF hash_less [OF assms]])
  have other: "fst node \<noteq> k" if "j < length (chains h)" "j \<noteq> ?i" "node \<in> set (chains h ! j)" for j node
    using chain_key [OF assms that(1,3)] that(2) by auto
  have sel: "fst node \<noteq> k" if "c \<in> set (take ?i (chains h)) \<union> set (drop (Suc ?i) (chains h))" "node \<in> set c" for c node
  proof -
    have "\<exists>j < length (chains h). j \<noteq> ?i \<and> c = chains h ! j"
    proof (cases "c \<in> set (take ?i (chains h))")
      case True
      then show ?thesis by (auto simp: in_set_conv_nth)
    next
      case False
      with that(1) have "c \<in> set (drop (Suc ?i) (chains h))" by blast
      then obtain j where "j < length (drop (Suc ?i) (chains h))" "c = drop (Suc ?i) (chains h) ! j"
        unfolding in_set_conv_nth by blast
      then show ?thesis by (intro exI [of _ "Suc ?i + j"]) auto
    qed
    then show ?thesis using other that(2) by blast
  qed
  show "k \<notin> fst ` set (concat (take ?i (chains h)))" using sel by auto
  show "k \<notin> fst ` set (concat (drop (Suc ?i) (chains h)))" using sel by auto
qed

lemma find_node_map_of: "find_node ns k = map_of ns k"
  by (induction ns) auto

lemma hash_find_lookup: "hash_ok sh h \<Longrightarrow> hash_find sh k h = lookup h k"
proof -
  assume ok: "hash_ok sh h"
  let ?i = "hash sh h k"
  have "map_of (concat (take ?i (chains h))) k = None" "map_of (concat (drop (Suc ?i) (chains h))) k = None"
    using entries_split [OF ok] unfolding map_of_eq_None_iff by blast+
  then show ?thesis
    using entries_split(1) [OF ok, of k] by (simp add: hash_find_def find_node_map_of lookup_def map_add_def split: option.splits)
qed

lemma lookup_iff: "hash_ok sh h \<Longrightarrow> lookup h k = Some d \<longleftrightarrow> (k, d) \<in># mset (entries h)"
  by (simp add: lookup_def hash_ok_def)

lemma lookup_mset:
  assumes "hash_ok sh h" "hash_ok sh' h'" "mset (entries h') = add_mset (k, d) (mset (entries h))"
  shows "lookup h' = (lookup h)(k \<mapsto> d)"
proof -
  have d: "distinct (map fst (entries h'))" using assms(2) by (simp add: hash_ok_def)
  have "mset (map fst (entries h')) = mset (map fst ((k, d) # entries h))" using assms(3) by simp
  then have d2: "distinct (map fst ((k, d) # entries h))" using d mset_eq_imp_distinct_iff by blast
  have "set (entries h') = set ((k, d) # entries h)" using arg_cong [OF assms(3), of set_mset] by simp
  then have "map_of (entries h') = map_of ((k, d) # entries h)" using map_of_inject_set [OF d d2] by blast
  then show ?thesis by (simp add: lookup_def fun_eq_iff)
qed

lemma lookup_same_mset:
  assumes "hash_ok sh h" "hash_ok sh' h'" "mset (entries h') = mset (entries h)"
  shows "lookup h' = lookup h"
proof -
  have d: "distinct (map fst (entries h'))" "distinct (map fst (entries h))" using assms by (simp_all add: hash_ok_def)
  show ?thesis unfolding lookup_def map_of_inject_set [OF d] by (rule mset_eq_setD [OF assms(3)])
qed

lemma enqueue_ok:
  assumes ok: "hash_ok sh h" and new: "fst node \<notin> fst ` set (entries h)" and n: "numNodes h + 1 < 2 ^ 64"
  shows "hash_ok sh (enqueue sh node h)" "mset (entries (enqueue sh node h)) = add_mset node (mset (entries h))"
    "hashMask (enqueue sh node h) = hashMask h" "numNodes (enqueue sh node h) = numNodes h + 1"
proof -
  let ?h = "enqueue sh node h" and ?i = "hash sh h (fst node)"
  have i: "?i < length (chains h)" by (rule hash_less [OF ok])
  have c: "chains ?h = (chains h)[?i := node # chains h ! ?i]" by (simp add: enqueue_def Let_def)
  show e: "mset (entries ?h) = add_mset node (mset (entries h))"
    unfolding entries_def c concat_update [OF i] by (subst concat_nth [OF i]) simp
  show m: "hashMask ?h = hashMask h" by (simp add: enqueue_def Let_def)
  show nn: "numNodes ?h = numNodes h + 1" using n by (simp add: enqueue_def Let_def uval_simps)
  have "length (entries ?h) = length (entries h) + 1" using arg_cong [OF e, of size] by simp
  moreover have "distinct (map fst (entries ?h))"
  proof -
    have "mset (map fst (entries ?h)) = mset (fst node # map fst (entries h))" using e by simp
    moreover have "distinct (fst node # map fst (entries h))" using ok new by (simp add: hash_ok_def)
    ultimately show ?thesis using mset_eq_imp_distinct_iff by blast
  qed
  moreover have "hash sh ?h (fst x) = j" if "j < length (chains h)" "x \<in> set (chains ?h ! j)" for j x
    using that chain_key [OF ok that(1), of x] unfolding hash_cong [OF m] c by (cases "j = ?i") auto
  ultimately show "hash_ok sh ?h" using ok n nn m c by (simp add: hash_ok_def)
qed

lemma rehash_ok:
  assumes "hash_ok sh h" "distinct (map fst (ns @ entries h))" "length ns + numNodes h < 2 ^ 64"
  shows "hash_ok sh (fold (enqueue sh) ns h) \<and> mset (entries (fold (enqueue sh) ns h)) = mset ns + mset (entries h) \<and>
    hashMask (fold (enqueue sh) ns h) = hashMask h"
  using assms
proof (induction ns arbitrary: h)
  case (Cons n ns)
  have new: "fst n \<notin> fst ` set (entries h)" and len: "numNodes h + 1 < 2 ^ 64" using Cons.prems by auto
  note e = enqueue_ok [OF Cons.prems(1) new len]
  have "set (entries (enqueue sh n h)) = insert n (set (entries h))" using arg_cong [OF e(2), of set_mset] by simp
  moreover have "distinct (map fst (entries (enqueue sh n h)))" using e(1) by (simp add: hash_ok_def)
  ultimately have "distinct (map fst (ns @ entries (enqueue sh n h)))" using Cons.prems(2) by auto
  with Cons.IH [OF e(1)] e Cons.prems(3) show ?case by simp
qed simp


lemma grow_ends:
  assumes "n < 2 ^ 40" "k \<le> 42"
  shows "\<exists>m. grow n (2 ^ k) = Some (2 ^ m) \<and> k \<le> m \<and> m \<le> 42 \<and> 2 * n < 2 ^ m"
  using assms
proof (induction "42 - k" arbitrary: k rule: less_induct)
  case less
  have u: "umul 2 n = 2 * n" using less.prems(1) by (simp add: uval_simps)
  have p: "(2 :: nat) ^ k \<le> 2 ^ 42" using less.prems(2) by (intro power_increasing) auto
  then have u2: "umul 2 (2 ^ k) = 2 ^ Suc k" by (simp add: uval_simps)
  show ?case
  proof (cases "2 * n \<ge> 2 ^ k")
    case True
    then have "(2 :: nat) ^ k < 2 ^ 42" using less.prems(1) by simp
    then have k: "k < 42" by (rule power_less_imp_less_exp [rotated]) simp
    then have "\<exists>m. grow n (2 ^ Suc k) = Some (2 ^ m) \<and> Suc k \<le> m \<and> m \<le> 42 \<and> 2 * n < 2 ^ m"
      using less.prems(1) by (intro less.hyps) auto
    then obtain m where "grow n (2 ^ Suc k) = Some (2 ^ m)" "Suc k \<le> m" "m \<le> 42" "2 * n < 2 ^ m" by blast
    then show ?thesis using True u u2 by (intro exI [of _ m]) (simp add: grow.simps [of n "2 ^ k"])
  next
    case False
    then show ?thesis using less.prems u by (intro exI [of _ k]) (simp add: grow.simps [of n "2 ^ k"])
  qed
qed

lemma empty_table_ok:
  "hash_ok sh (h\<lparr>chains := replicate (2 ^ m) [], hashMask := 2 ^ m - 1, numNodes := 0, allocated := a\<rparr>)"
  by (auto simp: hash_ok_def entries_def)

lemma start_size:
  assumes "hash_ok sh h" "hashMask h < 2 ^ 40"
  shows "\<exists>k \<le> 42. (if umul 2 (uadd (hashMask h) 1) < 128 then 128 else umul 2 (uadd (hashMask h) 1)) = 2 ^ k \<and>
    hashMask h + 1 < 2 ^ k"
proof -
  obtain k where k: "hashMask h + 1 = 2 ^ k" using assms(1) by (auto simp: hash_ok_def)
  have "(2 :: nat) ^ k < 2 ^ 41" using k assms(2) by simp
  then have k41: "k < 41" by (rule power_less_imp_less_exp [rotated]) simp
  have e: "umul 2 (uadd (hashMask h) 1) = 2 ^ Suc k" using k assms(2) by (simp add: uval_simps)
  show ?thesis
  proof (cases "(2 :: nat) ^ Suc k < 128")
    case True
    then show ?thesis unfolding e using k by (intro exI [of _ 7]) simp
  next
    case False
    then show ?thesis unfolding e using k41 unfolding k by (intro exI [of _ "Suc k"]) auto
  qed
qed

lemma extendHash_ok:
  assumes ok: "hash_ok sh h" and room: "room h"
  shows "\<exists>h'. extendHash sh memory h = Some h' \<and> hash_ok sh h' \<and> mset (entries h') = mset (entries h) \<and>
    (memory \<longrightarrow> hashMask h < hashMask h' \<and> 2 * numNodes h' \<le> hashMask h') \<and> (\<not> memory \<longrightarrow> h' = h)"
proof -
  let ?i = "if umul 2 (uadd (hashMask h) 1) < 128 then 128 else umul 2 (uadd (hashMask h) 1)"
  have r: "hashMask h < 2 ^ 40" "numNodes h < 2 ^ 40" using room by (auto simp: room_def)
  obtain k where k: "k \<le> 42" "?i = 2 ^ k" "hashMask h + 1 < 2 ^ k" using start_size [OF ok r(1)] by blast
  obtain m where m: "grow (numNodes h) (2 ^ k) = Some (2 ^ m)" "k \<le> m" "2 * numNodes h < 2 ^ m"
    using grow_ends [OF r(2) k(1)] by blast
  show ?thesis
  proof (cases memory)
    case True
    let ?e = "h\<lparr>chains := replicate (2 ^ m) [], hashMask := 2 ^ m - 1, numNodes := 0, allocated := True\<rparr>"
    let ?h = "fold (enqueue sh) (concat (chains h)) ?e"
    have x: "extendHash sh memory h = Some ?h"
      using m(1) True unfolding extendHash_def Let_def k(2) by simp
    have n: "numNodes h = length (concat (chains h))" "distinct (map fst (concat (chains h)))" "numNodes h < 2 ^ 64"
      using ok by (auto simp: hash_ok_def entries_def)
    have f: "hash_ok sh ?h \<and> mset (entries ?h) = mset (concat (chains h)) + mset (entries ?e) \<and> hashMask ?h = hashMask ?e"
      by (rule rehash_ok [OF empty_table_ok]) (use n in \<open>auto simp: entries_def\<close>)
    then have me: "mset (entries ?h) = mset (entries h)" by (simp add: entries_def)
    then have "numNodes ?h = numNodes h" using f ok mset_eq_length [OF me] by (simp add: hash_ok_def)
    moreover have "(2 :: nat) ^ k \<le> 2 ^ m" using m(2) by (intro power_increasing) auto
    moreover have "hashMask ?h = 2 ^ m - 1" using f by simp
    ultimately have "hashMask h < hashMask ?h" "2 * numNodes ?h \<le> hashMask ?h" using m(3) k(3) by linarith+
    then show ?thesis using x f me True by blast
  next
    case False
    then show ?thesis using ok m(1) unfolding extendHash_def Let_def k(2) by simp
  qed
qed


lemma hash_add_ok:
  assumes ok: "hash_ok sh h" and room: "room h" and new: "lookup h k = None"
  shows "\<exists>h'. hash_add sh memory k d h = Some h' \<and> hash_ok sh h' \<and> mset (entries h') = add_mset (k, d) (mset (entries h)) \<and>
    (memory \<longrightarrow> 2 * numNodes h' \<le> hashMask h' + 2)"
proof -
  have u: "umul 2 (numNodes h) = 2 * numNodes h" using room by (simp add: room_def uval_simps)
  obtain h1 where h1: "(if umul 2 (numNodes h) > hashMask h then extendHash sh memory h else Some h) = Some h1"
    "hash_ok sh h1" "mset (entries h1) = mset (entries h)" "memory \<longrightarrow> 2 * numNodes h1 \<le> hashMask h1"
    using extendHash_ok [OF ok room, of memory] ok u by (metis leI)
  have "numNodes h1 = numNodes h" using h1(2) ok mset_eq_length [OF h1(3)] by (simp add: hash_ok_def)
  then have n: "numNodes h1 + 1 < 2 ^ 64" using room by (simp add: room_def)
  have "fst (k, d) \<notin> fst ` set (entries h1)"
    using new mset_eq_setD [OF h1(3)] by (simp add: lookup_def map_of_eq_None_iff)
  note e = enqueue_ok [OF h1(2) this n]
  show ?thesis using e h1 by (intro exI [of _ "enqueue sh (k, d) h1"]) (simp add: hash_add_def)
qed

lemma unlink_node_split:
  "unlink_node ns k = Some (d, ns') \<Longrightarrow> \<exists>us vs. ns = us @ (k, d) # vs \<and> ns' = us @ vs"
proof (induction ns arbitrary: ns')
  case (Cons n ns)
  show ?case
  proof (cases "fst n = k")
    case True
    with Cons.prems show ?thesis by (intro exI [of _ "[]"] exI [of _ ns]) auto
  next
    case False
    then obtain ms where ms: "unlink_node ns k = Some (d, ms)" "ns' = n # ms" using Cons.prems by auto
    from Cons.IH [OF ms(1)] obtain us vs where "ns = us @ (k, d) # vs" "ms = us @ vs" by blast
    with ms(2) show ?thesis by (intro exI [of _ "n # us"] exI [of _ vs]) auto
  qed
qed simp

lemma unlink_node_None: "unlink_node ns k = None \<longleftrightarrow> find_node ns k = None"
  by (induction ns) auto

text \<open>Taking one node out of one chain, as \<^verbatim>\<open>remove\<close> and \<^verbatim>\<open>removeNext\<close> do.\<close>

lemma unlink_ok:
  assumes ok: "hash_ok sh h" and i: "i < length (chains h)" and c: "chains h ! i = us @ node # vs"
  defines "h' \<equiv> h\<lparr>chains := (chains h)[i := us @ vs], numNodes := usub (numNodes h) 1\<rparr>"
  shows "hash_ok sh h'" "mset (entries h) = add_mset node (mset (entries h'))" "numNodes h = numNodes h' + 1"
    "lookup h (fst node) = Some (snd node)" "lookup h' = (lookup h)(fst node := None)"
proof -
  show e: "mset (entries h) = add_mset node (mset (entries h'))"
    unfolding entries_def h'_def by (subst concat_nth [OF i]) (simp add: concat_update [OF i] c)
  have "size (mset (entries h)) = size (mset (entries h')) + 1" unfolding e by simp
  then have n: "numNodes h = length (entries h') + 1" using ok by (simp add: hash_ok_def)
  have "numNodes h < 2 ^ 64" using ok by (simp add: hash_ok_def)
  moreover have "numNodes h' = usub (numNodes h) 1" by (simp add: h'_def)
  ultimately have n': "numNodes h' = length (entries h')" using n usub_nowrap [of 1 "numNodes h"] by simp
  with n show "numNodes h = numNodes h' + 1" by simp
  have m: "mset (map fst (entries h)) = mset (fst node # map fst (entries h'))" using e by simp
  then have d: "distinct (fst node # map fst (entries h'))"
    using ok mset_eq_imp_distinct_iff unfolding hash_ok_def by blast
  have "hash sh h' (fst x) = j" if "j < length (chains h)" "x \<in> set (chains h' ! j)" for j x
  proof -
    have "x \<in> set (chains h ! j)" using that c by (cases "j = i") (auto simp: h'_def)
    then show ?thesis using chain_key [OF ok that(1)] by (simp add: h'_def hash_def)
  qed
  moreover have "length (chains h') = length (chains h)" "hashMask h' = hashMask h" by (simp_all add: h'_def)
  moreover have "length (entries h') < 2 ^ 64" using n \<open>numNodes h < 2 ^ 64\<close> by simp
  ultimately show ok': "hash_ok sh h'" using ok n' d unfolding hash_ok_def by simp
  have l: "lookup h = (lookup h')(fst node \<mapsto> snd node)"
    by (rule lookup_mset [OF ok' ok]) (simp add: e)
  then show "lookup h (fst node) = Some (snd node)" by simp
  have "lookup h' (fst node) = None" using d by (simp add: lookup_def map_of_eq_None_iff)
  then show "lookup h' = (lookup h)(fst node := None)" unfolding l by (simp add: fun_eq_iff)
qed

lemma hash_remove_ok:
  assumes ok: "hash_ok sh h"
  shows "fst (hash_remove sh k h) = lookup h k" "hash_ok sh (snd (hash_remove sh k h))"
    "lookup (snd (hash_remove sh k h)) = (lookup h)(k := None)"
proof -
  let ?i = "hash sh h k"
  have i: "?i < length (chains h)" by (rule hash_less [OF ok])
  have "fst (hash_remove sh k h) = lookup h k \<and> hash_ok sh (snd (hash_remove sh k h)) \<and>
    lookup (snd (hash_remove sh k h)) = (lookup h)(k := None)"
  proof (cases "unlink_node (chains h ! ?i) k")
    case None
    then have "lookup h k = None" using hash_find_lookup [OF ok, of k] by (simp add: unlink_node_None hash_find_def)
    with None show ?thesis using ok by (auto simp: hash_remove_def Let_def fun_eq_iff)
  next
    case (Some p)
    obtain d ns where p: "p = (d, ns)" by (cases p)
    from unlink_node_split Some p obtain us vs where us: "chains h ! ?i = us @ (k, d) # vs" "ns = us @ vs" by blast
    from unlink_ok [OF ok i us(1)] show ?thesis using Some p us(2) by (simp add: hash_remove_def Let_def)
  qed
  then show "fst (hash_remove sh k h) = lookup h k" "hash_ok sh (snd (hash_remove sh k h))"
    "lookup (snd (hash_remove sh k h)) = (lookup h)(k := None)" by auto
qed


section \<open>The table as a map\<close>

text \<open>The interface clients use, with the laws they rely on; a key is added only when it is not there.\<close>

locale key_map =
  fixes ok :: "'h \<Rightarrow> bool"
    and fits :: "'h \<Rightarrow> bool"
    and look :: "'h \<Rightarrow> 'k \<Rightarrow> 'd option"
    and put :: "'k \<Rightarrow> 'd \<Rightarrow> 'h \<Rightarrow> 'h option"
    and del :: "'k \<Rightarrow> 'h \<Rightarrow> 'd option \<times> 'h"
  assumes put_law: "ok h \<Longrightarrow> fits h \<Longrightarrow> look h k = None \<Longrightarrow>
      \<exists>h'. put k d h = Some h' \<and> ok h' \<and> look h' = (look h)(k \<mapsto> d)"
    and del_ok: "ok h \<Longrightarrow> ok (snd (del k h))"
    and del_result: "ok h \<Longrightarrow> fst (del k h) = look h k"
    and del_look: "ok h \<Longrightarrow> look (snd (del k h)) = (look h)(k := None)"
begin

lemma put_del:
  assumes "ok h" "fits h" "look h k = None"
  shows "\<exists>h' h''. put k d h = Some h' \<and> del k h' = (Some d, h'') \<and> look h'' = look h"
proof -
  obtain h' where h': "put k d h = Some h'" "ok h'" "look h' = (look h)(k \<mapsto> d)" using put_law [OF assms] by blast
  have "fst (del k h') = Some d" "look (snd (del k h')) = (look h)(k := None)"
    using del_result [OF h'(2)] del_look [OF h'(2)] h'(3) by (simp_all add: fun_upd_idem_iff)
  moreover have "(look h)(k := None) = look h" using assms(3) by (simp add: fun_upd_idem_iff)
  ultimately show ?thesis using h'(1) by (metis prod.collapse)
qed

lemma del_twice: "ok h \<Longrightarrow> fst (del k (snd (del k h))) = None"
  using del_ok del_result del_look by fastforce

end

interpretation hm: key_map "hash_ok sh" room lookup "hash_add sh memory" "hash_remove sh" for sh memory
proof
  fix h k d assume ok: "hash_ok sh h"
  show "\<exists>h'. hash_add sh memory k d h = Some h' \<and> hash_ok sh h' \<and> lookup h' = (lookup h)(k \<mapsto> d)" if "room h" "lookup h k = None"
    using hash_add_ok [OF ok that, of memory d] lookup_mset [OF ok] by blast
qed (simp_all add: hash_remove_ok)

text \<open>The calls of a client on one table; \<^verbatim>\<open>memory\<close> says whether an array for a larger table is there.\<close>

datatype hash_call = Add bool uval uval | Remove_key uval | Remove_next uval | Extend bool

fun run_hash :: "nat \<Rightarrow> hash_call \<Rightarrow> hash_table \<Rightarrow> hash_table option" where
  "run_hash sh (Add memory k d) h = hash_add sh memory k d h"
| "run_hash sh (Remove_key k) h = Some (snd (hash_remove sh k h))"
| "run_hash sh (Remove_next r) h = Some (snd (snd (removeNext h r)))"
| "run_hash sh (Extend memory) h = extendHash sh memory h"

fun call_allowed :: "hash_call \<Rightarrow> hash_table \<Rightarrow> bool" where
  "call_allowed (Add memory k d) h \<longleftrightarrow> room h \<and> lookup h k = None"
| "call_allowed (Extend memory) h \<longleftrightarrow> room h"
| "call_allowed c h \<longleftrightarrow> True"

inductive hash_reach :: "nat \<Rightarrow> hash_table \<Rightarrow> bool" for sh where
  new: "hash_reach sh HashSimple_new"
| call: "hash_reach sh h \<Longrightarrow> call_allowed c h \<Longrightarrow> run_hash sh c h = Some h' \<Longrightarrow> hash_reach sh h'"

lemma removeNext_ok:
  assumes "hash_ok sh h"
  shows "case removeNext h r of
      (None, r', h') \<Rightarrow> h' = h \<and> concat (drop r (chains h)) = []
    | (Some (k, d), r', h') \<Rightarrow> hash_ok sh h' \<and> lookup h k = Some d \<and> lookup h' = (lookup h)(k := None) \<and>
        concat (drop r (chains h)) = (k, d) # concat (drop r' (chains h'))"
  using assms
proof (induction h r rule: removeNext.induct)
  case (1 h r)
  have len: "length (chains h) = hashMask h + 1" using "1.prems" by (simp add: hash_ok_def)
  show ?case
  proof (cases "r \<le> hashMask h")
    case True
    then have r: "r < length (chains h)" using len by simp
    show ?thesis
    proof (cases "chains h ! r")
      case Nil
      have "concat (drop r (chains h)) = concat (drop (r + 1) (chains h))"
        using Cons_nth_drop_Suc [OF r] Nil by (metis Suc_eq_plus1 append_Nil concat.simps(2))
      moreover have "removeNext h r = removeNext h (r + 1)" using True Nil by (simp add: removeNext.simps [of h r])
      ultimately show ?thesis using "1.IH" [OF True Nil "1.prems"] by (simp only:)
    next
      case (Cons node ns)
      then have c: "chains h ! r = [] @ node # ns" by simp
      let ?h = "h\<lparr>chains := (chains h)[r := ns], numNodes := usub (numNodes h) 1\<rparr>"
      have "concat (drop r (chains h)) = node # ns @ concat (drop (Suc r) (chains h))"
        using Cons_nth_drop_Suc [OF r, symmetric] Cons by simp
      moreover have "concat (drop r (chains ?h)) = ns @ concat (drop (Suc r) (chains h))"
        using Cons_nth_drop_Suc [of r "chains ?h", symmetric] r by simp
      ultimately show ?thesis using unlink_ok [OF "1.prems" r c] True Cons
        by (cases node) (simp add: removeNext.simps [of h r])
    qed
  next
    case False
    then show ?thesis using len by (simp add: removeNext.simps [of h r])
  qed
qed


lemma removeNext_inv: "hash_ok sh h \<Longrightarrow> hash_ok sh (snd (snd (removeNext h r)))"
  using removeNext_ok [of sh h r] by (auto split: prod.splits option.splits)

lemma hash_new_ok: "hash_ok sh HashSimple_new"
  using empty_table_ok [where h = HashSimple_new and m = 2 and a = False] by (simp add: HashSimple_new_def InitialHashTableSize_def)

lemma new_table: "chains HashSimple_new = [[], [], [], []]" "hashMask HashSimple_new = 3"
  by (simp_all add: HashSimple_new_def InitialHashTableSize_def numeral_eq_Suc)

lemma run_hash_ok:
  assumes "hash_ok sh h" "call_allowed c h" "run_hash sh c h = Some h'"
  shows "hash_ok sh h'"
proof (cases c)
  case (Add memory k d)
  with hash_add_ok [OF assms(1), of k memory d] assms show ?thesis by auto
next
  case (Extend memory)
  with extendHash_ok [OF assms(1), of memory] assms show ?thesis by auto
qed (use assms hash_remove_ok(2) removeNext_inv in auto)

lemma hash_reach_ok: "hash_reach sh h \<Longrightarrow> hash_ok sh h"
  by (induction rule: hash_reach.induct) (auto intro: hash_new_ok run_hash_ok)

text \<open>
  C14. In every table a client can reach, the operations implement a finite map: \<^verbatim>\<open>find\<close> is the lookup,
  \<^verbatim>\<open>add\<close> of a new key returns, adds the pair and, when memory allows, leaves the table at most half
  full beyond one node, \<^verbatim>\<open>remove\<close> answers with the datum and deletes the key, and
  \<^verbatim>\<open>extendHash\<close> returns and changes nothing of the map.
\<close>

theorem hash_table_refines_map:
  assumes "hash_reach sh h"
  shows "hash_find sh k h = lookup h k \<and>
    (room h \<and> lookup h k = None \<longrightarrow> (\<exists>h'. hash_add sh memory k d h = Some h' \<and> lookup h' = (lookup h)(k \<mapsto> d) \<and>
       (memory \<longrightarrow> 2 * numNodes h' \<le> hashMask h' + 2))) \<and>
    fst (hash_remove sh k h) = lookup h k \<and> lookup (snd (hash_remove sh k h)) = (lookup h)(k := None) \<and>
    (room h \<longrightarrow> (\<exists>h'. extendHash sh memory h = Some h' \<and> lookup h' = lookup h \<and> (memory \<longrightarrow> hashMask h < hashMask h')))"
proof -
  have ok: "hash_ok sh h" by (rule hash_reach_ok [OF assms])
  have "\<exists>h'. hash_add sh memory k d h = Some h' \<and> lookup h' = (lookup h)(k \<mapsto> d) \<and> (memory \<longrightarrow> 2 * numNodes h' \<le> hashMask h' + 2)"
    if "room h" "lookup h k = None"
    using hash_add_ok [OF ok that, of memory d] lookup_mset [OF ok] by blast
  moreover have "\<exists>h'. extendHash sh memory h = Some h' \<and> lookup h' = lookup h \<and> (memory \<longrightarrow> hashMask h < hashMask h')" if "room h"
    using extendHash_ok [OF ok that, of memory] lookup_same_mset [OF ok] by blast
  ultimately show ?thesis using hash_find_lookup [OF ok] hm.del_result [OF ok] hm.del_look [OF ok] by simp
qed

theorem hash_table_refines_map_witness:
  "\<exists>h'. hash_add 4 True 160 7 HashSimple_new = Some h' \<and> lookup h' 160 = Some 7"
proof -
  have "room HashSimple_new" "lookup HashSimple_new 160 = None"
    by (simp_all add: room_def HashSimple_new_def InitialHashTableSize_def lookup_def entries_def)
  with hash_table_refines_map [OF hash_reach.new [of 4], of 160 True 7] show ?thesis by auto
qed

section \<open>What the scans visit\<close>

lemma first_from_concat:
  "length (chains h) = hashMask h + 1 \<Longrightarrow>
   first_from h i = (case concat (drop i (chains h)) of [] \<Rightarrow> None | x # _ \<Rightarrow> Some x)"
proof (induction h i rule: first_from.induct)
  case (1 h i)
  show ?case
  proof (cases "i \<le> hashMask h")
    case True
    then have i: "i < length (chains h)" using "1.prems" by simp
    then show ?thesis using "1.IH" [OF True] "1.prems" True Cons_nth_drop_Suc [OF i, symmetric]
      by (cases "chains h ! i") (auto simp: first_from.simps [of h i])
  next
    case False
    then show ?thesis using "1.prems" by (simp add: first_from.simps [of h i])
  qed
qed

lemma after_node_split:
  "after_node ns k = (if k \<in> fst ` set ns then Some (drop (Suc (length (takeWhile (\<lambda>n. fst n \<noteq> k) ns))) ns) else None)"
  by (induction ns) auto

lemma after_node_found: "k \<notin> fst ` set us \<Longrightarrow> after_node (us @ (k, d) # vs) k = Some vs"
  by (induction us) auto

lemma after_node_None: "after_node ns k = None \<longleftrightarrow> k \<notin> fst ` set ns"
  by (induction ns) auto

text \<open>The entries behind the one of a key, in the order of a scan.\<close>

lemma getNext_found:
  assumes ok: "hash_ok sh h" and e: "entries h = us @ (k, d) # vs"
  shows "getNext sh k h = Inr (case vs of [] \<Rightarrow> None | x # _ \<Rightarrow> Some x)"
    "after_node (chains h ! hash sh h k) k \<noteq> None"
proof -
  let ?i = "hash sh h k"
  note sp = entries_split [OF ok, of k]
  have len: "length (chains h) = hashMask h + 1" and dist: "distinct (map fst (entries h))" using ok by (auto simp: hash_ok_def)
  have "(k, d) \<in> set (entries h)" using e by simp
  then have "(k, d) \<in> set (chains h ! ?i)" using sp by force
  then obtain as bs where c: "chains h ! ?i = as @ (k, d) # bs" by (meson split_list)
  let ?us = "concat (take ?i (chains h)) @ as" and ?vs = "bs @ concat (drop (Suc ?i) (chains h))"
  have e2: "entries h = ?us @ (k, d) # ?vs" using sp(1) c by simp
  have k: "k \<notin> fst ` set ?us" using dist unfolding e2 by (auto simp del: set_concat)
  have k2: "k \<notin> fst ` set us" using dist unfolding e by simp
  have "Some vs = after_node (entries h) k" unfolding e by (rule after_node_found [OF k2, symmetric])
  also have "\<dots> = Some ?vs" unfolding e2 by (rule after_node_found [OF k])
  finally have "vs = ?vs" by simp
  moreover have "after_node (chains h ! ?i) k = Some bs" unfolding c by (rule after_node_found) (use k in auto)
  ultimately show "getNext sh k h = Inr (case vs of [] \<Rightarrow> None | x # _ \<Rightarrow> Some x)" "after_node (chains h ! ?i) k \<noteq> None"
    by (auto simp: getNext_def first_from_concat [OF len] split: list.splits)
qed

lemma absent_after: "hash_ok sh h \<Longrightarrow> lookup h k = None \<longleftrightarrow> after_node (chains h ! hash sh h k) k = None"
  unfolding hash_find_lookup [of sh h k, symmetric] hash_find_def find_node_map_of after_node_None map_of_eq_None_iff ..

text \<open>
  \<^verbatim>\<open>getFirst\<close> and \<^verbatim>\<open>getNext\<close> together visit every entry of a table once: the first is the
  first entry, each next is the entry at the following place and the last has none, the entries
  are those of the map with distinct keys, and a key that is not in the table is an error.
\<close>

theorem getNext_visits_every_entry:
  assumes "hash_reach sh h"
  shows "getFirst h = (if entries h = [] then None else Some (entries h ! 0)) \<and>
    (\<forall>i < length (entries h). getNext sh (fst (entries h ! i)) h =
       Inr (if i + 1 < length (entries h) then Some (entries h ! (i + 1)) else None)) \<and>
    (\<forall>k d. lookup h k = Some d \<longleftrightarrow> (k, d) \<in> set (entries h)) \<and> distinct (map fst (entries h)) \<and>
    (\<forall>k. lookup h k = None \<longrightarrow> getNext sh k h = Inl (SERROR 1881 0 ENOENT))"
proof -
  have ok: "hash_ok sh h" by (rule hash_reach_ok [OF assms])
  then have len: "length (chains h) = hashMask h + 1" and d: "distinct (map fst (entries h))" by (auto simp: hash_ok_def)
  have "getFirst h = (if entries h = [] then None else Some (entries h ! 0))"
    unfolding getFirst_def first_from_concat [OF len] drop_0 entries_def [symmetric] by (cases "entries h") auto
  moreover have "getNext sh (fst (entries h ! i)) h = Inr (if i + 1 < length (entries h) then Some (entries h ! (i + 1)) else None)"
    if i: "i < length (entries h)" for i
  proof -
    have e: "entries h = take i (entries h) @ (fst (entries h ! i), snd (entries h ! i)) # drop (Suc i) (entries h)"
      using id_take_nth_drop [OF i] by simp
    have "(case drop (Suc i) (entries h) of [] \<Rightarrow> None | x # _ \<Rightarrow> Some x) =
        (if i + 1 < length (entries h) then Some (entries h ! (i + 1)) else None)"
      by (cases "Suc i < length (entries h)") (auto simp: Cons_nth_drop_Suc [symmetric])
    then show ?thesis using getNext_found(1) [OF ok e] by simp
  qed
  moreover have "getNext sh k h = Inl (SERROR 1881 0 ENOENT)" if "lookup h k = None" for k
    using that absent_after [OF ok] by (simp add: getNext_def)
  ultimately show ?thesis using d by (simp add: lookup_def)
qed


theorem getNext_visits_every_entry_witness:
  "\<exists>h. hash_add 4 True 160 7 HashSimple_new = Some h \<and> getFirst h = Some (160, 7) \<and> getNext 4 160 h = Inr None"
proof -
  let ?h = "enqueue 4 (160, 7) HashSimple_new"
  have a: "hash_add 4 True 160 7 HashSimple_new = Some ?h"
    by (simp add: hash_add_def HashSimple_new_def InitialHashTableSize_def umul_def)
  have e: "entries ?h = [(160, 7)]"
  proof -
    have "hash 4 HashSimple_new 160 = Suc (Suc 0)" by (simp add: hash_def new_table)
    then show ?thesis by (simp add: entries_def enqueue_def new_table Let_def)
  qed
  have "call_allowed (Add True 160 7) HashSimple_new"
    by (simp add: room_def HashSimple_new_def InitialHashTableSize_def lookup_def entries_def)
  then have "hash_reach 4 ?h" by (rule hash_reach.call [OF hash_reach.new]) (simp add: a)
  from getNext_visits_every_entry [OF this] a e show ?thesis by simp
qed

text \<open>
  A partial rewind of \<^verbatim>\<open>getNextWithRW\<close> reads outside the table exactly when the key is not in
  the table and its chain and all chains before it are empty: the loop that walks back never stops at
  the first chain, because its index is unsigned. The description has it return the first
  entry of the table then.
\<close>

theorem getNextWithRW_reads_outside:
  assumes "hash_ok sh h"
  shows "getNextWithRW sh k full h = None \<longleftrightarrow>
    full \<noteq> 1 \<and> lookup h k = None \<and> (\<forall>i \<le> hash sh h k. chains h ! i = [])"
proof -
  have rw: "rewind h i = None \<longleftrightarrow> (\<forall>j < i. chains h ! j = [])" for i
    by (induction i) (auto split: list.splits simp: less_Suc_eq)
  show ?thesis
  proof (cases "lookup h k")
    case None
    then have "after_node (chains h ! hash sh h k) k = None" using absent_after [OF assms] by simp
    moreover have "(\<forall>i \<le> n. chains h ! i = []) \<longleftrightarrow> chains h ! n = [] \<and> rewind h n = None" for n
      unfolding rw le_less by blast
    ultimately show ?thesis using None by (cases "chains h ! hash sh h k") (simp_all add: getNextWithRW_def Let_def)
  next
    case (Some d)
    then obtain ns where "after_node (chains h ! hash sh h k) k = Some ns" using absent_after [OF assms, of k] by auto
    then show ?thesis using Some by (cases ns) (simp_all add: getNextWithRW_def Let_def)
  qed
qed

theorem getNextWithRW_reads_outside_witness:
  "\<exists>h. hash_add 0 True 3 7 HashSimple_new = Some h \<and> lookup h 3 = Some 7 \<and> getNextWithRW 0 2 0 h = None"
proof -
  let ?h = "enqueue 0 (3, 7) HashSimple_new"
  have a: "hash_add 0 True 3 7 HashSimple_new = Some ?h"
    by (simp add: hash_add_def HashSimple_new_def InitialHashTableSize_def umul_def)
  have "hash_ok 0 ?h" by (rule enqueue_ok [OF hash_new_ok]) (simp_all add: HashSimple_new_def InitialHashTableSize_def entries_def)
  moreover have "hash 0 HashSimple_new 3 = Suc (Suc (Suc 0))" by (simp add: hash_def new_table)
  then have e: "chains ?h = [[], [], [], [(3, 7)]]" by (simp add: enqueue_def new_table Let_def)
  moreover have "hash 0 ?h 2 = 2" by (simp add: enqueue_def hash_def new_table Let_def)
  moreover have "lookup ?h 2 = None" "lookup ?h 3 = Some 7" unfolding lookup_def entries_def e by simp_all
  moreover have "\<forall>i \<le> 2. chains ?h ! i = []" unfolding e by (auto simp: le_Suc_eq numeral_2_eq_2)
  ultimately show ?thesis using a getNextWithRW_reads_outside [of 0 ?h 2 0] by auto
qed

end
