(* ===== verification/Lmb.thy ===== *)
theory Lmb
  imports K42_Prelude "HOL-Library.Monad_Syntax"
begin

text \<open>
  The memory map of the boot loader, \<^verbatim>\<open>os/boot/arch/powerpc/lmb.c\<close>: the table of the memory the
  firmware reports, the table of what is reserved, and the allocator that takes memory from the top. A
  table is the list of its first \<^verbatim>\<open>cnt\<close> entries; the code reads no other. Addresses are 64-bit
  values that wrap. An operation has no value (\<^const>\<open>None\<close>) when it reads outside a table
  or does not end. The symbol \<^verbatim>\<open>CONFIG_MSCHUNKS\<close> is not set in this system.
\<close>

section \<open>State\<close>

record lmb_property =
  lbase :: uval
  physbase :: uval
  lsize :: uval

record lmb_region =
  tsize :: uval
  region :: "lmb_property list"

record lmb =
  debug :: uval
  rmo_size :: uval
  memory :: lmb_region
  reserved :: lmb_region

definition MAX_LMB_REGIONS :: nat where "MAX_LMB_REGIONS = 128"
definition LMB_ALLOC_ANYWHERE :: uval where "LMB_ALLOC_ANYWHERE = 0"

definition ALIGN_DOWN :: "uval \<Rightarrow> uval \<Rightarrow> uval" where
  "ALIGN_DOWN addr sz = and_not addr (usub sz 1)"

section \<open>Tables\<close>

definition lmb_addrs_overlap :: "uval \<Rightarrow> uval \<Rightarrow> uval \<Rightarrow> uval \<Rightarrow> bool" where
  "lmb_addrs_overlap base1 size1 base2 size2 \<longleftrightarrow> base1 < uadd base2 size2 \<and> base2 < uadd base1 size1"

definition lmb_addrs_adjacent :: "uval \<Rightarrow> uval \<Rightarrow> uval \<Rightarrow> uval \<Rightarrow> int" where
  "lmb_addrs_adjacent base1 size1 base2 size2 =
     (if base2 = uadd base1 size1 then 1 else if base1 = uadd base2 size2 then -1 else 0)"

definition lmb_regions_adjacent :: "lmb_property list \<Rightarrow> nat \<Rightarrow> nat \<Rightarrow> int" where
  "lmb_regions_adjacent rs r1 r2 =
     lmb_addrs_adjacent (lbase (rs ! r1)) (lsize (rs ! r1)) (lbase (rs ! r2)) (lsize (rs ! r2))"

text \<open>The entries behind the second one move up by one place.\<close>

definition lmb_coalesce_regions :: "lmb_property list \<Rightarrow> nat \<Rightarrow> nat \<Rightarrow> lmb_property list" where
  "lmb_coalesce_regions rs r1 r2 =
     (let rs' = rs[r1 := (rs ! r1)\<lparr>lsize := uadd (lsize (rs ! r1)) (lsize (rs ! r2))\<rparr>]
      in take r2 rs' @ drop (r2 + 1) rs')"

definition lmb_init :: lmb where
  "lmb_init = \<lparr>debug = 0, rmo_size = 0,
     memory = \<lparr>tsize = 0, region = [\<lparr>lbase = 0, physbase = 0, lsize = 0\<rparr>]\<rparr>,
     reserved = \<lparr>tsize = 0, region = [\<lparr>lbase = 0, physbase = 0, lsize = 0\<rparr>]\<rparr>\<rparr>"

definition lmb_analyze :: "lmb \<Rightarrow> lmb" where
  "lmb_analyze l = l\<lparr>memory := (memory l)\<lparr>
      tsize := fold (\<lambda>r s. uadd s (lsize r)) (region (memory l)) 0,
      region := map (\<lambda>r. r\<lparr>physbase := lbase r\<rparr>) (region (memory l))\<rparr>\<rparr>"

fun lmb_abs_to_phys :: "lmb_property list \<Rightarrow> uval \<Rightarrow> uval" where
  "lmb_abs_to_phys [] aa = aa"
| "lmb_abs_to_phys (r # rs) aa =
     (if lmb_addrs_overlap aa 1 (lbase r) (lsize r) then uadd (physbase r) (usub aa (lbase r))
      else lmb_abs_to_phys rs aa)"

text \<open>The first entry a range is adjacent to, with the side; the number of entries when there is none.\<close>

fun lmb_find_adjacent :: "lmb_property list \<Rightarrow> nat \<Rightarrow> uval \<Rightarrow> uval \<Rightarrow> nat \<times> int" where
  "lmb_find_adjacent [] i base sz = (i, 0)"
| "lmb_find_adjacent (r # rs) i base sz =
     (let a = lmb_addrs_adjacent base sz (lbase r) (lsize r)
      in if a \<noteq> 0 then (i, a) else lmb_find_adjacent rs (i + 1) base sz)"

text \<open>
  The loop that makes place for a new entry, from the last entry down. Its index is unsigned, so
  that below the first entry it reads outside the table.
\<close>

fun ins_pos :: "lmb_property list \<Rightarrow> uval \<Rightarrow> nat \<Rightarrow> nat option" where
  "ins_pos rs base 0 = None"
| "ins_pos rs base (Suc i) = (if base < lbase (rs ! i) then ins_pos rs base i else Some (Suc i))"

text \<open>
  The table while the new entry is written: its base is there, its other fields are
  still those of the entry before, and the ones behind have moved.
\<close>

definition half_written :: "lmb_property list \<Rightarrow> nat \<Rightarrow> uval \<Rightarrow> lmb_property list" where
  "half_written rs p base =
     take p rs @ (case drop p rs of [] \<Rightarrow> [] | r # rest \<Rightarrow> r\<lparr>lbase := base\<rparr> # butlast (r # rest))"

definition lmb_add_region ::
  "(lmb_property list \<Rightarrow> uval) \<Rightarrow> lmb_property list \<Rightarrow> uval \<Rightarrow> uval \<Rightarrow> (int \<times> lmb_property list) option" where
  "lmb_add_region phys rs base sz =
     (let (i, a) = lmb_find_adjacent rs 0 base sz;
          r = rs ! i;
          rs1 = (if a > 0 then rs[i := r\<lparr>lbase := usub (lbase r) sz, physbase := usub (physbase r) sz, lsize := uadd (lsize r) sz\<rparr>]
                 else if a < 0 then rs[i := r\<lparr>lsize := uadd (lsize r) sz\<rparr>] else rs);
          c1 = (if a \<noteq> 0 then 1 else 0);
          (rs2, c2) = (if i < usub (length rs) 1 \<and> lmb_regions_adjacent rs1 i (i + 1) \<noteq> 0
                       then (lmb_coalesce_regions rs1 i (i + 1), c1 + 1) else (rs1, c1))
      in if c2 \<noteq> 0 then Some (c2, rs2)
         else if length rs2 \<ge> MAX_LMB_REGIONS then Some (-1, rs2)
         else do {
           p \<leftarrow> ins_pos rs2 base (length rs2);
           Some (0, take p rs2 @ \<lparr>lbase = base, physbase = phys (half_written rs2 p base), lsize = sz\<rparr> # drop p rs2) })"

definition lmb_add :: "lmb \<Rightarrow> uval \<Rightarrow> uval \<Rightarrow> (int \<times> lmb) option" where
  "lmb_add l base sz = do {
     let l1 = (if base = 0 then l\<lparr>rmo_size := sz\<rparr> else l) in do {
     (n, rs) \<leftarrow> lmb_add_region (\<lambda>rs. lmb_abs_to_phys rs base) (region (memory l1)) base sz;
     Some (n, l1\<lparr>memory := (memory l1)\<lparr>region := rs\<rparr>\<rparr>) } }"

definition lmb_reserve :: "lmb \<Rightarrow> uval \<Rightarrow> uval \<Rightarrow> (int \<times> lmb) option" where
  "lmb_reserve l base sz = do {
     (n, rs) \<leftarrow> lmb_add_region (\<lambda>_. lmb_abs_to_phys (region (memory l)) base) (region (reserved l)) base sz;
     Some (n, l\<lparr>reserved := (reserved l)\<lparr>region := rs\<rparr>\<rparr>) }"

fun overlaps_from :: "lmb_property list \<Rightarrow> nat \<Rightarrow> uval \<Rightarrow> uval \<Rightarrow> nat option" where
  "overlaps_from [] i base sz = None"
| "overlaps_from (r # rs) i base sz =
     (if lmb_addrs_overlap base sz (lbase r) (lsize r) then Some i else overlaps_from rs (i + 1) base sz)"

definition lmb_overlaps_region :: "lmb_property list \<Rightarrow> uval \<Rightarrow> uval \<Rightarrow> int" where
  "lmb_overlaps_region rs base sz = (case overlaps_from rs 0 base sz of Some i \<Rightarrow> int i | None \<Rightarrow> -1)"

section \<open>Allocation\<close>

text \<open>The loop that moves a candidate below the reserved ranges it overlaps.\<close>

partial_function (option) skip_reserved :: "lmb_property list \<Rightarrow> uval \<Rightarrow> uval \<Rightarrow> uval \<Rightarrow> uval \<Rightarrow> uval option" where
  "skip_reserved rsv lmbbase sz align base =
     (if lmbbase \<le> base \<and> lmb_overlaps_region rsv base sz \<ge> 0
      then skip_reserved rsv lmbbase sz align
             (ALIGN_DOWN (usub (lbase (rsv ! nat (lmb_overlaps_region rsv base sz))) sz) align)
      else Some base)"

text \<open>The loop over the memory regions, the last one first: the address it breaks with, or none.\<close>

fun alloc_loop :: "lmb_property list \<Rightarrow> lmb_property list \<Rightarrow> uval \<Rightarrow> uval \<Rightarrow> uval \<Rightarrow> uval option option" where
  "alloc_loop rsv [] sz align max_addr = Some None"
| "alloc_loop rsv (r # rs) sz align max_addr =
     (if max_addr = LMB_ALLOC_ANYWHERE \<or> lbase r < max_addr then do {
        base \<leftarrow> skip_reserved rsv (lbase r) sz align
                 (if max_addr = LMB_ALLOC_ANYWHERE
                  then ALIGN_DOWN (usub (uadd (lbase r) (lsize r)) sz) align
                  else ALIGN_DOWN (usub (min (uadd (lbase r) (lsize r)) max_addr) sz) align);
        if base \<noteq> 0 \<and> lbase r \<le> base then Some (Some base)
        else alloc_loop rsv rs sz align max_addr }
      else alloc_loop rsv rs sz align max_addr)"

definition lmb_alloc_base :: "lmb \<Rightarrow> uval \<Rightarrow> uval \<Rightarrow> uval \<Rightarrow> (uval \<times> lmb) option" where
  "lmb_alloc_base l sz align max_addr = do {
     b \<leftarrow> alloc_loop (region (reserved l)) (rev (region (memory l))) sz align max_addr;
     case b of
       None \<Rightarrow> Some (0, l)
     | Some base \<Rightarrow> do { (n, l') \<leftarrow> lmb_reserve l base sz; Some (base, l') } }"

definition lmb_alloc :: "lmb \<Rightarrow> uval \<Rightarrow> uval \<Rightarrow> (uval \<times> lmb) option" where
  "lmb_alloc l sz align = lmb_alloc_base l sz align LMB_ALLOC_ANYWHERE"

section \<open>Queries\<close>

definition lmb_phys_mem_size :: "lmb \<Rightarrow> uval" where
  "lmb_phys_mem_size l =
     (let r = region (memory l) ! (length (region (memory l)) - 1) in uadd (physbase r) (lsize r))"

definition lmb_end_of_DRAM :: "lmb \<Rightarrow> uval" where
  "lmb_end_of_DRAM l =
     (let r = region (memory l) ! (length (region (memory l)) - 1) in uadd (lbase r) (lsize r))"

partial_function (option) trailing_loop :: "uval \<Rightarrow> int \<Rightarrow> int option" where
  "trailing_loop m cnt = (if m mod 2 = 0 then trailing_loop (m div 2) (cnt + 1) else Some cnt)"

definition cnt_trailing_zeros :: "uval \<Rightarrow> int option" where
  "cnt_trailing_zeros m = (if m = 0 then Some 0 else trailing_loop m 0)"


section \<open>What a table covers\<close>

definition lmb_range :: "lmb_property \<Rightarrow> nat set" where
  "lmb_range r = {lbase r ..< lbase r + lsize r}"

definition lmb_covered :: "lmb_property list \<Rightarrow> nat set" where
  "lmb_covered rs = (\<Union>r \<in> set rs. lmb_range r)"

definition below :: "lmb_property \<Rightarrow> lmb_property \<Rightarrow> bool" where
  "below a b \<longleftrightarrow> lbase a + lsize a \<le> lbase b"

text \<open>Entries are sorted and apart; the first starts at 0 and only it may be empty.\<close>

definition table_ok :: "lmb_property list \<Rightarrow> bool" where
  "table_ok rs \<longleftrightarrow> rs \<noteq> [] \<and> length rs \<le> MAX_LMB_REGIONS \<and> lbase (hd rs) = 0 \<and> sorted_wrt below rs \<and>
     (\<forall>r \<in> set rs. lbase r + lsize r < 2 ^ 64) \<and> (\<forall>r \<in> set (tl rs). 0 < lsize r)"

lemma lmb_covered_simps [simp]: "lmb_covered [] = {}" "lmb_covered (r # rs) = lmb_range r \<union> lmb_covered rs"
  "lmb_covered (xs @ ys) = lmb_covered xs \<union> lmb_covered ys"
  by (auto simp: lmb_covered_def)

lemma disjoint_below:
  assumes "{base ..< base + sz} \<inter> lmb_range r = {}" "0 < sz" "0 < lsize r \<or> lbase r + lsize r \<le> base"
  shows "lbase r + lsize r \<le> base \<or> base + sz \<le> lbase r"
proof (rule ccontr)
  assume "\<not> ?thesis"
  then have "max base (lbase r) \<in> {base ..< base + sz} \<inter> lmb_range r" using assms
    by (cases "base \<le> lbase r") (auto simp: lmb_range_def max_def)
  with assms(1) show False by blast
qed

lemma lmb_find_adjacent_spec:
  "lmb_find_adjacent rs k base sz = (i, a) \<Longrightarrow>
     (a = 0 \<and> i = k + length rs \<and> (\<forall>r \<in> set rs. lmb_addrs_adjacent base sz (lbase r) (lsize r) = 0)) \<or>
     (a \<noteq> 0 \<and> (\<exists>us r vs. rs = us @ r # vs \<and> i = k + length us \<and> a = lmb_addrs_adjacent base sz (lbase r) (lsize r)))"
proof (induction rs arbitrary: k)
  case (Cons r rs)
  show ?case
  proof (cases "lmb_addrs_adjacent base sz (lbase r) (lsize r) = 0")
    case True
    then have "lmb_find_adjacent rs (k + 1) base sz = (i, a)" using Cons.prems by simp
    from Cons.IH [OF this] show ?thesis
    proof (elim disjE conjE exE)
      fix us s vs assume "rs = us @ s # vs" "i = k + 1 + length us" "a = lmb_addrs_adjacent base sz (lbase s) (lsize s)" "a \<noteq> 0"
      then show ?thesis by (intro disjI2 conjI exI [of _ "r # us"] exI [of _ s] exI [of _ vs]) auto
    qed (use True in auto)
  next
    case False
    with Cons.prems show ?thesis
      by (intro disjI2 conjI exI [of _ "[]"] exI [of _ r] exI [of _ rs]) auto
  qed
qed simp

text \<open>How a new range lies to the entries around one of them.\<close>

lemma table_split:
  assumes "table_ok (us @ r # vs)"
  shows "\<forall>u \<in> set us. below u r" "\<forall>v \<in> set vs. below r v \<and> 0 < lsize v" "us \<noteq> [] \<Longrightarrow> 0 < lsize r"
    "sorted_wrt below us" "sorted_wrt below vs" "\<forall>u \<in> set us. \<forall>v \<in> set vs. below u v"
    "lbase r + lsize r < 2 ^ 64" "us = [] \<Longrightarrow> lbase r = 0" "\<forall>u \<in> set us. 0 < lsize u \<or> lbase u = 0"
  using assms by (cases us; auto simp: table_ok_def sorted_wrt_append)+

lemma before_new:
  assumes ok: "table_ok rs" and r: "r \<in> set rs" and d: "{base ..< base + sz} \<inter> lmb_covered rs = {}" and s: "0 < sz"
  shows "lbase r + lsize r \<le> base \<or> base + sz \<le> lbase r"
proof (rule disjoint_below)
  show "{base ..< base + sz} \<inter> lmb_range r = {}" using d r by (auto simp: lmb_covered_def)
  show "0 < lsize r \<or> lbase r + lsize r \<le> base"
  proof (cases "r = hd rs")
    case True
    then show ?thesis using ok by (auto simp: table_ok_def)
  next
    case False
    then have "r \<in> set (tl rs)" using r by (cases rs) auto
    then show ?thesis using ok by (auto simp: table_ok_def)
  qed
qed (rule s)


lemma replace_entry:
  assumes ok: "table_ok (us @ r # vs)" and pos: "0 < lsize r'" "lbase r' + lsize r' < 2 ^ 64" "us = [] \<Longrightarrow> lbase r' = 0"
    and u: "\<forall>u \<in> set us. below u r'" and v: "\<forall>v \<in> set vs. below r' v"
  shows "table_ok (us @ r' # vs)"
  using assms table_split [OF ok] by (cases us) (auto simp: table_ok_def sorted_wrt_append)

lemma coalesce_entries:
  assumes ok: "table_ok (us @ r # v # vs)" and adj: "lmb_regions_adjacent (us @ r # v # vs) (length us) (length us + 1) \<noteq> 0"
  shows "table_ok (lmb_coalesce_regions (us @ r # v # vs) (length us) (length us + 1))"
    "lmb_covered (lmb_coalesce_regions (us @ r # v # vs) (length us) (length us + 1)) = lmb_covered (us @ r # v # vs)"
proof -
  have v: "below r v" "0 < lsize v" "lbase v + lsize v < 2 ^ 64" and r: "lbase r + lsize r < 2 ^ 64"
    using ok table_split(2) [OF ok] by (auto simp: table_ok_def)
  have e: "lbase v = lbase r + lsize r"
    using adj v r by (auto simp: lmb_regions_adjacent_def lmb_addrs_adjacent_def nth_append below_def uval_simps split: if_splits)
  let ?r = "r\<lparr>lsize := lsize r + lsize v\<rparr>"
  have c: "lmb_coalesce_regions (us @ r # v # vs) (length us) (length us + 1) = us @ ?r # vs"
    using v e by (simp add: lmb_coalesce_regions_def nth_append uval_simps Let_def)
  have ok': "table_ok ((us @ [r]) @ v # vs)" using ok by simp
  show "table_ok (lmb_coalesce_regions (us @ r # v # vs) (length us) (length us + 1))"
  proof -
    have t: "table_ok (us @ r # vs)"
      using ok by (cases us) (auto simp: table_ok_def sorted_wrt_append)
    have b: "\<forall>u \<in> set us. below u ?r" "\<forall>w \<in> set vs. below ?r w"
      using table_split(1) [OF ok] table_split(2) [OF ok'] e by (auto simp: below_def)
    show ?thesis unfolding c
      by (rule replace_entry [OF t _ _ _ b]) (use v e table_split(8) [OF ok] in auto)
  qed
  show "lmb_covered (lmb_coalesce_regions (us @ r # v # vs) (length us) (length us + 1)) = lmb_covered (us @ r # v # vs)"
    unfolding c using e by (auto simp: lmb_range_def)
qed

lemma maybe_coalesce:
  assumes ok: "table_ok (us @ r # vs)"
  defines "rs \<equiv> us @ r # vs"
  defines "res \<equiv> (if length us < usub (length rs) 1 \<and> lmb_regions_adjacent rs (length us) (length us + 1) \<noteq> 0
      then (lmb_coalesce_regions rs (length us) (length us + 1), 1 + 1) else (rs, 1 :: int))"
  shows "table_ok (fst res)" "lmb_covered (fst res) = lmb_covered rs" "0 < snd res"
proof -
  have l: "usub (length rs) 1 = length us + length vs"
    using ok by (simp add: table_ok_def rs_def uval_simps MAX_LMB_REGIONS_def)
  have "table_ok (fst res) \<and> lmb_covered (fst res) = lmb_covered rs \<and> 0 < snd res"
  proof (cases vs)
    case Nil
    then show ?thesis using ok unfolding res_def l by (simp add: rs_def)
  next
    case (Cons v ws)
    then show ?thesis using ok coalesce_entries [of us r v ws] unfolding res_def l by (auto simp: rs_def)
  qed
  then show "table_ok (fst res)" "lmb_covered (fst res) = lmb_covered rs" "0 < snd res" by auto
qed

lemma ins_pos_spec:
  assumes "0 < n" "lbase (rs ! 0) \<le> base"
  shows "\<exists>p. ins_pos rs base n = Some p \<and> 0 < p \<and> p \<le> n \<and> lbase (rs ! (p - 1)) \<le> base \<and>
    (\<forall>j. p \<le> j \<and> j < n \<longrightarrow> base < lbase (rs ! j))"
  using assms
proof (induction n)
  case (Suc n)
  show ?case
  proof (cases "base < lbase (rs ! n)")
    case True
    then have "0 < n" using Suc.prems by (cases n) auto
    then obtain p where "ins_pos rs base n = Some p" "0 < p" "p \<le> n" "lbase (rs ! (p - 1)) \<le> base"
      "\<forall>j. p \<le> j \<and> j < n \<longrightarrow> base < lbase (rs ! j)" using Suc by blast
    with True show ?thesis by (intro exI [of _ p]) (auto simp: less_Suc_eq)
  next
    case False
    then show ?thesis by (intro exI [of _ "Suc n"]) auto
  qed
qed simp


lemma add_adjacent:
  assumes ok: "table_ok (us @ r # vs)" and s: "0 < sz" "base + sz < 2 ^ 64"
    and d: "{base ..< base + sz} \<inter> lmb_covered (us @ r # vs) = {}"
    and a: "a = lmb_addrs_adjacent base sz (lbase r) (lsize r)" "a \<noteq> 0"
  defines "r' \<equiv> (if a > 0 then r\<lparr>lbase := usub (lbase r) sz, physbase := usub (physbase r) sz, lsize := uadd (lsize r) sz\<rparr>
      else r\<lparr>lsize := uadd (lsize r) sz\<rparr>)"
  shows "table_ok (us @ r' # vs)" "lmb_range r' = lmb_range r \<union> {base ..< base + sz}"
proof -
  note sp = table_split [OF ok]
  have ub: "uadd base sz = base + sz" "uadd (lbase r) (lsize r) = lbase r + lsize r" using s sp(7) by (simp_all add: uval_simps)
  have apart: "lbase x + lsize x \<le> base \<or> base + sz \<le> lbase x" if "x \<in> set us \<union> set vs" for x
    by (rule before_new [OF ok _ d s(1)]) (use that in auto)
  consider (low) "a > 0" "lbase r = base + sz" | (high) "a < 0" "base = lbase r + lsize r"
  proof (cases "lbase r = base + sz")
    case True
    then show ?thesis using a(1) ub low by (simp add: lmb_addrs_adjacent_def)
  next
    case False
    then show ?thesis using a ub high by (cases "base = lbase r + lsize r") (simp_all add: lmb_addrs_adjacent_def)
  qed
  then have "table_ok (us @ r' # vs) \<and> lmb_range r' = lmb_range r \<union> {base ..< base + sz}"
  proof cases
    case low
    then have r': "lbase r' = base" "lsize r' = lsize r + sz" using sp(7) by (simp_all add: r'_def uval_simps)
    have "us \<noteq> []" using sp(8) low(2) s(1) by auto
    moreover have "below u r'" if u: "u \<in> set us" for u
    proof -
      have "below u r" using sp(1) u by blast
      moreover have "lbase u + lsize u \<le> base \<or> base + sz \<le> lbase u" by (rule apart) (use u in simp)
      moreover have "0 < lsize u \<or> lbase u = 0" using sp(9) u by auto
      ultimately show ?thesis using low(2) r' s(1) unfolding below_def by linarith
    qed
    moreover have "below r' v" if "v \<in> set vs" for v using sp(2) that low(2) r' by (auto simp: below_def)
    ultimately have "table_ok (us @ r' # vs)" using r' low(2) s sp(7) by (intro replace_entry [OF ok]) auto
    then show ?thesis using r' low(2) by (auto simp: lmb_range_def)
  next
    case high
    then have r': "lbase r' = lbase r" "lsize r' = lsize r + sz" using s by (simp_all add: r'_def uval_simps)
    have "below r' v" if v: "v \<in> set vs" for v
    proof -
      have "below r v" "0 < lsize v" using sp(2) v by auto
      moreover have "lbase v + lsize v \<le> base \<or> base + sz \<le> lbase v" by (rule apart) (use v in simp)
      ultimately show ?thesis using high(2) r' unfolding below_def by linarith
    qed
    moreover have "below u r'" if "u \<in> set us" for u using sp(1) that r' by (auto simp: below_def)
    ultimately have "table_ok (us @ r' # vs)" using r' high(2) s sp(8) by (intro replace_entry [OF ok]) auto
    then show ?thesis using r' high(2) by (auto simp: lmb_range_def)
  qed
  then show "table_ok (us @ r' # vs)" "lmb_range r' = lmb_range r \<union> {base ..< base + sz}" by auto
qed

lemma add_between:
  assumes ok: "table_ok rs" and s: "0 < sz" "base + sz < 2 ^ 64" and d: "{base ..< base + sz} \<inter> lmb_covered rs = {}"
    and p: "0 < p" "p \<le> length rs" "lbase (rs ! (p - 1)) \<le> base" "\<forall>j. p \<le> j \<and> j < length rs \<longrightarrow> base < lbase (rs ! j)"
    and room: "length rs < MAX_LMB_REGIONS"
  shows "table_ok (take p rs @ \<lparr>lbase = base, physbase = ph, lsize = sz\<rparr> # drop p rs)"
proof -
  let ?n = "\<lparr>lbase = base, physbase = ph, lsize = sz\<rparr>"
  have apart: "lbase x + lsize x \<le> base \<or> base + sz \<le> lbase x" if "x \<in> set rs" for x
    by (rule before_new [OF ok that d s(1)])
  have srt: "sorted_wrt below rs" using ok by (simp add: table_ok_def)
  have lo: "below u ?n" if "u \<in> set (take p rs)" for u
  proof -
    from that obtain j where j: "j < p" "u = rs ! j" using p(2) by (auto simp: in_set_conv_nth)
    have "lbase u \<le> base"
    proof (cases "j = p - 1")
      case False
      then have "below u (rs ! (p - 1))" using srt j p(1,2) by (simp add: sorted_wrt_iff_nth_less)
      then show ?thesis using p(3) by (simp add: below_def)
    qed (use p(3) j in simp)
    then show ?thesis using apart [of u] s(1) in_set_takeD [OF that] by (auto simp: below_def)
  qed
  have hi: "below ?n v" if v: "v \<in> set (drop p rs)" for v
  proof -
    from v obtain j where "p \<le> j" "j < length rs" "v = rs ! j"
      unfolding in_set_conv_nth using p(2) by (metis le_add1 length_drop less_diff_conv add.commute nth_drop)
    then have "base < lbase v" using p(4) by blast
    then show ?thesis using apart [of v] in_set_dropD [OF v] by (auto simp: below_def)
  qed
  have "sorted_wrt below (take p rs)" "sorted_wrt below (drop p rs)" "\<forall>u \<in> set (take p rs). \<forall>v \<in> set (drop p rs). below u v"
    using srt append_take_drop_id [of p rs] by (metis sorted_wrt_append)+
  then have "sorted_wrt below (take p rs @ ?n # drop p rs)" using lo hi by (auto simp: sorted_wrt_append)
  moreover have "\<forall>r \<in> set (tl (take p rs @ ?n # drop p rs)). 0 < lsize r"
  proof -
    obtain r us where rs: "rs = r # us" using p by (cases rs) auto
    then have "tl (take p rs @ ?n # drop p rs) = take (p - 1) us @ ?n # drop (p - 1) us" using p(1) by (cases p) auto
    moreover have "\<forall>x \<in> set us. 0 < lsize x" using ok rs by (simp add: table_ok_def)
    ultimately show ?thesis using s(1) by (auto dest: in_set_takeD in_set_dropD)
  qed
  moreover have "hd (take p rs @ ?n # drop p rs) = hd rs" using p(1,2) by (cases rs; cases p) auto
  ultimately show ?thesis using ok s room by (auto simp: table_ok_def dest: in_set_takeD in_set_dropD)
qed


text \<open>The two ways \<^verbatim>\<open>lmb_add_region\<close> goes.\<close>

lemma add_region_adjacent:
  assumes "lmb_find_adjacent (us @ r # vs) 0 base sz = (length us, a)" "a \<noteq> 0"
  defines "r' \<equiv> (if a > 0 then r\<lparr>lbase := usub (lbase r) sz, physbase := usub (physbase r) sz, lsize := uadd (lsize r) sz\<rparr>
      else r\<lparr>lsize := uadd (lsize r) sz\<rparr>)"
  assumes ok: "table_ok (us @ r' # vs)"
  shows "\<exists>n rs'. lmb_add_region phys (us @ r # vs) base sz = Some (n, rs') \<and> 0 < n \<and> table_ok rs' \<and> lmb_covered rs' = lmb_covered (us @ r' # vs)"
proof -
  let ?rs = "us @ r' # vs"
  let ?res = "if length us < usub (length ?rs) 1 \<and> lmb_regions_adjacent ?rs (length us) (length us + 1) \<noteq> 0
      then (lmb_coalesce_regions ?rs (length us) (length us + 1), 1 + 1) else (?rs, 1 :: int)"
  have rs1: "(if a > 0 then (us @ r # vs)[length us := r\<lparr>lbase := usub (lbase r) sz, physbase := usub (physbase r) sz, lsize := uadd (lsize r) sz\<rparr>]
        else if a < 0 then (us @ r # vs)[length us := r\<lparr>lsize := uadd (lsize r) sz\<rparr>] else us @ r # vs) = ?rs"
    using assms(2) by (auto simp: r'_def)
  have nth: "(us @ r # vs) ! length us = r" "length (us @ r # vs) = length ?rs" by simp_all
  obtain rs2 c2 where res: "?res = (rs2, c2)" by (cases ?res) auto
  note m = maybe_coalesce [OF ok, unfolded res]
  have "lmb_add_region phys (us @ r # vs) base sz = Some (c2, rs2)"
    unfolding lmb_add_region_def assms(1) Let_def prod.case nth rs1 using assms(2) res m(3) by (simp split: if_splits)
  with m show ?thesis by auto
qed

lemma add_region_insert:
  assumes "lmb_find_adjacent rs 0 base sz = (length rs, 0)" "rs \<noteq> []" "length rs \<le> MAX_LMB_REGIONS"
  shows "lmb_add_region phys rs base sz =
    (if length rs = MAX_LMB_REGIONS then Some (-1, rs)
     else map_option (\<lambda>p. (0, take p rs @ \<lparr>lbase = base, physbase = phys (half_written rs p base), lsize = sz\<rparr> # drop p rs))
            (ins_pos rs base (length rs)))"
proof -
  have "usub (length rs) 1 = length rs - 1"
    using assms(2,3) by (intro usub_nowrap) (auto simp: Suc_le_eq MAX_LMB_REGIONS_def)
  then show ?thesis using assms
    by (cases "ins_pos rs base (length rs)") (auto simp: lmb_add_region_def Let_def)
qed

lemma lmb_add_region_ok:
  assumes ok: "table_ok rs" and s: "0 < sz" "base + sz < 2 ^ 64" and d: "{base ..< base + sz} \<inter> lmb_covered rs = {}"
  shows "\<exists>n rs'. lmb_add_region phys rs base sz = Some (n, rs') \<and>
    (n = -1 \<longrightarrow> rs' = rs \<and> length rs = MAX_LMB_REGIONS) \<and>
    (n \<noteq> -1 \<longrightarrow> table_ok rs' \<and> lmb_covered rs' = lmb_covered rs \<union> {base ..< base + sz})"
proof -
  obtain i a where f: "lmb_find_adjacent rs 0 base sz = (i, a)" by (cases "lmb_find_adjacent rs 0 base sz")
  have l: "rs \<noteq> []" "length rs \<le> MAX_LMB_REGIONS" "lbase (hd rs) = 0" using ok by (auto simp: table_ok_def)
  from lmb_find_adjacent_spec [OF f] show ?thesis
  proof (elim disjE conjE exE)
    assume a: "a = 0" "i = 0 + length rs"
    have "lbase (rs ! 0) \<le> base" using l by (simp add: hd_conv_nth)
    with ins_pos_spec [of "length rs" rs base] l obtain p where p: "ins_pos rs base (length rs) = Some p" "0 < p"
      "p \<le> length rs" "lbase (rs ! (p - 1)) \<le> base" "\<forall>j. p \<le> j \<and> j < length rs \<longrightarrow> base < lbase (rs ! j)" by auto
    note e = add_region_insert [OF f [unfolded a add_0] l(1,2)]
    show ?thesis
    proof (cases "length rs = MAX_LMB_REGIONS")
      case True
      then show ?thesis unfolding e by simp
    next
      case False
      let ?n = "\<lparr>lbase = base, physbase = phys (half_written rs p base), lsize = sz\<rparr>"
      have "table_ok (take p rs @ ?n # drop p rs)" by (rule add_between [OF ok s d p(2-5)]) (use l(2) False in simp)
      moreover have "lmb_covered (take p rs @ ?n # drop p rs) = lmb_covered (take p rs @ drop p rs) \<union> {base ..< base + sz}"
        unfolding lmb_covered_simps lmb_range_def by auto
      ultimately show ?thesis unfolding e using p(1) False by simp
    qed
  next
    fix us r vs assume a: "a \<noteq> 0" and rs: "rs = us @ r # vs" "i = 0 + length us"
      and adj: "a = lmb_addrs_adjacent base sz (lbase r) (lsize r)"
    note new = add_adjacent [OF ok [unfolded rs] s d [unfolded rs] adj a]
    from add_region_adjacent [OF f [unfolded rs add_0] a new(1), of phys] obtain n rs' where
      n: "lmb_add_region phys (us @ r # vs) base sz = Some (n, rs')" "0 < n" "table_ok rs'"
      and c: "lmb_covered rs' = lmb_covered us \<union> (lmb_range r \<union> {base ..< base + sz} \<union> lmb_covered vs)"
      unfolding lmb_covered_simps new(2) by blast
    have "lmb_covered rs' = lmb_covered (us @ r # vs) \<union> {base ..< base + sz}" unfolding c lmb_covered_simps by blast
    then show ?thesis unfolding rs using n by auto
  qed
qed



section \<open>Where the allocator looks\<close>

lemma ALIGN_DOWN_le: "ALIGN_DOWN x a \<le> x"
  by (simp add: ALIGN_DOWN_def and_not_def)

lemma ALIGN_DOWN_pow2:
  assumes "k < 64"
  shows "ALIGN_DOWN x (2 ^ k) = x div 2 ^ k * 2 ^ k"
proof -
  have "(2 :: nat) ^ k < 2 ^ 64" using assms by (intro power_strict_increasing) auto
  then have "usub (2 ^ k) 1 = 2 ^ k - 1" by (intro usub_nowrap) auto
  then show ?thesis by (simp only: ALIGN_DOWN_def and_not_def and_mask_nat minus_mod_eq_div_mult)
qed

lemma overlaps_from_spec:
  "case overlaps_from rs k base sz of
     None \<Rightarrow> \<forall>r \<in> set rs. \<not> lmb_addrs_overlap base sz (lbase r) (lsize r)
   | Some i \<Rightarrow> k \<le> i \<and> i < k + length rs \<and> lmb_addrs_overlap base sz (lbase (rs ! (i - k))) (lsize (rs ! (i - k)))"
proof (induction rs arbitrary: k)
  case (Cons r rs)
  show ?case
  proof (cases "lmb_addrs_overlap base sz (lbase r) (lsize r)")
    case False
    then show ?thesis using Cons.IH [where k = "k + 1"] by (auto split: option.splits simp: Suc_diff_Suc nth_Cons' Suc_le_eq)
  qed simp
qed simp

lemma lmb_overlaps_region_spec:
  "(lmb_overlaps_region rs base sz < 0 \<and> (\<forall>r \<in> set rs. \<not> lmb_addrs_overlap base sz (lbase r) (lsize r))) \<or>
   (\<exists>r \<in> set rs. lmb_overlaps_region rs base sz \<ge> 0 \<and> rs ! nat (lmb_overlaps_region rs base sz) = r \<and>
      lmb_addrs_overlap base sz (lbase r) (lsize r))"
  using overlaps_from_spec [where rs = rs and k = 0 and base = base and sz = sz] by (auto simp: lmb_overlaps_region_def split: option.splits)


definition low :: "lmb_property list \<Rightarrow> bool" where
  "low rs \<longleftrightarrow> (\<forall>r \<in> set rs. lbase r + lsize r \<le> 2 ^ 62)"

lemma low_overlap:
  assumes "low rs" "r \<in> set rs" "base + sz < 2 ^ 64"
  shows "lmb_addrs_overlap base sz (lbase r) (lsize r) \<longleftrightarrow> base < lbase r + lsize r \<and> lbase r < base + sz"
proof -
  have "lbase r + lsize r \<le> 2 ^ 62" using assms by (auto simp: low_def)
  then have "uadd (lbase r) (lsize r) = lbase r + lsize r" by (intro uadd_nowrap) simp
  then show ?thesis using assms(3) by (simp add: lmb_addrs_overlap_def uval_simps)
qed

lemma skip_high:
  assumes "low rsv" "2 ^ 63 \<le> base"
  shows "skip_reserved rsv lo sz al base = Some base"
proof -
  have "\<not> lmb_addrs_overlap base sz (lbase r) (lsize r)" if "r \<in> set rsv" for r
  proof -
    have "lbase r + lsize r \<le> 2 ^ 62" using assms(1) that by (auto simp: low_def)
    then show ?thesis using assms(2) by (auto simp: lmb_addrs_overlap_def uadd_nowrap)
  qed
  then have "lmb_overlaps_region rsv base sz < 0" using lmb_overlaps_region_spec [of rsv base sz] by blast
  then show ?thesis by (simp add: skip_reserved.simps [of rsv lo sz al base])
qed

text \<open>Alignment of the end of a range less a size: at or below it, or past the middle of the address space.\<close>

lemma candidate:
  assumes "x \<le> 2 ^ 62" "0 < sz" "sz \<le> 2 ^ 62" "k \<le> 62"
  defines "b \<equiv> ALIGN_DOWN (usub x sz) (2 ^ k)"
  shows "2 ^ k dvd b" "(sz \<le> x \<and> b + sz \<le> x) \<or> (x < sz \<and> 2 ^ 63 \<le> b)"
proof -
  have e: "b = usub x sz div 2 ^ k * 2 ^ k" unfolding b_def using assms(4) by (intro ALIGN_DOWN_pow2) simp
  then show "2 ^ k dvd b" by simp
  show "(sz \<le> x \<and> b + sz \<le> x) \<or> (x < sz \<and> 2 ^ 63 \<le> b)"
  proof (cases "sz \<le> x")
    case True
    then have "usub x sz = x - sz" using assms(1) by (intro usub_nowrap) simp_all
    then have "b \<le> x - sz" unfolding b_def by (metis ALIGN_DOWN_le)
    then show ?thesis using True by simp
  next
    case False
    then have u: "usub x sz = x + 2 ^ 64 - sz" unfolding usub_def using assms(2) by (intro mod_less) simp
    have "usub x sz mod 2 ^ k < 2 ^ k" by simp
    also have "(2 :: nat) ^ k \<le> 2 ^ 62" using assms(4) by (intro power_increasing) auto
    finally have "usub x sz mod 2 ^ k < 2 ^ 62" .
    moreover have "b + usub x sz mod 2 ^ k = usub x sz" unfolding e by (rule div_mult_mod_eq)
    ultimately show ?thesis using False u assms(3) by simp
  qed
qed

lemma skip_reserved_ok:
  assumes "low rsv" "0 < sz" "sz \<le> 2 ^ 62" "k \<le> 62" "base \<le> 2 ^ 62" "2 ^ k dvd base"
  shows "\<exists>b. skip_reserved rsv lo sz (2 ^ k) base = Some b \<and> 2 ^ k dvd b \<and>
    (2 ^ 63 \<le> b \<or> (b \<le> base \<and> (lo \<le> b \<longrightarrow> {b ..< b + sz} \<inter> lmb_covered rsv = {})))"
  using assms(5,6)
proof (induction base rule: less_induct)
  case (less base)
  have nw: "base + sz < 2 ^ 64" using less.prems(1) assms(3) by simp
  note eq = skip_reserved.simps [of rsv lo sz "2 ^ k" base]
  consider (stop) "\<not> (lo \<le> base \<and> lmb_overlaps_region rsv base sz \<ge> 0)"
    | (go) r where "lo \<le> base" "r \<in> set rsv" "lmb_overlaps_region rsv base sz \<ge> 0"
        "rsv ! nat (lmb_overlaps_region rsv base sz) = r" "lmb_addrs_overlap base sz (lbase r) (lsize r)"
    using lmb_overlaps_region_spec [of rsv base sz] by force
  then show ?case
  proof cases
    case stop
    have "{base ..< base + sz} \<inter> lmb_covered rsv = {}" if "lo \<le> base"
    proof -
      have no: "\<forall>r \<in> set rsv. \<not> lmb_addrs_overlap base sz (lbase r) (lsize r)"
        using stop that lmb_overlaps_region_spec [of rsv base sz] by auto
      have "{base ..< base + sz} \<inter> lmb_range r = {}" if r: "r \<in> set rsv" for r
        using no r low_overlap [OF assms(1) r nw] by (force simp: lmb_range_def)
      then show ?thesis by (auto simp: lmb_covered_def)
    qed
    moreover have "skip_reserved rsv lo sz (2 ^ k) base = Some base" unfolding eq if_not_P [OF stop] ..
    ultimately show ?thesis using less.prems(2) by (intro exI [of _ base]) simp
  next
    case go
    let ?b = "ALIGN_DOWN (usub (lbase r) sz) (2 ^ k)"
    have ov: "lbase r < base + sz" using go low_overlap [OF assms(1) _ nw] by blast
    have "lbase r \<le> 2 ^ 62" using assms(1) go(2) by (auto simp: low_def)
    note c = candidate [OF this assms(2-4)]
    have e: "skip_reserved rsv lo sz (2 ^ k) base = skip_reserved rsv lo sz (2 ^ k) ?b" using go by (simp add: eq)
    show ?thesis
    proof (cases "sz \<le> lbase r")
      case True
      then have lt: "?b < base" using c(2) ov by linarith
      then have "?b \<le> 2 ^ 62" using less.prems(1) by simp
      from less.IH [OF lt this c(1)] show ?thesis unfolding e using lt by (meson less_imp_le order_trans)
    next
      case False
      then have h: "2 ^ 63 \<le> ?b" using c(2) by linarith
      then show ?thesis unfolding e using skip_high [OF assms(1) h] c(1) by blast
    qed
  qed
qed


definition placed :: "lmb_property list \<Rightarrow> lmb_property list \<Rightarrow> uval \<Rightarrow> nat \<Rightarrow> uval \<Rightarrow> uval \<Rightarrow> bool" where
  "placed rsv mem sz k max_addr b \<longleftrightarrow> b \<noteq> 0 \<and> 2 ^ k dvd b \<and> {b ..< b + sz} \<inter> lmb_covered rsv = {} \<and>
     (\<exists>r \<in> set mem. {b ..< b + sz} \<subseteq> lmb_range r) \<and> (max_addr \<noteq> LMB_ALLOC_ANYWHERE \<longrightarrow> b + sz \<le> max_addr)"

lemma alloc_loop_ok:
  assumes "low rsv" "low mem" "0 < sz" "sz \<le> 2 ^ 62" "k \<le> 62"
  shows "\<exists>res. alloc_loop rsv mem sz (2 ^ k) max_addr = Some res \<and> (\<forall>b. res = Some b \<longrightarrow> 2 ^ 63 \<le> b \<or> placed rsv mem sz k max_addr b)"
  using assms(2)
proof (induction mem)
  case (Cons r mem)
  have "low mem" and r: "lbase r + lsize r \<le> 2 ^ 62" using Cons.prems by (auto simp: low_def)
  from Cons.IH [OF this(1)] obtain res where res: "alloc_loop rsv mem sz (2 ^ k) max_addr = Some res"
    "\<forall>b. res = Some b \<longrightarrow> 2 ^ 63 \<le> b \<or> placed rsv (r # mem) sz k max_addr b" by (force simp: placed_def)
  show ?case
  proof (cases "max_addr = LMB_ALLOC_ANYWHERE \<or> lbase r < max_addr")
    case False
    then show ?thesis using res by simp
  next
    case True
    define x where "x = (if max_addr = LMB_ALLOC_ANYWHERE then lbase r + lsize r else min (lbase r + lsize r) max_addr)"
    have x: "x \<le> 2 ^ 62" "x \<le> lbase r + lsize r" "max_addr \<noteq> LMB_ALLOC_ANYWHERE \<longrightarrow> x \<le> max_addr" using r by (auto simp: x_def)
    note c = candidate [OF x(1) assms(3-5)]
    let ?c = "ALIGN_DOWN (usub x sz) (2 ^ k)"
    have "\<exists>b. skip_reserved rsv (lbase r) sz (2 ^ k) ?c = Some b \<and> 2 ^ k dvd b \<and>
        (2 ^ 63 \<le> b \<or> (b + sz \<le> x \<and> (lbase r \<le> b \<longrightarrow> {b ..< b + sz} \<inter> lmb_covered rsv = {})))"
    proof (cases "sz \<le> x")
      case True
      then have lt: "?c \<le> 2 ^ 62" "?c + sz \<le> x" using c(2) x(1) by linarith+
      from skip_reserved_ok [OF assms(1,3-5) lt(1) c(1), of "lbase r"] lt(2) show ?thesis by (meson add_le_mono1 order_trans)
    next
      case False
      then have h: "2 ^ 63 \<le> ?c" using c(2) by linarith
      then show ?thesis using skip_high [OF assms(1) h] c(1) by blast
    qed
    then obtain b where b: "skip_reserved rsv (lbase r) sz (2 ^ k) ?c = Some b" "2 ^ k dvd b"
      "2 ^ 63 \<le> b \<or> (b + sz \<le> x \<and> (lbase r \<le> b \<longrightarrow> {b ..< b + sz} \<inter> lmb_covered rsv = {}))" by blast
    have u: "uadd (lbase r) (lsize r) = lbase r + lsize r" using r by (intro uadd_nowrap) simp
    have "(if max_addr = LMB_ALLOC_ANYWHERE then ALIGN_DOWN (usub (uadd (lbase r) (lsize r)) sz) (2 ^ k)
        else ALIGN_DOWN (usub (min (uadd (lbase r) (lsize r)) max_addr) sz) (2 ^ k)) = ?c" unfolding u x_def by simp
    then have e: "alloc_loop rsv (r # mem) sz (2 ^ k) max_addr =
        (if b \<noteq> 0 \<and> lbase r \<le> b then Some (Some b) else alloc_loop rsv mem sz (2 ^ k) max_addr)" using True b(1) by simp
    have "2 ^ 63 \<le> b \<or> placed rsv (r # mem) sz k max_addr b" if "b \<noteq> 0" "lbase r \<le> b"
      using that b(2,3) x by (auto simp: placed_def lmb_range_def)
    then show ?thesis unfolding e using res by auto
  qed
qed simp

lemma lmb_add_region_total:
  assumes "rs \<noteq> []" "lbase (hd rs) \<le> base" "length rs \<le> MAX_LMB_REGIONS"
  shows "lmb_add_region phys rs base sz \<noteq> None"
proof -
  obtain i a where f: "lmb_find_adjacent rs 0 base sz = (i, a)" by (cases "lmb_find_adjacent rs 0 base sz")
  show ?thesis
  proof (cases "a = 0")
    case True
    then have "i = length rs" using lmb_find_adjacent_spec [OF f] by simp
    moreover have "ins_pos rs base (length rs) \<noteq> None" using ins_pos_spec [of "length rs" rs base] assms(1,2) by (auto simp: hd_conv_nth)
    ultimately show ?thesis using f True add_region_insert [of rs base sz phys] assms by auto
  next
    case False
    then show ?thesis using f by (auto simp: lmb_add_region_def Let_def)
  qed
qed

text \<open>
  C35. With all memory and reservations below 2 to the 62 and an alignment that is a power of two,
  \<^verbatim>\<open>lmb_alloc_base\<close> returns. Its result is 0 and nothing changed, or lies past the middle of the address
  space because a subtraction wrapped, or is an aligned range inside one memory region and below the
  limit, apart from everything reserved; the reservation is then recorded unless the table is full.
\<close>

theorem lmb_alloc_base_result:
  assumes "low (region (reserved l))" "low (region (memory l))" "table_ok (region (reserved l))"
    and "0 < sz" "sz \<le> 2 ^ 62" "k \<le> 62"
  shows "\<exists>b l'. lmb_alloc_base l sz (2 ^ k) max_addr = Some (b, l') \<and>
    (b = 0 \<and> l' = l \<or> 2 ^ 63 \<le> b \<or>
     placed (region (reserved l)) (region (memory l)) sz k max_addr b \<and> memory l' = memory l \<and>
     (if length (region (reserved l)) < MAX_LMB_REGIONS
      then table_ok (region (reserved l')) \<and> lmb_covered (region (reserved l')) = lmb_covered (region (reserved l)) \<union> {b ..< b + sz}
      else l' = l \<or> lmb_covered (region (reserved l')) = lmb_covered (region (reserved l)) \<union> {b ..< b + sz}))"
proof -
  let ?rsv = "region (reserved l)" and ?mem = "region (memory l)"
  have "low (rev ?mem)" using assms(2) by (simp add: low_def)
  from alloc_loop_ok [OF assms(1) this assms(4-6)] obtain res where
    res: "alloc_loop ?rsv (rev ?mem) sz (2 ^ k) max_addr = Some res"
      "\<forall>b. res = Some b \<longrightarrow> 2 ^ 63 \<le> b \<or> placed ?rsv ?mem sz k max_addr b" by (auto simp: placed_def)
  show ?thesis
  proof (cases res)
    case None
    then show ?thesis using res(1) by (simp add: lmb_alloc_base_def)
  next
    case (Some b)
    let ?ph = "\<lambda>_. lmb_abs_to_phys ?mem b"
    have t: "?rsv \<noteq> []" "lbase (hd ?rsv) \<le> b" "length ?rsv \<le> MAX_LMB_REGIONS" using assms(3) by (auto simp: table_ok_def)
    from lmb_add_region_total [OF t, of ?ph sz] obtain n rs' where n: "lmb_add_region ?ph ?rsv b sz = Some (n, rs')" by auto
    have e: "lmb_alloc_base l sz (2 ^ k) max_addr = Some (b, l\<lparr>reserved := (reserved l)\<lparr>region := rs'\<rparr>\<rparr>)"
      using res(1) Some n by (simp add: lmb_alloc_base_def lmb_reserve_def)
    consider "2 ^ 63 \<le> b" | "placed ?rsv ?mem sz k max_addr b" using res(2) Some by blast
    then show ?thesis
    proof cases
      case 1
      then show ?thesis using e by blast
    next
      case 2
      then obtain r where r: "r \<in> set ?mem" "{b ..< b + sz} \<subseteq> lmb_range r" and d: "{b ..< b + sz} \<inter> lmb_covered ?rsv = {}"
        by (auto simp: placed_def)
      have "lbase r + lsize r \<le> 2 ^ 62" using assms(2) r(1) by (auto simp: low_def)
      moreover have "b + sz - 1 \<in> lmb_range r" using r(2) assms(4) by auto
      ultimately have "b + sz < 2 ^ 64" by (auto simp: lmb_range_def)
      from lmb_add_region_ok [OF assms(3,4) this d, of ?ph] n have
        "n = -1 \<longrightarrow> rs' = ?rsv \<and> length ?rsv = MAX_LMB_REGIONS"
        "n \<noteq> -1 \<longrightarrow> table_ok rs' \<and> lmb_covered rs' = lmb_covered ?rsv \<union> {b ..< b + sz}" by auto
      then show ?thesis using e 2 by (cases "n = -1") auto
    qed
  qed
qed


definition ex_lmb :: lmb where
  "ex_lmb = lmb_init\<lparr>memory := \<lparr>tsize = 0, region = [\<lparr>lbase = 0, physbase = 0, lsize = 65536\<rparr>]\<rparr>\<rparr>"

lemma ex_lmb_ok: "low (region (reserved ex_lmb))" "low (region (memory ex_lmb))" "table_ok (region (reserved ex_lmb))"
  by (simp_all add: ex_lmb_def lmb_init_def low_def table_ok_def MAX_LMB_REGIONS_def)

theorem lmb_alloc_base_result_witness:
  "\<exists>b l'. lmb_alloc_base ex_lmb 8192 4096 LMB_ALLOC_ANYWHERE = Some (b, l') \<and>
    (b = 0 \<and> l' = ex_lmb \<or> 2 ^ 63 \<le> b \<or> {b ..< b + 8192} \<subseteq> {0 ..< 65536})"
  using lmb_alloc_base_result [OF ex_lmb_ok, of 8192 12 LMB_ALLOC_ANYWHERE]
  by (auto simp: placed_def ex_lmb_def lmb_init_def lmb_range_def)

text \<open>
  When the topmost memory region ends below the size that is asked for, \<^verbatim>\<open>lmb_alloc\<close> does not fail:
  the end of the region less the size wraps around, the result passes the test against the base of the
  region, and the caller gets an address in the upper half of the address space.
\<close>

theorem lmb_alloc_wraps:
  assumes "low (region (reserved l))" "table_ok (region (reserved l))" "region (memory l) = us @ [r]"
    and "lbase r + lsize r < sz" "sz \<le> 2 ^ 62" "k \<le> 62"
  shows "\<exists>b l'. lmb_alloc l sz (2 ^ k) = Some (b, l') \<and> 2 ^ 63 \<le> b"
proof -
  let ?rsv = "region (reserved l)" and ?b = "ALIGN_DOWN (usub (lbase r + lsize r) sz) (2 ^ k)"
  have x: "lbase r + lsize r \<le> 2 ^ 62" "0 < sz" using assms(4,5) by simp_all
  have h: "2 ^ 63 \<le> ?b" using candidate(2) [OF x assms(5,6)] assms(4) by simp
  have "uadd (lbase r) (lsize r) = lbase r + lsize r" using x by (intro uadd_nowrap) simp
  then have a: "alloc_loop ?rsv (rev (region (memory l))) sz (2 ^ k) LMB_ALLOC_ANYWHERE = Some (Some ?b)"
    using skip_high [OF assms(1) h] h x assms(3) by simp
  have t: "?rsv \<noteq> []" "lbase (hd ?rsv) \<le> ?b" "length ?rsv \<le> MAX_LMB_REGIONS" using assms(2) by (auto simp: table_ok_def)
  from lmb_add_region_total [OF t, of "\<lambda>_. lmb_abs_to_phys (region (memory l)) ?b" sz] a h show ?thesis
    by (auto simp: lmb_alloc_def lmb_alloc_base_def lmb_reserve_def)
qed

theorem lmb_alloc_wraps_witness: "\<exists>b l'. lmb_alloc ex_lmb 131072 4096 = Some (b, l') \<and> 2 ^ 63 \<le> b"
proof -
  have "region (memory ex_lmb) = [] @ [\<lparr>lbase = 0, physbase = 0, lsize = 65536\<rparr>]" by (simp add: ex_lmb_def)
  from lmb_alloc_wraps [OF ex_lmb_ok(1,3) this, of 131072 12] show ?thesis by simp
qed

end
