(* ===== verification/RequestCount.thy ===== *)
theory RequestCount
  imports K42_Prelude
begin

text \<open>
  Request counts, \<^verbatim>\<open>lib/libc/sync/RequestCount.H\<close> and \<^verbatim>\<open>RequestCount.C\<close>: the number of requests inside an
  object, and its shutdown, which waits for the last of them. Threads run concurrently; every
  access to shared memory is one step, and between steps a thread is at one of the places of \<^verbatim>\<open>pc\<close> below.
  The scheduler's \<^verbatim>\<open>Block\<close> returns when an \<^verbatim>\<open>Unblock\<close> of the thread came before or
  comes later (\<^verbatim>\<open>wasUnblocked\<close> of \<^verbatim>\<open>lib/libc/scheduler/Thread.H\<close>). The counter is a signed
  64-bit value that wraps.
\<close>

section \<open>State and steps\<close>

definition LONG_MAX :: int where "LONG_MAX = 2 ^ 63 - 1"

definition sadd :: "int \<Rightarrow> int \<Rightarrow> int" where
  "sadd a b = (a + b + 2 ^ 63) mod 2 ^ 64 - 2 ^ 63"

text \<open>
  Where a thread is: outside; inside; in \<^verbatim>\<open>enter\<close> before the \<^verbatim>\<open>leave\<close> that takes a refused request back; in
  \<^verbatim>\<open>leave\<close> before it swaps the thread id and before it unblocks that thread; at each access of \<^verbatim>\<open>shutdown\<close>,
  blocked in it, returned from it with 0, and returned from it with a value because another thread does
  it; \<^verbatim>\<open>Check2\<close> and \<^verbatim>\<open>Refused\<close> hold the local variable \<^verbatim>\<open>r\<close>.
\<close>

datatype pc = Idle | InUse | Failing | Swapping | Unblocking nat
  | Check1 | Check2 int | Cas | Sub | Clear | Test | Blocked | Done | Refused int

record rcount =
  requests :: int
  shutdownThread :: "nat option"
  pcs :: "pc list"
  wasUnblocked :: "nat \<Rightarrow> bool"

definition RequestCount_new :: "nat \<Rightarrow> rcount" where
  "RequestCount_new n = \<lparr>requests = 0, shutdownThread = None, pcs = replicate n Idle, wasUnblocked = (\<lambda>_. False)\<rparr>"

definition goto :: "nat \<Rightarrow> pc \<Rightarrow> rcount \<Rightarrow> rcount" where
  "goto t p s = s\<lparr>pcs := (pcs s)[t := p]\<rparr>"

definition enter :: "nat \<Rightarrow> rcount \<Rightarrow> rcount" where
  "enter t s =
     (let r = requests s
      in goto t (if r < 0 then Failing else InUse) (s\<lparr>requests := sadd r 1\<rparr>))"

definition leave :: "nat \<Rightarrow> rcount \<Rightarrow> rcount" where
  "leave t s =
     (let r = requests s
      in goto t (if r > 0 then Idle else if r = - (LONG_MAX div 2) + 1 then Swapping else Idle)
           (s\<lparr>requests := sadd r (-1)\<rparr>))"

definition leave_swap :: "nat \<Rightarrow> rcount \<Rightarrow> rcount" where
  "leave_swap t s =
     goto t (case shutdownThread s of None \<Rightarrow> Idle | Some u \<Rightarrow> Unblocking u) (s\<lparr>shutdownThread := None\<rparr>)"

definition leave_unblock :: "nat \<Rightarrow> nat \<Rightarrow> rcount \<Rightarrow> rcount" where
  "leave_unblock t u s = goto t Idle (s\<lparr>wasUnblocked := (wasUnblocked s)(u := True)\<rparr>)"

text \<open>The accesses of \<^verbatim>\<open>shutdown\<close>, in order.\<close>

definition shutdown_check1 :: "nat \<Rightarrow> rcount \<Rightarrow> rcount" where
  "shutdown_check1 t s = goto t (if requests s < 0 then Refused (requests s) else Check2 (requests s)) s"

definition shutdown_check2 :: "nat \<Rightarrow> int \<Rightarrow> rcount \<Rightarrow> rcount" where
  "shutdown_check2 t r s = goto t (if shutdownThread s \<noteq> None then Refused r else Cas) s"

definition shutdown_cas :: "nat \<Rightarrow> rcount \<Rightarrow> rcount" where
  "shutdown_cas t s =
     (if shutdownThread s = None then goto t Sub (s\<lparr>shutdownThread := Some t\<rparr>) else goto t Check1 s)"

definition shutdown_sub :: "nat \<Rightarrow> rcount \<Rightarrow> rcount" where
  "shutdown_sub t s =
     (let r = requests s
      in goto t (if r = 0 then Clear else Test) (s\<lparr>requests := sadd r (- (LONG_MAX div 2))\<rparr>))"

definition shutdown_clear :: "nat \<Rightarrow> rcount \<Rightarrow> rcount" where
  "shutdown_clear t s = goto t Done (s\<lparr>shutdownThread := None\<rparr>)"

definition shutdown_test :: "nat \<Rightarrow> rcount \<Rightarrow> rcount" where
  "shutdown_test t s = goto t (if shutdownThread s \<noteq> None then Blocked else Done) s"

text \<open>What a thread outside does next is its own choice; \<^const>\<open>None\<close> means that it cannot go on.\<close>

datatype rc_call = Enter | Shutdown

fun rc_next :: "rc_call \<Rightarrow> nat \<Rightarrow> rcount \<Rightarrow> rcount option" where
  "rc_next c t s =
     (case pcs s ! t of
        Idle \<Rightarrow> Some (case c of Enter \<Rightarrow> enter t s | Shutdown \<Rightarrow> goto t Check1 s)
      | InUse \<Rightarrow> Some (leave t s)
      | Failing \<Rightarrow> Some (leave t s)
      | Swapping \<Rightarrow> Some (leave_swap t s)
      | Unblocking u \<Rightarrow> Some (leave_unblock t u s)
      | Check1 \<Rightarrow> Some (shutdown_check1 t s)
      | Check2 r \<Rightarrow> Some (shutdown_check2 t r s)
      | Cas \<Rightarrow> Some (shutdown_cas t s)
      | Sub \<Rightarrow> Some (shutdown_sub t s)
      | Clear \<Rightarrow> Some (shutdown_clear t s)
      | Test \<Rightarrow> Some (shutdown_test t s)
      | Blocked \<Rightarrow> (if wasUnblocked s t then Some (goto t Test (s\<lparr>wasUnblocked := (wasUnblocked s)(t := False)\<rparr>)) else None)
      | Refused r \<Rightarrow> Some (goto t Idle s)
      | Done \<Rightarrow> None)"

declare rc_next.simps [simp del]

text \<open>One step of some thread; only threads of a given set call \<^verbatim>\<open>shutdown\<close>.\<close>

inductive rc_step :: "nat set \<Rightarrow> rcount \<Rightarrow> rcount \<Rightarrow> bool" for S where
  "t < length (pcs s) \<Longrightarrow> c = Shutdown \<longrightarrow> t \<in> S \<Longrightarrow> rc_next c t s = Some s' \<Longrightarrow> rc_step S s s'"

inductive_cases rc_stepE: "rc_step S s s'"

section \<open>The invariant\<close>

definition num :: "(pc \<Rightarrow> bool) \<Rightarrow> rcount \<Rightarrow> int" where
  "num P s = int (length (filter P (pcs s)))"

definition inside :: "pc \<Rightarrow> bool" where "inside p \<longleftrightarrow> p = InUse"
definition failing :: "pc \<Rightarrow> bool" where "failing p \<longleftrightarrow> p = Failing"
definition post :: "pc \<Rightarrow> bool" where "post p \<longleftrightarrow> p \<in> {Clear, Test, Blocked, Done}"
definition shutting :: "pc \<Rightarrow> bool" where "shutting p \<longleftrightarrow> post p \<or> p \<in> {Check1, Cas, Sub} \<or> (\<exists>r. p = Check2 r \<or> p = Refused r)"
definition late :: "pc \<Rightarrow> bool" where "late p \<longleftrightarrow> p \<in> {Swapping, Clear, Done} \<or> (\<exists>u. p = Unblocking u)"

text \<open>
  The counter is the number of threads inside and in a refused \<^verbatim>\<open>enter\<close>, less the large number for each
  thread past the subtraction in \<^verbatim>\<open>shutdown\<close>. Before the first of these, nothing is refused and the
  thread id belongs to the one about to subtract. After it, nobody is inside once somebody is at a
  place that comes after the last request left, or once the thread id is cleared.
\<close>

definition rc_inv :: "nat set \<Rightarrow> rcount \<Rightarrow> bool" where
  "rc_inv S s \<longleftrightarrow> length (pcs s) < 2 ^ 61 \<and> (\<forall>t < length (pcs s). shutting (pcs s ! t) \<longrightarrow> t \<in> S) \<and>
     requests s = num inside s + num failing s - num post s * (LONG_MAX div 2) \<and>
     (num post s = 0 \<longrightarrow> num failing s = 0 \<and> num late s = 0 \<and>
        (\<forall>t < length (pcs s). pcs s ! t = Sub \<longleftrightarrow> shutdownThread s = Some t)) \<and>
     (num post s > 0 \<longrightarrow> num late s > 0 \<or> shutdownThread s = None \<longrightarrow> num inside s = 0)"

lemma num_goto:
  "t < length (pcs s) \<Longrightarrow> num P (goto t p s) = num P s - of_bool (P (pcs s ! t)) + of_bool (P p)"
proof -
  assume t: "t < length (pcs s)"
  have "int (length (filter P (xs[t := p]))) = int (length (filter P xs)) - of_bool (P (xs ! t)) + of_bool (P p)"
    if "t < length xs" for xs
    using that
  proof (induction xs arbitrary: t)
    case (Cons x xs)
    then show ?case by (cases t) auto
  qed simp
  then show ?thesis using t by (simp add: num_def goto_def)
qed

lemma num_bounds: "0 \<le> num P s" "num P s \<le> int (length (pcs s))"
  by (auto simp: num_def)

lemma num_pos: "num P s > 0 \<longleftrightarrow> (\<exists>t < length (pcs s). P (pcs s ! t))"
proof -
  have "num P s > 0 \<longleftrightarrow> (\<exists>p \<in> set (pcs s). P p)" by (auto simp: num_def filter_empty_conv)
  then show ?thesis by (metis in_set_conv_nth)
qed

lemma num_cong: "pcs s' = pcs s \<Longrightarrow> num P s' = num P s"
  by (simp add: num_def)

lemma sadd_nowrap: "- (2 ^ 63) \<le> a + b \<Longrightarrow> a + b < 2 ^ 63 \<Longrightarrow> sadd a b = a + b"
  by (simp add: sadd_def)

lemma num_post_card:
  assumes "\<forall>t < length (pcs s). shutting (pcs s ! t) \<longrightarrow> t \<in> S" "finite S"
  shows "num post s \<le> int (card S)"
proof -
  have "{t. t < length (pcs s) \<and> post (pcs s ! t)} \<subseteq> S" using assms(1) by (auto simp: shutting_def)
  then have "card {t. t < length (pcs s) \<and> post (pcs s ! t)} \<le> card S" by (rule card_mono [OF assms(2)])
  then show ?thesis by (simp add: num_def length_filter_conv_card)
qed


lemmas place_defs = inside_def failing_def post_def shutting_def late_def

lemma half_max: "LONG_MAX div 2 = 2 ^ 62 - 1"
  by (simp add: LONG_MAX_def)

text \<open>How the numbers change when one thread moves.\<close>

lemma moved:
  assumes "t < length (pcs s)" "pcs s0 = pcs s"
  shows "num P (goto t q s0) = num P s - of_bool (P (pcs s ! t)) + of_bool (P q)"
    "length (pcs (goto t q s0)) = length (pcs s)" "i < length (pcs s) \<Longrightarrow> pcs (goto t q s0) ! i = (if i = t then q else pcs s ! i)"
    "requests (goto t q s0) = requests s0" "shutdownThread (goto t q s0) = shutdownThread s0"
  using assms num_goto [of t s0 P q] num_cong [of s0 s P] by (simp_all add: goto_def nth_list_update)

lemma moved_shutting:
  fixes s :: rcount
  assumes "\<forall>i < length (pcs s). shutting (pcs s ! i) \<longrightarrow> i \<in> S" "t < length (pcs s)" "pcs s0 = pcs s"
    "shutting q \<longrightarrow> shutting (pcs s ! t) \<or> t \<in> S"
  shows "\<forall>i < length (pcs (goto t q s0)). shutting (pcs (goto t q s0) ! i) \<longrightarrow> i \<in> S"
  using assms moved(2,3) [OF assms(2,3)] by auto

locale two_shutters =
  fixes S :: "nat set"
  assumes fin: "finite S" and two: "card S \<le> 2"
begin

lemma ranges:
  assumes "rc_inv S s"
  shows "0 \<le> num inside s" "0 \<le> num failing s" "0 \<le> num post s" "num post s \<le> 2" "0 \<le> num late s"
    "num inside s + num failing s < 2 ^ 62 - 1" "requests s = num inside s + num failing s - num post s * (2 ^ 62 - 1)"
    "requests s < 0 \<longleftrightarrow> num post s > 0" "- (2 ^ 63) + 2 \<le> requests s - num inside s - num failing s" "requests s < 2 ^ 62"
proof -
  have b: "length (pcs s) < 2 ^ 61" "\<forall>t < length (pcs s). shutting (pcs s ! t) \<longrightarrow> t \<in> S" using assms by (auto simp: rc_inv_def)
  show r: "0 \<le> num inside s" "0 \<le> num failing s" "0 \<le> num post s" "0 \<le> num late s" by (rule num_bounds)+
  show k: "num post s \<le> 2" using num_post_card [OF b(2) fin] two by simp
  have "num inside s \<le> int (length (pcs s))" "num failing s \<le> int (length (pcs s))" by (rule num_bounds)+
  moreover have "int (length (pcs s)) \<le> 2 ^ 61 - 1" using b(1) by simp
  ultimately show u: "num inside s + num failing s < 2 ^ 62 - 1" by simp
  show e: "requests s = num inside s + num failing s - num post s * (2 ^ 62 - 1)" using assms by (simp add: rc_inv_def half_max)
  have "num post s = 0 \<or> num post s = 1 \<or> num post s = 2" using r(3) k by linarith
  then show "requests s < 0 \<longleftrightarrow> num post s > 0" "- (2 ^ 63) + 2 \<le> requests s - num inside s - num failing s" "requests s < 2 ^ 62"
    using e u r(1,2) by auto
qed

text \<open>A step that leaves the counter, the thread id and all places that matter as they are.\<close>

lemma inv_quiet:
  assumes inv: "rc_inv S s" and t: "t < length (pcs s)" and s0: "pcs s0 = pcs s" "requests s0 = requests s" "shutdownThread s0 = shutdownThread s"
    and q: "inside q = inside (pcs s ! t)" "failing q = failing (pcs s ! t)" "post q = post (pcs s ! t)"
      "late q \<longrightarrow> late (pcs s ! t) \<or> num inside s = 0 \<and> num post s > 0" "q = Sub \<longleftrightarrow> pcs s ! t = Sub" "shutting q \<longrightarrow> shutting (pcs s ! t) \<or> t \<in> S"
  shows "rc_inv S (goto t q s0)"
proof -
  note m = moved [OF t s0(1)]
  have n: "num inside (goto t q s0) = num inside s" "num failing (goto t q s0) = num failing s" "num post (goto t q s0) = num post s"
    using q by (simp_all add: m(1))
  have l: "num late (goto t q s0) > 0 \<longrightarrow> num late s > 0 \<or> num inside s = 0 \<and> num post s > 0"
    using q(4) num_pos [of late s] t by (auto simp: m(1))
  have sh: "\<forall>i < length (pcs (goto t q s0)). shutting (pcs (goto t q s0) ! i) \<longrightarrow> i \<in> S"
    by (rule moved_shutting [OF _ t s0(1) q(6)]) (use inv in \<open>simp add: rc_inv_def\<close>)
  have l0: "num late (goto t q s0) = 0" if "num post s = 0"
    using l that inv num_bounds(1) [of late "goto t q s0"] by (auto simp: rc_inv_def)
  have sub: "(pcs (goto t q s0) ! i = Sub) = (pcs s ! i = Sub)" if "i < length (pcs s)" for i
    using m(3) [OF that] q(5) by auto
  show ?thesis using inv sh l l0 sub unfolding rc_inv_def n m(2,4,5) s0 by auto
qed

lemma inv_facts:
  assumes "rc_inv S s"
  shows "num post s = 0 \<Longrightarrow> num failing s = 0" "num post s = 0 \<Longrightarrow> num late s = 0"
    "num post s = 0 \<Longrightarrow> i < length (pcs s) \<Longrightarrow> pcs s ! i = Sub \<longleftrightarrow> shutdownThread s = Some i"
    "num post s > 0 \<Longrightarrow> num late s > 0 \<or> shutdownThread s = None \<Longrightarrow> num inside s = 0"
  using assms by (simp_all add: rc_inv_def)

lemma inv_intro:
  assumes inv: "rc_inv S s" and t: "t < length (pcs s)" and s0: "pcs s0 = pcs s"
    and sh: "shutting q \<longrightarrow> shutting (pcs s ! t) \<or> t \<in> S"
    and n: "ni = num inside s - of_bool (inside (pcs s ! t)) + of_bool (inside q)"
      "nf = num failing s - of_bool (failing (pcs s ! t)) + of_bool (failing q)"
      "np = num post s - of_bool (post (pcs s ! t)) + of_bool (post q)"
      "nl = num late s - of_bool (late (pcs s ! t)) + of_bool (late q)"
    and r: "requests s0 = ni + nf - np * (2 ^ 62 - 1)"
    and z: "np = 0 \<Longrightarrow> nf = 0" "np = 0 \<Longrightarrow> nl = 0"
      "\<And>i. np = 0 \<Longrightarrow> i < length (pcs s) \<Longrightarrow> (if i = t then q = Sub else pcs s ! i = Sub) \<longleftrightarrow> shutdownThread s0 = Some i"
    and p: "np > 0 \<Longrightarrow> nl > 0 \<or> shutdownThread s0 = None \<Longrightarrow> ni = 0"
  shows "rc_inv S (goto t q s0)"
proof -
  note m = moved [OF t s0(1)]
  have "\<forall>i < length (pcs (goto t q s0)). shutting (pcs (goto t q s0) ! i) \<longrightarrow> i \<in> S"
    by (rule moved_shutting [OF _ t s0 sh]) (use inv in \<open>simp add: rc_inv_def\<close>)
  moreover have "num inside (goto t q s0) = ni" "num failing (goto t q s0) = nf" "num post (goto t q s0) = np" "num late (goto t q s0) = nl"
    unfolding m(1) n by simp_all
  moreover have "pcs (goto t q s0) ! i = Sub \<longleftrightarrow> (if i = t then q = Sub else pcs s ! i = Sub)" if "i < length (pcs s)" for i
    using m(3) [OF that] by simp
  ultimately show ?thesis unfolding rc_inv_def m(2,4,5) half_max using inv r z p by (simp add: rc_inv_def)
qed

lemma inv_enter:
  assumes inv: "rc_inv S s" and t: "t < length (pcs s)" "pcs s ! t = Idle"
  shows "rc_inv S (enter t s)"
proof -
  note b = ranges [OF inv] and f = inv_facts [OF inv]
  have sr: "sadd (requests s) 1 = requests s + 1" using sadd_nowrap [of "requests s" 1] b(1,2,9,10) by simp
  let ?s0 = "s\<lparr>requests := requests s + 1\<rparr>"
  show ?thesis
  proof (cases "requests s < 0")
    case True
    then have k: "num post s > 0" using b(8) by simp
    have "rc_inv S (goto t Failing ?s0)"
      by (rule inv_intro [OF inv t(1) _ _ refl refl refl refl]) (use t(2) k b(7) f(4) in \<open>simp_all add: place_defs\<close>)
    then show ?thesis using True sr by (simp add: enter_def)
  next
    case False
    then have k: "num post s = 0" using b(3,8) by linarith
    have "rc_inv S (goto t InUse ?s0)"
      by (rule inv_intro [OF inv t(1) _ _ refl refl refl refl]) (use t(2) k b(7) f(1-3) [OF k] f(3) [OF k t(1)] in \<open>auto simp: place_defs\<close>)
    then show ?thesis using False sr by (simp add: enter_def)
  qed
qed

lemma inv_leave:
  assumes inv: "rc_inv S s" and t: "t < length (pcs s)" "pcs s ! t = InUse \<or> pcs s ! t = Failing"
  shows "rc_inv S (leave t s)"
proof -
  note b = ranges [OF inv] and f = inv_facts [OF inv]
  have some: "num inside s > 0 \<or> num failing s > 0" using num_pos [of inside s] num_pos [of failing s] t by (auto simp: inside_def failing_def)
  then have one: "num inside s + num failing s \<ge> 1" using b(1,2) by linarith
  have sr: "sadd (requests s) (-1) = requests s - 1" using sadd_nowrap [of "requests s" "-1"] b(9,10) one by simp
  let ?s0 = "s\<lparr>requests := requests s - 1\<rparr>"
  consider (none) "num post s = 0" | (final) "requests s = - (LONG_MAX div 2) + 1" "num post s > 0"
    | (more) "requests s \<le> 0" "requests s \<noteq> - (LONG_MAX div 2) + 1" "num post s > 0" using b(3,8) by linarith
  then show ?thesis
  proof cases
    case none
    have u: "pcs s ! t = InUse" using t num_pos [of failing s] f(1) [OF none] by (auto simp: failing_def)
    have "requests s > 0" using none b(7) one by simp
    moreover have "rc_inv S (goto t Idle ?s0)"
      by (rule inv_intro [OF inv t(1) _ _ refl refl refl refl]) (use u none b(7) f(1-3) [OF none] f(3) [OF none t(1)] in \<open>auto simp: place_defs\<close>)
    ultimately show ?thesis using sr by (simp add: leave_def)
  next
    case final
    have "num post s = 1 \<or> num post s = 2" using b(3,4) final(2) by linarith
    then have k: "num post s = 1" "num inside s + num failing s = 1" using final(1) b(6,7) unfolding half_max by auto
    then have c: "num inside s = (if pcs s ! t = InUse then 1 else 0)" "num failing s = (if pcs s ! t = InUse then 0 else 1)"
      using b(1,2) t num_pos [of inside s] num_pos [of failing s] by (auto simp: inside_def failing_def)
    have "rc_inv S (goto t Swapping ?s0)"
      by (rule inv_intro [OF inv t(1) _ _ refl refl refl refl]) (use t(2) k(1) b(7) c in \<open>auto simp: place_defs\<close>)
    then show ?thesis using final sr by (simp add: leave_def half_max)
  next
    case more
    have i: "pcs s ! t = InUse \<Longrightarrow> num inside s > 0" using num_pos [of inside s] t(1) by (auto simp: inside_def)
    have "rc_inv S (goto t Idle ?s0)"
    proof (cases "pcs s ! t = InUse")
      case True
      show ?thesis by (rule inv_intro [OF inv t(1) _ _ refl refl refl refl]) (use True more(3) b(7) f(4) i in \<open>auto simp: place_defs\<close>)
    next
      case False
      then have u: "pcs s ! t = Failing" using t(2) by simp
      show ?thesis by (rule inv_intro [OF inv t(1) _ _ refl refl refl refl]) (use u more(3) b(7) f(4) in \<open>auto simp: place_defs\<close>)
    qed
    then show ?thesis using more sr by (simp add: leave_def)
  qed
qed

lemma late_zero:
  assumes inv: "rc_inv S s" and t: "t < length (pcs s)" "late (pcs s ! t)"
  shows "num post s > 0" "num inside s = 0"
proof -
  have l: "num late s > 0" using num_pos [of late s] t by auto
  then show p: "num post s > 0" using inv_facts(2) [OF inv] ranges(3) [OF inv] by fastforce
  show "num inside s = 0" by (rule inv_facts(4) [OF inv p]) (simp add: l)
qed

lemma inv_swap:
  assumes inv: "rc_inv S s" and t: "t < length (pcs s)" "pcs s ! t = Swapping"
  shows "rc_inv S (leave_swap t s)"
proof -
  have z: "num post s > 0" "num inside s = 0" using late_zero [OF inv t(1)] t(2) by (auto simp: late_def)
  show ?thesis unfolding leave_swap_def
    by (rule inv_intro [OF inv t(1) _ _ refl refl refl refl]) (use t(2) z ranges(7) [OF inv] in \<open>auto simp: place_defs split: option.splits\<close>)
qed

lemma inv_cas:
  assumes inv: "rc_inv S s" and t: "t < length (pcs s)" "pcs s ! t = Cas"
  shows "rc_inv S (shutdown_cas t s)"
proof (cases "shutdownThread s = None")
  case True
  note f = inv_facts [OF inv]
  have "rc_inv S (goto t Sub (s\<lparr>shutdownThread := Some t\<rparr>))"
    by (rule inv_intro [OF inv t(1) _ _ refl refl refl refl]) (use t(2) True ranges(3,7) [OF inv] f(1,2,4) f(3) in \<open>auto simp: place_defs\<close>)
  then show ?thesis using True by (simp add: shutdown_cas_def)
next
  case False
  have "rc_inv S (goto t Check1 s)"
    by (rule inv_quiet [OF inv t(1)]) (use t(2) in \<open>auto simp: place_defs\<close>)
  then show ?thesis using False by (auto simp: shutdown_cas_def)
qed

lemma inv_sub:
  assumes inv: "rc_inv S s" and t: "t < length (pcs s)" "pcs s ! t = Sub"
  shows "rc_inv S (shutdown_sub t s)"
proof -
  note b = ranges [OF inv] and f = inv_facts [OF inv]
  have sh: "\<forall>i < length (pcs (goto t Test s)). shutting (pcs (goto t Test s) ! i) \<longrightarrow> i \<in> S"
    by (rule moved_shutting [OF _ t(1)]) (use inv t(2) in \<open>auto simp: rc_inv_def place_defs\<close>)
  have "num post (goto t Test s) = num post s + 1" using moved(1) [OF t(1), of s post Test] t(2) by (simp add: post_def)
  then have k: "num post s \<le> 1" using num_post_card [OF sh fin] two by simp
  then have sr: "sadd (requests s) (- (LONG_MAX div 2)) = requests s - (2 ^ 62 - 1)"
    using sadd_nowrap [of "requests s" "- (LONG_MAX div 2)"] b(1,2,3,7,10) unfolding half_max by simp
  let ?s0 = "s\<lparr>requests := requests s - (2 ^ 62 - 1)\<rparr>"
  consider (zero) "requests s = 0" | (first) "num post s = 0" "requests s \<noteq> 0" | (again) "num post s = 1" "requests s \<noteq> 0"
    using k b(3) by linarith
  then show ?thesis
  proof cases
    case zero
    then have k0: "num post s = 0" using b(3,8) by linarith
    then have "num inside s = 0" using zero b(1,2,7) by simp
    then have "rc_inv S (goto t Clear ?s0)"
      by (intro inv_intro [OF inv t(1) _ _ refl refl refl refl]) (use t(2) zero k0 f(1) [OF k0] in \<open>auto simp: place_defs\<close>)
    then show ?thesis using zero sr by (simp add: shutdown_sub_def)
  next
    case first
    then have "rc_inv S (goto t Test ?s0)"
      using f(3) [OF first(1) t(1)]
      by (intro inv_intro [OF inv t(1) _ _ refl refl refl refl]) (use t(2) b(7) f(2) in \<open>auto simp: place_defs\<close>)
    then show ?thesis using first sr by (simp add: shutdown_sub_def)
  next
    case again
    then have "rc_inv S (goto t Test ?s0)"
      by (intro inv_intro [OF inv t(1) _ _ refl refl refl refl]) (use t(2) b(7) f(4) in \<open>auto simp: place_defs\<close>)
    then show ?thesis using again sr by (simp add: shutdown_sub_def)
  qed
qed

lemma inv_clear:
  assumes inv: "rc_inv S s" and t: "t < length (pcs s)" "pcs s ! t = Clear"
  shows "rc_inv S (shutdown_clear t s)"
proof -
  have z: "num post s > 0" "num inside s = 0" using late_zero [OF inv t(1)] t(2) by (auto simp: late_def)
  show ?thesis unfolding shutdown_clear_def
    by (rule inv_intro [OF inv t(1) _ _ refl refl refl refl]) (use t(2) z ranges(7) [OF inv] in \<open>auto simp: place_defs\<close>)
qed

lemma inv_test:
  assumes inv: "rc_inv S s" and t: "t < length (pcs s)" "pcs s ! t = Test"
  shows "rc_inv S (shutdown_test t s)"
proof -
  have k: "num post s > 0" using num_pos [of post s] t by (auto simp: post_def)
  show ?thesis unfolding shutdown_test_def
    by (rule inv_quiet [OF inv t(1)]) (use t(2) k inv_facts(4) [OF inv k] in \<open>auto simp: place_defs\<close>)
qed

lemma inv_step:
  assumes inv: "rc_inv S s" and st: "rc_step S s s'"
  shows "rc_inv S s'"
proof -
  from st obtain t c where t: "t < length (pcs s)" "c = Shutdown \<longrightarrow> t \<in> S" and "rc_next c t s = Some s'" by (rule rc_stepE)
  note n = this(3) [unfolded rc_next.simps]
  note quiet = inv_quiet [OF inv t(1)]
  show ?thesis
  proof (cases "pcs s ! t")
    case Idle
    show ?thesis
    proof (cases c)
      case Enter
      then show ?thesis using n Idle inv_enter [OF inv t(1)] by auto
    next
      case Shutdown
      have "rc_inv S (goto t Check1 s)" by (rule quiet) (use Idle Shutdown t in \<open>auto simp: place_defs\<close>)
      then show ?thesis using n Idle Shutdown by simp
    qed
  next
    case (Unblocking u)
    have "rc_inv S (leave_unblock t u s)" unfolding leave_unblock_def
      by (rule quiet) (use Unblocking in \<open>auto simp: place_defs\<close>)
    then show ?thesis using n Unblocking by simp
  next
    case Check1
    have "rc_inv S (shutdown_check1 t s)" unfolding shutdown_check1_def
      by (rule quiet) (use Check1 in \<open>auto simp: place_defs\<close>)
    then show ?thesis using n Check1 by simp
  next
    case (Check2 r)
    have "rc_inv S (shutdown_check2 t r s)" unfolding shutdown_check2_def
      by (rule quiet) (use Check2 in \<open>auto simp: place_defs\<close>)
    then show ?thesis using n Check2 by simp
  next
    case Blocked
    have "rc_inv S (goto t Test (s\<lparr>wasUnblocked := (wasUnblocked s)(t := False)\<rparr>))"
      by (rule quiet) (use Blocked in \<open>auto simp: place_defs\<close>)
    then show ?thesis using n Blocked by (auto split: if_splits)
  next
    case (Refused r)
    have "rc_inv S (goto t Idle s)" by (rule quiet) (use Refused in \<open>auto simp: place_defs\<close>)
    then show ?thesis using n Refused by simp
  qed (use n inv_leave [OF inv t(1)] inv_swap [OF inv t(1)] inv_cas [OF inv t(1)] inv_sub [OF inv t(1)]
        inv_clear [OF inv t(1)] inv_test [OF inv t(1)] in auto)
qed

lemma inv_new: "n < 2 ^ 61 \<Longrightarrow> rc_inv S (RequestCount_new n)"
  by (auto simp: rc_inv_def RequestCount_new_def num_def place_defs)

end


section \<open>Shutdown excludes requests\<close>

interpretation pair: two_shutters "{a, b}" for a b
  by unfold_locales (auto simp: card_insert_if)

interpretation rc: invariant_steps "rc_step {a, b}" "rc_inv {a, b}" for a b
  by unfold_locales (rule pair.inv_step)

lemma step_moves_one:
  assumes "rc_step S s s'" "i < length (pcs s)" "pcs s ! i = Done"
  shows "i < length (pcs s') \<and> pcs s' ! i = Done"
proof -
  from assms(1) obtain t c where t: "t < length (pcs s)" and "rc_next c t s = Some s'" by (rule rc_stepE)
  note n = this(2) [unfolded rc_next.simps]
  have "t \<noteq> i" using n assms(3) by auto
  then show ?thesis using n assms(2,3)
    by (auto simp: goto_def enter_def leave_def leave_swap_def leave_unblock_def shutdown_check1_def shutdown_check2_def
        shutdown_cas_def shutdown_sub_def shutdown_clear_def shutdown_test_def Let_def split: pc.splits rc_call.splits if_splits)
qed


fun run :: "(rc_call \<times> nat) list \<Rightarrow> rcount \<Rightarrow> rcount option" where
  "run [] s = Some s"
| "run ((c, t) # xs) s = (case rc_next c t s of None \<Rightarrow> None | Some s' \<Rightarrow> run xs s')"

lemma next_length: "rc_next c t s = Some s' \<Longrightarrow> length (pcs s') = length (pcs s)"
  by (auto simp: rc_next.simps goto_def enter_def leave_def leave_swap_def leave_unblock_def shutdown_check1_def shutdown_check2_def
      shutdown_cas_def shutdown_sub_def shutdown_clear_def shutdown_test_def Let_def split: pc.splits rc_call.splits if_splits)

lemma run_steps:
  "run xs s = Some s' \<Longrightarrow> \<forall>(c, t) \<in> set xs. t < length (pcs s) \<and> (c = Shutdown \<longrightarrow> t \<in> S) \<Longrightarrow> (rc_step S)\<^sup>*\<^sup>* s s'"
proof (induction xs arbitrary: s)
  case (Cons x xs)
  obtain c t where x: "x = (c, t)" by (cases x)
  with Cons.prems(1) obtain s1 where s1: "rc_next c t s = Some s1" "run xs s1 = Some s'" by (auto split: option.splits)
  have "rc_step S s s1" using Cons.prems(2) x s1(1) by (intro rc_step.intros) auto
  moreover have "(rc_step S)\<^sup>*\<^sup>* s1 s'" using Cons.IH [OF s1(2)] Cons.prems(2) next_length [OF s1(1)] by auto
  ultimately show ?case by (rule converse_rtranclp_into_rtranclp)
qed simp

lemmas exec_defs = rc_next.simps goto_def enter_def leave_def leave_swap_def leave_unblock_def shutdown_check1_def
  shutdown_check2_def shutdown_cas_def shutdown_sub_def shutdown_clear_def shutdown_test_def RequestCount_new_def
  LONG_MAX_def sadd_def Let_def



section \<open>Two shutdowns at once\<close>

text \<open>
  Thread 0 has shut the object down, thread 1 passed the test of the counter before that and
  subtracted once more: no \<^verbatim>\<open>leave\<close> sees the value at which it wakes a waiting thread.
\<close>

definition stuck :: "rcount \<Rightarrow> bool" where
  "stuck s \<longleftrightarrow> rc_inv {0, 1} s \<and> 1 < length (pcs s) \<and> pcs s ! 0 = Done \<and> pcs s ! 1 = Blocked \<and> \<not> wasUnblocked s 1 \<and>
     num (\<lambda>p. p = Swapping \<or> (\<exists>u. p = Unblocking u)) s = 0"

lemma stuck_two: "stuck s \<Longrightarrow> num post s = 2"
proof -
  assume "stuck s"
  then have l: "1 < length (pcs s)" "post (pcs s ! 0)" "post (pcs s ! 1)" and inv: "rc_inv {0, 1} s" by (auto simp: stuck_def post_def)
  then have "{0, 1} \<subseteq> {i. i < length (pcs s) \<and> post (pcs s ! i)}" by auto
  then have "card {0 :: nat, 1} \<le> card {i. i < length (pcs s) \<and> post (pcs s ! i)}" by (intro card_mono) auto
  then have "2 \<le> num post s" by (simp add: num_def length_filter_conv_card)
  with pair.ranges(4) [OF inv] show ?thesis by simp
qed

lemma stuck_step:
  assumes st: "stuck s" and step: "rc_step {0, 1} s s'"
  shows "stuck s'"
proof -
  let ?w = "\<lambda>p. p = Swapping \<or> (\<exists>u. p = Unblocking u)"
  have inv: "rc_inv {0, 1} s" "rc_inv {0, 1} s'" using st pair.inv_step [OF _ step] by (auto simp: stuck_def)
  from step obtain t c where t: "t < length (pcs s)" "c = Shutdown \<longrightarrow> t \<in> {0, 1}" and "rc_next c t s = Some s'" by (rule rc_stepE)
  note n = this(3) [unfolded rc_next.simps]
  have "num late s > 0" unfolding num_pos using st by (intro exI [of _ 0]) (auto simp: stuck_def late_def)
  then have no: "num inside s = 0" using pair.inv_facts(4) [OF inv(1)] stuck_two [OF st] by simp
  have nt: "t \<noteq> 0" "t \<noteq> 1"
  proof -
    show "t \<noteq> 0" using n st by (cases "t = 0") (simp_all add: stuck_def)
    show "t \<noteq> 1" using n st by (cases "t = 1") (simp_all add: stuck_def)
  qed
  have "\<not> shutting (pcs s ! t)" using inv(1) t(1) nt by (auto simp: rc_inv_def)
  moreover have "pcs s ! t \<noteq> InUse" using no num_pos [of inside s] t(1) by (auto simp: inside_def)
  moreover have "\<not> ?w (pcs s ! t)" using st num_pos [of ?w s] t(1) by (auto simp: stuck_def)
  ultimately consider (idle) "pcs s ! t = Idle" | (failing) "pcs s ! t = Failing"
    by (cases "pcs s ! t") (auto simp: place_defs)
  then obtain q r where s': "s' = goto t q (s\<lparr>requests := r\<rparr>)" and q: "\<not> ?w q"
  proof cases
    case idle
    have "c = Enter" using t(2) nt by (cases c) auto
    then show ?thesis using n idle that [of "if requests s < 0 then Failing else InUse" "sadd (requests s) 1"]
      by (simp add: enter_def Let_def)
  next
    case failing
    have "requests s \<noteq> - (LONG_MAX div 2) + 1" using pair.ranges(6,7) [OF inv(1)] stuck_two [OF st] unfolding half_max by simp
    then have "leave t s = goto t Idle (s\<lparr>requests := sadd (requests s) (-1)\<rparr>)" unfolding leave_def Let_def by simp
    then show ?thesis using n failing that [of Idle "sadd (requests s) (-1)"] by simp
  qed
  note m = moved [OF t(1), where ?s0.0 = "s\<lparr>requests := r\<rparr>" and q = q, folded s', simplified]
  have "num ?w s' = 0" using st q \<open>\<not> ?w (pcs s ! t)\<close> by (simp add: m(1) stuck_def)
  moreover have "wasUnblocked s' 1 = wasUnblocked s 1" by (simp add: s' goto_def)
  moreover have "pcs s' ! 0 = pcs s ! 0" "pcs s' ! 1 = pcs s ! 1" "length (pcs s') = length (pcs s)"
    using nt st by (simp_all add: s' goto_def)
  ultimately show ?thesis using st inv(2) by (simp add: stuck_def)
qed

interpretation stuck: invariant_steps "rc_step {0, 1}" stuck
  by unfold_locales (rule stuck_step)

text \<open>
  Two threads that call \<^verbatim>\<open>shutdown\<close> at the same time can leave one of them waiting for ever: a state is
  reachable in which the first has returned and the second is blocked, and it is blocked in every
  state after that. The description has the second return a value that is not 0.
\<close>

theorem second_shutdown_can_hang:
  "\<exists>s. (rc_step {0, 1})\<^sup>*\<^sup>* (RequestCount_new 3) s \<and> pcs s ! 0 = Done \<and>
     (\<forall>s'. (rc_step {0, 1})\<^sup>*\<^sup>* s s' \<longrightarrow> pcs s' ! 1 = Blocked)"
proof -
  let ?xs = "[(Shutdown, 1), (Shutdown, 1)] @ replicate 6 (Shutdown, 0) @ replicate 4 (Shutdown, 1)"
  obtain s where s: "run ?xs (RequestCount_new 3) = Some s" "pcs s = [Done, Blocked, Idle]" "\<not> wasUnblocked s 1"
    by (simp add: exec_defs numeral_eq_Suc)
  have r: "(rc_step {0, 1})\<^sup>*\<^sup>* (RequestCount_new 3) s" by (rule run_steps [OF s(1)]) (auto simp: RequestCount_new_def)
  have "rc_inv {0, 1} s" by (rule rc.steps_inv [OF r pair.inv_new]) simp
  then have "stuck s" using s(2,3) by (simp add: stuck_def num_def)
  then have "pcs s' ! 1 = Blocked" if "(rc_step {0, 1})\<^sup>*\<^sup>* s s'" for s'
    using stuck.steps_inv [OF that] by (simp add: stuck_def)
  then show ?thesis using r s(2) by auto
qed


theorem second_shutdown_can_hang_witness:
  "\<exists>s. (rc_step {0, 1})\<^sup>*\<^sup>* (RequestCount_new 3) s \<and> pcs s ! 0 = Done \<and> pcs s ! 1 = Blocked"
  using second_shutdown_can_hang by blast

text \<open>
  A \<^verbatim>\<open>shutdown\<close> that another thread forestalls can return 0, the value for success, while that thread
  is still at work: between the other's two writes the counter is not negative yet, and the value
  read before is returned. Both callers then take the shutdown for theirs.
\<close>

theorem refused_shutdown_can_return_success:
  "\<exists>s. (rc_step {0, 1})\<^sup>*\<^sup>* (RequestCount_new 2) s \<and> pcs s ! 1 = Refused 0 \<and> pcs s ! 0 = Sub \<and>
     (\<exists>s'. (rc_step {0, 1})\<^sup>*\<^sup>* s s' \<and> pcs s' ! 1 = Refused 0 \<and> pcs s' ! 0 = Done)"
proof -
  let ?xs = "replicate 4 (Shutdown, 0) @ replicate 3 (Shutdown, 1)"
  obtain s where s: "run ?xs (RequestCount_new 2) = Some s" "pcs s = [Sub, Refused 0]" "requests s = 0"
    by (simp add: exec_defs numeral_eq_Suc)
  have r: "(rc_step {0, 1})\<^sup>*\<^sup>* (RequestCount_new 2) s" by (rule run_steps [OF s(1)]) (auto simp: RequestCount_new_def)
  obtain s' where s': "run [(Shutdown, 0), (Shutdown, 0)] s = Some s'" "pcs s' = [Done, Refused 0]"
    using s by (simp add: exec_defs)
  have "(rc_step {0, 1})\<^sup>*\<^sup>* s s'" by (rule run_steps [OF s'(1)]) (auto simp: s(2))
  then show ?thesis using r s(2) s'(2) by (intro exI [of _ s] conjI exI [of _ s']) simp_all
qed

section \<open>One shutdown\<close>

text \<open>
  With one thread that shuts down: the thread id is its own or none; while it waits and the id is
  there, a request is still to leave or the one that left last is about to take the id; once the
  id is gone, the wake-up has come or is on its way.
\<close>

definition wake_ok :: "nat \<Rightarrow> rcount \<Rightarrow> bool" where
  "wake_ok a s \<longleftrightarrow> (shutdownThread s = None \<or> shutdownThread s = Some a) \<and>
     (a < length (pcs s) \<and> pcs s ! a \<in> {Test, Blocked} \<and> shutdownThread s = Some a \<longrightarrow>
        num inside s + num failing s > 0 \<or> num (\<lambda>p. p = Swapping) s > 0) \<and>
     (a < length (pcs s) \<and> pcs s ! a = Blocked \<and> shutdownThread s = None \<longrightarrow>
        wasUnblocked s a \<or> num (\<lambda>p. p = Unblocking a) s > 0)"

lemma single_post:
  assumes inv: "rc_inv {a, a} s" and "a < length (pcs s)" "pcs s ! a \<in> {Test, Blocked}"
  shows "num post s = 1"
proof -
  have "num post s > 0" using num_pos [of post s] assms(2,3) by (auto simp: post_def)
  moreover have "num post s \<le> int (card {a, a})" by (rule num_post_card) (use inv in \<open>auto simp: rc_inv_def\<close>)
  ultimately show ?thesis by simp
qed

lemma leave_last:
  assumes inv: "rc_inv {a, a} s" and w: "wake_ok a s" and t: "t < length (pcs s)" "pcs s ! t = InUse \<or> pcs s ! t = Failing"
  shows "wake_ok a (leave t s)"
proof -
  define q where "q = (if requests s > 0 then Idle else if requests s = - (LONG_MAX div 2) + 1 then Swapping else Idle)"
  have e: "leave t s = goto t q (s\<lparr>requests := sadd (requests s) (-1)\<rparr>)" by (simp add: leave_def Let_def q_def)
  note m = moved [OF t(1), where ?s0.0 = "s\<lparr>requests := sadd (requests s) (-1)\<rparr>" and q = q, folded e, simplified]
  have wu: "wasUnblocked (leave t s) = wasUnblocked s" by (simp add: e goto_def)
  have waits: "num inside (leave t s) + num failing (leave t s) > 0 \<or> num (\<lambda>p. p = Swapping) (leave t s) > 0"
    if a: "a < length (pcs s)" "pcs s ! a \<in> {Test, Blocked}" "shutdownThread s = Some a"
  proof -
    have k: "num post s = 1" by (rule single_post [OF inv a(1,2)])
    have r: "requests s = num inside s + num failing s - (2 ^ 62 - 1)" using pair.ranges(7) [OF inv] k by simp
    have nq: "q \<in> {Idle, Swapping}" by (simp add: q_def)
    then have c: "num inside (leave t s) + num failing (leave t s) = num inside s + num failing s - 1"
      using t(2) by (auto simp: m(1) inside_def failing_def)
    show ?thesis
    proof (cases "num inside s + num failing s = 1")
      case True
      then have "q = Swapping" using r by (simp add: q_def half_max)
      then show ?thesis using t num_bounds(1) [of "\<lambda>p. p = Swapping" s] by (auto simp: m(1))
    next
      case False
      have "num inside s > 0 \<or> num failing s > 0"
        using num_pos [of inside s] num_pos [of failing s] t by (auto simp: inside_def failing_def)
      then show ?thesis using c False pair.ranges(1,2) [OF inv] by linarith
    qed
  qed
  have "q \<notin> {Test, Blocked}" "\<not> (\<exists>u. q = Unblocking u)" by (auto simp: q_def)
  then have p: "a < length (pcs s) \<Longrightarrow> pcs (leave t s) ! a = Test \<Longrightarrow> pcs s ! a = Test"
    "a < length (pcs s) \<Longrightarrow> pcs (leave t s) ! a = Blocked \<Longrightarrow> pcs s ! a = Blocked"
    using m(3) by (auto split: if_splits)
  have u: "num (\<lambda>p. p = Unblocking a) (leave t s) = num (\<lambda>p. p = Unblocking a) s"
    using t(2) \<open>\<not> (\<exists>u. q = Unblocking u)\<close> by (auto simp: m(1))
  have "wasUnblocked s a \<or> num (\<lambda>p. p = Unblocking a) s > 0"
    if "a < length (pcs s)" "pcs (leave t s) ! a = Blocked" "shutdownThread s = None"
    using w p(2) that by (auto simp: wake_ok_def)
  moreover have "shutdownThread s = None \<or> shutdownThread s = Some a" using w by (simp add: wake_ok_def)
  ultimately show ?thesis using waits p unfolding wake_ok_def m(2,5) wu u by blast
qed

text \<open>Steps after which the thread waits no more than before, and no request or wake-up is lost.\<close>

lemma wake_quiet:
  assumes w: "wake_ok a s" and t: "t < length (pcs s)"
    and s0: "pcs s0 = pcs s" "shutdownThread s0 = shutdownThread s" "wasUnblocked s0 = wasUnblocked s"
    and q: "inside (pcs s ! t) \<longrightarrow> inside q" "failing (pcs s ! t) \<longrightarrow> failing q" "pcs s ! t = Swapping \<longrightarrow> q = Swapping"
      "pcs s ! t = Unblocking a \<longrightarrow> q = Unblocking a"
      "q \<in> {Test, Blocked} \<longrightarrow> t \<noteq> a \<or> q = pcs s ! t"
  shows "wake_ok a (goto t q s0)"
proof -
  note m = moved [OF t s0(1), where q = q]
  have n: "num inside s \<le> num inside (goto t q s0)" "num failing s \<le> num failing (goto t q s0)"
    "num (\<lambda>p. p = Swapping) s \<le> num (\<lambda>p. p = Swapping) (goto t q s0)"
    "num (\<lambda>p. p = Unblocking a) s \<le> num (\<lambda>p. p = Unblocking a) (goto t q s0)"
    using q(1-4) by (simp_all add: m(1))
  have wu: "wasUnblocked (goto t q s0) = wasUnblocked s" using s0(3) by (simp add: goto_def)
  have p: "a < length (pcs s) \<Longrightarrow> pcs (goto t q s0) ! a = Test \<Longrightarrow> pcs s ! a = Test"
    "a < length (pcs s) \<Longrightarrow> pcs (goto t q s0) ! a = Blocked \<Longrightarrow> pcs s ! a = Blocked"
    using m(3) q(5) by (auto split: if_splits)
  have w1: "shutdownThread s = None \<or> shutdownThread s = Some a" using w by (simp add: wake_ok_def)
  have w2: "num inside (goto t q s0) + num failing (goto t q s0) > 0 \<or> num (\<lambda>p. p = Swapping) (goto t q s0) > 0"
    if "a < length (pcs s)" "pcs s ! a = Test \<or> pcs s ! a = Blocked" "shutdownThread s = Some a"
  proof -
    have "num inside s + num failing s > 0 \<or> num (\<lambda>p. p = Swapping) s > 0" using w that by (auto simp: wake_ok_def)
    then show ?thesis using n by linarith
  qed
  have w3: "wasUnblocked s a \<or> num (\<lambda>p. p = Unblocking a) (goto t q s0) > 0"
    if "a < length (pcs s)" "pcs s ! a = Blocked" "shutdownThread s = None"
  proof -
    have "wasUnblocked s a \<or> num (\<lambda>p. p = Unblocking a) s > 0" using w that by (simp add: wake_ok_def)
    then show ?thesis using n by linarith
  qed
  show ?thesis unfolding wake_ok_def m(2,5) s0(2) wu using w1 w2 w3 p by blast
qed

lemma wake_cong:
  assumes "pcs s' = pcs s" "shutdownThread s' = shutdownThread s" "wasUnblocked s' a = wasUnblocked s a"
  shows "wake_ok a s' = wake_ok a s"
  unfolding wake_ok_def assms num_cong [OF assms(1)] ..

lemma wake_step:
  assumes inv: "rc_inv {a, a} s" and w: "wake_ok a s" and st: "rc_step {a, a} s s'"
  shows "wake_ok a s'"
proof -
  from st obtain t c where t: "t < length (pcs s)" "c = Shutdown \<longrightarrow> t \<in> {a, a}" and "rc_next c t s = Some s'" by (rule rc_stepE)
  note n = this(3) [unfolded rc_next.simps]
  note quiet = wake_quiet [OF w t(1)]
  have own: "t = a" if "shutting (pcs s ! t)" using inv t(1) that by (simp add: rc_inv_def)
  have w1: "shutdownThread s = None \<or> shutdownThread s = Some a" using w by (simp add: wake_ok_def)
  show ?thesis
  proof (cases "pcs s ! t")
    case Idle
    have "wake_ok a (goto t q s0)" if "q = Failing \<or> q = InUse \<or> q = Check1" "pcs s0 = pcs s"
      "shutdownThread s0 = shutdownThread s" "wasUnblocked s0 = wasUnblocked s" for q s0
      by (rule quiet) (use Idle that in \<open>auto simp: place_defs\<close>)
    then show ?thesis using n Idle by (cases c) (auto simp: enter_def Let_def)
  next
    case Swapping
    have p: "pcs (leave_swap t s) ! a = Blocked \<Longrightarrow> t \<noteq> a" "length (pcs (leave_swap t s)) = length (pcs s)" "shutdownThread (leave_swap t s) = None"
      using t(1) by (auto simp: leave_swap_def goto_def split: option.splits)
    have "wasUnblocked (leave_swap t s) a \<or> num (\<lambda>p. p = Unblocking a) (leave_swap t s) > 0"
      if a: "a < length (pcs s)" "pcs (leave_swap t s) ! a = Blocked"
    proof (cases "shutdownThread s")
      case None
      have "pcs s ! a = Blocked" using a p(1) by (auto simp: leave_swap_def goto_def)
      then have "wasUnblocked s a \<or> num (\<lambda>p. p = Unblocking a) s > 0" using w a None by (simp add: wake_ok_def)
      moreover have "num (\<lambda>p. p = Unblocking a) (leave_swap t s) = num (\<lambda>p. p = Unblocking a) s"
        using moved(1) [OF t(1), of "s\<lparr>shutdownThread := None\<rparr>"] Swapping None by (simp add: leave_swap_def)
      ultimately show ?thesis by (simp add: leave_swap_def goto_def)
    next
      case (Some u)
      then have "u = a" using w1 by auto
      then have "pcs (leave_swap t s) ! t = Unblocking a" using Some t(1) by (simp add: leave_swap_def goto_def)
      then show ?thesis using num_pos [of "\<lambda>p. p = Unblocking a" "leave_swap t s"] t(1) p(2) by auto
    qed
    then have "wake_ok a (leave_swap t s)" unfolding wake_ok_def p(2,3) by auto
    then show ?thesis using n Swapping by simp
  next
    case (Unblocking u)
    show ?thesis
    proof (cases "u = a")
      case True
      let ?s0 = "s\<lparr>wasUnblocked := (wasUnblocked s)(a := True)\<rparr>"
      note m = moved [OF t(1), where ?s0.0 = ?s0 and q = Idle, simplified]
      have e: "num inside (goto t Idle ?s0) = num inside s" "num failing (goto t Idle ?s0) = num failing s"
        "num (\<lambda>p. p = Swapping) (goto t Idle ?s0) = num (\<lambda>p. p = Swapping) s"
        using Unblocking by (simp_all add: m(1) place_defs)
      have "wasUnblocked (goto t Idle ?s0) a" by (simp add: goto_def)
      moreover have "a < length (pcs s) \<Longrightarrow> pcs (goto t Idle ?s0) ! a \<in> {Test, Blocked} \<Longrightarrow> pcs s ! a \<in> {Test, Blocked}"
        using m(3) by (auto split: if_splits)
      ultimately have "wake_ok a (goto t Idle ?s0)" using w unfolding wake_ok_def m(2,4,5) e by blast
      then show ?thesis using n Unblocking True by (simp add: leave_unblock_def)
    next
      case False
      have "wake_ok a (goto t Idle s)" by (rule quiet) (use Unblocking False in \<open>auto simp: place_defs\<close>)
      moreover have "wake_ok a (leave_unblock t u s) = wake_ok a (goto t Idle s)"
        by (rule wake_cong) (use False in \<open>simp_all add: leave_unblock_def goto_def\<close>)
      ultimately have "wake_ok a (leave_unblock t u s)" by simp
      then show ?thesis using n Unblocking by simp
    qed
  next
    case Check1
    have "wake_ok a (shutdown_check1 t s)" unfolding shutdown_check1_def by (rule quiet) (use Check1 in \<open>auto simp: place_defs\<close>)
    then show ?thesis using n Check1 by simp
  next
    case (Check2 r)
    have "wake_ok a (shutdown_check2 t r s)" unfolding shutdown_check2_def by (rule quiet) (use Check2 in \<open>auto simp: place_defs\<close>)
    then show ?thesis using n Check2 by simp
  next
    case Cas
    then have "t = a" using own by (simp add: place_defs)
    then have "wake_ok a (shutdown_cas t s)" using t(1) w1 by (auto simp: wake_ok_def shutdown_cas_def goto_def)
    then show ?thesis using n Cas by simp
  next
    case (Refused r)
    have "wake_ok a (goto t Idle s)" by (rule quiet) (use Refused in \<open>auto simp: place_defs\<close>)
    then show ?thesis using n Refused by simp
  next
    case Clear
    then have "t = a" using own by (simp add: place_defs)
    then have "wake_ok a (shutdown_clear t s)" using t(1) by (auto simp: wake_ok_def shutdown_clear_def goto_def)
    then show ?thesis using n Clear by simp
  next
    case Blocked
    then have ta: "t = a" using own by (simp add: place_defs)
    let ?s0 = "s\<lparr>wasUnblocked := (wasUnblocked s)(t := False)\<rparr>"
    note m = moved [OF t(1), where ?s0.0 = ?s0 and q = Test, simplified]
    have e: "num inside (goto t Test ?s0) = num inside s" "num failing (goto t Test ?s0) = num failing s"
      "num (\<lambda>p. p = Swapping) (goto t Test ?s0) = num (\<lambda>p. p = Swapping) s" using Blocked by (simp_all add: m(1) place_defs)
    have p: "pcs (goto t Test ?s0) ! a = Test" "pcs s ! a = Blocked" using t(1) ta Blocked by (simp_all add: goto_def)
    have "wake_ok a (goto t Test ?s0)" using w unfolding wake_ok_def m(2,4,5) e p by simp
    then show ?thesis using n Blocked by (auto split: if_splits)
  next
    case Test
    then have ta: "t = a" using own by (simp add: place_defs)
    let ?q = "if shutdownThread s \<noteq> None then Blocked else Done"
    note m = moved [OF t(1) refl, where q = ?q]
    have e: "num inside (goto t ?q s) = num inside s" "num failing (goto t ?q s) = num failing s"
      "num (\<lambda>p. p = Swapping) (goto t ?q s) = num (\<lambda>p. p = Swapping) s" unfolding m(1) using Test by (simp_all add: place_defs)
    have p: "pcs (goto t ?q s) ! a = ?q" "pcs s ! a = Test" using t(1) ta Test by (simp_all add: goto_def)
    have "wake_ok a (goto t ?q s)" using w unfolding wake_ok_def m(2,5) e p by (cases "shutdownThread s") simp_all
    then show ?thesis using n Test by (simp add: shutdown_test_def)
  next
    case Sub
    then have ta: "t = a" using own by (simp add: place_defs)
    have "num post s = 0"
    proof (rule ccontr)
      assume "num post s \<noteq> 0"
      then have "num post s > 0" using num_bounds(1) [of post s] by linarith
      then obtain i where "i < length (pcs s)" "post (pcs s ! i)" using num_pos [of post s] by blast
      then have "i = a" "post (pcs s ! i)" using inv by (auto simp: rc_inv_def shutting_def)
      then show False using Sub ta by (simp add: post_def)
    qed
    note k = this and r = pair.ranges [OF inv]
    have r0: "requests s = num inside s" using r(7) k pair.inv_facts(1) [OF inv k] by simp
    let ?q = "if requests s = 0 then Clear else Test" and ?s0 = "s\<lparr>requests := sadd (requests s) (- (LONG_MAX div 2))\<rparr>"
    have "pcs ?s0 = pcs s" by simp
    note m = moved [OF t(1) this, where q = ?q]
    have e: "num inside (goto t ?q ?s0) = num inside s" "num failing (goto t ?q ?s0) = num failing s"
      unfolding m(1) using Sub by (simp_all add: place_defs)
    have pos: "0 < num inside s + num failing s" if "requests s \<noteq> 0" using that r0 r(1,2) by simp
    have p: "pcs (goto t ?q ?s0) ! a = ?q" using t(1) ta by (simp add: goto_def)
    have "shutdownThread s = None \<or> shutdownThread s = Some a" using w by (simp add: wake_ok_def)
    then have "wake_ok a (goto t ?q ?s0)" using pos unfolding wake_ok_def m(2,5) e p by (cases "requests s = 0") simp_all
    then show ?thesis using n Sub by (simp add: shutdown_sub_def Let_def)
  qed (use n leave_last [OF inv w t(1)] in auto)
qed


interpretation single: invariant_steps "rc_step {a, a}" "\<lambda>s. rc_inv {a, a} s \<and> wake_ok a s" for a
proof
  fix s t assume s: "rc_inv {a, a} s \<and> wake_ok a s" "rc_step {a, a} s t"
  show "rc_inv {a, a} t \<and> wake_ok a t"
    using pair.inv_step [of a a s t] wake_step [of a s t] s by blast
qed

text \<open>
  With one thread that shuts down, no wake-up is lost: whenever it is blocked and was not unblocked,
  some other thread is inside the object, is leaving it after a refused request, or is on the way to
  wake it. So it waits only for requests that are still there.
\<close>

theorem shutdown_wakeup_not_lost:
  assumes "n < 2 ^ 61" "(rc_step {a, a})\<^sup>*\<^sup>* (RequestCount_new n) s" "a < length (pcs s)" "pcs s ! a = Blocked" "\<not> wasUnblocked s a"
  shows "\<exists>u < length (pcs s). pcs s ! u \<in> {InUse, Failing, Swapping, Unblocking a}"
proof -
  have "wake_ok a (RequestCount_new n)" by (auto simp: wake_ok_def RequestCount_new_def)
  then have w: "rc_inv {a, a} s \<and> wake_ok a s" using single.steps_inv [OF assms(2)] pair.inv_new [OF assms(1)] by blast
  note r = num_pos [of inside s] num_pos [of failing s] num_pos [of "\<lambda>p. p = Swapping" s] num_pos [of "\<lambda>p. p = Unblocking a" s]
  have "num inside s > 0 \<or> num failing s > 0 \<or> num (\<lambda>p. p = Swapping) s > 0 \<or> num (\<lambda>p. p = Unblocking a) s > 0"
    using w assms(3-5) num_bounds(1) [of inside s] num_bounds(1) [of failing s] by (auto simp: wake_ok_def)
  then show ?thesis using r unfolding inside_def failing_def by auto
qed

theorem shutdown_wakeup_not_lost_witness:
  "\<exists>s. (rc_step {0, 0})\<^sup>*\<^sup>* (RequestCount_new 2) s \<and> pcs s ! 0 = Blocked \<and>
     (\<exists>u < length (pcs s). pcs s ! u \<in> {InUse, Failing, Swapping, Unblocking 0})"
proof -
  let ?xs = "(Enter, 1) # replicate 6 (Shutdown, 0)"
  obtain s where s: "run ?xs (RequestCount_new 2) = Some s" "pcs s ! 0 = Blocked" "length (pcs s) = 2" "\<not> wasUnblocked s 0"
    by (simp add: exec_defs numeral_eq_Suc)
  have r: "(rc_step {0, 0})\<^sup>*\<^sup>* (RequestCount_new 2) s" by (rule run_steps [OF s(1)]) (auto simp: RequestCount_new_def)
  have "\<exists>u < length (pcs s). pcs s ! u \<in> {InUse, Failing, Swapping, Unblocking 0}"
    by (rule shutdown_wakeup_not_lost [OF _ r]) (use s in simp_all)
  with r s(2) show ?thesis by blast
qed

end
