(* ===== verification/RequestCountWithStop.thy ===== *)
theory RequestCountWithStop
  imports RequestCount
begin

text \<open>
  Request counts that can be stopped for a while, \<^verbatim>\<open>RequestCountWithStop\<close> of
  \<^verbatim>\<open>lib/libc/sync/RequestCount.H\<close> and \<^verbatim>\<open>RequestCount.C\<close>. A lock is added to the counter and the thread id
  of a request count: \<^verbatim>\<open>stop\<close> returns with the lock held, a request that finds the counter negative waits
  for the lock and looks again, \<^verbatim>\<open>restart\<close> makes the counter positive and gives the lock back. As for the
  request counts every access to shared memory is one step; taking the lock is a step
  that is possible while nobody holds it.
\<close>

section \<open>State and steps\<close>

text \<open>
  The places of a thread. A \<^verbatim>\<open>leave\<close> is called by a request and by a refused \<^verbatim>\<open>enter\<close>; the flag of its
  places tells these apart. \<^verbatim>\<open>stop\<close> and \<^verbatim>\<open>shutdown\<close> share the places at which they make the same
  access. \<^verbatim>\<open>WRelease\<close>, \<^verbatim>\<open>SCheck2\<close>, \<^verbatim>\<open>SFail\<close> and \<^verbatim>\<open>SRel\<close> hold the local variable \<^verbatim>\<open>r\<close>, \<^verbatim>\<open>WRefused\<close> and \<^verbatim>\<open>SRefused\<close> the value
  returned, and \<^verbatim>\<open>Asserted\<close> is a failed assertion of \<^verbatim>\<open>restart\<close>.
\<close>

datatype kind = Stop | Shut

datatype wpc = WIdle | WIn | WFailing | WSwap bool | WUnblock bool nat | WLock | WRecheck | WRelease int | WRetry | WRefused int
  | SLock kind | SCheck1 kind | SCheck2 kind int | SCas kind | SSub kind | SRel int | SFail kind int | SRefused kind int
  | SClear kind | STest kind | SBlock kind | SDone kind | Restarted | Asserted

record wcount =
  wrequests :: int
  wshutdownThread :: "nat option"
  wlock :: "nat option"
  wpcs :: "wpc list"
  wUnblocked :: "nat \<Rightarrow> bool"

definition RequestCountWithStop_new :: "nat \<Rightarrow> wcount" where
  "RequestCountWithStop_new n =
     \<lparr>wrequests = 0, wshutdownThread = None, wlock = None, wpcs = replicate n WIdle, wUnblocked = (\<lambda>_. False)\<rparr>"

definition wmove :: "nat \<Rightarrow> wpc \<Rightarrow> wcount \<Rightarrow> wcount" where
  "wmove t p s = s\<lparr>wpcs := (wpcs s)[t := p]\<rparr>"

definition acquire :: "nat \<Rightarrow> wpc \<Rightarrow> wcount \<Rightarrow> wcount option" where
  "acquire t p s = (if wlock s = None then Some (wmove t p (s\<lparr>wlock := Some t\<rparr>)) else None)"

definition release :: "nat \<Rightarrow> wpc \<Rightarrow> wcount \<Rightarrow> wcount" where
  "release t p s = wmove t p (s\<lparr>wlock := None\<rparr>)"

text \<open>\<^verbatim>\<open>enterInternal\<close>, its \<^verbatim>\<open>leave\<close>, and the second look under the lock.\<close>

definition enterInternal :: "nat \<Rightarrow> wcount \<Rightarrow> wcount" where
  "enterInternal t s =
     (let r = wrequests s
      in wmove t (if r \<ge> 0 then WIn else WFailing) (s\<lparr>wrequests := sadd r 1\<rparr>))"

definition wleave :: "bool \<Rightarrow> nat \<Rightarrow> wcount \<Rightarrow> wcount" where
  "wleave refused t s =
     (let r = wrequests s; out = (if refused then WLock else WIdle)
      in wmove t (if r > 0 then out else if r = - (LONG_MAX div 2) + 1 then WSwap refused else out)
           (s\<lparr>wrequests := sadd r (-1)\<rparr>))"

definition wleave_swap :: "bool \<Rightarrow> nat \<Rightarrow> wcount \<Rightarrow> wcount" where
  "wleave_swap refused t s =
     wmove t (case wshutdownThread s of None \<Rightarrow> (if refused then WLock else WIdle) | Some u \<Rightarrow> WUnblock refused u)
       (s\<lparr>wshutdownThread := None\<rparr>)"

definition wleave_unblock :: "bool \<Rightarrow> nat \<Rightarrow> nat \<Rightarrow> wcount \<Rightarrow> wcount" where
  "wleave_unblock refused t u s =
     wmove t (if refused then WLock else WIdle) (s\<lparr>wUnblocked := (wUnblocked s)(u := True)\<rparr>)"

definition enter_recheck :: "nat \<Rightarrow> wcount \<Rightarrow> wcount" where
  "enter_recheck t s = wmove t (WRelease (wrequests s)) s"

definition enter_release :: "nat \<Rightarrow> int \<Rightarrow> wcount \<Rightarrow> wcount" where
  "enter_release t r s = release t (if r < 0 then WRefused r else WRetry) s"

text \<open>\<^verbatim>\<open>stop\<close> and \<^verbatim>\<open>shutdown\<close>.\<close>

definition stop_check1 :: "kind \<Rightarrow> nat \<Rightarrow> wcount \<Rightarrow> wcount" where
  "stop_check1 k t s = wmove t (if wrequests s < 0 then SFail k (wrequests s) else SCheck2 k (wrequests s)) s"

definition stop_check2 :: "kind \<Rightarrow> nat \<Rightarrow> int \<Rightarrow> wcount \<Rightarrow> wcount" where
  "stop_check2 k t r s = wmove t (if wshutdownThread s \<noteq> None then SFail k r else SCas k) s"

definition stop_fail :: "kind \<Rightarrow> nat \<Rightarrow> int \<Rightarrow> wcount \<Rightarrow> wcount" where
  "stop_fail k t r s = release t (SRefused k (case k of Stop \<Rightarrow> -1 | Shut \<Rightarrow> r)) s"

definition stop_cas :: "kind \<Rightarrow> nat \<Rightarrow> wcount \<Rightarrow> wcount" where
  "stop_cas k t s =
     (if wshutdownThread s = None then wmove t (SSub k) (s\<lparr>wshutdownThread := Some t\<rparr>) else wmove t (SCheck1 k) s)"

definition stop_sub :: "nat \<Rightarrow> wcount \<Rightarrow> wcount" where
  "stop_sub t s =
     (let r = wrequests s
      in wmove t (if r = 0 then SClear Stop else STest Stop) (s\<lparr>wrequests := sadd r (- (LONG_MAX div 2))\<rparr>))"

definition shutdown_sub_locked :: "nat \<Rightarrow> wcount \<Rightarrow> wcount" where
  "shutdown_sub_locked t s =
     (let r = wrequests s
      in wmove t (SRel r) (s\<lparr>wrequests := sadd r (- (LONG_MAX div 2))\<rparr>))"

definition shutdown_release :: "nat \<Rightarrow> int \<Rightarrow> wcount \<Rightarrow> wcount" where
  "shutdown_release t r s = release t (if r = 0 then SClear Shut else STest Shut) s"

definition stop_clear :: "kind \<Rightarrow> nat \<Rightarrow> wcount \<Rightarrow> wcount" where
  "stop_clear k t s = wmove t (SDone k) (s\<lparr>wshutdownThread := None\<rparr>)"

definition stop_test :: "kind \<Rightarrow> nat \<Rightarrow> wcount \<Rightarrow> wcount" where
  "stop_test k t s = wmove t (if wshutdownThread s \<noteq> None then SBlock k else SDone k) s"

definition stop_wake :: "kind \<Rightarrow> nat \<Rightarrow> wcount \<Rightarrow> wcount option" where
  "stop_wake k t s =
     (if wUnblocked s t then Some (wmove t (STest k) (s\<lparr>wUnblocked := (wUnblocked s)(t := False)\<rparr>)) else None)"

definition restart :: "nat \<Rightarrow> wcount \<Rightarrow> wcount" where
  "restart t s =
     (if wshutdownThread s \<noteq> None then wmove t Asserted s
      else wmove t Restarted (s\<lparr>wrequests := sadd (wrequests s) (LONG_MAX div 2)\<rparr>))"

datatype wcall = Call_enter | Call_stop | Call_shutdown

fun w_next :: "wcall \<Rightarrow> nat \<Rightarrow> wcount \<Rightarrow> wcount option" where
  "w_next c t s =
     (case wpcs s ! t of
        WIdle \<Rightarrow> Some (case c of Call_enter \<Rightarrow> enterInternal t s | Call_stop \<Rightarrow> wmove t (SLock Stop) s
                           | Call_shutdown \<Rightarrow> wmove t (SLock Shut) s)
      | WIn \<Rightarrow> Some (wleave False t s)
      | WFailing \<Rightarrow> Some (wleave True t s)
      | WSwap b \<Rightarrow> Some (wleave_swap b t s)
      | WUnblock b u \<Rightarrow> Some (wleave_unblock b t u s)
      | WLock \<Rightarrow> acquire t WRecheck s
      | WRecheck \<Rightarrow> Some (enter_recheck t s)
      | WRelease r \<Rightarrow> Some (enter_release t r s)
      | WRetry \<Rightarrow> Some (enterInternal t s)
      | WRefused r \<Rightarrow> Some (wmove t WIdle s)
      | SLock k \<Rightarrow> acquire t (SCheck1 k) s
      | SCheck1 k \<Rightarrow> Some (stop_check1 k t s)
      | SCheck2 k r \<Rightarrow> Some (stop_check2 k t r s)
      | SCas k \<Rightarrow> Some (stop_cas k t s)
      | SSub k \<Rightarrow> Some (case k of Stop \<Rightarrow> stop_sub t s | Shut \<Rightarrow> shutdown_sub_locked t s)
      | SRel r \<Rightarrow> Some (shutdown_release t r s)
      | SFail k r \<Rightarrow> Some (stop_fail k t r s)
      | SRefused k r \<Rightarrow> Some (wmove t WIdle s)
      | SClear k \<Rightarrow> Some (stop_clear k t s)
      | STest k \<Rightarrow> Some (stop_test k t s)
      | SBlock k \<Rightarrow> stop_wake k t s
      | SDone k \<Rightarrow> (case k of Stop \<Rightarrow> Some (restart t s) | Shut \<Rightarrow> None)
      | Restarted \<Rightarrow> Some (release t WIdle s)
      | Asserted \<Rightarrow> None)"

declare w_next.simps [simp del]

text \<open>One step of some thread; \<^verbatim>\<open>R\<close> says whether objects are restarted.\<close>

inductive w_step :: "bool \<Rightarrow> wcount \<Rightarrow> wcount \<Rightarrow> bool" for R where
  "t < length (wpcs s) \<Longrightarrow> wpcs s ! t = SDone Stop \<longrightarrow> R \<Longrightarrow> w_next c t s = Some s' \<Longrightarrow> w_step R s s'"

inductive_cases w_stepE: "w_step R s s'"

fun w_run :: "(wcall \<times> nat) list \<Rightarrow> wcount \<Rightarrow> wcount option" where
  "w_run [] s = Some s"
| "w_run ((c, t) # xs) s = (case w_next c t s of None \<Rightarrow> None | Some s' \<Rightarrow> w_run xs s')"

lemmas w_ops = wmove_def acquire_def release_def enterInternal_def wleave_def wleave_swap_def wleave_unblock_def enter_recheck_def
  enter_release_def stop_check1_def stop_check2_def stop_fail_def stop_cas_def stop_sub_def shutdown_sub_locked_def
  shutdown_release_def stop_clear_def stop_test_def stop_wake_def restart_def Let_def

lemmas w_splits = wcall.splits kind.splits if_splits option.splits

text \<open>A step moves one thread.\<close>

lemma w_moves:
  assumes "w_next c t s = Some s'" "t < length (wpcs s)"
  shows "wpcs s' = (wpcs s)[t := wpcs s' ! t]"
  using assms by (cases "wpcs s ! t") (auto simp: w_next.simps w_ops split: w_splits)

lemma w_length: "w_next c t s = Some s' \<Longrightarrow> t < length (wpcs s) \<Longrightarrow> length (wpcs s') = length (wpcs s)"
  using w_moves by (metis length_list_update)

fun no_restart :: "(wcall \<times> nat) list \<Rightarrow> wcount \<Rightarrow> bool" where
  "no_restart [] s = True"
| "no_restart ((c, t) # xs) s = (wpcs s ! t \<noteq> SDone Stop \<and> (case w_next c t s of None \<Rightarrow> True | Some s' \<Rightarrow> no_restart xs s'))"

lemma w_run_steps:
  assumes "w_run xs s = Some s'" "\<forall>(c, t) \<in> set xs. t < length (wpcs s)" "R \<or> no_restart xs s"
  shows "(w_step R)\<^sup>*\<^sup>* s s'"
  using assms
proof (induction xs arbitrary: s)
  case (Cons x xs)
  obtain c t where x: "x = (c, t)" by (cases x)
  from Cons.prems(1) x obtain s1 where s1: "w_next c t s = Some s1" "w_run xs s1 = Some s'" by (auto split: option.splits)
  have t: "t < length (wpcs s)" using Cons.prems(2) x by auto
  have "w_step R s s1" by (rule w_step.intros [OF t _ s1(1)]) (use Cons.prems(3) x in auto)
  moreover have "(w_step R)\<^sup>*\<^sup>* s1 s'"
    by (rule Cons.IH [OF s1(2)]) (use Cons.prems(2,3) w_length [OF s1(1) t] s1(1) x in auto)
  ultimately show ?case by (rule converse_rtranclp_into_rtranclp)
qed simp

section \<open>The counter, the lock and the thread id\<close>

definition cnt :: "(wpc \<Rightarrow> bool) \<Rightarrow> wcount \<Rightarrow> int" where
  "cnt P s = int (length (filter P (wpcs s)))"

fun counted :: "wpc \<Rightarrow> bool" where
  "counted WIn = True" | "counted WFailing = True" | "counted p = False"

fun down :: "wpc \<Rightarrow> bool" where
  "down (SRel r) = True" | "down (SClear k) = True" | "down (STest k) = True" | "down (SBlock k) = True"
| "down (SDone k) = True" | "down p = False"

fun checked :: "wpc \<Rightarrow> bool" where
  "checked (SCheck2 k r) = True" | "checked (SCas k) = True" | "checked (SSub k) = True" | "checked p = False"

fun locked :: "wpc \<Rightarrow> bool" where
  "locked WRecheck = True" | "locked (WRelease r) = True" | "locked (SCheck1 k) = True" | "locked (SCheck2 k r) = True"
| "locked (SCas k) = True" | "locked (SSub k) = True" | "locked (SRel r) = True" | "locked (SFail k r) = True"
| "locked (SClear k) = (k = Stop)" | "locked (STest k) = (k = Stop)" | "locked (SBlock k) = (k = Stop)"
| "locked (SDone k) = (k = Stop)" | "locked Restarted = True" | "locked Asserted = True" | "locked p = False"

fun owner :: "wpc \<Rightarrow> bool" where
  "owner (SSub k) = True" | "owner (SRel r) = True" | "owner (SClear k) = True" | "owner (STest k) = True"
| "owner (SBlock k) = True" | "owner p = False"

text \<open>
  The counter is the number of requests inside and of refused ones that have not left yet, less the large number
  while a thread has stopped the object or shuts it down; there is one such thread at most, and none
  while another is between its checks and its subtraction. The threads at the places under the lock are
  the holder of the lock, and the thread id is that of a thread about to subtract or waiting.
\<close>

definition w_inv :: "wcount \<Rightarrow> bool" where
  "w_inv s \<longleftrightarrow> length (wpcs s) < 2 ^ 61 \<and>
     wrequests s = cnt counted s - cnt down s * (2 ^ 62 - 1) \<and> cnt down s \<le> 1 \<and>
     (\<forall>t < length (wpcs s). locked (wpcs s ! t) \<longleftrightarrow> wlock s = Some t) \<and>
     (\<forall>t < length (wpcs s). checked (wpcs s ! t) \<longrightarrow> cnt down s = 0) \<and>
     (\<forall>u. wshutdownThread s = Some u \<longrightarrow> u < length (wpcs s) \<and> owner (wpcs s ! u))"

lemma cnt_bounds: "0 \<le> cnt P s" "cnt P s \<le> int (length (wpcs s))"
  by (auto simp: cnt_def)

lemma cnt_pos: "cnt P s > 0 \<longleftrightarrow> (\<exists>t < length (wpcs s). P (wpcs s ! t))"
proof -
  have "cnt P s > 0 \<longleftrightarrow> (\<exists>p \<in> set (wpcs s). P p)" by (auto simp: cnt_def filter_empty_conv)
  then show ?thesis by (metis in_set_conv_nth)
qed

lemma cnt_two:
  assumes "P (wpcs s ! t)" "P (wpcs s ! u)" "t < length (wpcs s)" "u < length (wpcs s)" "t \<noteq> u"
  shows "cnt P s \<ge> 2"
proof -
  have "{t, u} \<subseteq> {i. i < length (wpcs s) \<and> P (wpcs s ! i)}" using assms by auto
  then have "card {t, u} \<le> card {i. i < length (wpcs s) \<and> P (wpcs s ! i)}" by (intro card_mono) auto
  then show ?thesis using assms(5) by (simp add: cnt_def length_filter_conv_card)
qed

lemma cnt_move:
  assumes "t < length (wpcs s)" "wpcs s' = (wpcs s)[t := q]"
  shows "cnt P s' = cnt P s - of_bool (P (wpcs s ! t)) + of_bool (P q)"
proof -
  have "int (length (filter P (xs[t := q]))) = int (length (filter P xs)) - of_bool (P (xs ! t)) + of_bool (P q)"
    if "t < length xs" for xs
    using that
  proof (induction xs arbitrary: t)
    case (Cons x xs)
    then show ?case by (cases t) auto
  qed simp
  then show ?thesis using assms by (simp add: cnt_def)
qed

lemma w_ranges:
  assumes "w_inv s"
  shows "0 \<le> cnt counted s" "cnt counted s < 2 ^ 61" "cnt down s = 0 \<or> cnt down s = 1"
    "wrequests s = cnt counted s - cnt down s * (2 ^ 62 - 1)"
    "wrequests s < 0 \<longleftrightarrow> cnt down s = 1"
proof -
  have l: "int (length (wpcs s)) < 2 ^ 61" using assms by (simp add: w_inv_def)
  show c: "0 \<le> cnt counted s" "cnt counted s < 2 ^ 61" using cnt_bounds [of counted s] l by auto
  show d: "cnt down s = 0 \<or> cnt down s = 1" using cnt_bounds(1) [of down s] assms by (auto simp: w_inv_def)
  show e: "wrequests s = cnt counted s - cnt down s * (2 ^ 62 - 1)" using assms by (simp add: w_inv_def)
  show "wrequests s < 0 \<longleftrightarrow> cnt down s = 1" using c d e by auto
qed

lemma checked_locked: "checked p \<Longrightarrow> locked p"
  by (cases p) auto

text \<open>The obligations of a step that moves one thread.\<close>

lemma inv_move:
  assumes inv: "w_inv s" and t: "t < length (wpcs s)" and s': "wpcs s' = (wpcs s)[t := q]"
    and req: "wrequests s' = wrequests s - of_bool (counted (wpcs s ! t)) + of_bool (counted q)
        + (of_bool (down (wpcs s ! t)) - of_bool (down q)) * (2 ^ 62 - 1)"
    and lock: "wlock s' = wlock s \<and> locked q = locked (wpcs s ! t) \<or> wlock s = None \<and> wlock s' = Some t \<and> locked q
        \<or> locked (wpcs s ! t) \<and> wlock s' = None \<and> \<not> locked q"
    and dn: "down q \<Longrightarrow> down (wpcs s ! t) \<or> checked (wpcs s ! t)"
    and ck: "checked q \<Longrightarrow> cnt down s = 0"
    and own: "wshutdownThread s' = None \<or> wshutdownThread s' = Some t \<and> owner q
        \<or> wshutdownThread s' = wshutdownThread s \<and> (owner (wpcs s ! t) \<longrightarrow> owner q)"
  shows "w_inv s'"
proof -
  note c = cnt_move [OF t s']
  have len: "length (wpcs s') = length (wpcs s)" using s' by simp
  have nth: "wpcs s' ! i = (if i = t then q else wpcs s ! i)" if "i < length (wpcs s)" for i
    using that by (simp add: s' nth_list_update)
  have L: "locked (wpcs s ! i) \<longleftrightarrow> wlock s = Some i" if "i < length (wpcs s)" for i using inv that by (simp add: w_inv_def)
  have K: "cnt down s = 0" if "i < length (wpcs s)" "checked (wpcs s ! i)" for i using inv that by (auto simp: w_inv_def)
  have D: "cnt down s' \<le> 1" using dn K [OF t] w_ranges(3) [OF inv] by (auto simp: c)
  have L': "locked (wpcs s' ! i) \<longleftrightarrow> wlock s' = Some i" if "i < length (wpcs s)" for i
    using lock L [OF that] L [OF t] by (auto simp: nth [OF that])
  have dpos: "cnt down s \<noteq> 0" if "down (wpcs s ! t)" using cnt_pos [of down s] t that by auto
  have K': "cnt down s' = 0" if i: "i < length (wpcs s)" "checked (wpcs s' ! i)" for i
  proof (cases "i = t")
    case True
    then have q: "checked q" using i by (simp add: nth)
    then have "cnt down s = 0" "\<not> down q" using ck by (auto elim: checked.elims)
    then show ?thesis using dpos by (auto simp: c)
  next
    case False
    then have ki: "checked (wpcs s ! i)" using i by (simp add: nth)
    have "\<not> checked (wpcs s ! t)"
      using L [OF i(1)] L [OF t] checked_locked [OF ki] checked_locked [of "wpcs s ! t"] False by auto
    then show ?thesis using K [OF i(1) ki] dpos dn by (auto simp: c)
  qed
  have O: "u < length (wpcs s) \<and> owner (wpcs s' ! u)" if "wshutdownThread s' = Some u" for u
    using own that inv t nth [of u] by (auto simp: w_inv_def)
  have "wrequests s' = cnt counted s' - cnt down s' * (2 ^ 62 - 1)"
    using req w_ranges(4) [OF inv] by (simp add: c algebra_simps)
  then show ?thesis using inv D L' K' O by (auto simp: w_inv_def len)
qed

lemma w_sadd:
  assumes "w_inv s"
  shows "sadd (wrequests s) 1 = wrequests s + 1" "sadd (wrequests s) (-1) = wrequests s - 1"
    "cnt down s = 0 \<Longrightarrow> sadd (wrequests s) (- (LONG_MAX div 2)) = wrequests s - (2 ^ 62 - 1)"
    "cnt down s = 1 \<Longrightarrow> sadd (wrequests s) (LONG_MAX div 2) = wrequests s + (2 ^ 62 - 1)"
  using w_ranges(1-3) [OF assms] unfolding w_ranges(4) [OF assms] half_max
  by (auto simp: sadd_nowrap)

lemma down_one:
  assumes "w_inv s" "t < length (wpcs s)" "down (wpcs s ! t)"
  shows "cnt down s = 1"
  using cnt_pos [of down s] w_ranges(3) [OF assms(1)] assms(2,3) by auto

text \<open>The thread id read by a thread past its subtraction is its own.\<close>

lemma down_owner:
  assumes inv: "w_inv s" and t: "t < length (wpcs s)" "down (wpcs s ! t)" and u: "wshutdownThread s = Some u"
  shows "u = t"
proof (rule ccontr)
  assume ne: "u \<noteq> t"
  have o: "u < length (wpcs s)" "owner (wpcs s ! u)" using inv u by (auto simp: w_inv_def)
  have "checked (wpcs s ! u) \<or> down (wpcs s ! u)" using o(2) by (cases "wpcs s ! u") auto
  then show False
  proof
    assume "checked (wpcs s ! u)"
    then have "cnt down s = 0" using inv o(1) by (auto simp: w_inv_def)
    then show False using down_one [OF inv t] by simp
  next
    assume "down (wpcs s ! u)"
    then have "cnt down s \<ge> 2" using cnt_two [of down s t u] t o(1) ne by auto
    then show False using down_one [OF inv t] by simp
  qed
qed

lemma done_no_id:
  assumes inv: "w_inv s" and t: "t < length (wpcs s)" "wpcs s ! t = SDone k"
  shows "wshutdownThread s = None"
proof (rule ccontr)
  assume "wshutdownThread s \<noteq> None"
  then obtain u where u: "wshutdownThread s = Some u" by auto
  then have "u = t" using down_owner [OF inv t(1) _ u] t(2) by simp
  then show False using inv u t(2) by (auto simp: w_inv_def)
qed

text \<open>What a step does to the counter depends on the kinds of places it leads from and to.\<close>

lemma w_requests:
  assumes "w_next c t s = Some s'" "t < length (wpcs s)"
  shows "wrequests s' =
     (if counted (wpcs s' ! t) then sadd (wrequests s) 1
      else if counted (wpcs s ! t) then sadd (wrequests s) (-1)
      else if down (wpcs s' ! t) \<and> \<not> down (wpcs s ! t) then sadd (wrequests s) (- (LONG_MAX div 2))
      else if wpcs s' ! t = Restarted then sadd (wrequests s) (LONG_MAX div 2) else wrequests s)"
  using assms by (cases "wpcs s ! t") (auto simp: w_next.simps w_ops split: w_splits)

lemma w_places:
  assumes "w_next c t s = Some s'" "t < length (wpcs s)"
  shows "down (wpcs s' ! t) \<Longrightarrow> down (wpcs s ! t) \<or> checked (wpcs s ! t)"
    "counted (wpcs s' ! t) \<Longrightarrow> \<not> counted (wpcs s ! t) \<and> \<not> down (wpcs s ! t) \<and> \<not> down (wpcs s' ! t)"
    "down (wpcs s ! t) \<and> \<not> down (wpcs s' ! t) \<longleftrightarrow> wpcs s' ! t = Restarted \<or> wpcs s' ! t = Asserted"
    "counted (wpcs s ! t) \<Longrightarrow> \<not> down (wpcs s ! t) \<and> \<not> down (wpcs s' ! t)"
    "wpcs s' ! t = Asserted \<Longrightarrow> wshutdownThread s \<noteq> None \<and> wpcs s ! t = SDone Stop"
  using assms by (cases "wpcs s ! t"; auto simp: w_next.simps w_ops split: w_splits)+

lemma w_inv_step:
  assumes inv: "w_inv s" and "w_step R s s'"
  shows "w_inv s'"
proof -
  from assms(2) obtain t c where t: "t < length (wpcs s)" and nx: "w_next c t s = Some s'" by (rule w_stepE)
  note n = nx [unfolded w_next.simps]
  note m = inv_move [OF inv t] and e = w_sadd [OF inv] and neg = w_ranges(5) [OF inv] and pl = w_places [OF nx t]
  have K: "cnt down s = 0" if "checked (wpcs s ! t)" using inv t that by (auto simp: w_inv_def)
  have d: "cnt down s = 1" if "down (wpcs s ! t)" by (rule down_one [OF inv t that])
  show ?thesis
  proof (rule m [where q = "wpcs s' ! t"])
    show "wpcs s' = (wpcs s)[t := wpcs s' ! t]" by (rule w_moves [OF nx t])
    show "wrequests s' = wrequests s - of_bool (counted (wpcs s ! t)) + of_bool (counted (wpcs s' ! t))
        + (of_bool (down (wpcs s ! t)) - of_bool (down (wpcs s' ! t))) * (2 ^ 62 - 1)"
    proof -
      have as: "wpcs s' ! t \<noteq> Asserted"
      proof
        assume "wpcs s' ! t = Asserted"
        from pl(5) [OF this] show False using done_no_id [OF inv t, of Stop] by simp
      qed
      have d0: "down (wpcs s' ! t) \<Longrightarrow> \<not> down (wpcs s ! t) \<Longrightarrow> cnt down s = 0" using pl(1) K by blast
      note w = w_requests [OF nx t]
      consider (into) "counted (wpcs s' ! t)" | (out) "\<not> counted (wpcs s' ! t)" "counted (wpcs s ! t)"
        | (dwn) "\<not> counted (wpcs s' ! t)" "\<not> counted (wpcs s ! t)" "down (wpcs s' ! t)" "\<not> down (wpcs s ! t)"
        | (up) "\<not> counted (wpcs s' ! t)" "\<not> counted (wpcs s ! t)" "\<not> down (wpcs s' ! t)" "down (wpcs s ! t)"
        | (same) "\<not> counted (wpcs s' ! t)" "\<not> counted (wpcs s ! t)" "down (wpcs s' ! t) = down (wpcs s ! t)" by blast
      then show ?thesis
      proof cases
        case into
        then show ?thesis using w e(1) pl(2) by simp
      next
        case out
        then show ?thesis using w e(2) pl(4) by simp
      next
        case dwn
        then show ?thesis using w e(3) [OF d0] by simp
      next
        case up
        moreover from this have "wpcs s' ! t = Restarted" using pl(3) as by blast
        ultimately show ?thesis using w e(4) [OF d] by simp
      next
        case same
        moreover from this have "wpcs s' ! t \<noteq> Restarted" using pl(3) by blast
        ultimately show ?thesis using w by simp
      qed
    qed
    show "wlock s' = wlock s \<and> locked (wpcs s' ! t) = locked (wpcs s ! t) \<or> wlock s = None \<and> wlock s' = Some t \<and> locked (wpcs s' ! t)
        \<or> locked (wpcs s ! t) \<and> wlock s' = None \<and> \<not> locked (wpcs s' ! t)"
      using n t by (cases "wpcs s ! t") (auto simp: w_ops split: w_splits)
    show "down (wpcs s ! t) \<or> checked (wpcs s ! t)" if "down (wpcs s' ! t)" by (rule pl(1) [OF that])
    show "cnt down s = 0" if "checked (wpcs s' ! t)"
      using that n t K neg w_ranges(3) [OF inv]
      by (cases "wpcs s ! t") (auto simp: w_ops split: w_splits)
    show "wshutdownThread s' = None \<or> wshutdownThread s' = Some t \<and> owner (wpcs s' ! t)
        \<or> wshutdownThread s' = wshutdownThread s \<and> (owner (wpcs s ! t) \<longrightarrow> owner (wpcs s' ! t))"
      using n t by (cases "wpcs s ! t") (auto simp: w_ops split: w_splits)
  qed
qed

lemma w_inv_new: "n < 2 ^ 61 \<Longrightarrow> w_inv (RequestCountWithStop_new n)"
  by (auto simp: w_inv_def RequestCountWithStop_new_def cnt_def)

interpretation stopping: invariant_steps "w_step R" w_inv for R
  by unfold_locales (rule w_inv_step)

section \<open>Waiting for the last request\<close>

fun waiting :: "wpc \<Rightarrow> bool" where
  "waiting (SRel r) = (r \<noteq> 0)" | "waiting (STest k) = True" | "waiting (SBlock k) = True" | "waiting p = False"

fun swapping :: "wpc \<Rightarrow> bool" where
  "swapping (WSwap b) = True" | "swapping p = False"

fun unblocking :: "nat \<Rightarrow> wpc \<Rightarrow> bool" where
  "unblocking t (WUnblock b u) = (u = t)" | "unblocking t p = False"

text \<open>
  While a thread waits and the thread id is there, a request is still to leave or the one that left
  last is about to take the id; once the id is gone, the wake-up has come or is on its way.
\<close>

definition w_wake :: "wcount \<Rightarrow> bool" where
  "w_wake s \<longleftrightarrow>
     (\<forall>t < length (wpcs s). waiting (wpcs s ! t) \<and> wshutdownThread s = Some t \<longrightarrow> cnt counted s > 0 \<or> cnt swapping s > 0) \<and>
     (\<forall>t < length (wpcs s). (\<exists>k. wpcs s ! t = SBlock k) \<and> wshutdownThread s \<noteq> Some t \<longrightarrow> wUnblocked s t \<or> cnt (unblocking t) s > 0)"

lemma waiting_down: "waiting p \<Longrightarrow> down p"
  by (cases p) auto

lemma wake_wait:
  assumes inv: "w_inv s" and wk: "w_wake s" and t: "t < length (wpcs s)" and nx: "w_next c t s = Some s'"
    and u: "u < length (wpcs s)" "waiting (wpcs s' ! u)" "wshutdownThread s' = Some u"
  shows "cnt counted s' > 0 \<or> cnt swapping s' > 0"
proof -
  note n = nx [unfolded w_next.simps] and k = cnt_move [OF t w_moves [OF nx t]]
  have nth: "wpcs s' ! i = wpcs s ! i" if "i \<noteq> t" for i
    using that by (subst w_moves [OF nx t]) simp
  have id: "wshutdownThread s = Some u"
    using n t u by (cases "wpcs s ! t") (auto simp: w_ops split: w_splits)
  have b: "0 \<le> cnt counted s" "0 \<le> cnt swapping s" by (rule cnt_bounds)+
  show ?thesis
  proof (cases "u = t")
    case True
    have K: "cnt down s = 0" if "checked (wpcs s ! t)" using inv t that by (auto simp: w_inv_def)
    have "waiting (wpcs s ! t) \<longrightarrow> cnt counted s > 0 \<or> cnt swapping s > 0" using wk t id True by (auto simp: w_wake_def)
    then show ?thesis using True n t u(2) b K w_ranges(4) [OF inv] unfolding k
      by (cases "wpcs s ! t") (auto simp: w_ops split: w_splits)
  next
    case False
    then have w: "waiting (wpcs s ! u)" using u(2) nth by simp
    then have "cnt down s = 1" using down_one [OF inv u(1)] waiting_down by blast
    then have r: "wrequests s = cnt counted s - (2 ^ 62 - 1)" "cnt counted s < 2 ^ 61" using w_ranges [OF inv] by auto
    have "cnt counted s > 0 \<or> cnt swapping s > 0" using wk u(1) w id by (auto simp: w_wake_def)
    then show ?thesis using n t u(3) b r unfolding k
      by (cases "wpcs s ! t") (auto simp: w_ops half_max split: w_splits)
  qed
qed

lemma wake_sent:
  assumes inv: "w_inv s" and wk: "w_wake s" and t: "t < length (wpcs s)" and nx: "w_next c t s = Some s'"
    and u: "u < length (wpcs s)" "wpcs s' ! u = SBlock k" "wshutdownThread s' \<noteq> Some u"
  shows "wUnblocked s' u \<or> cnt (unblocking u) s' > 0"
proof -
  note n = nx [unfolded w_next.simps] and cm = cnt_move [OF t w_moves [OF nx t]]
  have nth: "wpcs s' ! i = wpcs s ! i" if "i \<noteq> t" for i
    using that by (subst w_moves [OF nx t]) simp
  have b: "0 \<le> cnt (unblocking u) s" by (rule cnt_bounds)
  have ne: "u \<noteq> t"
  proof
    assume ut: "u = t"
    then have "wpcs s ! t = STest k \<and> wshutdownThread s \<noteq> None \<and> wshutdownThread s' = wshutdownThread s"
      using n t u(2) by (cases "wpcs s ! t") (auto simp: w_ops split: w_splits)
    then show False using down_owner [OF inv t] u(3) ut by auto
  qed
  then have w: "wpcs s ! u = SBlock k" using u(2) nth by simp
  have nd: "\<not> down (wpcs s ! t)"
    using cnt_two [of down s u t] down_one [OF inv u(1)] w ne t u(1) by auto
  have nc: "\<not> checked (wpcs s ! t)" using down_one [OF inv u(1)] w inv t by (auto simp: w_inv_def)
  show ?thesis
  proof (cases "wshutdownThread s = Some u")
    case True
    then have "unblocking u (wpcs s' ! t) \<and> \<not> unblocking u (wpcs s ! t)"
      using n t u(3) nd nc by (cases "wpcs s ! t") (auto simp: w_ops split: w_splits)
    then show ?thesis using b by (simp add: cm)
  next
    case False
    then have "wUnblocked s u \<or> cnt (unblocking u) s > 0" using wk u(1) w by (auto simp: w_wake_def)
    then show ?thesis using n t nd nc b unfolding cm
      by (cases "wpcs s ! t") (auto simp: w_ops split: w_splits)
  qed
qed

interpretation waking: invariant_steps "w_step R" "\<lambda>s. w_inv s \<and> w_wake s" for R
proof
  fix s s' assume s: "w_inv s \<and> w_wake s" "w_step R s s'"
  from s(2) obtain t c where t: "t < length (wpcs s)" and nx: "w_next c t s = Some s'" by (rule w_stepE)
  have "w_wake s'"
    using wake_wait [OF _ _ t nx] wake_sent [OF _ _ t nx] s(1) w_length [OF nx t] by (auto simp: w_wake_def)
  then show "w_inv s' \<and> w_wake s'" using w_inv_step s by blast
qed

lemma reach_wake:
  assumes "n < 2 ^ 61" "(w_step R)\<^sup>*\<^sup>* (RequestCountWithStop_new n) s"
  shows "w_inv s" "w_wake s"
proof -
  have "w_wake (RequestCountWithStop_new n)" by (auto simp: w_wake_def RequestCountWithStop_new_def)
  then show "w_inv s" "w_wake s" using waking.steps_inv [OF assms(2)] w_inv_new [OF assms(1)] by blast+
qed

text \<open>
  C25. With the lock no wake-up is lost, whatever the number of threads that stop, restart and shut down:
  whenever one of them is blocked and was not unblocked, some thread is inside the object, is leaving it
  after a refused request, or is on the way to wake it.
\<close>

theorem stop_wakeup_not_lost:
  assumes "n < 2 ^ 61" "(w_step True)\<^sup>*\<^sup>* (RequestCountWithStop_new n) s" "t < length (wpcs s)" "wpcs s ! t = SBlock k" "\<not> wUnblocked s t"
  shows "\<exists>u < length (wpcs s). counted (wpcs s ! u) \<or> swapping (wpcs s ! u) \<or> unblocking t (wpcs s ! u)"
proof -
  have "cnt counted s > 0 \<or> cnt swapping s > 0 \<or> cnt (unblocking t) s > 0"
    using reach_wake(2) [OF assms(1,2)] assms(3-5) unfolding w_wake_def
    by (cases "wshutdownThread s = Some t") (metis waiting.simps(3), metis)
  then show ?thesis unfolding cnt_pos by blast
qed

lemmas w_exec = w_next.simps w_ops sadd_def LONG_MAX_def RequestCountWithStop_new_def

theorem stop_wakeup_not_lost_witness:
  "\<exists>s. (w_step True)\<^sup>*\<^sup>* (RequestCountWithStop_new 2) s \<and> wpcs s ! 0 = SBlock Stop \<and>
     (\<exists>u < length (wpcs s). counted (wpcs s ! u) \<or> swapping (wpcs s ! u) \<or> unblocking 0 (wpcs s ! u))"
proof -
  let ?xs = "(Call_enter, 1) # replicate 7 (Call_stop, 0)"
  obtain s where s: "w_run ?xs (RequestCountWithStop_new 2) = Some s" "wpcs s = [SBlock Stop, WIn]" "\<not> wUnblocked s 0"
    by (simp add: w_exec numeral_eq_Suc)
  have r: "(w_step True)\<^sup>*\<^sup>* (RequestCountWithStop_new 2) s"
    by (rule w_run_steps [OF s(1)]) (auto simp: RequestCountWithStop_new_def)
  have "\<exists>u < length (wpcs s). counted (wpcs s ! u) \<or> swapping (wpcs s ! u) \<or> unblocking 0 (wpcs s ! u)"
    by (rule stop_wakeup_not_lost [OF _ r, of 0 Stop]) (use s(2,3) in simp_all)
  moreover have "wpcs s ! 0 = SBlock Stop" using s(2) by simp
  ultimately show ?thesis using r by blast
qed

section \<open>Stopped objects\<close>

text \<open>
  C5. While a thread has stopped the object, or shuts it down, no request is admitted: the counter is
  negative, a step takes nobody inside, and no other thread stops the object or shuts it down. A \<^verbatim>\<open>restart\<close> then
  finds the thread id cleared, as it asserts, and leaves a counter that is the number of requests.
\<close>

theorem stopped_object_admits_nobody:
  assumes "n < 2 ^ 61" "(w_step True)\<^sup>*\<^sup>* (RequestCountWithStop_new n) s" "t < length (wpcs s)" "wpcs s ! t = SDone k"
  shows "wrequests s < 0 \<and>
    (\<forall>s' u. w_step True s s' \<and> u < length (wpcs s) \<and> wpcs s' ! u = WIn \<longrightarrow> wpcs s ! u = WIn) \<and>
    (\<forall>u < length (wpcs s). down (wpcs s ! u) \<longrightarrow> u = t) \<and>
    wpcs (restart t s) ! t = Restarted \<and> wrequests (restart t s) = cnt counted s"
proof (intro conjI allI impI; (elim conjE)?)
  note inv = reach_wake(1) [OF assms(1,2)]
  have d: "down (wpcs s ! t)" using assms(4) by simp
  note one = down_one [OF inv assms(3) d]
  show neg: "wrequests s < 0" using w_ranges(5) [OF inv] one by simp
  show "wpcs s ! u = WIn" if "w_step True s s'" "u < length (wpcs s)" "wpcs s' ! u = WIn" for s' u
  proof -
    from that(1) obtain v c where v: "v < length (wpcs s)" and nx: "w_next c v s = Some s'" by (rule w_stepE)
    have "wpcs s' ! v \<noteq> WIn" using nx [unfolded w_next.simps] v neg
      by (cases "wpcs s ! v") (auto simp: w_ops split: w_splits)
    then have "u \<noteq> v" using that(3) by auto
    then show ?thesis using that(3) by (subst (asm) w_moves [OF nx v]) simp
  qed
  show "u = t" if "u < length (wpcs s)" "down (wpcs s ! u)" for u :: nat
    using cnt_two [of down s t u] d that assms(3) one by force
  show "wpcs (restart t s) ! t = Restarted" "wrequests (restart t s) = cnt counted s"
    using done_no_id [OF inv assms(3,4)] w_sadd(4) [OF inv one] w_ranges(4) [OF inv] one assms(3)
    by (simp_all add: restart_def wmove_def)
qed

theorem stopped_object_admits_nobody_witness:
  "\<exists>s. (w_step True)\<^sup>*\<^sup>* (RequestCountWithStop_new 1) s \<and> wpcs s = [SDone Stop] \<and> wrequests s < 0 \<and> wrequests (restart 0 s) = 0"
proof -
  let ?xs = "replicate 7 (Call_stop, 0)"
  obtain s where s: "w_run ?xs (RequestCountWithStop_new 1) = Some s" "wpcs s = [SDone Stop]"
    by (simp add: w_exec numeral_eq_Suc)
  have r: "(w_step True)\<^sup>*\<^sup>* (RequestCountWithStop_new 1) s"
    by (rule w_run_steps [OF s(1)]) (auto simp: RequestCountWithStop_new_def)
  have "wrequests s < 0" "wrequests (restart 0 s) = cnt counted s"
    using stopped_object_admits_nobody [OF _ r, of 0 Stop] s(2) by simp_all
  then show ?thesis using r s(2) by (auto simp: cnt_def)
qed

text \<open>
  C38. A \<^verbatim>\<open>stop\<close> can return with a request inside the object. A request refused during an earlier stop leaves
  the counter at the value that says that it was the last one; it goes on to clear the thread id only after
  the restart, and so wakes a second \<^verbatim>\<open>stop\<close> that waits for a request admitted in between.
\<close>

theorem stop_can_return_with_request_inside:
  "\<exists>s. (w_step True)\<^sup>*\<^sup>* (RequestCountWithStop_new 3) s \<and> wpcs s ! 0 = SDone Stop \<and> wpcs s ! 2 = WIn"
proof -
  let ?xs = "replicate 6 (Call_stop, 0) @ [(Call_enter, 1), (Call_enter, 1)] @ replicate 3 (Call_stop, 0) @ [(Call_enter, 2)] @
    replicate 7 (Call_stop, 0) @ [(Call_enter, 1), (Call_enter, 1)] @ [(Call_stop, 0), (Call_stop, 0)]"
  obtain s where s: "w_run ?xs (RequestCountWithStop_new 3) = Some s" "wpcs s ! 0 = SDone Stop" "wpcs s ! 2 = WIn"
    by (simp add: w_exec numeral_eq_Suc)
  have "(w_step True)\<^sup>*\<^sup>* (RequestCountWithStop_new 3) s"
    by (rule w_run_steps [OF s(1)]) (auto simp: RequestCountWithStop_new_def)
  then show ?thesis using s(2,3) by blast
qed

section \<open>Refused requests\<close>

fun shut_down :: "wpc \<Rightarrow> bool" where
  "shut_down (SClear k) = (k = Shut)" | "shut_down (STest k) = (k = Shut)" | "shut_down (SBlock k) = (k = Shut)"
| "shut_down (SDone k) = (k = Shut)" | "shut_down p = False"

fun turned_away :: "wpc \<Rightarrow> bool" where
  "turned_away (WRelease r) = (r < 0)" | "turned_away (WRefused r) = True" | "turned_away p = False"

definition w_refuse :: "wcount \<Rightarrow> bool" where
  "w_refuse s \<longleftrightarrow> (cnt turned_away s > 0 \<longrightarrow> cnt shut_down s > 0) \<and> (\<forall>t < length (wpcs s). \<forall>r. wpcs s ! t = WRefused r \<longrightarrow> r < 0)"

text \<open>A thread that holds the lock and is not the one that made the counter negative sees that of a shutdown.\<close>

lemma unlocked_down:
  assumes inv: "w_inv s" and t: "t < length (wpcs s)" "locked (wpcs s ! t)" "\<not> down (wpcs s ! t)" and "wrequests s < 0"
  shows "cnt shut_down s > 0"
proof -
  have "cnt down s > 0" using w_ranges(5) [OF inv] assms(5) by simp
  then obtain u where u: "u < length (wpcs s)" "down (wpcs s ! u)" unfolding cnt_pos by blast
  then have "u \<noteq> t" using t(3) by auto
  then have "\<not> locked (wpcs s ! u)" using inv t(1,2) u(1) by (auto simp: w_inv_def)
  then have "shut_down (wpcs s ! u)" using u(2) by (cases "wpcs s ! u") (auto intro: kind.exhaust)
  then show ?thesis using u(1) unfolding cnt_pos by blast
qed

lemma refuse_step:
  assumes inv: "w_inv s" and rf: "w_refuse s" and t: "t < length (wpcs s)" and nx: "w_next c t s = Some s'"
  shows "w_refuse s'"
proof -
  note n = nx [unfolded w_next.simps] and k = cnt_move [OF t w_moves [OF nx t]]
  have nth: "wpcs s' ! i = wpcs s ! i" if "i \<noteq> t" for i
    using that by (subst w_moves [OF nx t]) simp
  have keep: "shut_down (wpcs s ! t) \<longrightarrow> shut_down (wpcs s' ! t)"
    using n t by (cases "wpcs s ! t") (auto simp: w_ops split: w_splits)
  have from_t: "turned_away (wpcs s' ! t) \<longrightarrow> turned_away (wpcs s ! t) \<or> cnt shut_down s > 0"
    using n t unlocked_down [OF inv t] by (cases "wpcs s ! t") (auto simp: w_ops split: w_splits)
  have b: "0 \<le> cnt turned_away s" "0 \<le> cnt shut_down s" by (rule cnt_bounds)+
  have "turned_away (wpcs s ! t) \<longrightarrow> cnt turned_away s > 0" using t unfolding cnt_pos by blast
  then have "cnt turned_away s' > 0 \<longrightarrow> cnt shut_down s > 0"
    using rf from_t unfolding k w_refuse_def by (auto split: if_splits)
  moreover have "cnt shut_down s' \<ge> cnt shut_down s" using keep by (auto simp: k)
  moreover have "r < 0" if "i < length (wpcs s')" "wpcs s' ! i = WRefused r" for i r
  proof (cases "i = t")
    case True
    then have "\<exists>r'. r' < 0 \<and> wpcs s' ! t = WRefused r'" using n t that
      by (cases "wpcs s ! t") (auto simp: w_ops split: w_splits)
    then show ?thesis using True that by auto
  next
    case False
    then show ?thesis using rf that w_length [OF nx t] nth by (auto simp: w_refuse_def)
  qed
  ultimately show ?thesis by (auto simp: w_refuse_def)
qed

interpretation refusing: invariant_steps "w_step R" "\<lambda>s. w_inv s \<and> w_refuse s" for R
proof
  fix s s' assume s: "w_inv s \<and> w_refuse s" "w_step R s s'"
  then show "w_inv s' \<and> w_refuse s'" using w_inv_step refuse_step by (meson w_stepE)
qed

text \<open>
  A stop only delays requests: \<^verbatim>\<open>enter\<close> gives up, with a negative value, only when a thread has taken the
  object down for good in \<^verbatim>\<open>shutdown\<close>.
\<close>

theorem enter_refused_only_by_shutdown:
  assumes "n < 2 ^ 61" "(w_step True)\<^sup>*\<^sup>* (RequestCountWithStop_new n) s" "t < length (wpcs s)" "wpcs s ! t = WRefused r"
  shows "r < 0 \<and> (\<exists>u < length (wpcs s). shut_down (wpcs s ! u))"
proof -
  have "w_refuse (RequestCountWithStop_new n)" by (auto simp: w_refuse_def RequestCountWithStop_new_def cnt_def)
  then have rf: "w_refuse s" using refusing.steps_inv [OF assms(2)] w_inv_new [OF assms(1)] by blast
  have "cnt turned_away s > 0" unfolding cnt_pos using assms(3,4) by (metis turned_away.simps(2))
  then have "cnt shut_down s > 0" using rf by (simp add: w_refuse_def)
  then show ?thesis using rf assms(3,4) unfolding cnt_pos by (auto simp: w_refuse_def)
qed

theorem enter_refused_only_by_shutdown_witness:
  "\<exists>s r. (w_step True)\<^sup>*\<^sup>* (RequestCountWithStop_new 2) s \<and> wpcs s ! 1 = WRefused r \<and> r < 0 \<and>
     (\<exists>u < length (wpcs s). shut_down (wpcs s ! u))"
proof -
  let ?xs = "replicate 8 (Call_shutdown, 0) @ replicate 6 (Call_enter, 1)"
  obtain s r where s: "w_run ?xs (RequestCountWithStop_new 2) = Some s" "wpcs s = [SDone Shut, WRefused r]"
    by (simp add: w_exec numeral_eq_Suc)
  have r: "(w_step True)\<^sup>*\<^sup>* (RequestCountWithStop_new 2) s"
    by (rule w_run_steps [OF s(1)]) (auto simp: RequestCountWithStop_new_def)
  have "r < 0 \<and> (\<exists>u < length (wpcs s). shut_down (wpcs s ! u))"
    by (rule enter_refused_only_by_shutdown [OF _ r, of 1]) (use s(2) in simp_all)
  moreover have "wpcs s ! 1 = WRefused r" using s(2) by simp
  ultimately show ?thesis using r by blast
qed

section \<open>Objects that were not restarted\<close>

fun failing_w :: "wpc \<Rightarrow> bool" where
  "failing_w WFailing = True" | "failing_w p = False"

fun inside_w :: "wpc \<Rightarrow> bool" where
  "inside_w WIn = True" | "inside_w p = False"

fun last_left :: "wpc \<Rightarrow> bool" where
  "last_left (WSwap b) = True" | "last_left (WUnblock b u) = True" | "last_left (SRel r) = (r = 0)"
| "last_left (SClear k) = True" | "last_left (SDone k) = True" | "last_left p = False"

definition w_first :: "wcount \<Rightarrow> bool" where
  "w_first s \<longleftrightarrow>
     (cnt down s = 0 \<longrightarrow> cnt failing_w s = 0 \<and> cnt last_left s = 0 \<and>
        (\<forall>t < length (wpcs s). \<forall>k. wpcs s ! t = SSub k \<longrightarrow> wshutdownThread s = Some t)) \<and>
     (cnt down s = 1 \<longrightarrow> cnt last_left s > 0 \<or> wshutdownThread s = None \<longrightarrow> cnt inside_w s = 0)"

lemma counted_split: "cnt counted s = cnt inside_w s + cnt failing_w s"
proof -
  have "length (filter counted xs) = length (filter inside_w xs) + length (filter failing_w xs)" for xs
  proof (induction xs)
    case (Cons x xs)
    then show ?case by (cases x) auto
  qed simp
  then show ?thesis by (simp add: cnt_def)
qed

text \<open>
  Until the counter is made negative nothing is refused, nobody has left last, and the thread id is that of the
  thread about to subtract. After that nobody is inside once somebody is at a place that comes after
  the last request left, or once the thread id is cleared.
\<close>

lemma first_step:
  assumes inv: "w_inv s" and fs: "w_first s" and st: "w_step False s s'"
  shows "w_first s'"
proof -
  from st obtain t c where t: "t < length (wpcs s)" and ns: "wpcs s ! t \<noteq> SDone Stop" and nx: "w_next c t s = Some s'"
    by (auto elim: w_stepE)
  note n = nx [unfolded w_next.simps] and k = cnt_move [OF t w_moves [OF nx t]]
  have nth: "wpcs s' ! i = wpcs s ! i" if "i \<noteq> t" for i
    using that by (subst w_moves [OF nx t]) simp
  have b: "0 \<le> cnt inside_w s" "0 \<le> cnt failing_w s" "0 \<le> cnt last_left s" by (rule cnt_bounds)+
  have r: "wrequests s = cnt inside_w s + cnt failing_w s - cnt down s * (2 ^ 62 - 1)"
    "0 \<le> cnt inside_w s + cnt failing_w s" "cnt inside_w s + cnt failing_w s < 2 ^ 61"
    using w_ranges(1,2,4) [OF inv] by (simp_all add: counted_split)
  have pos: "P (wpcs s ! t) \<Longrightarrow> cnt P s > 0" for P using t unfolding cnt_pos by blast
  show ?thesis
  proof (cases "cnt down s = 0")
    case True
    have nd: "\<not> down (wpcs s ! t)" using pos [of down] True by auto
    have z: "cnt failing_w s = 0" "cnt last_left s = 0" "\<And>i j. i < length (wpcs s) \<Longrightarrow> wpcs s ! i = SSub j \<Longrightarrow> wshutdownThread s = Some i"
      using fs True by (auto simp: w_first_def)
    have q: "\<not> failing_w (wpcs s ! t)" "\<not> last_left (wpcs s ! t)" using pos [of failing_w] pos [of last_left] z(1,2) by auto
    have sub: "wshutdownThread s' = Some i" if i: "i < length (wpcs s)" "wpcs s' ! i = SSub j" for i j
    proof (cases "i = t")
      case True
      then show ?thesis using n t i(2) by (cases "wpcs s ! t") (auto simp: w_ops split: w_splits)
    next
      case False
      then have "wpcs s ! i = SSub j" using i nth by simp
      moreover from this have "locked (wpcs s ! i)" by simp
      then have "\<not> locked (wpcs s ! t)" using inv i(1) t False by (auto simp: w_inv_def)
      ultimately show ?thesis using z(3) [OF i(1)] n t q nd by (cases "wpcs s ! t") (auto simp: w_ops split: w_splits)
    qed
    have "cnt failing_w s' = 0 \<and> cnt last_left s' = 0" if "\<not> down (wpcs s' ! t)"
      using n t q nd that z(1,2) r True pos [of inside_w] pos [of counted] unfolding k
      by (cases "wpcs s ! t") (auto simp: w_ops half_max split: w_splits)
    moreover have "cnt last_left s' > 0 \<or> wshutdownThread s' = None \<longrightarrow> cnt inside_w s' = 0" if "down (wpcs s' ! t)"
      using n t nd that z(1,2) z(3) [OF t] r True unfolding k
      by (cases "wpcs s ! t") (auto simp: w_ops split: w_splits)
    ultimately show ?thesis using sub nd True w_length [OF nx t] by (auto simp: w_first_def k [of down])
  next
    case False
    then have one: "cnt down s = 1" using w_ranges(3) [OF inv] by simp
    then have dn: "down (wpcs s' ! t) = down (wpcs s ! t)"
    proof -
      have "\<not> checked (wpcs s ! t)" using inv t one by (auto simp: w_inv_def)
      then show ?thesis using n t ns by (cases "wpcs s ! t") (auto simp: w_ops split: w_splits)
    qed
    have z: "cnt last_left s > 0 \<or> wshutdownThread s = None \<longrightarrow> cnt inside_w s = 0" using fs one by (auto simp: w_first_def)
    have nc: "\<not> checked (wpcs s ! t)" using inv t one by (auto simp: w_inv_def)
    have neg: "wrequests s < 0" using w_ranges(5) [OF inv] one by simp
    have i: "\<not> inside_w (wpcs s' ! t)" using n t neg by (cases "wpcs s ! t") (auto simp: w_ops split: w_splits)
    have l: "last_left (wpcs s ! t) \<or> wshutdownThread s = None \<or> (inside_w (wpcs s ! t) \<or> failing_w (wpcs s ! t)) \<and> wrequests s = - (2 ^ 62 - 1) + 1"
      if "last_left (wpcs s' ! t)"
      using that n t nc by (cases "wpcs s ! t") (auto simp: w_ops half_max split: w_splits)
    have id: "wshutdownThread s = None \<or> last_left (wpcs s ! t)" if "wshutdownThread s' = None"
      using that n t nc by (cases "wpcs s ! t") (auto simp: w_ops split: w_splits)
    have lst: "cnt inside_w s - of_bool (inside_w (wpcs s ! t)) = 0"
      if "inside_w (wpcs s ! t) \<or> failing_w (wpcs s ! t)" "wrequests s = - (2 ^ 62 - 1) + 1"
      using that r(1) b(1,2) one pos [of inside_w] pos [of failing_w] by auto
    have zero: "cnt inside_w s - of_bool (inside_w (wpcs s ! t)) = 0" if "cnt inside_w s = 0" using that pos [of inside_w] by auto
    have "cnt last_left s' > 0 \<Longrightarrow> cnt last_left s > 0 \<or> last_left (wpcs s' ! t)" 
      using k [of last_left] by (cases "last_left (wpcs s ! t)"; cases "last_left (wpcs s' ! t)"; simp)
    then have "cnt last_left s' > 0 \<or> wshutdownThread s' = None \<longrightarrow> cnt inside_w s - of_bool (inside_w (wpcs s ! t)) = 0"
      using l id lst zero z pos [of last_left] by blast
    then have "cnt last_left s' > 0 \<or> wshutdownThread s' = None \<longrightarrow> cnt inside_w s' = 0" using k [of inside_w] i by simp
    then show ?thesis using one dn by (auto simp: w_first_def k [of down])
  qed
qed

interpretation first_stop: invariant_steps "w_step False" "\<lambda>s. w_inv s \<and> w_first s"
proof
  fix s s' assume s: "w_inv s \<and> w_first s" "w_step False s s'"
  show "w_inv s' \<and> w_first s'" using w_inv_step [OF _ s(2)] first_step [OF _ _ s(2)] s(1) by simp
qed

text \<open>
  In an object that was not restarted, a \<^verbatim>\<open>stop\<close> or a \<^verbatim>\<open>shutdown\<close> that returned 0 has waited for all
  requests: nobody is inside.
\<close>

theorem first_stop_excludes_requests:
  assumes "n < 2 ^ 61" "(w_step False)\<^sup>*\<^sup>* (RequestCountWithStop_new n) s" "t < length (wpcs s)" "wpcs s ! t = SDone k"
  shows "\<forall>u < length (wpcs s). wpcs s ! u \<noteq> WIn"
proof -
  have "w_first (RequestCountWithStop_new n)" by (auto simp: w_first_def RequestCountWithStop_new_def cnt_def)
  then have fs: "w_inv s" "w_first s" using first_stop.steps_inv [OF assms(2)] w_inv_new [OF assms(1)] by blast+
  have "cnt down s = 1" by (rule down_one [OF fs(1) assms(3)]) (simp add: assms(4))
  moreover have "cnt last_left s > 0" unfolding cnt_pos using assms(3,4) by (metis last_left.simps(5))
  ultimately have "\<not> cnt inside_w s > 0" using fs(2) by (simp add: w_first_def)
  then show ?thesis unfolding cnt_pos by (metis inside_w.simps(1))
qed

theorem first_stop_excludes_requests_witness:
  "\<exists>s. (w_step False)\<^sup>*\<^sup>* (RequestCountWithStop_new 2) s \<and> wpcs s ! 0 = SDone Stop \<and> (\<forall>u < length (wpcs s). wpcs s ! u \<noteq> WIn)"
proof -
  let ?xs = "(Call_enter, 1) # replicate 7 (Call_stop, 0) @ replicate 3 (Call_enter, 1) @ replicate 2 (Call_stop, 0)"
  obtain s where s: "w_run ?xs (RequestCountWithStop_new 2) = Some s" "wpcs s = [SDone Stop, WIdle]"
    by (simp add: w_exec numeral_eq_Suc)
  have "no_restart ?xs (RequestCountWithStop_new 2)" by (simp add: w_exec numeral_eq_Suc)
  then have r: "(w_step False)\<^sup>*\<^sup>* (RequestCountWithStop_new 2) s"
    by (intro w_run_steps [OF s(1)]) (auto simp: RequestCountWithStop_new_def)
  have "\<forall>u < length (wpcs s). wpcs s ! u \<noteq> WIn"
    by (rule first_stop_excludes_requests [OF _ r, of 0 Stop]) (use s(2) in simp_all)
  moreover have "wpcs s ! 0 = SDone Stop" using s(2) by simp
  ultimately show ?thesis using r by blast
qed

end
