(* ===== verification/IORingBuffer.thy ===== *)
theory IORingBuffer
  imports K42_Prelude
begin

text \<open>
  The byte ring buffer of pipes, sockets and the console, \<^verbatim>\<open>lib/libc/io/IORingBuffer.H\<close> and \<^verbatim>\<open>IORingBuffer.C\<close>. Two
  positions only grow while bytes are written and read; their difference is the number of bytes
  held and their remainders are places in the array. They are set back when the buffer is empty or full.
  The holder of the buffer serialises the operations.
\<close>

section \<open>State and operations\<close>

record ring =
  rlen :: uval
  readNext :: uval
  writeNext :: uval
  rbuf :: "char list"

definition ring_init :: "uval \<Rightarrow> char list \<Rightarrow> ring" where
  "ring_init bSize buffer = \<lparr>rlen = bSize, readNext = 0, writeNext = 0, rbuf = buffer\<rparr>"

definition bytesAvail :: "ring \<Rightarrow> uval" where
  "bytesAvail r = usub (writeNext r) (readNext r)"

definition spaceAvail :: "ring \<Rightarrow> uval" where
  "spaceAvail r = usub (rlen r) (bytesAvail r)"

text \<open>The conversions between signed and unsigned 64-bit values, and \<^verbatim>\<open>memcpy\<close> into the array.\<close>

definition to_uval :: "int \<Rightarrow> uval" where
  "to_uval i = nat (i mod 2 ^ 64)"

definition to_sval :: "uval \<Rightarrow> int" where
  "to_sval u = (if u < 2 ^ 63 then int u else int u - 2 ^ 64)"

definition blit :: "char list \<Rightarrow> nat \<Rightarrow> char list \<Rightarrow> char list" where
  "blit xs i ys = take i xs @ ys @ drop (i + length ys) xs"

definition wrap_full :: "ring \<Rightarrow> ring" where
  "wrap_full r =
     (if bytesAvail r = rlen r
      then r\<lparr>readNext := readNext r mod rlen r, writeNext := uadd (writeNext r mod rlen r) (rlen r)\<rparr> else r)"

definition wrap_empty :: "ring \<Rightarrow> ring" where
  "wrap_empty r = (if bytesAvail r = 0 then r\<lparr>readNext := 0, writeNext := 0\<rparr> else r)"

partial_function (option) put_loop :: "char list \<Rightarrow> nat \<Rightarrow> ring \<Rightarrow> (nat \<times> ring) option" where
  "put_loop data copy r =
     (if length data > 0 \<and> bytesAvail r < rlen r
      then (let end0 = usub (uadd (writeNext r) (rlen r)) (writeNext r mod rlen r);
                end1 = (if uadd (readNext r) (rlen r) < end0 then uadd (readNext r) (rlen r) else end0);
                end2 = (if uadd (writeNext r) (length data) < end1 then uadd (writeNext r) (length data) else end1);
                n = usub end2 (writeNext r)
            in put_loop (drop n data) (copy + n)
                 (r\<lparr>rbuf := blit (rbuf r) (writeNext r mod rlen r) (take n data), writeNext := end2\<rparr>))
      else Some (copy, r))"

definition putData :: "char list \<Rightarrow> ring \<Rightarrow> (nat \<times> ring) option" where
  "putData data r = (case put_loop data 0 r of None \<Rightarrow> None | Some (copy, r') \<Rightarrow> Some (copy, wrap_full r'))"

text \<open>The bytes copied out are those at the front of the caller's buffer.\<close>

partial_function (option) get_loop :: "uval \<Rightarrow> char list \<Rightarrow> ring \<Rightarrow> (char list \<times> ring) option" where
  "get_loop sz data r =
     (if sz > 0 \<and> bytesAvail r > 0
      then (let end0 = usub (uadd (readNext r) (rlen r)) (readNext r mod rlen r);
                end1 = (if writeNext r < end0 then writeNext r else end0);
                end2 = (if uadd (readNext r) sz < end1 then uadd (readNext r) sz else end1);
                n = usub end2 (readNext r)
            in get_loop (usub sz n) (data @ take n (drop (readNext r mod rlen r) (rbuf r))) (r\<lparr>readNext := end2\<rparr>))
      else Some (data, r))"

definition getData :: "uval \<Rightarrow> ring \<Rightarrow> (char list \<times> ring) option" where
  "getData sz r = (case get_loop sz [] r of None \<Rightarrow> None | Some (data, r') \<Rightarrow> Some (data, wrap_empty r'))"

text \<open>
  \<^verbatim>\<open>getDelimData\<close> looks at the caller's buffer, so that is the memory behind its pointer here. The inner loop
  returns whether it was left by the \<^verbatim>\<open>goto\<close>.
\<close>

partial_function (option) delim_inner ::
  "char \<Rightarrow> uval \<Rightarrow> uval \<Rightarrow> (nat \<Rightarrow> char) \<Rightarrow> nat \<Rightarrow> uval \<Rightarrow> ring \<Rightarrow> (bool \<times> (nat \<Rightarrow> char) \<times> nat \<times> uval \<times> ring) option" where
  "delim_inner delim e i data copy sz r =
     (if i < usub e (readNext r)
      then (let data' = data(copy := rbuf r ! (readNext r mod rlen r));
                copy' = copy + 1;
                r' = r\<lparr>readNext := uadd (readNext r) 1\<rparr>;
                sz' = usub sz 1
            in if data' copy' = delim then Some (True, data', copy', sz', r')
               else delim_inner delim e (uadd i 1) data' copy' sz' r')
      else Some (False, data, copy, sz, r))"

partial_function (option) delim_loop ::
  "char \<Rightarrow> (nat \<Rightarrow> char) \<Rightarrow> nat \<Rightarrow> uval \<Rightarrow> ring \<Rightarrow> ((nat \<Rightarrow> char) \<times> nat \<times> ring) option" where
  "delim_loop delim data copy sz r =
     (if sz > 0 \<and> bytesAvail r > 0
      then (let end0 = usub (uadd (readNext r) (rlen r)) (readNext r mod rlen r);
                end1 = (if writeNext r < end0 then writeNext r else end0);
                end2 = (if uadd (readNext r) sz < end1 then uadd (readNext r) sz else end1)
            in Option.bind (delim_inner delim end2 0 data copy sz r)
                 (\<lambda>(left, data', copy', sz', r'). if left then Some (data', copy', r') else delim_loop delim data' copy' sz' r'))
      else Some (data, copy, r))"

definition getDelimData :: "char \<Rightarrow> (nat \<Rightarrow> char) \<Rightarrow> uval \<Rightarrow> ring \<Rightarrow> ((nat \<Rightarrow> char) \<times> nat \<times> ring) option" where
  "getDelimData delim data sz r =
     (case delim_loop delim data 0 sz r of None \<Rightarrow> None | Some (data', copy, r') \<Rightarrow> Some (data', copy, wrap_empty r'))"

text \<open>
  The calls that give out a place in the array: its index and the number of bytes, a signed value. A \<^verbatim>\<open>tassert\<close>
  that fails is \<^const>\<open>None\<close>.
\<close>

definition reserveSpace :: "int \<Rightarrow> ring \<Rightarrow> (nat \<times> int) option" where
  "reserveSpace sz r =
     (let p = writeNext r mod rlen r;
          sz1 = (if sz > to_sval (spaceAvail r) \<or> sz = -1 then to_sval (spaceAvail r) else sz);
          sz2 = (if uadd (writeNext r) (to_uval sz1) \<ge> rlen r then to_sval (usub (rlen r) (writeNext r)) else sz1)
      in if spaceAvail r \<noteq> 0 \<and> sz2 = 0 then None else Some (p, sz2))"

definition commitSpace :: "int \<Rightarrow> ring \<Rightarrow> ring" where
  "commitSpace sz r =
     (let sz1 = (if sz > to_sval (spaceAvail r) \<or> sz = -1 then to_sval (spaceAvail r) else sz)
      in wrap_full (r\<lparr>writeNext := uadd (writeNext r) (to_uval sz1)\<rparr>))"

definition peekBytes :: "int \<Rightarrow> ring \<Rightarrow> nat \<times> int" where
  "peekBytes bytes r =
     (let end0 = usub (uadd (readNext r) (rlen r)) (readNext r mod rlen r);
          p = readNext r mod rlen r;
          b1 = (if to_sval (bytesAvail r) < bytes \<or> bytes = -1 then to_sval (bytesAvail r) else bytes);
          end1 = (if writeNext r < end0 then writeNext r else end0);
          b2 = (if usub end1 (readNext r) < to_uval b1 then to_sval (usub end1 (readNext r)) else b1)
      in (p, b2))"

definition consumeBytes :: "int \<Rightarrow> ring \<Rightarrow> ring" where
  "consumeBytes sz r =
     (let sz1 = (if sz > to_sval (bytesAvail r) \<or> sz = -1 then to_sval (bytesAvail r) else sz)
      in wrap_empty (r\<lparr>readNext := uadd (readNext r) (to_uval sz1)\<rparr>))"

definition unPutData :: "int \<Rightarrow> ring \<Rightarrow> nat \<times> int \<times> ring" where
  "unPutData len r =
     (let len1 = (if len < 0 \<or> to_sval (bytesAvail r) < len then to_sval (bytesAvail r) else len);
          bytes_to_end = usub (rlen r) (readNext r mod rlen r);
          rest = usub (bytesAvail r) bytes_to_end;
          len2 = (if rest < to_uval len1 then to_sval rest else len1);
          p = usub (writeNext r) (to_uval len2) mod rlen r
      in (p, len2, wrap_empty (r\<lparr>writeNext := usub (writeNext r) (to_uval len2)\<rparr>)))"

section \<open>The bytes held\<close>

definition contents_at :: "nat \<Rightarrow> char list \<Rightarrow> nat \<Rightarrow> nat \<Rightarrow> char list" where
  "contents_at l b rd n = map (\<lambda>i. b ! ((rd + i) mod l)) [0..<n]"

definition bytes_held :: "ring \<Rightarrow> char list" where
  "bytes_held r = contents_at (rlen r) (rbuf r) (readNext r) (writeNext r - readNext r)"

definition ring_ok :: "ring \<Rightarrow> bool" where
  "ring_ok r \<longleftrightarrow> 0 < rlen r \<and> rlen r < 2 ^ 62 \<and> length (rbuf r) = rlen r \<and> readNext r \<le> writeNext r \<and>
     writeNext r \<le> readNext r + rlen r \<and> writeNext r < 2 ^ 63"

lemma ring_avail: "ring_ok r \<Longrightarrow> bytesAvail r = writeNext r - readNext r"
  by (simp add: ring_ok_def bytesAvail_def uval_simps)

lemma ring_space: "ring_ok r \<Longrightarrow> spaceAvail r = rlen r - (writeNext r - readNext r)"
proof -
  assume r: "ring_ok r"
  then have "writeNext r - readNext r \<le> rlen r" "rlen r < 2 ^ 64" by (auto simp: ring_ok_def)
  then show ?thesis unfolding spaceAvail_def ring_avail [OF r] by (rule usub_nowrap)
qed

lemma length_held: "length (bytes_held r) = writeNext r - readNext r"
  by (simp add: bytes_held_def contents_at_def)

lemma blit_length: "i + length ys \<le> length xs \<Longrightarrow> length (blit xs i ys) = length xs"
  by (simp add: blit_def)

lemma blit_nth:
  "i + length ys \<le> length xs \<Longrightarrow> k < length xs \<Longrightarrow>
     blit xs i ys ! k = (if i \<le> k \<and> k < i + length ys then ys ! (k - i) else xs ! k)"
  by (auto simp: blit_def nth_append)

text \<open>Places of the array that are less than its length apart are different.\<close>

lemma places_differ:
  assumes "(a :: nat) < b" "b - a < l"
  shows "a mod l \<noteq> b mod l"
proof
  assume "a mod l = b mod l"
  then have "l dvd b - a" using assms(1) by (metis less_imp_le_nat mod_eq_dvd_iff_nat)
  then show False using assms dvd_imp_le [of l "b - a"] by simp
qed

lemma place_plus: "(w :: nat) mod l + j < l \<Longrightarrow> (w + j) mod l = w mod l + j"
  by (metis mod_add_left_eq mod_less)

lemma held_append:
  assumes b: "length b = l" "rd \<le> w" "w - rd + length ys \<le> l" "w mod l + length ys \<le> l"
  shows "contents_at l (blit b (w mod l) ys) rd (w - rd + length ys) = contents_at l b rd (w - rd) @ ys"
proof (rule nth_equalityI)
  fix i assume "i < length (contents_at l (blit b (w mod l) ys) rd (w - rd + length ys))"
  then have i: "i < w - rd + length ys" by (simp add: contents_at_def)
  then have l: "0 < l" using b(3) by simp
  then have k: "(rd + i) mod l < l" by simp
  note bn = blit_nth [of "w mod l" ys b "(rd + i) mod l"]
  have lhs: "contents_at l (blit b (w mod l) ys) rd (w - rd + length ys) ! i = blit b (w mod l) ys ! ((rd + i) mod l)"
    using i by (simp add: contents_at_def)
  show "contents_at l (blit b (w mod l) ys) rd (w - rd + length ys) ! i = (contents_at l b rd (w - rd) @ ys) ! i"
  proof (cases "i < w - rd")
    case True
    have "(rd + i) mod l \<noteq> w mod l + j" if j: "j < length ys" for j
    proof -
      have "(w + j) mod l = w mod l + j" by (rule place_plus) (use b(4) j in simp)
      then show ?thesis using places_differ [of "rd + i" "w + j" l] True b(2,3) j by simp
    qed
    then have "\<not> (w mod l \<le> (rd + i) mod l \<and> (rd + i) mod l < w mod l + length ys)"
      by (metis le_Suc_ex nat_add_left_cancel_less)
    then show ?thesis using bn k b(1,4) True lhs by (auto simp: contents_at_def nth_append)
  next
    case False
    define j where "j = i - (w - rd)"
    have j: "j < length ys" "rd + i = w + j" using False i b(2) by (auto simp: j_def)
    then have p: "(rd + i) mod l = w mod l + j" using place_plus [of w l j] b(4) by simp
    have "blit b (w mod l) ys ! (w mod l + j) = ys ! j" using bn k b(1,4) j(1) unfolding p by simp
    then show ?thesis using lhs False unfolding p by (simp add: contents_at_def nth_append j_def)
  qed
qed (simp add: contents_at_def)

lemma held_split: "n \<le> m \<Longrightarrow> contents_at l b rd m = contents_at l b rd n @ contents_at l b (rd + n) (m - n)"
proof -
  assume "n \<le> m"
  then have "contents_at l b rd m ! i = (contents_at l b rd n @ contents_at l b (rd + n) (m - n)) ! i" if "i < m" for i
    using that by (cases "i < n") (simp_all add: contents_at_def nth_append)
  then show ?thesis using \<open>n \<le> m\<close> by (intro nth_equalityI) (simp_all add: contents_at_def)
qed

lemma held_contiguous:
  assumes "length b = l" "rd mod l + n \<le> l"
  shows "contents_at l b rd n = take n (drop (rd mod l) b)"
  using assms by (intro nth_equalityI) (auto simp: contents_at_def place_plus)

lemma held_mod: "contents_at l b (rd mod l) n = contents_at l b rd n"
  by (simp add: contents_at_def mod_add_left_eq)

section \<open>Writing and reading\<close>

definition put_chunk :: "nat \<Rightarrow> char list \<Rightarrow> ring \<Rightarrow> ring" where
  "put_chunk n data r = r\<lparr>rbuf := blit (rbuf r) (writeNext r mod rlen r) (take n data), writeNext := writeNext r + n\<rparr>"

lemma put_chunk_ok:
  assumes r: "ring_ok r" and n: "n \<le> length data" "n \<le> rlen r - (writeNext r - readNext r)" "writeNext r mod rlen r + n \<le> rlen r"
    "writeNext r + n < 2 ^ 63"
  shows "ring_ok (put_chunk n data r)" "bytes_held (put_chunk n data r) = bytes_held r @ take n data"
proof -
  have l: "length (take n data) = n" using n(1) by simp
  have len: "length (rbuf r) = rlen r" "readNext r \<le> writeNext r" "writeNext r - readNext r \<le> rlen r" using r by (auto simp: ring_ok_def)
  have "length (blit (rbuf r) (writeNext r mod rlen r) (take n data)) = rlen r"
    using blit_length [of "writeNext r mod rlen r" "take n data" "rbuf r"] len n(3) l by simp
  then show "ring_ok (put_chunk n data r)" using r n len(3) by (auto simp: ring_ok_def put_chunk_def)
  have "writeNext r + n - readNext r = writeNext r - readNext r + length (take n data)" using len(2) l by simp
  then show "bytes_held (put_chunk n data r) = bytes_held r @ take n data"
    using held_append [OF len(1,2), of "take n data"] n(2,3) l len(3)
    by (simp add: bytes_held_def put_chunk_def)
qed

lemma chunk_end:
  assumes "M < l" "rd \<le> w" "w \<le> rd + l"
  shows "(if w + d < (if rd + l < w + (l - M) then rd + l else w + (l - M)) then w + d else (if rd + l < w + (l - M) then rd + l else w + (l - M)))
    = w + min (l - M) (min (l - (w - rd)) (d :: nat))"
  using assms by (auto simp: min_def)

text \<open>One round of the loop writes up to the end of the array, of the space or of the data.\<close>

lemma put_loop_round:
  assumes r: "ring_ok r" and room: "writeNext r + rlen r + length data < 2 ^ 63"
    and n: "n = min (rlen r - writeNext r mod rlen r) (min (rlen r - (writeNext r - readNext r)) (length data))"
  shows "put_loop data copy r =
    (if length data > 0 \<and> writeNext r - readNext r < rlen r then put_loop (drop n data) (copy + n) (put_chunk n data r) else Some (copy, r))"
proof -
  have b: "0 < rlen r" "readNext r \<le> writeNext r" "writeNext r \<le> readNext r + rlen r" using r by (auto simp: ring_ok_def)
  have m: "writeNext r mod rlen r < rlen r" using b(1) by simp
  have e: "usub (uadd (writeNext r) (rlen r)) (writeNext r mod rlen r) = writeNext r + (rlen r - writeNext r mod rlen r)"
    "uadd (readNext r) (rlen r) = readNext r + rlen r" "uadd (writeNext r) (length data) = writeNext r + length data"
    using room b m by (simp_all add: uval_simps)
  define e2 where "e2 = (if writeNext r + length data < (if readNext r + rlen r < writeNext r + (rlen r - writeNext r mod rlen r) then readNext r + rlen r else writeNext r + (rlen r - writeNext r mod rlen r)) then writeNext r + length data else (if readNext r + rlen r < writeNext r + (rlen r - writeNext r mod rlen r) then readNext r + rlen r else writeNext r + (rlen r - writeNext r mod rlen r)))"
  have e2: "e2 = writeNext r + n" unfolding e2_def n by (rule chunk_end [OF m b(2,3)])
  have "n \<le> length data" unfolding n by simp
  then have u: "usub e2 (writeNext r) = n" unfolding e2 using room usub_nowrap [of "writeNext r" "writeNext r + n"] by simp
  show ?thesis
    by (subst put_loop.simps) (unfold e ring_avail [OF r] Let_def e2_def [symmetric] u, simp add: e2 put_chunk_def)
qed

lemma put_loop_ok:
  assumes "ring_ok r" "writeNext r + rlen r + length data < 2 ^ 63"
    "k = min (length data) (rlen r - (writeNext r - readNext r))"
  shows "\<exists>r'. put_loop data copy r = Some (copy + k, r') \<and> ring_ok r' \<and> rlen r' = rlen r \<and> readNext r' = readNext r \<and>
     writeNext r' = writeNext r + k \<and> bytes_held r' = bytes_held r @ take k data"
  using assms
proof (induction "length data" arbitrary: data copy r k rule: less_induct)
  case less
  note r = less.prems(1)
  have b: "0 < rlen r" "readNext r \<le> writeNext r" "writeNext r \<le> readNext r + rlen r" using r by (auto simp: ring_ok_def)
  have m: "writeNext r mod rlen r < rlen r" using b(1) by simp
  define n where "n = min (rlen r - writeNext r mod rlen r) (min (rlen r - (writeNext r - readNext r)) (length data))"
  have nb: "n \<le> length data" "n \<le> rlen r - (writeNext r - readNext r)" "writeNext r mod rlen r + n \<le> rlen r"
    using m by (auto simp: n_def)
  note step = put_loop_round [OF r less.prems(2) n_def, of copy]
  show ?case
  proof (cases "length data > 0 \<and> writeNext r - readNext r < rlen r")
    case True
    let ?r = "put_chunk n data r" and ?d = "drop n data"
    have n: "0 < n" using True m by (simp add: n_def)
    have ok: "ring_ok ?r" "bytes_held ?r = bytes_held r @ take n data"
      by (rule put_chunk_ok [OF r nb]; use less.prems(2) nb(1) in linarith)+
    have f: "rlen ?r = rlen r" "readNext ?r = readNext r" "writeNext ?r = writeNext r + n" by (simp_all add: put_chunk_def)
    define k' where "k' = min (length ?d) (rlen ?r - (writeNext ?r - readNext ?r))"
    have l: "length ?d < length data" using n True by simp
    have rm: "writeNext ?r + rlen ?r + length ?d < 2 ^ 63" using less.prems(2) nb(1) f by simp
    have k: "k = n + k'" using less.prems(3) nb b unfolding k'_def f length_drop by linarith
    from less.hyps [OF l ok(1) rm k'_def, of "copy + n"] obtain r' where r': "put_loop ?d (copy + n) ?r = Some (copy + n + k', r')"
      "ring_ok r'" "rlen r' = rlen r" "readNext r' = readNext r" "writeNext r' = writeNext r + n + k'"
      "bytes_held r' = bytes_held ?r @ take k' ?d"
      unfolding f by blast
    then have "bytes_held r' = bytes_held r @ take k data" using ok(2) k by (simp add: take_add)
    moreover have "put_loop data copy r = Some (copy + k, r')" using step True r'(1) k by (simp add: add.assoc)
    ultimately show ?thesis using r'(2-5) k by (intro exI [of _ r']) simp
  next
    case False
    then have "k = 0" using less.prems(3) by auto
    then show ?thesis using step False r by (intro exI [of _ r]) auto
  qed
qed

lemma wrap_full_ok:
  assumes "ring_ok r"
  shows "ring_ok (wrap_full r)" "bytes_held (wrap_full r) = bytes_held r" "rlen (wrap_full r) = rlen r"
    "writeNext (wrap_full r) \<le> writeNext r"
proof -
  have b: "0 < rlen r" "rlen r < 2 ^ 62" "length (rbuf r) = rlen r" "readNext r \<le> writeNext r" "writeNext r < 2 ^ 63"
    using assms by (auto simp: ring_ok_def)
  have m: "writeNext r mod rlen r < rlen r" "writeNext r mod rlen r \<le> writeNext r" "readNext r mod rlen r \<le> readNext r" using b(1) by simp_all
  have u: "uadd (writeNext r mod rlen r) (rlen r) = writeNext r mod rlen r + rlen r" using m b(2) by (simp add: uval_simps)
  have e: "writeNext r mod rlen r = readNext r mod rlen r" "writeNext r = readNext r + rlen r" if "bytesAvail r = rlen r"
  proof -
    show w: "writeNext r = readNext r + rlen r" using that b(4) by (simp add: ring_avail [OF assms])
    show "writeNext r mod rlen r = readNext r mod rlen r" unfolding w by simp
  qed
  show "rlen (wrap_full r) = rlen r" by (simp add: wrap_full_def)
  show "ring_ok (wrap_full r)" using assms b m u e by (auto simp: wrap_full_def ring_ok_def)
  show "bytes_held (wrap_full r) = bytes_held r"
    using u e by (auto simp: wrap_full_def bytes_held_def held_mod)
  show "writeNext (wrap_full r) \<le> writeNext r" using u e m by (auto simp: wrap_full_def)
qed

lemma wrap_empty_ok:
  assumes "ring_ok r"
  shows "ring_ok (wrap_empty r)" "bytes_held (wrap_empty r) = bytes_held r" "rlen (wrap_empty r) = rlen r"
    "writeNext (wrap_empty r) \<le> writeNext r"
  using assms by (auto simp: wrap_empty_def ring_avail ring_ok_def bytes_held_def contents_at_def)

lemma putData_ok:
  assumes "ring_ok r" "writeNext r + rlen r + length data < 2 ^ 63"
    "k = min (length data) (rlen r - length (bytes_held r))"
  shows "\<exists>r'. putData data r = Some (k, r') \<and> ring_ok r' \<and> rlen r' = rlen r \<and>
     writeNext r' \<le> writeNext r + length data \<and> bytes_held r' = bytes_held r @ take k data"
proof -
  obtain r' where r': "put_loop data 0 r = Some (k, r')" "ring_ok r'" "rlen r' = rlen r" "writeNext r' = writeNext r + k"
    "bytes_held r' = bytes_held r @ take k data"
    using put_loop_ok [OF assms(1,2) assms(3) [unfolded length_held], of 0] by auto
  have "k \<le> length data" using assms(3) by simp
  then show ?thesis using wrap_full_ok [OF r'(2)] r' by (intro exI [of _ "wrap_full r'"]) (simp add: putData_def)
qed

definition get_chunk :: "nat \<Rightarrow> ring \<Rightarrow> ring" where
  "get_chunk n r = r\<lparr>readNext := readNext r + n\<rparr>"

lemma get_chunk_ok:
  assumes r: "ring_ok r" and n: "n \<le> writeNext r - readNext r"
  shows "ring_ok (get_chunk n r)" "bytes_held r = contents_at (rlen r) (rbuf r) (readNext r) n @ bytes_held (get_chunk n r)"
    "bytes_held (get_chunk n r) = drop n (bytes_held r)"
proof -
  show "ring_ok (get_chunk n r)" using r n by (auto simp: ring_ok_def get_chunk_def)
  show s: "bytes_held r = contents_at (rlen r) (rbuf r) (readNext r) n @ bytes_held (get_chunk n r)"
    using held_split [OF n] by (simp add: bytes_held_def get_chunk_def)
  show "bytes_held (get_chunk n r) = drop n (bytes_held r)" unfolding s by (simp add: contents_at_def)
qed

lemma read_end:
  assumes "M < l" "rd \<le> w"
  shows "(if rd + d < (if w < rd + (l - M) then w else rd + (l - M)) then rd + d else (if w < rd + (l - M) then w else rd + (l - M)))
    = rd + min (l - M) (min (w - rd) (d :: nat))"
  using assms by (auto simp: min_def)

lemma read_ends:
  assumes r: "ring_ok r" and room: "readNext r + rlen r + sz < 2 ^ 64"
  shows "usub (uadd (readNext r) (rlen r)) (readNext r mod rlen r) = readNext r + (rlen r - readNext r mod rlen r)"
    "uadd (readNext r) sz = readNext r + sz"
proof -
  have "readNext r mod rlen r \<le> rlen r" using r by (simp add: ring_ok_def less_imp_le)
  then show "usub (uadd (readNext r) (rlen r)) (readNext r mod rlen r) = readNext r + (rlen r - readNext r mod rlen r)"
    "uadd (readNext r) sz = readNext r + sz"
    using room by (simp_all add: uval_simps)
qed

lemma get_loop_round:
  assumes r: "ring_ok r" and room: "readNext r + rlen r + sz < 2 ^ 64"
    and n: "n = min (rlen r - readNext r mod rlen r) (min (writeNext r - readNext r) sz)"
  shows "get_loop sz data r =
    (if sz > 0 \<and> writeNext r - readNext r > 0
     then get_loop (sz - n) (data @ contents_at (rlen r) (rbuf r) (readNext r) n) (get_chunk n r) else Some (data, r))"
proof -
  have b: "0 < rlen r" "readNext r \<le> writeNext r" "length (rbuf r) = rlen r" using r by (auto simp: ring_ok_def)
  have m: "readNext r mod rlen r < rlen r" using b(1) by simp
  have nb: "n \<le> sz" "readNext r mod rlen r + n \<le> rlen r" using m n by auto
  have u: "usub (readNext r + n) (readNext r) = n" "usub sz n = sz - n"
    using room nb(1) usub_nowrap [of "readNext r" "readNext r + n"] usub_nowrap [OF nb(1)] by simp_all
  show ?thesis
    by (subst get_loop.simps)
      (simp only: read_ends [OF r room] ring_avail [OF r] Let_def read_end [OF m b(2)] n [symmetric] u
        held_contiguous [OF b(3) nb(2)] get_chunk_def)
qed

lemma get_loop_ok:
  assumes "ring_ok r" "readNext r + rlen r + sz < 2 ^ 64" "k = min sz (writeNext r - readNext r)"
  shows "get_loop sz data r = Some (data @ take k (bytes_held r), get_chunk k r)"
  using assms
proof (induction sz arbitrary: data r k rule: less_induct)
  case (less sz)
  note r = less.prems(1)
  have b: "0 < rlen r" "readNext r \<le> writeNext r" "length (rbuf r) = rlen r" using r by (auto simp: ring_ok_def)
  have m: "readNext r mod rlen r < rlen r" using b(1) by simp
  define n where "n = min (rlen r - readNext r mod rlen r) (min (writeNext r - readNext r) sz)"
  have nb: "n \<le> sz" "n \<le> writeNext r - readNext r" by (auto simp: n_def)
  note step = get_loop_round [OF r less.prems(2) n_def, of data] and ck = get_chunk_ok [OF r nb(2)]
  show ?case
  proof (cases "sz > 0 \<and> writeNext r - readNext r > 0")
    case True
    have n: "sz - n < sz" using True m by (simp add: n_def)
    have rm: "readNext (get_chunk n r) + rlen (get_chunk n r) + (sz - n) < 2 ^ 64" using less.prems(2) nb(1) by (simp add: get_chunk_def)
    define k' where "k' = min (sz - n) (writeNext (get_chunk n r) - readNext (get_chunk n r))"
    have k: "k = n + k'" using less.prems(3) nb by (simp add: k'_def get_chunk_def)
    have "get_loop (sz - n) (data @ contents_at (rlen r) (rbuf r) (readNext r) n) (get_chunk n r) =
        Some ((data @ contents_at (rlen r) (rbuf r) (readNext r) n) @ take k' (bytes_held (get_chunk n r)), get_chunk k' (get_chunk n r))"
      by (rule less.IH [OF n ck(1) rm k'_def])
    moreover have "contents_at (rlen r) (rbuf r) (readNext r) n @ take k' (bytes_held (get_chunk n r)) = take k (bytes_held r)"
      using ck(2) k by (simp add: contents_at_def)
    moreover have "get_chunk k' (get_chunk n r) = get_chunk k r" using k by (simp add: get_chunk_def add.assoc)
    ultimately show ?thesis using step True by simp
  next
    case False
    then have "k = 0" using less.prems(3) by auto
    then show ?thesis using step False by (auto simp: get_chunk_def)
  qed
qed

lemma getData_ok:
  assumes "ring_ok r" "sz < 2 ^ 62"
  shows "\<exists>r'. getData sz r = Some (take sz (bytes_held r), r') \<and> ring_ok r' \<and> rlen r' = rlen r \<and>
     writeNext r' \<le> writeNext r \<and> bytes_held r' = drop sz (bytes_held r)"
proof -
  let ?k = "min sz (writeNext r - readNext r)"
  have room: "readNext r + rlen r + sz < 2 ^ 64" using assms by (auto simp: ring_ok_def)
  have t: "take ?k (bytes_held r) = take sz (bytes_held r)" "drop ?k (bytes_held r) = drop sz (bytes_held r)"
    using length_held [of r] by (simp_all add: min_def)
  have g: "get_loop sz [] r = Some (take sz (bytes_held r), get_chunk ?k r)"
    using get_loop_ok [OF assms(1) room refl, of "[]"] t(1) by simp
  have c: "ring_ok (get_chunk ?k r)" "bytes_held (get_chunk ?k r) = drop sz (bytes_held r)"
    using get_chunk_ok [OF assms(1), of ?k] t(2) by simp_all
  have "rlen (get_chunk ?k r) = rlen r" "writeNext (get_chunk ?k r) = writeNext r" by (simp_all add: get_chunk_def)
  then show ?thesis using wrap_empty_ok [OF c(1)] c(2) g
    by (intro exI [of _ "wrap_empty (get_chunk ?k r)"]) (simp add: getData_def)
qed

section \<open>Places given out\<close>

lemma to_uval_int: "n < 2 ^ 64 \<Longrightarrow> to_uval (int n) = n"
  by (simp add: to_uval_def)

lemma to_sval_small: "u < 2 ^ 63 \<Longrightarrow> to_sval u = int u"
  by (simp add: to_sval_def)

text \<open>The number of bytes that a signed request means when \<^verbatim>\<open>a\<close> are there; \<^verbatim>\<open>-1\<close> stands for all.\<close>

definition asked :: "int \<Rightarrow> nat \<Rightarrow> nat" where
  "asked i a = (if i = -1 then a else min (nat i) a)"

lemma asked_eq:
  assumes "-1 \<le> i" "a < 2 ^ 63"
  shows "(if i > to_sval a \<or> i = -1 then to_sval a else i) = int (asked i a)" "to_uval (int (asked i a)) = asked i a" "asked i a \<le> a"
proof -
  show "asked i a \<le> a" by (simp add: asked_def)
  then show "to_uval (int (asked i a)) = asked i a" using assms(2) by (intro to_uval_int) simp
  show "(if i > to_sval a \<or> i = -1 then to_sval a else i) = int (asked i a)"
    using assms by (auto simp: asked_def to_sval_small min_def)
qed

lemma ring_small: "ring_ok r \<Longrightarrow> writeNext r - readNext r < 2 ^ 63 \<and> rlen r - (writeNext r - readNext r) < 2 ^ 63"
  by (auto simp: ring_ok_def)

lemma consumeBytes_ok:
  assumes r: "ring_ok r" and i: "-1 \<le> i"
  shows "ring_ok (consumeBytes i r)" "rlen (consumeBytes i r) = rlen r" "writeNext (consumeBytes i r) \<le> writeNext r"
    "bytes_held (consumeBytes i r) = drop (asked i (length (bytes_held r))) (bytes_held r)"
proof -
  let ?k = "asked i (writeNext r - readNext r)"
  note a = asked_eq [OF i, of "writeNext r - readNext r"]
  have sm: "writeNext r - readNext r < 2 ^ 63" using ring_small [OF r] by simp
  have k: "?k \<le> writeNext r - readNext r" by (simp add: asked_def)
  have "uadd (readNext r) ?k = readNext r + ?k" using k r by (auto simp: ring_ok_def uadd_nowrap)
  then have e: "consumeBytes i r = wrap_empty (get_chunk ?k r)"
    unfolding consumeBytes_def Let_def ring_avail [OF r] a(1) [OF sm] a(2) [OF sm] get_chunk_def by simp
  note g = get_chunk_ok [OF r k]
  show "ring_ok (consumeBytes i r)" "rlen (consumeBytes i r) = rlen r" "writeNext (consumeBytes i r) \<le> writeNext r"
    "bytes_held (consumeBytes i r) = drop (asked i (length (bytes_held r))) (bytes_held r)"
    unfolding e using wrap_empty_ok [OF g(1)] g(3) by (simp_all add: get_chunk_def length_held)
qed

lemma peek_end:
  assumes "M < l" "rd \<le> w" "l < 2 ^ 62" "w < 2 ^ 63"
  shows "usub (if w < rd + (l - M) then w else rd + (l - M)) rd = min (w - rd) (l - M)"
  using assms by (auto simp: min_def usub_nowrap)

text \<open>\<^verbatim>\<open>peekBytes\<close> gives out the longest piece in front that is in one place, or as much of it as asked for.\<close>

lemma peekBytes_ok:
  assumes r: "ring_ok r" and i: "-1 \<le> i"
    and n: "n = min (asked i (length (bytes_held r))) (rlen r - readNext r mod rlen r)"
  shows "peekBytes i r = (readNext r mod rlen r, int n)" "take n (drop (readNext r mod rlen r) (rbuf r)) = take n (bytes_held r)"
proof -
  have b: "0 < rlen r" "readNext r \<le> writeNext r" "writeNext r \<le> readNext r + rlen r" "rlen r < 2 ^ 62" "writeNext r < 2 ^ 63" "length (rbuf r) = rlen r"
    using r by (auto simp: ring_ok_def)
  have m: "readNext r mod rlen r < rlen r" using b(1) by simp
  let ?a = "writeNext r - readNext r" and ?M = "readNext r mod rlen r"
  have room: "readNext r + rlen r + 0 < 2 ^ 64" using b by simp
  note e = read_ends(1) [OF r room]
  have u: "usub (if writeNext r < readNext r + (rlen r - ?M) then writeNext r else readNext r + (rlen r - ?M)) (readNext r) = min ?a (rlen r - ?M)"
    by (rule peek_end [OF m b(2,4,5)])
  note a = asked_eq [OF i, of ?a]
  have sm: "?a < 2 ^ 63" "min ?a (rlen r - ?M) < 2 ^ 63" using b by auto
  have "asked i ?a \<le> ?a" by (simp add: asked_def)
  then have "(if min ?a (rlen r - ?M) < asked i ?a then int (min ?a (rlen r - ?M)) else int (asked i ?a)) = int n"
    using n by (auto simp: length_held min_def)
  then show "peekBytes i r = (?M, int n)"
    unfolding peekBytes_def Let_def e u ring_avail [OF r] a(1) [OF sm(1)] a(2) [OF sm(1)] to_sval_small [OF sm(2)] by simp
  have nb: "n \<le> ?a" "?M + n \<le> rlen r" using n \<open>asked i ?a \<le> ?a\<close> m by (auto simp: length_held)
  have "take n (bytes_held r) = contents_at (rlen r) (rbuf r) (readNext r) n"
    using held_split [OF nb(1)] by (simp add: bytes_held_def contents_at_def)
  then show "take n (drop ?M (rbuf r)) = take n (bytes_held r)" using held_contiguous [OF b(6) nb(2)] by simp
qed

text \<open>
  \<^verbatim>\<open>unPutData\<close> takes back bytes from the end, but none from before the last place where the data goes on at the
  front of the array.
\<close>

lemma last_piece:
  assumes r: "ring_ok r" and n: "n \<le> writeNext r - readNext r"
    and one: "(writeNext r - n) mod rlen r + n \<le> rlen r"
  shows "take n (drop ((writeNext r - n) mod rlen r) (rbuf r)) = drop (writeNext r - readNext r - n) (bytes_held r)"
proof -
  have b: "length (rbuf r) = rlen r" "readNext r \<le> writeNext r" using r by (auto simp: ring_ok_def)
  have e: "readNext r + (writeNext r - readNext r - n) = writeNext r - n" using n b(2) by simp
  have "bytes_held r = contents_at (rlen r) (rbuf r) (readNext r) (writeNext r - readNext r - n) @ contents_at (rlen r) (rbuf r) (writeNext r - n) n"
    using held_split [OF diff_le_self [of "writeNext r - readNext r" n], of "rlen r" "rbuf r" "readNext r"]
    unfolding e diff_diff_cancel [OF n] bytes_held_def .
  then show ?thesis using held_contiguous [OF b(1) one] by (simp add: contents_at_def)
qed

definition piece_at_end :: "ring \<Rightarrow> nat" where
  "piece_at_end r = (let a = writeNext r - readNext r; e = rlen r - readNext r mod rlen r in if a < e then a else a - e)"

lemma piece_fits:
  assumes r: "ring_ok r" and n: "n \<le> piece_at_end r"
  shows "n \<le> writeNext r - readNext r" "(writeNext r - n) mod rlen r + n \<le> rlen r"
proof -
  have b: "0 < rlen r" "readNext r \<le> writeNext r" "writeNext r \<le> readNext r + rlen r" using r by (auto simp: ring_ok_def)
  define M where "M = readNext r mod rlen r"
  have M: "M < rlen r" "M \<le> readNext r" "(readNext r - M) mod rlen r = 0" using b(1) by (simp_all add: M_def minus_mod_eq_mult_div)
  show 1: "n \<le> writeNext r - readNext r" using n by (auto simp: piece_at_end_def Let_def split: if_splits)
  show "(writeNext r - n) mod rlen r + n \<le> rlen r"
  proof (cases "writeNext r - readNext r < rlen r - M")
    case True
    have e: "writeNext r - n = readNext r + (writeNext r - readNext r - n)" using 1 b(2) by simp
    have "(writeNext r - n) mod rlen r = M + (writeNext r - readNext r - n)"
      unfolding e M_def by (rule place_plus) (use True M_def 1 in simp)
    then show ?thesis using True 1 by simp
  next
    case False
    then have n': "n \<le> writeNext r - readNext r - (rlen r - M)" using n by (simp add: piece_at_end_def Let_def M_def)
    obtain c where c: "readNext r - M = rlen r * c" using M(3) by (metis mod_eq_0_iff_dvd dvdE)
    define d where "d = writeNext r - readNext r - (rlen r - M) - n"
    have "writeNext r - n = d + rlen r * (c + 1)" using n' False b M c by (simp add: d_def algebra_simps)
    then have "(writeNext r - n) mod rlen r = d mod rlen r" by (metis mod_mult_self2)
    moreover have "d mod rlen r \<le> d" by simp
    moreover have "d + n \<le> rlen r" using n' b M by (simp add: d_def)
    ultimately show ?thesis by linarith
  qed
qed

lemma unPutData_ok:
  assumes r: "ring_ok r" and i: "i < 2 ^ 63"
    and n: "n = min (if i < 0 then length (bytes_held r) else min (nat i) (length (bytes_held r))) (piece_at_end r)"
  shows "\<exists>r'. unPutData i r = ((writeNext r - n) mod rlen r, int n, r') \<and> ring_ok r' \<and> rlen r' = rlen r \<and>
    bytes_held r' = take (length (bytes_held r) - n) (bytes_held r)"
proof -
  let ?a = "writeNext r - readNext r" and ?M = "readNext r mod rlen r"
  have b: "0 < rlen r" "rlen r < 2 ^ 62" "readNext r \<le> writeNext r" "writeNext r \<le> readNext r + rlen r" "writeNext r < 2 ^ 63" using r by (auto simp: ring_ok_def)
  have M: "?M < rlen r" using b(1) by simp
  have bte: "usub (rlen r) ?M = rlen r - ?M" using M b(2) by (simp add: usub_nowrap)
  have sm: "?a < 2 ^ 63" "?a \<le> rlen r" using b by auto
  define w where "w = (if i < 0 then ?a else min (nat i) ?a)"
  have w: "(if i < 0 \<or> to_sval ?a < i then to_sval ?a else i) = int w" "w \<le> ?a"
    using to_sval_small [OF sm(1)] by (auto simp: w_def min_def)
  have tw: "to_uval (int w) = w" using w(2) sm(1) by (intro to_uval_int) simp
  have nw: "n = min w (piece_at_end r)" using n by (simp add: w_def length_held)
  have cut: "(if usub ?a (rlen r - ?M) < w then to_sval (usub ?a (rlen r - ?M)) else int w) = int n"
  proof (cases "?a < rlen r - ?M")
    case True
    have "usub ?a (rlen r - ?M) = ?a + 2 ^ 64 - (rlen r - ?M)" using True b(2) by (simp add: usub_def)
    then have "\<not> usub ?a (rlen r - ?M) < w" using w(2) b(2) by simp
    moreover have "n = w" using nw w(2) True by (simp add: piece_at_end_def)
    ultimately show ?thesis by simp
  next
    case False
    then have u: "usub ?a (rlen r - ?M) = ?a - (rlen r - ?M)" using sm(1) by (intro usub_nowrap) auto
    have "?a - (rlen r - ?M) < 2 ^ 63" using sm(1) by simp
    then show ?thesis unfolding u using nw False to_sval_small by (simp add: piece_at_end_def Let_def min_def)
  qed
  have nb: "n \<le> ?a" using nw w(2) by simp
  then have tn: "to_uval (int n) = n" "usub (writeNext r) n = writeNext r - n"
    using sm(1) b by (auto intro!: to_uval_int simp: usub_nowrap)
  let ?r = "r\<lparr>writeNext := writeNext r - n\<rparr>"
  have ok: "ring_ok ?r" using r nb by (auto simp: ring_ok_def)
  have "bytes_held ?r = take (length (bytes_held r) - n) (bytes_held r)"
    using held_split [of "?a - n" ?a "rlen r" "rbuf r" "readNext r"] nb b(3)
    by (simp add: bytes_held_def contents_at_def diff_diff_left add.commute)
  moreover have "unPutData i r = ((writeNext r - n) mod rlen r, int n, wrap_empty ?r)"
    unfolding unPutData_def Let_def ring_avail [OF r] bte w(1) tw cut tn ..
  ultimately show ?thesis using wrap_empty_ok [OF ok] by (intro exI [of _ "wrap_empty ?r"]) simp
qed

section \<open>Reading up to a delimiter\<close>

definition put_at :: "(nat \<Rightarrow> char) \<Rightarrow> nat \<Rightarrow> char list \<Rightarrow> nat \<Rightarrow> char" where
  "put_at data copy xs = (\<lambda>j. if copy \<le> j \<and> j < copy + length xs then xs ! (j - copy) else data j)"

text \<open>How many of \<^verbatim>\<open>k\<close> bytes are read when the loop stops at the first delimiter in the memory after the byte just stored.\<close>

fun stop_at :: "char \<Rightarrow> (nat \<Rightarrow> char) \<Rightarrow> nat \<Rightarrow> nat \<Rightarrow> nat" where
  "stop_at delim data copy 0 = 0"
| "stop_at delim data copy (Suc k) = (if data (copy + 1) = delim then 1 else Suc (stop_at delim data (copy + 1) k))"

lemma stop_at_cong: "(\<And>j. copy < j \<Longrightarrow> data j = data' j) \<Longrightarrow> stop_at delim data copy k = stop_at delim data' copy k"
  by (induction delim data copy k rule: stop_at.induct) auto

lemma stop_at_le: "stop_at delim data copy k \<le> k"
  by (induction delim data copy k rule: stop_at.induct) auto

lemma put_at_nil [simp]: "put_at data copy [] = data"
  unfolding put_at_def by (rule ext) (auto simp: not_le)

lemma put_at_append: "put_at (put_at data copy xs) (copy + length xs) ys = put_at data copy (xs @ ys)"
  by (rule ext) (auto simp: put_at_def nth_append)

lemma stop_put: "stop_at delim (put_at data copy xs) (copy + length xs) k = stop_at delim data (copy + length xs) k"
  by (rule stop_at_cong) (simp add: put_at_def)

lemma held_first:
  assumes "ring_ok r" "readNext r < writeNext r"
  shows "bytes_held r = rbuf r ! (readNext r mod rlen r) # bytes_held (get_chunk 1 r)"
  using get_chunk_ok(2) [OF assms(1), of 1] assms(2) by (simp add: contents_at_def)

lemma take_held: "t \<le> writeNext r - readNext r \<Longrightarrow> length (take t (bytes_held r)) = t"
  by (simp add: length_held)

lemma delim_inner_ok:
  assumes "ring_ok r" "readNext r \<le> e" "e \<le> writeNext r" "e - readNext r \<le> sz" "sz < 2 ^ 62" "i < 2 ^ 63 + readNext r"
  shows "\<exists>b t. delim_inner delim e i data copy sz r = Some (b, put_at data copy (take t (bytes_held r)), copy + t, sz - t, get_chunk t r) \<and>
    t \<le> e - readNext r \<and> (i < e - readNext r \<longrightarrow> 0 < t) \<and>
    (b \<longrightarrow> (\<forall>k \<ge> t. stop_at delim data copy k = t)) \<and>
    (\<not> b \<longrightarrow> (\<forall>k \<ge> t. stop_at delim data copy k = t + stop_at delim data (copy + t) (k - t)))"
  using assms
proof (induction "e - readNext r" arbitrary: i data copy sz r)
  case 0
  then have "usub e (readNext r) = 0" by (simp add: ring_ok_def usub_nowrap)
  then show ?case using 0 by (subst delim_inner.simps) (auto simp: get_chunk_def)
next
  case (Suc x)
  note r = Suc.prems(1)
  have b: "writeNext r < 2 ^ 63" "readNext r < e" using r Suc.prems(3) Suc.hyps(2) by (auto simp: ring_ok_def)
  have u: "usub e (readNext r) = e - readNext r" "usub sz 1 = sz - 1" "uadd (readNext r) 1 = readNext r + 1"
    using b Suc.prems by (simp_all add: usub_nowrap uadd_nowrap)
  show ?case
  proof (cases "i < e - readNext r")
    case False
    then show ?thesis using u(1) by (subst delim_inner.simps) (auto intro!: exI [of _ False] exI [of _ 0] simp: get_chunk_def)
  next
    case True
    define c where "c = rbuf r ! (readNext r mod rlen r)"
    let ?r = "get_chunk 1 r" and ?d = "data(copy := c)"
    have h: "bytes_held r = c # bytes_held ?r" unfolding c_def by (rule held_first [OF r]) (use b Suc.prems(3) in simp)
    have ok: "ring_ok ?r" by (rule get_chunk_ok(1) [OF r]) (use b Suc.prems(3) in simp)
    have f: "readNext ?r = readNext r + 1" "writeNext ?r = writeNext r" by (simp_all add: get_chunk_def)
    have i1: "uadd i 1 = i + 1" using True b Suc.prems(3) by (simp add: uadd_nowrap)
    have step: "delim_inner delim e i data copy sz r =
       (if data (copy + 1) = delim then Some (True, ?d, copy + 1, sz - 1, ?r) else delim_inner delim e (i + 1) ?d (copy + 1) (sz - 1) ?r)"
      by (subst delim_inner.simps) (unfold u i1 Let_def, simp add: True c_def get_chunk_def)
    have d1: "?d = put_at data copy (take 1 (bytes_held r))" using h by (auto simp: put_at_def)
    show ?thesis
    proof (cases "data (copy + 1) = delim")
      case True
      have "stop_at delim data copy k = 1" if "1 \<le> k" for k using that True by (cases k) auto
      then show ?thesis using step True d1 b(2) by (intro exI [of _ True] exI [of _ 1]) auto
    next
      case False
      have x: "x = e - readNext ?r" using Suc.hyps(2) f by simp
      have pre: "readNext ?r \<le> e" "e \<le> writeNext ?r" "e - readNext ?r \<le> sz - 1" "sz - 1 < 2 ^ 62" "i + 1 < 2 ^ 63 + readNext ?r"
        using b Suc.prems f True by auto
      from Suc.hyps(1) [OF x ok pre, of ?d "copy + 1"] obtain l t where
        t: "delim_inner delim e (i + 1) ?d (copy + 1) (sz - 1) ?r =
             Some (l, put_at ?d (copy + 1) (take t (bytes_held ?r)), copy + 1 + t, sz - 1 - t, get_chunk t ?r)"
        "t \<le> e - readNext ?r"
        "l \<longrightarrow> (\<forall>k \<ge> t. stop_at delim ?d (copy + 1) k = t)"
        "\<not> l \<longrightarrow> (\<forall>k \<ge> t. stop_at delim ?d (copy + 1) k = t + stop_at delim ?d (copy + 1 + t) (k - t))"
        by blast
      have same: "stop_at delim ?d (copy + 1 + j) k = stop_at delim data (copy + 1 + j) k" for j k
        by (rule stop_at_cong) auto
      have "put_at ?d (copy + 1) (take t (bytes_held ?r)) = put_at data copy (take (Suc t) (bytes_held r))"
        using put_at_append [of data copy "[c]" "take t (bytes_held ?r)"] d1 h by simp
      moreover have "get_chunk t ?r = get_chunk (Suc t) r" by (simp add: get_chunk_def)
      ultimately have e: "delim_inner delim e i data copy sz r =
           Some (l, put_at data copy (take (Suc t) (bytes_held r)), copy + Suc t, sz - Suc t, get_chunk (Suc t) r)"
        using step False t(1) by simp
      have S: "stop_at delim data copy k = Suc (stop_at delim data (copy + 1) (k - 1))" if "Suc t \<le> k" for k
        using that False by (cases k) auto
      have "stop_at delim data copy k = Suc t" if "l" "Suc t \<le> k" for k
      proof -
        have "t \<le> k - 1" using that(2) by simp
        then have "stop_at delim ?d (copy + 1) (k - 1) = t" using t(3) that(1) by blast
        then show ?thesis using S [OF that(2)] same [of 0] by simp
      qed
      moreover have "stop_at delim data copy k = Suc t + stop_at delim data (copy + Suc t) (k - Suc t)" if "\<not> l" "Suc t \<le> k" for k
        using S [OF that(2)] t(4) same [of 0] same [of t] that by simp
      moreover have "Suc t \<le> e - readNext r" using t(2) f b(2) by simp
      ultimately show ?thesis using e by (intro exI [of _ l] exI [of _ "Suc t"]) simp
    qed
  qed
qed

lemma delim_loop_ok:
  assumes "ring_ok r" "sz < 2 ^ 62" "k = stop_at delim data copy (min sz (writeNext r - readNext r))"
  shows "delim_loop delim data copy sz r = Some (put_at data copy (take k (bytes_held r)), copy + k, get_chunk k r)"
  using assms
proof (induction sz arbitrary: data copy r k rule: less_induct)
  case (less sz)
  note r = less.prems(1)
  have b: "0 < rlen r" "readNext r \<le> writeNext r" using r by (auto simp: ring_ok_def)
  have m: "readNext r mod rlen r < rlen r" using b(1) by simp
  have room: "readNext r + rlen r + sz < 2 ^ 64" using r less.prems(2) by (auto simp: ring_ok_def)
  define n where "n = min (rlen r - readNext r mod rlen r) (min (writeNext r - readNext r) sz)"
  have nb: "n \<le> sz" "n \<le> writeNext r - readNext r" by (auto simp: n_def)
  have step: "delim_loop delim data copy sz r =
    (if sz > 0 \<and> writeNext r - readNext r > 0
     then Option.bind (delim_inner delim (readNext r + n) 0 data copy sz r)
       (\<lambda>(left, data', copy', sz', r'). if left then Some (data', copy', r') else delim_loop delim data' copy' sz' r')
     else Some (data, copy, r))"
    by (subst delim_loop.simps)
      (simp only: read_ends [OF r room] ring_avail [OF r] Let_def read_end [OF m b(2)] n_def [symmetric])
  show ?case
  proof (cases "sz > 0 \<and> writeNext r - readNext r > 0")
    case True
    have n: "0 < n" using True m by (simp add: n_def)
    have "\<exists>l t. delim_inner delim (readNext r + n) 0 data copy sz r = Some (l, put_at data copy (take t (bytes_held r)), copy + t, sz - t, get_chunk t r) \<and>
      t \<le> readNext r + n - readNext r \<and> (0 < readNext r + n - readNext r \<longrightarrow> 0 < t) \<and>
      (l \<longrightarrow> (\<forall>k \<ge> t. stop_at delim data copy k = t)) \<and>
      (\<not> l \<longrightarrow> (\<forall>k \<ge> t. stop_at delim data copy k = t + stop_at delim data (copy + t) (k - t)))"
      by (rule delim_inner_ok [OF r]) (use nb less.prems(2) b in auto)
    then obtain l t where t: "delim_inner delim (readNext r + n) 0 data copy sz r = Some (l, put_at data copy (take t (bytes_held r)), copy + t, sz - t, get_chunk t r)"
      "t \<le> n" "0 < t" "l \<longrightarrow> (\<forall>k \<ge> t. stop_at delim data copy k = t)"
      "\<not> l \<longrightarrow> (\<forall>k \<ge> t. stop_at delim data copy k = t + stop_at delim data (copy + t) (k - t))"
      using n by auto
    have tb: "t \<le> min sz (writeNext r - readNext r)" using t(2) nb by simp
    show ?thesis
    proof (cases l)
      case True
      then have "k = t" using t(4) tb less.prems(3) by blast
      then show ?thesis using step t(1) True \<open>sz > 0 \<and> _\<close> by simp
    next
      case False
      let ?d = "put_at data copy (take t (bytes_held r))" and ?r = "get_chunk t r"
      have tt: "t \<le> writeNext r - readNext r" "length (take t (bytes_held r)) = t" using tb take_held [of t r] by auto
      note ck = get_chunk_ok [OF r tt(1)]
      define k' where "k' = stop_at delim ?d (copy + t) (min (sz - t) (writeNext ?r - readNext ?r))"
      have "min (sz - t) (writeNext ?r - readNext ?r) = min sz (writeNext r - readNext r) - t" by (simp add: get_chunk_def)
      then have "k' = stop_at delim data (copy + t) (min sz (writeNext r - readNext r) - t)"
        unfolding k'_def using stop_put [of delim data copy "take t (bytes_held r)"] tt(2) by simp
      then have k: "k = t + k'" using t(5) False tb less.prems(3) by blast
      have "sz - t < sz" "sz - t < 2 ^ 62" using t(3) True less.prems(2) by auto
      then have "delim_loop delim ?d (copy + t) (sz - t) ?r = Some (put_at ?d (copy + t) (take k' (bytes_held ?r)), copy + t + k', get_chunk k' ?r)"
        using less.IH ck(1) k'_def by blast
      moreover have "put_at ?d (copy + t) (take k' (bytes_held ?r)) = put_at data copy (take k (bytes_held r))"
        using put_at_append [of data copy "take t (bytes_held r)" "take k' (bytes_held ?r)"] tt(2) ck(3) k by (simp add: take_add)
      moreover have "get_chunk k' ?r = get_chunk k r" using k by (simp add: get_chunk_def add.assoc)
      ultimately show ?thesis using step t(1) False True k by (simp add: add.assoc)
    qed
  next
    case False
    then have "k = 0" using less.prems(3) by (cases "sz = 0") auto
    then show ?thesis using step False by (auto simp: get_chunk_def)
  qed
qed

text \<open>
  \<^verbatim>\<open>getDelimData\<close> reads in order, but where it stops depends on what the caller's buffer held before
  the call and not on the data: it looks at the byte behind the one it has just stored. So it returns the
  same number of bytes for all contents of the same length, past any number of delimiters.
\<close>

theorem getDelimData_ignores_data:
  assumes "ring_ok r" "sz < 2 ^ 62"
  shows "\<exists>r'. getDelimData delim data sz r =
      Some (put_at data 0 (take (stop_at delim data 0 (min sz (length (bytes_held r)))) (bytes_held r)),
        stop_at delim data 0 (min sz (length (bytes_held r))), r') \<and>
    ring_ok r' \<and> bytes_held r' = drop (stop_at delim data 0 (min sz (length (bytes_held r)))) (bytes_held r)"
proof -
  let ?k = "stop_at delim data 0 (min sz (writeNext r - readNext r))"
  have k: "?k \<le> writeNext r - readNext r" using stop_at_le [of delim data 0 "min sz (writeNext r - readNext r)"] by simp
  note c = get_chunk_ok [OF assms(1) k] and l = delim_loop_ok [OF assms refl, of delim data 0]
  show ?thesis unfolding length_held using wrap_empty_ok [OF c(1)] c(3) l
    by (intro exI [of _ "wrap_empty (get_chunk ?k r)"]) (simp add: getDelimData_def)
qed

lemma ring_init_ok: "0 < l \<Longrightarrow> l < 2 ^ 62 \<Longrightarrow> length buffer = l \<Longrightarrow> ring_ok (ring_init l buffer) \<and> bytes_held (ring_init l buffer) = []"
  by (auto simp: ring_init_def ring_ok_def bytes_held_def contents_at_def)

theorem getDelimData_ignores_data_witness:
  "\<exists>r'. getDelimData CHR ''b'' (\<lambda>_. CHR ''x'') 3 (ring_init 4 ''abab''\<lparr>writeNext := 4\<rparr>) =
     Some (put_at (\<lambda>_. CHR ''x'') 0 ''aba'', 3, r') \<and> bytes_held r' = ''b''"
proof -
  let ?r = "ring_init 4 ''abab''\<lparr>writeNext := 4\<rparr>"
  have r: "ring_ok ?r" "bytes_held ?r = ''abab''"
    by (simp_all add: ring_ok_def ring_init_def bytes_held_def contents_at_def upt_rec)
  show ?thesis using getDelimData_ignores_data [OF r(1), of 3 "CHR ''b''" "\<lambda>_. CHR ''x''"] r(2)
    by (auto simp: numeral_3_eq_3)
qed

section \<open>Reserving space\<close>

lemma commitSpace_ok:
  assumes r: "ring_ok r" and n: "n \<le> rlen r - (writeNext r - readNext r)" "writeNext r + n < 2 ^ 63" "writeNext r mod rlen r + n \<le> rlen r"
    and ys: "length ys = n"
  shows "bytes_held (commitSpace (int n) (r\<lparr>rbuf := blit (rbuf r) (writeNext r mod rlen r) ys\<rparr>)) = bytes_held r @ ys"
proof -
  let ?r = "r\<lparr>rbuf := blit (rbuf r) (writeNext r mod rlen r) ys\<rparr>"
  note c = put_chunk_ok [OF r, of n ys]
  have sm: "rlen r - (writeNext r - readNext r) < 2 ^ 63" using ring_small [OF r] by simp
  have sp: "spaceAvail ?r = rlen r - (writeNext r - readNext r)" using ring_space [OF r] by (simp add: spaceAvail_def bytesAvail_def)
  have a: "asked (int n) (rlen r - (writeNext r - readNext r)) = n" using n(1) by (simp add: asked_def)
  have q: "(if int n > to_sval (spaceAvail ?r) \<or> int n = -1 then to_sval (spaceAvail ?r) else int n) = int n"
    using asked_eq(1) [of "int n", OF _ sm] unfolding sp a by simp
  have "to_uval (int n) = n" "uadd (writeNext ?r) n = writeNext r + n" using n(2) by (simp_all add: to_uval_int uadd_nowrap)
  then have e: "commitSpace (int n) ?r = wrap_full (put_chunk n ys r)"
    unfolding commitSpace_def q Let_def using ys by (simp add: put_chunk_def)
  show ?thesis unfolding e using wrap_full_ok(2) [OF c(1)] c(2) n ys by simp
qed

lemma reserve_value:
  assumes r: "ring_ok r" and i: "-1 \<le> i" and k: "k = asked i (spaceAvail r)"
  shows "reserveSpace i r =
    (let n = (if writeNext r + k \<ge> rlen r then int (rlen r) - int (writeNext r) else int k)
     in if spaceAvail r \<noteq> 0 \<and> n = 0 then None else Some (writeNext r mod rlen r, n))"
proof -
  have b: "rlen r < 2 ^ 62" "writeNext r < 2 ^ 63" using r by (auto simp: ring_ok_def)
  have sm: "spaceAvail r < 2 ^ 63" using ring_space [OF r] ring_small [OF r] by simp
  have kb: "k \<le> spaceAvail r" "spaceAvail r \<le> rlen r" using k ring_space [OF r] by (auto simp: asked_def)
  have u: "uadd (writeNext r) k = writeNext r + k" using b kb by (simp add: uadd_nowrap)
  have s: "to_sval (usub (rlen r) (writeNext r)) = int (rlen r) - int (writeNext r)"
  proof (cases "writeNext r \<le> rlen r")
    case True
    then have "usub (rlen r) (writeNext r) = rlen r - writeNext r" using b by (simp add: usub_nowrap)
    then show ?thesis using True b by (simp add: to_sval_def of_nat_diff)
  next
    case False
    then have "usub (rlen r) (writeNext r) = rlen r + 2 ^ 64 - writeNext r" using b by (simp add: usub_def)
    then show ?thesis using False b by (simp add: to_sval_def of_nat_diff)
  qed
  show ?thesis
    unfolding reserveSpace_def Let_def asked_eq(1) [OF i sm] k [symmetric] s asked_eq(2) [OF i sm, folded k] u ..
qed

text \<open>
  As long as the write position has not passed the end of the array, \<^verbatim>\<open>reserveSpace\<close> gives out a
  place that is free and in one piece, and committing what was written there appends it. Once it has
  passed the end, and until the buffer has been empty, no place is given out although there is
  space: the number returned is negative, or the assertion fails.
\<close>

theorem reserveSpace_only_before_wrap:
  assumes r: "ring_ok r" and i: "i = -1 \<or> 0 < i" and sp: "0 < spaceAvail r"
  shows "(writeNext r < rlen r \<longrightarrow> (\<exists>n. reserveSpace i r = Some (writeNext r, int n) \<and> 0 < n \<and> n \<le> spaceAvail r \<and>
      (\<forall>ys. length ys \<le> n \<longrightarrow>
         bytes_held (commitSpace (int (length ys)) (r\<lparr>rbuf := blit (rbuf r) (writeNext r) ys\<rparr>)) = bytes_held r @ ys))) \<and>
    (rlen r \<le> writeNext r \<longrightarrow> (\<forall>p n. reserveSpace i r = Some (p, n) \<longrightarrow> n < 0))"
proof -
  define k where "k = asked i (spaceAvail r)"
  have kb: "0 < k" "k \<le> spaceAvail r" using i sp by (auto simp: k_def asked_def)
  have i1: "-1 \<le> i" using i by auto
  note v = reserve_value [OF r i1 k_def]
  have b: "rlen r < 2 ^ 62" "writeNext r < 2 ^ 63" using r by (auto simp: ring_ok_def)
  have "\<exists>n. reserveSpace i r = Some (writeNext r, int n) \<and> 0 < n \<and> n \<le> spaceAvail r \<and>
      (\<forall>ys. length ys \<le> n \<longrightarrow>
         bytes_held (commitSpace (int (length ys)) (r\<lparr>rbuf := blit (rbuf r) (writeNext r) ys\<rparr>)) = bytes_held r @ ys)"
    if w: "writeNext r < rlen r"
  proof -
    define n where "n = min k (rlen r - writeNext r)"
    have n: "0 < n" "n \<le> spaceAvail r" "writeNext r + n \<le> rlen r" using kb w by (auto simp: n_def)
    have "reserveSpace i r = Some (writeNext r, int n)"
      unfolding v Let_def using w kb(1) n(1) by (auto simp: n_def min_def of_nat_diff)
    moreover have "bytes_held (commitSpace (int (length ys)) (r\<lparr>rbuf := blit (rbuf r) (writeNext r) ys\<rparr>)) = bytes_held r @ ys"
      if "length ys \<le> n" for ys
      using commitSpace_ok [OF r _ _ _ refl, of ys] that n w b ring_space [OF r] by simp
    ultimately show ?thesis using n by blast
  qed
  moreover have "n < 0" if "rlen r \<le> writeNext r" "reserveSpace i r = Some (p, n)" for p n
    using that sp unfolding v Let_def by (auto split: if_splits)
  ultimately show ?thesis by blast
qed

theorem reserveSpace_only_before_wrap_witness:
  "\<exists>n. reserveSpace (-1) (ring_init 4 ''abcd''\<lparr>writeNext := 2\<rparr>) = Some (2, int n) \<and> 0 < n \<and> n \<le> 2 \<and>
     reserveSpace (-1) (ring_init 4 ''abcd''\<lparr>readNext := 3, writeNext := 5\<rparr>) = Some (1, -1)"
proof -
  let ?r = "ring_init 4 ''abcd''\<lparr>writeNext := 2\<rparr>"
  have r: "ring_ok ?r" "spaceAvail ?r = 2" "writeNext ?r = 2" "rlen ?r = 4"
    by (simp_all add: ring_ok_def ring_init_def spaceAvail_def bytesAvail_def usub_def)
  have "reserveSpace (-1) (ring_init 4 ''abcd''\<lparr>readNext := 3, writeNext := 5\<rparr>) = Some (1, -1)"
    by (simp add: ring_init_def reserveSpace_def spaceAvail_def bytesAvail_def usub_def uadd_def to_sval_def to_uval_def)
  then show ?thesis using reserveSpace_only_before_wrap [OF r(1), of "-1"] r(2-4) by auto
qed

section \<open>A queue of bytes\<close>

text \<open>What pipes and sockets ask of a buffer; \<^verbatim>\<open>room s n\<close> says that \<^verbatim>\<open>n\<close> more bytes do not take the positions past their range.\<close>

datatype queue_call = Put "char list" | Get nat | Consume int

datatype queue_out = Count nat | Bytes "char list" | Quiet

fun fifo :: "nat \<Rightarrow> queue_call \<Rightarrow> char list \<Rightarrow> queue_out \<times> char list" where
  "fifo c (Put xs) q = (let k = min (length xs) (c - length q) in (Count k, q @ take k xs))"
| "fifo c (Get n) q = (Bytes (take n q), drop n q)"
| "fifo c (Consume i) q = (Quiet, drop (asked i (length q)) q)"

fun run_fifo :: "nat \<Rightarrow> queue_call list \<Rightarrow> char list \<Rightarrow> queue_out list \<times> char list" where
  "run_fifo c [] q = ([], q)"
| "run_fifo c (x # xs) q = (let (out, q') = fifo c x q; (outs, q'') = run_fifo c xs q' in (out # outs, q''))"

fun call_queue :: "(char list \<Rightarrow> 's \<Rightarrow> (nat \<times> 's) option) \<Rightarrow> (uval \<Rightarrow> 's \<Rightarrow> (char list \<times> 's) option) \<Rightarrow> (int \<Rightarrow> 's \<Rightarrow> 's) \<Rightarrow>
    queue_call \<Rightarrow> 's \<Rightarrow> (queue_out \<times> 's) option" where
  "call_queue put get consume (Put xs) s = map_option (\<lambda>(k, s'). (Count k, s')) (put xs s)"
| "call_queue put get consume (Get n) s = map_option (\<lambda>(d, s'). (Bytes d, s')) (get n s)"
| "call_queue put get consume (Consume i) s = Some (Quiet, consume i s)"

fun run_queue :: "(queue_call \<Rightarrow> 's \<Rightarrow> (queue_out \<times> 's) option) \<Rightarrow> queue_call list \<Rightarrow> 's \<Rightarrow> (queue_out list \<times> 's) option" where
  "run_queue call [] s = Some ([], s)"
| "run_queue call (x # xs) s =
     (case call x s of None \<Rightarrow> None | Some (out, s') \<Rightarrow> map_option (\<lambda>(outs, s''). (out # outs, s'')) (run_queue call xs s'))"

fun bytes_in :: "queue_call \<Rightarrow> nat" where
  "bytes_in (Put xs) = length xs" | "bytes_in x = 0"

fun fair_call :: "queue_call \<Rightarrow> bool" where
  "fair_call (Put xs) = True" | "fair_call (Get n) = (n < 2 ^ 62)" | "fair_call (Consume i) = (-1 \<le> i)"

locale byte_queue =
  fixes ok :: "'s \<Rightarrow> bool" and room :: "'s \<Rightarrow> nat \<Rightarrow> bool" and cap :: "'s \<Rightarrow> nat" and held :: "'s \<Rightarrow> char list"
    and put :: "char list \<Rightarrow> 's \<Rightarrow> (nat \<times> 's) option" and get :: "uval \<Rightarrow> 's \<Rightarrow> (char list \<times> 's) option" and consume :: "int \<Rightarrow> 's \<Rightarrow> 's"
  assumes put_law: "ok s \<Longrightarrow> room s (length xs + n) \<Longrightarrow> \<exists>s'. put xs s = Some (min (length xs) (cap s - length (held s)), s') \<and>
      ok s' \<and> cap s' = cap s \<and> room s' n \<and> held s' = held s @ take (min (length xs) (cap s - length (held s))) xs"
    and get_law: "ok s \<Longrightarrow> room s n \<Longrightarrow> m < 2 ^ 62 \<Longrightarrow> \<exists>s'. get m s = Some (take m (held s), s') \<and> ok s' \<and> cap s' = cap s \<and> room s' n \<and> held s' = drop m (held s)"
    and consume_law: "ok s \<Longrightarrow> room s n \<Longrightarrow> -1 \<le> i \<Longrightarrow> ok (consume i s) \<and> cap (consume i s) = cap s \<and> room (consume i s) n \<and>
      held (consume i s) = drop (asked i (length (held s))) (held s)"
begin

lemma call_refines:
  assumes "ok s" "room s (bytes_in x + n)" "fair_call x"
  shows "\<exists>s'. call_queue put get consume x s = Some (fst (fifo (cap s) x (held s)), s') \<and> ok s' \<and> cap s' = cap s \<and> room s' n \<and>
    held s' = snd (fifo (cap s) x (held s))"
  using assms put_law [of s _ n] get_law [of s n] consume_law [of s n] by (cases x) (fastforce simp: Let_def)+

lemma run_refines:
  assumes "ok s" "room s (sum_list (map bytes_in xs))" "\<forall>x \<in> set xs. fair_call x"
  shows "\<exists>s'. run_queue (call_queue put get consume) xs s = Some (fst (run_fifo (cap s) xs (held s)), s') \<and> ok s' \<and>
    held s' = snd (run_fifo (cap s) xs (held s))"
  using assms
proof (induction xs arbitrary: s)
  case (Cons x xs)
  obtain s1 where s1: "call_queue put get consume x s = Some (fst (fifo (cap s) x (held s)), s1)" "ok s1" "cap s1 = cap s"
    "room s1 (sum_list (map bytes_in xs))" "held s1 = snd (fifo (cap s) x (held s))"
    using call_refines [of s x] Cons.prems by auto
  obtain s2 where s2: "run_queue (call_queue put get consume) xs s1 = Some (fst (run_fifo (cap s) xs (held s1)), s2)" "ok s2"
    "held s2 = snd (run_fifo (cap s) xs (held s1))"
    using Cons.IH [OF s1(2,4)] Cons.prems(3) s1(3) by auto
  show ?case using s1(1) s2 unfolding s1(5) by (auto simp: case_prod_beta Let_def)
qed simp

end

interpretation rq: byte_queue ring_ok "\<lambda>r n. writeNext r + rlen r + n < 2 ^ 63" rlen bytes_held putData getData consumeBytes
proof
  fix r :: ring and xs :: "char list" and n m :: nat and i :: int
  assume r: "ring_ok r"
  show "\<exists>s'. putData xs r = Some (min (length xs) (rlen r - length (bytes_held r)), s') \<and> ring_ok s' \<and> rlen s' = rlen r \<and>
      writeNext s' + rlen s' + n < 2 ^ 63 \<and> bytes_held s' = bytes_held r @ take (min (length xs) (rlen r - length (bytes_held r))) xs"
    if room: "writeNext r + rlen r + (length xs + n) < 2 ^ 63"
  proof -
    from room have "writeNext r + rlen r + length xs < 2 ^ 63" by simp
    from putData_ok [OF r this refl] show ?thesis using room by fastforce
  qed
  show "\<exists>s'. getData m r = Some (take m (bytes_held r), s') \<and> ring_ok s' \<and> rlen s' = rlen r \<and> writeNext s' + rlen s' + n < 2 ^ 63 \<and>
      bytes_held s' = drop m (bytes_held r)" if "writeNext r + rlen r + n < 2 ^ 63" "m < 2 ^ 62"
    using getData_ok [OF r that(2)] that(1) by fastforce
  show "ring_ok (consumeBytes i r) \<and> rlen (consumeBytes i r) = rlen r \<and> writeNext (consumeBytes i r) + rlen (consumeBytes i r) + n < 2 ^ 63 \<and>
      bytes_held (consumeBytes i r) = drop (asked i (length (bytes_held r))) (bytes_held r)"
    if "writeNext r + rlen r + n < 2 ^ 63" "-1 \<le> i"
    using consumeBytes_ok [OF r that(2)] that(1) by simp
qed

text \<open>
  C11. From its initialisation on, the ring buffer answers every sequence of writes, reads and consumed bytes as a
  bounded queue of bytes does: the same counts and the same bytes in the same order, as long as fewer
  than \<^term>\<open>2 ^ 62\<close> bytes are written. All loops return.
\<close>

theorem ring_buffer_is_bounded_fifo:
  assumes "0 < l" "l < 2 ^ 62" "length buffer = l" "sum_list (map bytes_in xs) < 2 ^ 62" "\<forall>x \<in> set xs. fair_call x"
  shows "\<exists>r. run_queue (call_queue putData getData consumeBytes) xs (ring_init l buffer) = Some (fst (run_fifo l xs []), r) \<and>
    ring_ok r \<and> bytes_held r = snd (run_fifo l xs [])"
proof -
  have i: "ring_ok (ring_init l buffer)" "bytes_held (ring_init l buffer) = []" "rlen (ring_init l buffer) = l" "writeNext (ring_init l buffer) = 0"
    using ring_init_ok [OF assms(1-3)] by (simp_all add: ring_init_def)
  show ?thesis using rq.run_refines [OF i(1) _ assms(5)] assms(2,4) unfolding i(2-4) by auto
qed

theorem ring_buffer_is_bounded_fifo_witness:
  "\<exists>r. run_queue (call_queue putData getData consumeBytes) [Put ''abc'', Get 2, Put ''defg'', Get 9] (ring_init 4 ''....'') =
      Some ([Count 3, Bytes ''ab'', Count 3, Bytes ''cdef''], r)"
  using ring_buffer_is_bounded_fifo [of 4 "''....''" "[Put ''abc'', Get 2, Put ''defg'', Get 9]"] by auto

text \<open>
  \<^verbatim>\<open>peekBytes\<close> points to the bytes that a read would return next, and \<^verbatim>\<open>unPutData\<close> to the ones it takes
  back, which are the last written: what they give out is in one piece of the array, no more than asked
  for, and the rest of the queue is kept. \<^verbatim>\<open>peekBytes\<close> gives out something whenever there is something.
\<close>

theorem peek_and_unPut_correct:
  assumes r: "ring_ok r" and i: "-1 \<le> i" "i < 2 ^ 63"
  shows "(\<exists>p n. peekBytes i r = (p, int n) \<and> p + n \<le> rlen r \<and> take n (drop p (rbuf r)) = take n (bytes_held r) \<and>
      n \<le> asked i (length (bytes_held r)) \<and> (0 < asked i (length (bytes_held r)) \<longrightarrow> 0 < n)) \<and>
    (\<exists>p n r'. unPutData i r = (p, int n, r') \<and> ring_ok r' \<and> n \<le> asked i (length (bytes_held r)) \<and>
      p + n \<le> rlen r \<and> bytes_held r = bytes_held r' @ take n (drop p (rbuf r)))"
proof
  have m: "readNext r mod rlen r < rlen r" using r by (simp add: ring_ok_def)
  define n where "n = min (asked i (length (bytes_held r))) (rlen r - readNext r mod rlen r)"
  note pk = peekBytes_ok [OF r i(1) n_def]
  show "\<exists>p n. peekBytes i r = (p, int n) \<and> p + n \<le> rlen r \<and> take n (drop p (rbuf r)) = take n (bytes_held r) \<and>
      n \<le> asked i (length (bytes_held r)) \<and> (0 < asked i (length (bytes_held r)) \<longrightarrow> 0 < n)"
    using pk m by (intro exI [of _ "readNext r mod rlen r"] exI [of _ n]) (auto simp: n_def)
  define k where "k = min (if i < 0 then length (bytes_held r) else min (nat i) (length (bytes_held r))) (piece_at_end r)"
  obtain r' where u: "unPutData i r = ((writeNext r - k) mod rlen r, int k, r')" "ring_ok r'"
    "bytes_held r' = take (length (bytes_held r) - k) (bytes_held r)"
    using unPutData_ok [OF r i(2) k_def] by auto
  have "k \<le> piece_at_end r" by (simp add: k_def)
  note f = piece_fits [OF r this]
  have "bytes_held r = bytes_held r' @ take k (drop ((writeNext r - k) mod rlen r) (rbuf r))"
    unfolding last_piece [OF r f] u(3) length_held by simp
  moreover have "k \<le> asked i (length (bytes_held r))" using i(1) by (auto simp: k_def asked_def)
  ultimately show "\<exists>p n r'. unPutData i r = (p, int n, r') \<and> ring_ok r' \<and> n \<le> asked i (length (bytes_held r)) \<and>
      p + n \<le> rlen r \<and> bytes_held r = bytes_held r' @ take n (drop p (rbuf r))"
    using u(1,2) f(2) by blast
qed

theorem peek_and_unPut_correct_witness:
  "\<exists>p n r'. unPutData 1 (ring_init 4 ''abcd''\<lparr>writeNext := 3\<rparr>) = (p, int n, r') \<and> ''abc'' = bytes_held r' @ take n (drop p ''abcd'')"
proof -
  let ?r = "ring_init 4 ''abcd''\<lparr>writeNext := 3\<rparr>"
  have r: "ring_ok ?r" "bytes_held ?r = ''abc''" "rbuf ?r = ''abcd''"
    by (simp_all add: ring_ok_def ring_init_def bytes_held_def contents_at_def upt_rec)
  show ?thesis using peek_and_unPut_correct [OF r(1), of 1] unfolding r(2,3) by auto
qed

end
