(* ===== verification/FreeFrameList.thy ===== *)
theory FreeFrameList
  imports K42_Prelude
begin

text \<open>
  The lists of free page frames of the physical memory managers, \<^verbatim>\<open>os/kernel/mem/FreeFrameList.H\<close> and
  \<^verbatim>\<open>FreeFrameList.C\<close>. A list keeps its links in the free frames themselves: a frame used as a block holds
  the addresses of up to 509 others. Memory is a store from addresses to what is kept there, so that
  several lists, and the owners of allocated frames, share it. Locking is left to the callers.
\<close>

section \<open>State and operations\<close>

record frame_info =
  fnext :: uval
  fprev :: uval
  frameCount :: uval
  fpages :: "uval list"

type_synonym fstore = "uval \<Rightarrow> frame_info"

record ffl =
  ftail :: uval
  fhead :: uval
  fcount :: uval

definition PER_FRAME_ELEM :: uval where "PER_FRAME_ELEM = 509"

definition ffl_init :: ffl where
  "ffl_init = \<lparr>ftail = 0, fhead = 0, fcount = 0\<rparr>"

definition isNotEmpty :: "ffl \<Rightarrow> bool" where
  "isNotEmpty l \<longleftrightarrow> fcount l \<noteq> 0"

definition freeFrame :: "uval \<Rightarrow> fstore \<Rightarrow> ffl \<Rightarrow> fstore \<times> ffl" where
  "freeFrame addr h l =
     (let l1 = l\<lparr>fcount := uadd (fcount l) 1\<rparr>; hd = fhead l
      in if hd \<noteq> 0 \<and> frameCount (h hd) < PER_FRAME_ELEM
         then (h(hd := (h hd)\<lparr>fpages := (fpages (h hd))[frameCount (h hd) := addr], frameCount := uadd (frameCount (h hd)) 1\<rparr>), l1)
         else let fi = addr;
                  (h1, l2) = (if hd \<noteq> 0
                    then (let h' = h(fi := (h fi)\<lparr>fnext := hd\<rparr>) in (h'(hd := (h' hd)\<lparr>fprev := fi\<rparr>), l1))
                    else (h(fi := (h fi)\<lparr>fnext := 0\<rparr>), l1\<lparr>ftail := fi\<rparr>))
              in (h1(fi := (h1 fi)\<lparr>fprev := 0, frameCount := 0\<rparr>), l2\<lparr>fhead := fi\<rparr>))"

text \<open>The assertions about a returned address, and a list that is not empty but has no block, are \<^const>\<open>None\<close>.\<close>

definition good_frame :: "uval \<Rightarrow> bool" where
  "good_frame a \<longleftrightarrow> a \<noteq> 0 \<and> a AND PAGE_MASK = 0"

definition getFrame :: "fstore \<Rightarrow> ffl \<Rightarrow> (uval \<times> fstore \<times> ffl) option" where
  "getFrame h l =
     (if fcount l = 0 then Some (0, h, l)
      else if fhead l = 0 then None
      else let l1 = l\<lparr>fcount := usub (fcount l) 1\<rparr>; hd = fhead l
           in if frameCount (h hd) \<noteq> 0
              then let c = usub (frameCount (h hd)) 1; addr = fpages (h hd) ! c
                   in if good_frame addr then Some (addr, h(hd := (h hd)\<lparr>frameCount := c\<rparr>), l1) else None
              else let fi = hd;
                       (h1, l2) = (if fnext (h fi) \<noteq> 0 then (h(fnext (h fi) := (h (fnext (h fi)))\<lparr>fprev := 0\<rparr>), l1)
                                   else (h, l1\<lparr>ftail := 0\<rparr>))
                   in if good_frame fi then Some (fi, h1, l2\<lparr>fhead := fnext (h1 fi)\<rparr>) else None)"

text \<open>\<^verbatim>\<open>getList\<close> with one argument and \<^verbatim>\<open>getListTail\<close>: the block at one end becomes a list of its own.\<close>

definition getList_block :: "fstore \<Rightarrow> ffl \<Rightarrow> ffl \<Rightarrow> (fstore \<times> ffl \<times> ffl) option" where
  "getList_block h l m =
     (if fcount m \<noteq> 0 then None
      else if fhead l = 0 then Some (h, l, m)
      else let tmp = fhead l; amountMoved = uadd (frameCount (h tmp)) 1;
               m1 = m\<lparr>fhead := tmp, ftail := tmp, fcount := amountMoved\<rparr>;
               l1 = l\<lparr>fcount := usub (fcount l) amountMoved, fhead := fnext (h tmp)\<rparr>;
               (h1, l2) = (if fhead l1 \<noteq> 0 then (h(fhead l1 := (h (fhead l1))\<lparr>fprev := 0\<rparr>), l1) else (h, l1\<lparr>ftail := 0\<rparr>))
           in Some (h1(tmp := (h1 tmp)\<lparr>fnext := 0\<rparr>), l2, m1))"

definition getListTail :: "fstore \<Rightarrow> ffl \<Rightarrow> ffl \<Rightarrow> (fstore \<times> ffl \<times> ffl) option" where
  "getListTail h l m =
     (if fcount m \<noteq> 0 then None
      else if ftail l = 0 then Some (h, l, m)
      else let tmp = ftail l; amountMoved = uadd (frameCount (h tmp)) 1;
               m1 = m\<lparr>fhead := tmp, ftail := tmp, fcount := amountMoved\<rparr>;
               l1 = l\<lparr>fcount := usub (fcount l) amountMoved, ftail := fprev (h tmp)\<rparr>;
               (h1, l2) = (if ftail l1 \<noteq> 0 then (h(ftail l1 := (h (ftail l1))\<lparr>fnext := 0\<rparr>), l1) else (h, l1\<lparr>fhead := 0\<rparr>))
           in Some (h1(tmp := (h1 tmp)\<lparr>fprev := 0\<rparr>), l2, m1))"

definition move_block :: "fstore \<Rightarrow> ffl \<Rightarrow> ffl \<Rightarrow> fstore \<times> ffl \<times> ffl" where
  "move_block h l m =
     (let tmp = fhead l; amountMoved = uadd (frameCount (h tmp)) 1;
          m1 = m\<lparr>fcount := uadd (fcount m) amountMoved\<rparr>;
          l1 = l\<lparr>fcount := usub (fcount l) amountMoved, fhead := fnext (h tmp)\<rparr>;
          (h1, l2) = (if fhead l1 \<noteq> 0 then (h(fhead l1 := (h (fhead l1))\<lparr>fprev := 0\<rparr>), l1) else (h, l1\<lparr>ftail := 0\<rparr>));
          h2 = h1(tmp := (h1 tmp)\<lparr>fnext := fhead m\<rparr>);
          (h3, m2) = (if fhead m \<noteq> 0 then (h2(fhead m := (h2 (fhead m))\<lparr>fprev := tmp\<rparr>), m1) else (h2, m1\<lparr>ftail := tmp\<rparr>))
      in (h3, l2, m2\<lparr>fhead := tmp\<rparr>))"

partial_function (option) upTo_loop :: "uval \<Rightarrow> fstore \<Rightarrow> ffl \<Rightarrow> ffl \<Rightarrow> (uval \<times> fstore \<times> ffl \<times> ffl) option" where
  "upTo_loop req h l m =
     (if fhead l \<noteq> 0 \<and> req > frameCount (h (fhead l))
      then let (h', l', m') = move_block h l m in upTo_loop (usub req (uadd (frameCount (h (fhead l))) 1)) h' l' m'
      else Some (req, h, l, m))"

definition getUpTo :: "uval \<Rightarrow> fstore \<Rightarrow> ffl \<Rightarrow> ffl \<Rightarrow> (uval \<times> fstore \<times> ffl \<times> ffl) option" where
  "getUpTo req h l m = (if fcount l = 0 then Some (req, h, l, m) else upTo_loop req h l m)"

partial_function (option) list_loop :: "uval \<Rightarrow> fstore \<Rightarrow> ffl \<Rightarrow> ffl \<Rightarrow> (uval \<times> fstore \<times> ffl \<times> ffl) option" where
  "list_loop req h l m =
     (if req > 0 \<and> isNotEmpty l
      then Option.bind (getFrame h l) (\<lambda>(a, h1, l1). let (h2, m2) = freeFrame a h1 m in list_loop (usub req 1) h2 l1 m2)
      else Some (req, h, l, m))"

definition getList_count :: "uval \<Rightarrow> fstore \<Rightarrow> ffl \<Rightarrow> ffl \<Rightarrow> (uval \<times> fstore \<times> ffl \<times> ffl) option" where
  "getList_count req h l m = Option.bind (getUpTo req h l m) (\<lambda>(req', h', l', m'). list_loop req' h' l' m')"

definition freeList :: "fstore \<Rightarrow> ffl \<Rightarrow> ffl \<Rightarrow> (fstore \<times> ffl \<times> ffl) option" where
  "freeList h l m =
     (if fcount m = 0 then None
      else if fcount l \<noteq> 0
      then let l1 = l\<lparr>fcount := uadd (fcount l) (fcount m)\<rparr>;
               h1 = h(ftail m := (h (ftail m))\<lparr>fnext := fhead l\<rparr>);
               h2 = h1(fhead l := (h1 (fhead l))\<lparr>fprev := ftail m\<rparr>)
           in Some (h2, l1\<lparr>fhead := fhead m\<rparr>, ffl_init)
      else Some (h, l\<lparr>fcount := fcount m, ftail := ftail m, fhead := fhead m\<rparr>, ffl_init))"

text \<open>The full consistency check; \<^const>\<open>False\<close> is a failed assertion.\<close>

partial_function (option) kosher_loop :: "fstore \<Rightarrow> uval \<Rightarrow> uval \<Rightarrow> uval \<Rightarrow> (bool \<times> uval \<times> uval) option" where
  "kosher_loop h cur realTail countDiscovered =
     (if cur \<noteq> 0
      then let d = uadd countDiscovered (uadd (frameCount (h cur)) 1); nxt = fnext (h cur)
           in if nxt \<noteq> 0 \<and> fprev (h nxt) \<noteq> cur then Some (False, cur, d) else kosher_loop h nxt cur d
      else Some (True, realTail, countDiscovered))"

definition kosher :: "fstore \<Rightarrow> ffl \<Rightarrow> bool option" where
  "kosher h l =
     (if fcount l = 0 then Some (fhead l = 0 \<and> ftail l = 0)
      else if fprev (h (fhead l)) \<noteq> 0 then Some False
      else map_option (\<lambda>(ok, realTail, d). ok \<and> ftail l = realTail \<and> fcount l = d) (kosher_loop h (fhead l) 0 0))"

section \<open>What a list holds\<close>

text \<open>
  \<^verbatim>\<open>lseg h p a bs q\<close>: following the links from \<^verbatim>\<open>a\<close> one meets the blocks \<^verbatim>\<open>bs\<close> and then \<^verbatim>\<open>q\<close>, and the links back agree,
  that of the first block being \<^verbatim>\<open>p\<close>.
\<close>

fun lseg :: "fstore \<Rightarrow> uval \<Rightarrow> uval \<Rightarrow> uval list \<Rightarrow> uval \<Rightarrow> bool" where
  "lseg h p a [] q \<longleftrightarrow> a = q"
| "lseg h p a (b # bs) q \<longleftrightarrow> a = b \<and> b \<noteq> 0 \<and> fprev (h b) = p \<and> lseg h b (fnext (h b)) bs q"

definition block_frames :: "fstore \<Rightarrow> uval \<Rightarrow> uval list" where
  "block_frames h b = b # take (frameCount (h b)) (fpages (h b))"

definition frames :: "fstore \<Rightarrow> uval list \<Rightarrow> uval list" where
  "frames h bs = concat (map (block_frames h) bs)"

definition last_or_0 :: "uval list \<Rightarrow> uval" where
  "last_or_0 bs = (if bs = [] then 0 else last bs)"

definition ffl_shape :: "fstore \<Rightarrow> ffl \<Rightarrow> uval list \<Rightarrow> bool" where
  "ffl_shape h l bs \<longleftrightarrow> lseg h 0 (fhead l) bs 0 \<and> ftail l = last_or_0 bs \<and>
     (\<forall>b \<in> set bs. frameCount (h b) \<le> PER_FRAME_ELEM) \<and> fcount l = length (frames h bs)"

text \<open>The array of a block has its size whatever memory holds.\<close>

definition store_ok :: "fstore \<Rightarrow> bool" where
  "store_ok h \<longleftrightarrow> (\<forall>a. length (fpages (h a)) = PER_FRAME_ELEM)"

definition modifies :: "fstore \<Rightarrow> fstore \<Rightarrow> uval set \<Rightarrow> bool" where
  "modifies h h' S \<longleftrightarrow> (\<forall>a. a \<notin> S \<longrightarrow> h' a = h a)"

lemma frames_simps [simp]: "frames h [] = []" "frames h (b # bs) = block_frames h b @ frames h bs" "frames h (bs @ cs) = frames h bs @ frames h cs"
  by (simp_all add: frames_def)

lemma block_in: "b \<in> set bs \<Longrightarrow> b \<in> set (frames h bs)"
  by (induction bs) (auto simp: block_frames_def)

lemma distinct_blocks: "distinct (frames h bs) \<Longrightarrow> distinct bs"
  by (induction bs) (auto simp: block_frames_def dest: block_in)

lemma frames_cong:
  "(\<And>b. b \<in> set bs \<Longrightarrow> frameCount (h' b) = frameCount (h b) \<and> fpages (h' b) = fpages (h b)) \<Longrightarrow> frames h' bs = frames h bs"
  by (induction bs) (auto simp: block_frames_def)

lemma lseg_cong:
  "(\<And>b. b \<in> set bs \<Longrightarrow> fnext (h' b) = fnext (h b) \<and> fprev (h' b) = fprev (h b)) \<Longrightarrow> lseg h' p a bs q = lseg h p a bs q"
  by (induction bs arbitrary: p a) auto

lemma lseg_append: "lseg h p a (bs @ cs) q \<longleftrightarrow> (\<exists>m. lseg h p a bs m \<and> lseg h (last (p # bs)) m cs q)"
  by (induction bs arbitrary: p a) auto

lemma lseg_null: "lseg h p 0 bs 0 \<Longrightarrow> bs = []"
  by (cases bs) auto

lemma lseg_start: "lseg h p a bs 0 \<Longrightarrow> a = (if bs = [] then 0 else hd bs)"
  by (cases bs) auto

text \<open>Only the first link back depends on the start.\<close>

lemma lseg_first:
  assumes "lseg h p a (b # bs) q" "b \<notin> set bs" "fnext (h' b) = fnext (h b)" "fprev (h' b) = p'"
    "\<And>c. c \<in> set bs \<Longrightarrow> fnext (h' c) = fnext (h c) \<and> fprev (h' c) = fprev (h c)"
  shows "lseg h' p' a (b # bs) q"
  using assms lseg_cong [of bs h' h] by auto

lemma shape_cong:
  assumes "ffl_shape h l bs" "modifies h h' S" "set (frames h bs) \<inter> S = {}"
  shows "ffl_shape h' l bs" "frames h' bs = frames h bs"
proof -
  have e: "h' b = h b" if "b \<in> set bs" for b using assms(2,3) block_in [OF that, of h] by (auto simp: modifies_def)
  then show f: "frames h' bs = frames h bs" by (intro frames_cong) simp
  show "ffl_shape h' l bs" using assms(1) e f lseg_cong [of bs h' h] by (simp add: ffl_shape_def)
qed

lemma shape_empty: "ffl_shape h l bs \<Longrightarrow> (fcount l = 0) = (bs = [])" "ffl_shape h l bs \<Longrightarrow> (fhead l = 0) = (bs = [])"
  by (cases bs; auto simp: ffl_shape_def block_frames_def)+

lemma modifies_trans: "modifies h h' S \<Longrightarrow> modifies h' h'' T \<Longrightarrow> modifies h h'' (S \<union> T)"
  by (auto simp: modifies_def)

lemma modifies_mono: "modifies h h' S \<Longrightarrow> S \<subseteq> T \<Longrightarrow> modifies h h' T"
  by (auto simp: modifies_def)

lemma last_or_0_Cons [simp]: "last_or_0 (b # bs) = last (b # bs)" "last_or_0 [] = 0"
  by (simp_all add: last_or_0_def)

section \<open>Single operations\<close>

lemma take_insert: "c < length xs \<Longrightarrow> take (Suc c) (xs[c := a]) = take c xs @ [a]"
  by (simp add: take_Suc_conv_app_nth)

lemma freeFrame_ok:
  assumes sh: "ffl_shape h l bs" and st: "store_ok h" and a: "a \<noteq> 0" "a \<notin> set (frames h bs)" and d: "distinct (frames h bs)" "fcount l < 2 ^ 62"
    and r: "freeFrame a h l = (h', l')"
  shows "\<exists>bs'. ffl_shape h' l' bs' \<and> mset (frames h' bs') = add_mset a (mset (frames h bs)) \<and> store_ok h' \<and> modifies h h' (insert a (set (frames h bs)))"
proof -
  have u: "uadd (fcount l) 1 = fcount l + 1" using d(2) by (simp add: uadd_nowrap)
  have ab: "a \<notin> set bs" using a(2) block_in by blast
  show ?thesis
  proof (cases bs)
    case Nil
    then have "fhead l = 0" "fcount l = 0" using shape_empty [OF sh] by auto
    then show ?thesis using r sh st a Nil
      by (intro exI [of _ "[a]"]) (auto simp: freeFrame_def ffl_shape_def block_frames_def store_ok_def modifies_def uadd_def)
  next
    case (Cons b cs)
    have b: "fhead l = b" "b \<noteq> 0" "frameCount (h b) \<le> PER_FRAME_ELEM" using sh Cons by (auto simp: ffl_shape_def)
    have bc: "b \<notin> set cs" "a \<noteq> b" using distinct_blocks [OF d(1)] ab Cons by auto
    show ?thesis
    proof (cases "frameCount (h b) < PER_FRAME_ELEM")
      case True
      let ?c = "frameCount (h b)"
      have c: "uadd ?c 1 = Suc ?c" using True by (simp add: uadd_def PER_FRAME_ELEM_def)
      have h': "h' = h(b := (h b)\<lparr>fpages := (fpages (h b))[?c := a], frameCount := Suc ?c\<rparr>)" "l' = l\<lparr>fcount := fcount l + 1\<rparr>"
        using r b True u c by (simp_all add: freeFrame_def Let_def)
      have fr: "frames h' cs = frames h cs" by (rule frames_cong) (use bc h' in auto)
      have bf: "block_frames h' b = block_frames h b @ [a]"
        using take_insert [of ?c "fpages (h b)" a] True st by (simp add: block_frames_def h' store_ok_def)
      have "lseg h' 0 (fhead l) (b # cs) 0 = lseg h 0 (fhead l) (b # cs) 0" by (rule lseg_cong) (auto simp: h')
      then have "ffl_shape h' l' bs" using sh True fr bf unfolding Cons by (auto simp: ffl_shape_def h')
      then show ?thesis using fr bf st unfolding Cons
        by (intro exI [of _ "b # cs"]) (auto simp: h' store_ok_def modifies_def block_frames_def)
    next
      case False
      have e: "h' = h(a := (h a)\<lparr>fnext := b\<rparr>, b := (h b)\<lparr>fprev := a\<rparr>, a := (h a)\<lparr>fnext := b, fprev := 0, frameCount := 0\<rparr>)"
        "l' = l\<lparr>fcount := fcount l + 1, fhead := a\<rparr>"
        using r b False u bc by (simp_all add: freeFrame_def Let_def)
      have h': "h' = h(a := (h a)\<lparr>fnext := b, fprev := 0, frameCount := 0\<rparr>, b := (h b)\<lparr>fprev := a\<rparr>)"
        "l' = l\<lparr>fcount := fcount l + 1, fhead := a\<rparr>"
        using bc by (simp_all add: e fun_upd_twist)
      have fr: "frames h' bs = frames h bs" by (rule frames_cong) (use ab h' in auto)
      have "lseg h' a b (b # cs) 0"
        by (rule lseg_first [where h = h and p = 0]) (use sh ab bc Cons b in \<open>auto simp: ffl_shape_def h'\<close>)
      then have "ffl_shape h' l' (a # bs)" using sh fr a(1) bc ab Cons
        by (auto simp: ffl_shape_def h' block_frames_def)
      then show ?thesis using fr st bc ab Cons
        by (intro exI [of _ "a # bs"]) (auto simp: h' store_ok_def modifies_def block_frames_def)
    qed
  qed
qed

text \<open>The links after the first block of a list is taken out.\<close>

definition unlink_next :: "fstore \<Rightarrow> uval \<Rightarrow> fstore" where
  "unlink_next h b = (if fnext (h b) \<noteq> 0 then h(fnext (h b) := (h (fnext (h b)))\<lparr>fprev := 0\<rparr>) else h)"

lemma unlink_first:
  assumes sh: "ffl_shape h l (b # cs)" and d: "distinct (frames h (b # cs))"
  shows "lseg (unlink_next h b) 0 (fnext (h b)) cs 0" "frames (unlink_next h b) cs = frames h cs" "unlink_next h b b = h b"
    "fnext (h b) = 0 \<longleftrightarrow> cs = []" "\<And>x. x \<notin> set cs \<Longrightarrow> unlink_next h b x = h x"
    "\<And>x. frameCount (unlink_next h b x) = frameCount (h x) \<and> fpages (unlink_next h b x) = fpages (h x)"
    "fhead l = b" "b \<noteq> 0" "b \<notin> set cs" "frameCount (h b) \<le> PER_FRAME_ELEM" "\<And>c. c \<in> set cs \<Longrightarrow> frameCount (h c) \<le> PER_FRAME_ELEM"
    "ftail l = last (b # cs)" "fcount l = length (block_frames h b) + length (frames h cs)"
proof -
  show s: "fhead l = b" "b \<noteq> 0" "frameCount (h b) \<le> PER_FRAME_ELEM" "\<And>c. c \<in> set cs \<Longrightarrow> frameCount (h c) \<le> PER_FRAME_ELEM"
    "ftail l = last (b # cs)" "fcount l = length (block_frames h b) + length (frames h cs)"
    using sh by (auto simp: ffl_shape_def last_or_0_def)
  have l: "lseg h b (fnext (h b)) cs 0" using sh by (simp add: ffl_shape_def)
  have dd: "distinct (b # cs)" by (rule distinct_blocks [OF d])
  then show bn: "b \<notin> set cs" by simp
  show z: "fnext (h b) = 0 \<longleftrightarrow> cs = []" using l by (cases cs) auto
  have nin: "fnext (h b) \<in> set cs" if "fnext (h b) \<noteq> 0" using l that by (cases cs) auto
  show "unlink_next h b x = h x" if "x \<notin> set cs" for x using nin that by (auto simp: unlink_next_def)
  then show "unlink_next h b b = h b" using bn by blast
  show k: "frameCount (unlink_next h b x) = frameCount (h x) \<and> fpages (unlink_next h b x) = fpages (h x)" for x
    by (simp add: unlink_next_def)
  then show "frames (unlink_next h b) cs = frames h cs" by (intro frames_cong) simp
  show "lseg (unlink_next h b) 0 (fnext (h b)) cs 0"
  proof (cases cs)
    case Nil
    then show ?thesis using l by simp
  next
    case (Cons c ds)
    then have c: "fnext (h b) = c" "c \<noteq> 0" "c \<notin> set ds" using l dd by auto
    show ?thesis unfolding Cons
      by (rule lseg_first [where h = h and p = b]) (use l Cons c in \<open>auto simp: unlink_next_def\<close>)
  qed
qed

lemma getFrame_ok:
  assumes sh: "ffl_shape h l bs" and st: "store_ok h" and d: "distinct (frames h bs)" "fcount l < 2 ^ 62" and g: "\<forall>a \<in> set (frames h bs). good_frame a"
    and ne: "fcount l \<noteq> 0"
  shows "\<exists>a h' l' bs'. getFrame h l = Some (a, h', l') \<and> ffl_shape h' l' bs' \<and> mset (frames h bs) = add_mset a (mset (frames h' bs')) \<and>
    store_ok h' \<and> modifies h h' (set (frames h bs))"
proof -
  obtain b cs where bs: "bs = b # cs" using shape_empty(1) [OF sh] ne by (cases bs) auto
  note f = unlink_first [OF sh [unfolded bs] d(1) [unfolded bs]]
  have u: "usub (fcount l) 1 = fcount l - 1" using ne d(2) by (simp add: usub_nowrap)
  have len: "length (fpages (h b)) = PER_FRAME_ELEM" using st by (simp add: store_ok_def)
  show ?thesis
  proof (cases "frameCount (h b) = 0")
    case False
    define c where "c = frameCount (h b) - 1"
    have c: "usub (frameCount (h b)) 1 = c" "frameCount (h b) = Suc c" "c < PER_FRAME_ELEM" "Suc c \<le> length (fpages (h b))"
      using False f(10) len by (auto simp: c_def PER_FRAME_ELEM_def usub_nowrap)
    let ?a = "fpages (h b) ! c" and ?h = "h(b := (h b)\<lparr>frameCount := c\<rparr>)" and ?l = "l\<lparr>fcount := fcount l - 1\<rparr>"
    have t: "take (Suc c) (fpages (h b)) = take c (fpages (h b)) @ [?a]" using c(4) by (intro take_Suc_conv_app_nth) simp
    have bf: "block_frames h b = block_frames ?h b @ [?a]" using t c(2) by (simp add: block_frames_def)
    have "good_frame ?a" using g bf unfolding bs by simp
    then have e: "getFrame h l = Some (?a, ?h, ?l)" using ne f(7,8) c u False by (simp add: getFrame_def Let_def)
    have fr: "frames ?h cs = frames h cs" by (rule frames_cong) (use f(9) in auto)
    have "lseg ?h 0 (fhead l) (b # cs) 0 = lseg h 0 (fhead l) (b # cs) 0" by (rule lseg_cong) auto
    then have "ffl_shape ?h ?l bs" using sh fr bf c(3) unfolding bs by (auto simp: ffl_shape_def)
    moreover have "mset (frames h bs) = add_mset ?a (mset (frames ?h bs))" unfolding bs using bf fr by simp
    ultimately show ?thesis using e st by (intro exI [of _ ?a] exI [of _ ?h] exI [of _ ?l] exI [of _ bs])
        (auto simp: store_ok_def modifies_def bs block_frames_def)
  next
    case True
    let ?h = "unlink_next h b"
    have gb: "good_frame b" using g unfolding bs by (simp add: block_frames_def)
    define l' where "l' = (if fnext (h b) \<noteq> 0 then l\<lparr>fcount := fcount l - 1, fhead := fnext (h b)\<rparr> else l\<lparr>fcount := fcount l - 1, ftail := 0, fhead := 0\<rparr>)"
    have e: "getFrame h l = Some (b, ?h, l')"
    proof (cases "fnext (h b) = 0")
      case True
      then show ?thesis using ne f(3,7,8) \<open>frameCount (h b) = 0\<close> u gb by (simp add: getFrame_def Let_def unlink_next_def l'_def)
    next
      case False
      have "(h(fnext (h b) := (h (fnext (h b)))\<lparr>fprev := 0\<rparr>)) b = h b" using f(3) False by (simp add: unlink_next_def)
      then show ?thesis using False ne f(7,8) \<open>frameCount (h b) = 0\<close> u gb by (simp add: getFrame_def Let_def unlink_next_def l'_def)
    qed
    have bf: "block_frames h b = [b]" using True by (simp add: block_frames_def)
    have "ffl_shape ?h l' cs" using f(1,2,4,6,11,12,13) bf by (auto simp: ffl_shape_def l'_def last_or_0_def)
    moreover have "mset (frames h bs) = add_mset b (mset (frames ?h cs))" unfolding bs using bf f(2) by simp
    moreover have "modifies h ?h (set (frames h bs))"
      unfolding modifies_def bs using f(5) block_in [of _ cs h] by auto
    ultimately show ?thesis using e st f(6) by (intro exI [of _ b] exI [of _ ?h] exI [of _ l'] exI [of _ cs]) (auto simp: store_ok_def)
  qed
qed

section \<open>Operations on two lists\<close>

definition pair_ok :: "fstore \<Rightarrow> ffl \<Rightarrow> uval list \<Rightarrow> ffl \<Rightarrow> uval list \<Rightarrow> bool" where
  "pair_ok h l bs m cs \<longleftrightarrow> ffl_shape h l bs \<and> ffl_shape h m cs \<and> store_ok h \<and> distinct (frames h bs @ frames h cs) \<and>
     fcount l + fcount m < 2 ^ 62 \<and> (\<forall>a \<in> set (frames h bs) \<union> set (frames h cs). good_frame a)"

text \<open>Frames move between the lists, and memory outside of them is not touched.\<close>

definition shuffled :: "fstore \<Rightarrow> uval list \<Rightarrow> uval list \<Rightarrow> fstore \<Rightarrow> uval list \<Rightarrow> uval list \<Rightarrow> bool" where
  "shuffled h bs cs h' bs' cs' \<longleftrightarrow> mset (frames h' bs') + mset (frames h' cs') = mset (frames h bs) + mset (frames h cs) \<and>
     modifies h h' (set (frames h bs) \<union> set (frames h cs))"

lemma shuffled_refl: "shuffled h bs cs h bs cs"
  by (simp add: shuffled_def modifies_def)

lemma shuffled_set: "shuffled h bs cs h' bs' cs' \<Longrightarrow> set (frames h' bs') \<union> set (frames h' cs') = set (frames h bs) \<union> set (frames h cs)"
  unfolding shuffled_def by (metis set_mset_mset set_mset_union)

lemma shuffled_trans: "shuffled h bs cs h1 bs1 cs1 \<Longrightarrow> shuffled h1 bs1 cs1 h2 bs2 cs2 \<Longrightarrow> shuffled h bs cs h2 bs2 cs2"
  using shuffled_set [of h bs cs h1 bs1 cs1] by (auto simp: shuffled_def modifies_def)

lemma shuffled_ok:
  assumes "pair_ok h l bs m cs" "shuffled h bs cs h' bs' cs'" "ffl_shape h' l' bs'" "ffl_shape h' m' cs'" "store_ok h'"
  shows "pair_ok h' l' bs' m' cs'"
proof -
  have ms: "mset (frames h' bs' @ frames h' cs') = mset (frames h bs @ frames h cs)" using assms(2) by (simp add: shuffled_def)
  have "distinct (frames h' bs' @ frames h' cs')" using mset_eq_imp_distinct_iff [OF ms] assms(1) by (simp add: pair_ok_def)
  moreover have "fcount l' + fcount m' = fcount l + fcount m"
    using mset_eq_length [OF ms] assms(1,3,4) by (simp add: pair_ok_def ffl_shape_def)
  ultimately show ?thesis using assms shuffled_set [OF assms(2)] by (simp add: pair_ok_def)
qed

lemma block_count: "frameCount (h b) \<le> PER_FRAME_ELEM \<Longrightarrow> store_ok h \<Longrightarrow> uadd (frameCount (h b)) 1 = length (block_frames h b)"
  by (simp add: block_frames_def store_ok_def uadd_def PER_FRAME_ELEM_def)

lemma move_block_ok:
  assumes ok: "pair_ok h l (b # bs) m cs" and r: "move_block h l m = (h', l', m')"
  shows "ffl_shape h' l' bs" "ffl_shape h' m' (b # cs)" "store_ok h'" "shuffled h (b # bs) cs h' bs (b # cs)"
    "\<And>xs. frames h' xs = frames h xs"
proof -
  have sh: "ffl_shape h l (b # bs)" "ffl_shape h m cs" and st: "store_ok h" and d: "distinct (frames h (b # bs) @ frames h cs)"
    and lim: "fcount l + fcount m < 2 ^ 62" using ok by (auto simp: pair_ok_def)
  have d1: "distinct (frames h (b # bs))" using d unfolding distinct_append by blast
  note f = unlink_first [OF sh(1) d1]
  let ?h1 = "unlink_next h b"
  have disj: "set (b # bs) \<inter> set cs = {}" using d block_in [of _ "b # bs" h] block_in [of _ cs h] by auto
  have dc: "distinct cs" using distinct_blocks [of h cs] d unfolding distinct_append by blast
  have lc: "lseg h 0 (fhead m) cs 0" using sh(2) by (simp add: ffl_shape_def)
  have hm: "fhead m = (if cs = [] then 0 else hd cs)" by (rule lseg_start [OF lc])
  have bc: "uadd (frameCount (h b)) 1 = length (block_frames h b)" by (rule block_count [OF f(10) st])
  have u: "uadd (fcount m) (length (block_frames h b)) = fcount m + length (block_frames h b)"
    "usub (fcount l) (length (block_frames h b)) = length (frames h bs)"
    using f(13) lim by (simp_all add: uadd_nowrap usub_nowrap)
  define h2 where "h2 = ?h1(b := (h b)\<lparr>fnext := fhead m\<rparr>)"
  define h3 where "h3 = (if fhead m \<noteq> 0 then h2(fhead m := (h2 (fhead m))\<lparr>fprev := b\<rparr>) else h2)"
  have h': "h' = h3" "l' = (if fnext (h b) \<noteq> 0 then l\<lparr>fcount := length (frames h bs), fhead := fnext (h b)\<rparr>
      else l\<lparr>fcount := length (frames h bs), fhead := 0, ftail := 0\<rparr>)"
    "m' = (if fhead m \<noteq> 0 then m\<lparr>fcount := fcount m + length (block_frames h b), fhead := b\<rparr>
      else m\<lparr>fcount := fcount m + length (block_frames h b), ftail := b, fhead := b\<rparr>)"
    using r f(3) unfolding move_block_def Let_def f(7) bc u h3_def h2_def unlink_next_def by (auto split: if_splits prod.splits)
  have k: "frameCount (h' x) = frameCount (h x) \<and> fpages (h' x) = fpages (h x)" for x
    using f(6) by (simp add: h' h3_def h2_def)
  show fr: "frames h' xs = frames h xs" for xs by (rule frames_cong) (use k in simp)
  have out: "h' x = ?h1 x" if "x \<noteq> b" "x \<notin> set cs" for x using that hm by (auto simp: h' h3_def h2_def)
  have inl: "h' x = ?h1 x" if "x \<in> set bs" for x
    by (rule out) (use that f(9) disj in \<open>auto dest: disjoint_iff [THEN iffD1, rule_format]\<close>)
  have "lseg h' 0 (fnext (h b)) bs 0 = lseg ?h1 0 (fnext (h b)) bs 0"
    by (rule lseg_cong) (simp add: inl)
  then show "ffl_shape h' l' bs" using f(1,4,11,12) fr k by (auto simp: ffl_shape_def h'(2) last_or_0_def)
  have hb: "h' b = (h b)\<lparr>fnext := fhead m\<rparr>" using disj hm by (auto simp: h' h3_def h2_def)
  have pb: "fprev (h b) = 0" using sh(1) by (simp add: ffl_shape_def)
  have hc: "h' x = (if x = fhead m then (h x)\<lparr>fprev := b\<rparr> else h x)" if "x \<in> set cs" for x
  proof -
    have "x \<notin> set bs" "x \<noteq> b" using that disj by auto
    moreover have "fhead m \<noteq> 0" using that lc by (cases cs) auto
    ultimately show ?thesis using f(5) [of x] disj hm by (auto simp: h' h3_def h2_def)
  qed
  have "lseg h' b (fhead m) cs 0"
  proof (cases cs)
    case (Cons c ds)
    show ?thesis unfolding Cons
      by (rule lseg_first [where h = h and p = 0]) (use lc Cons dc hc hm in auto)
  qed (use lc in simp)
  moreover have bf: "block_frames h' b = block_frames h b" using k by (simp add: block_frames_def)
  ultimately show "ffl_shape h' m' (b # cs)" using sh(2) hb pb f(8,10) fr k shape_empty(2) [OF sh(2)]
    by (auto simp: ffl_shape_def h'(3) last_or_0_def)
  show "store_ok h'" using st k by (simp add: store_ok_def)
  have "h' x = h x" if "x \<noteq> b" "x \<notin> set bs" "x \<notin> set cs" for x using out [OF that(1,3)] f(5) [OF that(2)] by simp
  then have "modifies h h' (set (frames h (b # bs)) \<union> set (frames h cs))"
    unfolding modifies_def using block_in [of _ "b # bs" h] block_in [of _ cs h] by auto
  then show "shuffled h (b # bs) cs h' bs (b # cs)" using fr bf by (simp add: shuffled_def)
qed

lemma pair_parts:
  assumes "pair_ok h l bs m cs"
  shows "ffl_shape h l bs" "ffl_shape h m cs" "store_ok h" "distinct (frames h bs)" "distinct (frames h cs)"
    "set (frames h bs) \<inter> set (frames h cs) = {}" "fcount l < 2 ^ 62" "fcount m < 2 ^ 62"
    "fcount l + fcount m < 2 ^ 62" "\<forall>a \<in> set (frames h bs). good_frame a" "\<forall>a \<in> set (frames h cs). good_frame a"
  using assms by (auto simp: pair_ok_def)

lemma upTo_loop_ok:
  assumes "pair_ok h l bs m cs" "req < 2 ^ 64"
  shows "\<exists>req' h' l' m' bs' cs'. upTo_loop req h l m = Some (req', h', l', m') \<and> pair_ok h' l' bs' m' cs' \<and> shuffled h bs cs h' bs' cs' \<and>
    req' \<le> req \<and> fcount m' = fcount m + (req - req') \<and> (req' = 0 \<or> bs' = [] \<or> req' \<le> frameCount (h' (fhead l')))"
  using assms
proof (induction bs arbitrary: req h l m cs)
  case Nil
  then have "fhead l = 0" using shape_empty(2) by (auto simp: pair_ok_def)
  then show ?case using Nil(1) shuffled_refl by (subst upTo_loop.simps) (auto intro!: exI)
next
  case (Cons b bs)
  note p = pair_parts [OF Cons.prems(1)]
  have b: "fhead l = b" "b \<noteq> 0" "frameCount (h b) \<le> PER_FRAME_ELEM" using p(1) by (auto simp: ffl_shape_def)
  have bc: "uadd (frameCount (h b)) 1 = length (block_frames h b)" by (rule block_count [OF b(3) p(3)])
  have bl: "length (block_frames h b) = frameCount (h b) + 1" using bc b(3) by (simp add: uadd_def PER_FRAME_ELEM_def)
  show ?case
  proof (cases "req > frameCount (h b)")
    case False
    then show ?thesis using b Cons.prems(1) shuffled_refl [of h "b # bs" cs] by (subst upTo_loop.simps) (auto intro!: exI)
  next
    case True
    obtain h1 l1 m1 where mv: "move_block h l m = (h1, l1, m1)" by (cases "move_block h l m") auto
    note k = move_block_ok [OF Cons.prems(1) mv]
    have ok: "pair_ok h1 l1 bs m1 (b # cs)" by (rule shuffled_ok [OF Cons.prems(1) k(4,1,2,3)])
    have r: "usub req (length (block_frames h b)) = req - length (block_frames h b)" using True bl Cons.prems(2) by (simp add: usub_nowrap)
    let ?q = "req - length (block_frames h b)"
    have step: "upTo_loop req h l m = upTo_loop ?q h1 l1 m1"
      by (subst upTo_loop.simps) (use True b mv bc r in simp)
    have "fcount m1 = length (frames h (b # cs))" using k(2) unfolding ffl_shape_def k(5) by blast
    then have c1: "fcount m1 = fcount m + length (block_frames h b)" using p(2) by (simp add: ffl_shape_def)
    have q: "?q < 2 ^ 64" using Cons.prems(2) by simp
    from Cons.IH [OF ok q] obtain req' h' l' m' bs' cs' where i: "upTo_loop ?q h1 l1 m1 = Some (req', h', l', m')" "pair_ok h' l' bs' m' cs'"
      "shuffled h1 bs (b # cs) h' bs' cs'" "req' \<le> ?q" "fcount m' = fcount m1 + (?q - req')"
      "req' = 0 \<or> bs' = [] \<or> req' \<le> frameCount (h' (fhead l'))"
      by blast
    have "shuffled h (b # bs) cs h' bs' cs'" by (rule shuffled_trans [OF k(4) i(3)])
    moreover have "fcount m' = fcount m + (req - req')" using i(4,5) c1 True bl by simp
    moreover have "req' \<le> req" using i(4) by simp
    ultimately show ?thesis using step i(1,2,6) by auto
  qed
qed

lemma getUpTo_ok:
  assumes "pair_ok h l bs m cs" "req < 2 ^ 64"
  shows "\<exists>req' h' l' m' bs' cs'. getUpTo req h l m = Some (req', h', l', m') \<and> pair_ok h' l' bs' m' cs' \<and> shuffled h bs cs h' bs' cs' \<and>
    req' \<le> req \<and> fcount m' = fcount m + (req - req') \<and> (req' = 0 \<or> bs' = [] \<or> req' \<le> frameCount (h' (fhead l')))"
proof (cases "fcount l = 0")
  case True
  then have "bs = []" using shape_empty(1) [OF pair_parts(1) [OF assms(1)]] by simp
  then show ?thesis using True assms(1) shuffled_refl [of h bs cs] by (auto simp: getUpTo_def intro!: exI)
qed (use upTo_loop_ok [OF assms] in \<open>simp add: getUpTo_def\<close>)

text \<open>A frame taken from one list and freed to another.\<close>

lemma pass_one:
  assumes ok: "pair_ok h l bs m cs" and ne: "fcount l \<noteq> 0"
  shows "\<exists>a h1 l1 h2 m2 bs' cs'. getFrame h l = Some (a, h1, l1) \<and> freeFrame a h1 m = (h2, m2) \<and> pair_ok h2 l1 bs' m2 cs' \<and>
    shuffled h bs cs h2 bs' cs' \<and> fcount l1 = fcount l - 1 \<and> fcount m2 = fcount m + 1"
proof -
  note p = pair_parts [OF ok]
  from getFrame_ok [OF p(1,3,4,7,10) ne] obtain a h1 l1 bs1 where g: "getFrame h l = Some (a, h1, l1)" "ffl_shape h1 l1 bs1"
    "mset (frames h bs) = add_mset a (mset (frames h1 bs1))" "store_ok h1" "modifies h h1 (set (frames h bs))" by blast
  note m = shape_cong [OF p(2) g(5)]
  have dis: "set (frames h cs) \<inter> set (frames h bs) = {}" using p(6) by blast
  have ab: "a \<in> set (frames h bs)" using g(3) by (metis union_single_eq_member set_mset_mset)
  then have a: "a \<noteq> 0" "a \<notin> set (frames h1 cs)" using p(10) m(2) [OF dis] dis by (auto simp: good_frame_def)
  obtain h2 m2 where f: "freeFrame a h1 m = (h2, m2)" by (cases "freeFrame a h1 m")
  from freeFrame_ok [OF m(1) [OF dis] g(4) a _ p(8) f] m(2) [OF dis] p(5)
  obtain cs' where c: "ffl_shape h2 m2 cs'" "mset (frames h2 cs') = add_mset a (mset (frames h cs))" "store_ok h2"
    "modifies h1 h2 (insert a (set (frames h cs)))" by auto
  have st1: "set (frames h bs) = insert a (set (frames h1 bs1))" using g(3) by (metis set_mset_add_mset_insert set_mset_mset)
  have "distinct (a # frames h1 bs1)" using mset_eq_imp_distinct_iff [of "frames h bs" "a # frames h1 bs1"] g(3) p(4) by simp
  then have "set (frames h1 bs1) \<inter> insert a (set (frames h cs)) = {}" using st1 dis by auto
  note b = shape_cong [OF g(2) c(4) this]
  have sh: "shuffled h bs cs h2 bs1 cs'"
    using g(3,5) c(2,4) b(2) ab by (auto simp: shuffled_def modifies_def)
  have "pair_ok h2 l1 bs1 m2 cs'" by (rule shuffled_ok [OF ok sh b(1) c(1,3)])
  moreover have "fcount l1 = fcount l - 1" "fcount m2 = fcount m + 1"
    using mset_eq_length [of "frames h bs" "a # frames h1 bs1"] mset_eq_length [of "frames h2 cs'" "a # frames h cs"] g(2,3) c(1,2) p(1,2)
    by (simp_all add: ffl_shape_def)
  ultimately show ?thesis using g(1) f sh by blast
qed

lemma list_loop_ok:
  assumes "pair_ok h l bs m cs" "req < 2 ^ 64"
  shows "\<exists>h' l' m' bs' cs'. list_loop req h l m = Some (req - min req (fcount l), h', l', m') \<and> pair_ok h' l' bs' m' cs' \<and>
    shuffled h bs cs h' bs' cs' \<and> fcount m' = fcount m + min req (fcount l)"
  using assms
proof (induction req arbitrary: h l bs m cs)
  case 0
  then show ?case using shuffled_refl [of h bs cs] by (subst list_loop.simps) (auto intro!: exI)
next
  case (Suc req)
  show ?case
  proof (cases "fcount l = 0")
    case True
    then show ?thesis using Suc.prems shuffled_refl [of h bs cs] by (subst list_loop.simps) (auto simp: isNotEmpty_def intro!: exI)
  next
    case False
    from pass_one [OF Suc.prems(1) False] obtain a h1 l1 h2 m2 bs1 cs1 where o: "getFrame h l = Some (a, h1, l1)" "freeFrame a h1 m = (h2, m2)"
      "pair_ok h2 l1 bs1 m2 cs1" "shuffled h bs cs h2 bs1 cs1" "fcount l1 = fcount l - 1" "fcount m2 = fcount m + 1" by blast
    have u: "usub (Suc req) 1 = req" using Suc.prems(2) by (simp add: usub_nowrap)
    have step: "list_loop (Suc req) h l m = list_loop req h2 l1 m2"
      by (subst list_loop.simps) (use False o(1,2) u in \<open>simp add: isNotEmpty_def\<close>)
    have "req < 2 ^ 64" using Suc.prems(2) by simp
    from Suc.IH [OF o(3) this] obtain h' l' m' bs' cs' where i: "list_loop req h2 l1 m2 = Some (req - min req (fcount l1), h', l', m')"
      "pair_ok h' l' bs' m' cs'" "shuffled h2 bs1 cs1 h' bs' cs'" "fcount m' = fcount m2 + min req (fcount l1)" by blast
    have "shuffled h bs cs h' bs' cs'" by (rule shuffled_trans [OF o(4) i(3)])
    moreover have "req - min req (fcount l1) = Suc req - min (Suc req) (fcount l)" "fcount m' = fcount m + min (Suc req) (fcount l)"
      using o(5,6) i(4) False by auto
    ultimately show ?thesis using step i(1,2) by auto
  qed
qed

lemma shuffled_count:
  assumes "pair_ok h l bs m cs" "shuffled h bs cs h' bs' cs'" "pair_ok h' l' bs' m' cs'"
  shows "fcount l' + fcount m' = fcount l + fcount m"
proof -
  have ms: "mset (frames h' bs' @ frames h' cs') = mset (frames h bs @ frames h cs)" using assms(2) by (simp add: shuffled_def)
  show ?thesis using mset_eq_length [OF ms] pair_parts(1,2) [OF assms(1)] pair_parts(1,2) [OF assms(3)] by (simp add: ffl_shape_def)
qed

lemma getList_count_ok:
  assumes ok: "pair_ok h l bs m cs" and q: "req < 2 ^ 64"
  shows "\<exists>h' l' m' bs' cs'. getList_count req h l m = Some (req - min req (fcount l), h', l', m') \<and> pair_ok h' l' bs' m' cs' \<and>
    shuffled h bs cs h' bs' cs' \<and> fcount m' = fcount m + min req (fcount l)"
proof -
  from getUpTo_ok [OF ok q] obtain r1 h1 l1 m1 bs1 cs1 where u: "getUpTo req h l m = Some (r1, h1, l1, m1)" "pair_ok h1 l1 bs1 m1 cs1"
    "shuffled h bs cs h1 bs1 cs1" "r1 \<le> req" "fcount m1 = fcount m + (req - r1)" by blast
  have r1: "r1 < 2 ^ 64" using u(4) q by simp
  from list_loop_ok [OF u(2) r1] obtain h' l' m' bs' cs' where i: "list_loop r1 h1 l1 m1 = Some (r1 - min r1 (fcount l1), h', l', m')"
    "pair_ok h' l' bs' m' cs'" "shuffled h1 bs1 cs1 h' bs' cs'" "fcount m' = fcount m1 + min r1 (fcount l1)" by blast
  have "fcount l1 + fcount m1 = fcount l + fcount m" by (rule shuffled_count [OF ok u(3,2)])
  then have n: "fcount l1 + (req - r1) = fcount l" using u(5) by simp
  then have "r1 - min r1 (fcount l1) = req - min req (fcount l)" "fcount m' = fcount m + min req (fcount l)" using u(4,5) i(4) by auto
  then show ?thesis using u(1) i(1,2) shuffled_trans [OF u(3) i(3)] by (auto simp: getList_count_def)
qed

text \<open>The two operations that cut off the first or the last block.\<close>

lemma getList_block_ok:
  assumes ok: "pair_ok h l bs m []"
  shows "\<exists>h' l' m' bs' cs'. getList_block h l m = Some (h', l', m') \<and> pair_ok h' l' bs' m' cs' \<and> shuffled h bs [] h' bs' cs' \<and> cs' = take 1 bs"
proof (cases bs)
  case Nil
  note p = pair_parts [OF ok]
  have "fcount m = 0" "fhead l = 0" using shape_empty(1) [OF p(2)] shape_empty(2) [OF p(1)] Nil by simp_all
  then show ?thesis using ok shuffled_refl [of h bs "[]"] Nil by (auto simp: getList_block_def intro!: exI)
next
  case (Cons b cs)
  note p = pair_parts [OF ok]
  note f = unlink_first [OF p(1) [unfolded Cons] p(4) [unfolded Cons]]
  have m0: "fcount m = 0" "fhead m = 0" using shape_empty [OF p(2)] by simp_all
  have bc: "uadd (frameCount (h b)) 1 = length (block_frames h b)" by (rule block_count [OF f(10) p(3)])
  have u: "usub (fcount l) (length (block_frames h b)) = length (frames h cs)" using f(13) p(7) by (simp add: usub_nowrap)
  define h' where "h' = (unlink_next h b)(b := (h b)\<lparr>fnext := 0\<rparr>)"
  define l' where "l' = (if fnext (h b) \<noteq> 0 then l\<lparr>fcount := length (frames h cs), fhead := fnext (h b)\<rparr>
      else l\<lparr>fcount := length (frames h cs), fhead := 0, ftail := 0\<rparr>)"
  define m' where "m' = m\<lparr>fhead := b, ftail := b, fcount := length (block_frames h b)\<rparr>"
  have e: "getList_block h l m = Some (h', l', m')"
    using f(3,8) m0 unfolding getList_block_def Let_def f(7) bc u h'_def l'_def m'_def unlink_next_def by (auto split: if_splits)
  have k: "frameCount (h' x) = frameCount (h x) \<and> fpages (h' x) = fpages (h x)" for x using f(6) by (simp add: h'_def)
  have fr: "frames h' xs = frames h xs" for xs by (rule frames_cong) (use k in simp)
  have bf: "block_frames h' b = block_frames h b" using k by (simp add: block_frames_def)
  have "lseg h' 0 (fnext (h b)) cs 0 = lseg (unlink_next h b) 0 (fnext (h b)) cs 0" by (rule lseg_cong) (use f(9) in \<open>auto simp: h'_def\<close>)
  then have s1: "ffl_shape h' l' cs" using f(1,4,11,12) fr k by (auto simp: ffl_shape_def l'_def last_or_0_def)
  have "fprev (h b) = 0" using p(1) Cons by (simp add: ffl_shape_def)
  then have s2: "ffl_shape h' m' [b]" using f(8,10) bf k by (simp add: ffl_shape_def m'_def h'_def)
  have "h' x = h x" if "x \<noteq> b" "x \<notin> set cs" for x using f(5) that by (simp add: h'_def)
  then have "modifies h h' (set (frames h bs))" unfolding modifies_def Cons using block_in [of _ "b # cs" h] by auto
  then have sh: "shuffled h bs [] h' cs [b]" using fr bf by (simp add: shuffled_def Cons)
  have "store_ok h'" using p(3) k by (simp add: store_ok_def)
  then show ?thesis using e s1 s2 sh shuffled_ok [OF ok sh s1 s2] Cons by (intro exI conjI) auto
qed

lemma getListTail_ok:
  assumes ok: "pair_ok h l bs m []"
  shows "\<exists>h' l' m' bs' cs'. getListTail h l m = Some (h', l', m') \<and> pair_ok h' l' bs' m' cs' \<and> shuffled h bs [] h' bs' cs' \<and> cs' = drop (length bs - 1) bs"
proof (cases bs rule: rev_cases)
  case Nil
  note p = pair_parts [OF ok]
  have "fcount m = 0" "ftail l = 0" using shape_empty(1) [OF p(2)] p(1) Nil by (simp_all add: ffl_shape_def)
  then show ?thesis using ok shuffled_refl [of h bs "[]"] Nil by (auto simp: getListTail_def intro!: exI)
next
  case (snoc ds t)
  note p = pair_parts [OF ok]
  have ls: "lseg h 0 (fhead l) ds t" "fprev (h t) = last (0 # ds)" "fnext (h t) = 0" "t \<noteq> 0" "ftail l = t"
    using p(1) by (auto simp: ffl_shape_def snoc lseg_append last_or_0_def)
  have dd: "distinct ds" "t \<notin> set ds" using distinct_blocks [OF p(4)] snoc by simp_all
  have fc: "\<And>b. b \<in> set bs \<Longrightarrow> frameCount (h b) \<le> PER_FRAME_ELEM" "fcount l = length (frames h ds) + length (block_frames h t)"
    using p(1) snoc by (auto simp: ffl_shape_def)
  have bc: "uadd (frameCount (h t)) 1 = length (block_frames h t)" by (rule block_count [OF _ p(3)]) (use fc snoc in simp)
  have u: "usub (fcount l) (length (block_frames h t)) = length (frames h ds)" using fc(2) p(7) by (simp add: usub_nowrap)
  have m0: "fcount m = 0" using shape_empty [OF p(2)] by simp
  have z: "fprev (h t) = 0 \<longleftrightarrow> ds = []"
  proof (cases ds rule: rev_cases)
    case (snoc es d)
    then have "d \<noteq> 0" using ls(1) by (auto simp: lseg_append)
    then show ?thesis using ls(2) snoc by simp
  qed (use ls(2) in simp)
  define h1 where "h1 = (if ds \<noteq> [] then h(last ds := (h (last ds))\<lparr>fnext := 0\<rparr>) else h)"
  define h' where "h' = h1(t := (h1 t)\<lparr>fprev := 0\<rparr>)"
  define l' where "l' = (if ds \<noteq> [] then l\<lparr>fcount := length (frames h ds), ftail := last ds\<rparr> else l\<lparr>fcount := 0, ftail := 0, fhead := 0\<rparr>)"
  define m' where "m' = m\<lparr>fhead := t, ftail := t, fcount := length (block_frames h t)\<rparr>"
  have pt: "ds \<noteq> [] \<Longrightarrow> fprev (h t) = last ds" using ls(2) by simp
  have e: "getListTail h l m = Some (h', l', m')"
    using ls(4) m0 z pt unfolding getListTail_def Let_def ls(5) bc u h'_def h1_def l'_def m'_def by (auto split: if_splits)
  have tl: "ds \<noteq> [] \<Longrightarrow> last ds \<noteq> t" using dd(2) by (metis last_in_set)
  have k: "frameCount (h' x) = frameCount (h x) \<and> fpages (h' x) = fpages (h x)" for x by (simp add: h'_def h1_def)
  have fr: "frames h' xs = frames h xs" for xs by (rule frames_cong) (use k in simp)
  have bf: "block_frames h' t = block_frames h t" using k by (simp add: block_frames_def)
  have "lseg h' 0 (fhead l') ds 0"
  proof (cases ds rule: rev_cases)
    case (snoc es d)
    have ed: "d \<notin> set es" using dd(1) snoc by simp
    have q: "lseg h 0 (fhead l) es d" "fprev (h d) = last (0 # es)" "d \<noteq> 0" using ls(1) snoc by (auto simp: lseg_append)
    have "lseg h' 0 (fhead l) es d = lseg h 0 (fhead l) es d"
      by (rule lseg_cong) (use ed dd snoc in \<open>auto simp: h'_def h1_def\<close>)
    moreover have "fprev (h' d) = fprev (h d)" "fnext (h' d) = 0" using tl snoc by (auto simp: h'_def h1_def)
    ultimately show ?thesis using q snoc by (simp add: lseg_append l'_def)
  qed (simp add: l'_def)
  then have s1: "ffl_shape h' l' ds" using fr k fc snoc by (auto simp: ffl_shape_def l'_def last_or_0_def)
  have "fnext (h' t) = 0" "fprev (h' t) = 0" using tl ls(3) by (auto simp: h'_def h1_def)
  then have s2: "ffl_shape h' m' [t]" using ls(4) fc(1) [of t] snoc bf k by (simp add: ffl_shape_def m'_def)
  have "h' x = h x" if "x \<noteq> t" "x \<notin> set ds" for x
    using that last_in_set [of ds] by (auto simp: h'_def h1_def)
  then have "modifies h h' (set (frames h bs))" unfolding modifies_def snoc using block_in [of _ "ds @ [t]" h] by auto
  then have sh: "shuffled h bs [] h' ds [t]" using fr bf by (simp add: shuffled_def snoc)
  have "store_ok h'" using p(3) k by (simp add: store_ok_def)
  then show ?thesis using e s1 s2 sh shuffled_ok [OF ok sh s1 s2] snoc by (intro exI conjI) auto
qed

lemma freeList_ok:
  assumes ok: "pair_ok h l bs m cs" and ne: "cs \<noteq> []"
  shows "\<exists>h' l'. freeList h l m = Some (h', l', ffl_init) \<and> pair_ok h' l' (cs @ bs) ffl_init [] \<and> shuffled h bs cs h' (cs @ bs) []"
proof -
  note p = pair_parts [OF ok]
  have mc: "fcount m \<noteq> 0" using shape_empty(1) [OF p(2)] ne by simp
  have i: "ffl_shape h' ffl_init []" for h' by (simp add: ffl_shape_def ffl_init_def)
  show ?thesis
  proof (cases bs)
    case Nil
    then have "fcount l = 0" using shape_empty(1) [OF p(1)] by simp
    let ?l = "l\<lparr>fcount := fcount m, ftail := ftail m, fhead := fhead m\<rparr>"
    have e: "freeList h l m = Some (h, ?l, ffl_init)" using mc \<open>fcount l = 0\<close> by (simp add: freeList_def)
    have s: "ffl_shape h ?l (cs @ bs)" using p(2) Nil by (simp add: ffl_shape_def)
    have sh: "shuffled h bs cs h (cs @ bs) []" using Nil by (simp add: shuffled_def modifies_def)
    show ?thesis using e shuffled_ok [OF ok sh s i p(3)] sh by blast
  next
    case (Cons b ds)
    then have lc: "fcount l \<noteq> 0" using shape_empty(1) [OF p(1)] by simp
    obtain es t where cs: "cs = es @ [t]" using ne by (cases cs rule: rev_cases) auto
    have tm: "ftail m = t" "fhead l = b" using p(1,2) Cons by (auto simp: ffl_shape_def cs last_or_0_def)
    have cm: "lseg h 0 (fhead m) es t" "fprev (h t) = last (0 # es)" "t \<noteq> 0" using p(2) by (auto simp: ffl_shape_def cs lseg_append)
    have disj: "set bs \<inter> set cs = {}" using p(6) block_in [of _ bs h] block_in [of _ cs h] by auto
    have d: "distinct bs" "distinct cs" using distinct_blocks p(4,5) by blast+
    have tb: "t \<noteq> b" "t \<notin> set es" "b \<notin> set es" "t \<notin> set ds" "b \<notin> set ds" using disj d cs Cons by auto
    define h' where "h' = h(t := (h t)\<lparr>fnext := b\<rparr>, b := (h b)\<lparr>fprev := t\<rparr>)"
    define l' where "l' = l\<lparr>fcount := fcount l + fcount m, fhead := fhead m\<rparr>"
    have u: "uadd (fcount l) (fcount m) = fcount l + fcount m" using p(9) by (simp add: uadd_nowrap)
    have e: "freeList h l m = Some (h', l', ffl_init)" using mc lc tb(1) by (simp add: freeList_def Let_def tm u h'_def l'_def)
    have k: "frameCount (h' x) = frameCount (h x) \<and> fpages (h' x) = fpages (h x)" for x by (simp add: h'_def)
    have fr: "frames h' xs = frames h xs" for xs by (rule frames_cong) (use k in simp)
    have 1: "lseg h' 0 (fhead m) es t = lseg h 0 (fhead m) es t" by (rule lseg_cong) (use tb in \<open>auto simp: h'_def\<close>)
    have 2: "lseg h' t b (b # ds) 0"
      by (rule lseg_first [where h = h and p = 0]) (use p(1) Cons tb in \<open>auto simp: ffl_shape_def h'_def\<close>)
    have "fprev (h' t) = fprev (h t)" "fnext (h' t) = b" using tb(1) by (simp_all add: h'_def)
    then have "lseg h' 0 (fhead m) (cs @ bs) 0" using 1 2 cm unfolding cs Cons by (auto simp: lseg_append)
    moreover have ln: "length (frames h' (cs @ bs)) = fcount l + fcount m" unfolding fr using p(1,2) by (simp add: ffl_shape_def)
    moreover have "ftail l = last bs" "\<forall>b \<in> set (cs @ bs). frameCount (h' b) \<le> PER_FRAME_ELEM"
      using p(1,2) k Cons by (auto simp: ffl_shape_def)
    ultimately have s: "ffl_shape h' l' (cs @ bs)" unfolding ffl_shape_def ln using Cons by (simp add: l'_def last_or_0_def)
    have "h' x = h x" if "x \<notin> set bs" "x \<notin> set cs" for x using that by (simp add: h'_def cs Cons)
    then have "modifies h h' (set (frames h bs) \<union> set (frames h cs))"
      unfolding modifies_def using block_in [of _ bs h] block_in [of _ cs h] by blast
    then have sh: "shuffled h bs cs h' (cs @ bs) []" unfolding shuffled_def fr by simp
    have "store_ok h'" using p(3) k by (simp add: store_ok_def)
    then show ?thesis using e shuffled_ok [OF ok sh s i] sh by blast
  qed
qed

text \<open>The consistency check of the source accepts every list of this shape.\<close>

lemma kosher_loop_ok:
  assumes "lseg h p a bs 0" "store_ok h" "\<forall>b \<in> set bs. frameCount (h b) \<le> PER_FRAME_ELEM" "d + length (frames h bs) < 2 ^ 62"
  shows "kosher_loop h a p d = Some (True, last (p # bs), d + length (frames h bs))"
  using assms
proof (induction bs arbitrary: p a d)
  case Nil
  then show ?case by (subst kosher_loop.simps) simp
next
  case (Cons b bs)
  have bc: "uadd (frameCount (h b)) 1 = length (block_frames h b)" by (rule block_count) (use Cons.prems in auto)
  have u: "uadd d (length (block_frames h b)) = d + length (block_frames h b)" using Cons.prems(4) by (simp add: uadd_nowrap)
  have nx: "lseg h b (fnext (h b)) bs 0" using Cons.prems(1) by simp
  then have "fnext (h b) = 0 \<or> fprev (h (fnext (h b))) = b" by (cases bs) auto
  then show ?case using Cons.prems Cons.IH [OF nx, of "d + length (block_frames h b)"] bc u
    by (subst kosher_loop.simps) (auto simp: Let_def add.assoc)
qed

lemma kosher_ok:
  assumes sh: "ffl_shape h l bs" and st: "store_ok h" and "fcount l < 2 ^ 62"
  shows "kosher h l = Some True"
proof (cases "bs = []")
  case True
  then show ?thesis using sh shape_empty [OF sh] by (simp add: kosher_def ffl_shape_def)
next
  case False
  have "fprev (h (fhead l)) = 0" using sh False by (cases bs) (auto simp: ffl_shape_def)
  then show ?thesis using sh False shape_empty(1) [OF sh] kosher_loop_ok [of h 0 "fhead l" bs 0] st assms(3)
    by (simp add: kosher_def ffl_shape_def last_or_0_def)
qed

section \<open>Lists and owners of frames\<close>

text \<open>
  A system of lists in one memory: frames are allocated from a list, freed to a list, moved between lists,
  and the owner of an allocated frame writes what it likes there.
\<close>

record frame_sys =
  mem :: fstore
  lists :: "ffl list"
  owned :: "uval set"

datatype frame_call = Free nat uval | Alloc nat | Take_block nat nat | Take_tail nat nat | Take_upTo nat nat uval | Take_count nat nat uval
  | Give nat nat | Write uval frame_info

fun store_pair :: "nat \<Rightarrow> nat \<Rightarrow> fstore \<times> ffl \<times> ffl \<Rightarrow> frame_sys \<Rightarrow> frame_sys" where
  "store_pair i j (h, l, m) s = s\<lparr>mem := h, lists := (lists s)[i := l, j := m]\<rparr>"

fun frame_do :: "frame_call \<Rightarrow> frame_sys \<Rightarrow> frame_sys option" where
  "frame_do (Free i a) s = (let (h, l) = freeFrame a (mem s) (lists s ! i) in Some (s\<lparr>mem := h, lists := (lists s)[i := l], owned := owned s - {a}\<rparr>))"
| "frame_do (Alloc i) s = map_option (\<lambda>(a, h, l). s\<lparr>mem := h, lists := (lists s)[i := l], owned := owned s \<union> ({a} - {0})\<rparr>) (getFrame (mem s) (lists s ! i))"
| "frame_do (Take_block i j) s = map_option (\<lambda>r. store_pair i j r s) (getList_block (mem s) (lists s ! i) (lists s ! j))"
| "frame_do (Take_tail i j) s = map_option (\<lambda>r. store_pair i j r s) (getListTail (mem s) (lists s ! i) (lists s ! j))"
| "frame_do (Take_upTo i j n) s = map_option (\<lambda>(q, r). store_pair i j r s) (getUpTo n (mem s) (lists s ! i) (lists s ! j))"
| "frame_do (Take_count i j n) s = map_option (\<lambda>(q, r). store_pair i j r s) (getList_count n (mem s) (lists s ! i) (lists s ! j))"
| "frame_do (Give i j) s = map_option (\<lambda>r. store_pair i j r s) (freeList (mem s) (lists s ! i) (lists s ! j))"
| "frame_do (Write a fi) s = Some (s\<lparr>mem := (mem s)(a := fi)\<rparr>)"

text \<open>What the callers keep to: only owned frames are freed and written, a list that receives a block is empty, one that is given is not.\<close>

fun frame_may :: "frame_call \<Rightarrow> frame_sys \<Rightarrow> bool" where
  "frame_may (Free i a) s \<longleftrightarrow> i < length (lists s) \<and> a \<in> owned s"
| "frame_may (Alloc i) s \<longleftrightarrow> i < length (lists s)"
| "frame_may (Take_block i j) s \<longleftrightarrow> i < length (lists s) \<and> j < length (lists s) \<and> i \<noteq> j \<and> fcount (lists s ! j) = 0"
| "frame_may (Take_tail i j) s \<longleftrightarrow> i < length (lists s) \<and> j < length (lists s) \<and> i \<noteq> j \<and> fcount (lists s ! j) = 0"
| "frame_may (Take_upTo i j n) s \<longleftrightarrow> i < length (lists s) \<and> j < length (lists s) \<and> i \<noteq> j \<and> n < 2 ^ 64"
| "frame_may (Take_count i j n) s \<longleftrightarrow> i < length (lists s) \<and> j < length (lists s) \<and> i \<noteq> j \<and> n < 2 ^ 64"
| "frame_may (Give i j) s \<longleftrightarrow> i < length (lists s) \<and> j < length (lists s) \<and> i \<noteq> j \<and> fcount (lists s ! j) \<noteq> 0"
| "frame_may (Write a fi) s \<longleftrightarrow> a \<in> owned s \<and> length (fpages fi) = PER_FRAME_ELEM"

definition sys_blocks :: "frame_sys \<Rightarrow> uval list list \<Rightarrow> uval set \<Rightarrow> bool" where
  "sys_blocks s B U \<longleftrightarrow> store_ok (mem s) \<and> length B = length (lists s) \<and> (\<forall>i < length B. ffl_shape (mem s) (lists s ! i) (B ! i)) \<and>
     (\<forall>i < length B. distinct (frames (mem s) (B ! i)) \<and> set (frames (mem s) (B ! i)) \<inter> owned s = {}) \<and>
     (\<forall>i < length B. \<forall>j < length B. i \<noteq> j \<longrightarrow> set (frames (mem s) (B ! i)) \<inter> set (frames (mem s) (B ! j)) = {}) \<and>
     (\<Union>i < length B. set (frames (mem s) (B ! i))) \<union> owned s = U"

definition all_frames :: "uval set \<Rightarrow> bool" where
  "all_frames U \<longleftrightarrow> finite U \<and> card U < 2 ^ 62 \<and> (\<forall>a \<in> U. good_frame a)"

inductive frame_step :: "frame_sys \<Rightarrow> frame_sys \<Rightarrow> bool" where
  "frame_may c s \<Longrightarrow> frame_do c s = Some s' \<Longrightarrow> frame_step s s'"

inductive_cases frame_stepE: "frame_step s s'"

lemma sys_parts:
  assumes "sys_blocks s B U" "i < length (lists s)"
  shows "ffl_shape (mem s) (lists s ! i) (B ! i)" "distinct (frames (mem s) (B ! i))" "set (frames (mem s) (B ! i)) \<subseteq> U"
    "set (frames (mem s) (B ! i)) \<inter> owned s = {}"
  using assms by (auto simp: sys_blocks_def)

lemma sys_disjoint:
  "sys_blocks s B U \<Longrightarrow> i < length (lists s) \<Longrightarrow> k < length (lists s) \<Longrightarrow> i \<noteq> k \<Longrightarrow>
     set (frames (mem s) (B ! i)) \<inter> set (frames (mem s) (B ! k)) = {}"
  unfolding sys_blocks_def by metis

lemma sys_count:
  assumes "sys_blocks s B U" "all_frames U" "i < length (lists s)"
  shows "fcount (lists s ! i) < 2 ^ 62" "\<forall>a \<in> set (frames (mem s) (B ! i)). good_frame a"
proof -
  note p = sys_parts [OF assms(1,3)]
  have "length (frames (mem s) (B ! i)) = card (set (frames (mem s) (B ! i)))" by (rule distinct_card [OF p(2), symmetric])
  also have "\<dots> \<le> card U" using p(3) assms(2) by (intro card_mono) (auto simp: all_frames_def)
  finally show "fcount (lists s ! i) < 2 ^ 62" using p(1) assms(2) by (simp add: ffl_shape_def all_frames_def)
  show "\<forall>a \<in> set (frames (mem s) (B ! i)). good_frame a" using p(3) assms(2) by (auto simp: all_frames_def)
qed

lemma sys_pair:
  assumes sb: "sys_blocks s B U" "all_frames U" and ij: "i < length (lists s)" "j < length (lists s)" "i \<noteq> j"
  shows "pair_ok (mem s) (lists s ! i) (B ! i) (lists s ! j) (B ! j)"
proof -
  note p = sys_parts [OF sb(1) ij(1)] sys_parts [OF sb(1) ij(2)]
  have d: "distinct (frames (mem s) (B ! i) @ frames (mem s) (B ! j))" using p sys_disjoint [OF sb(1) ij] by simp
  have "length (frames (mem s) (B ! i) @ frames (mem s) (B ! j)) = card (set (frames (mem s) (B ! i) @ frames (mem s) (B ! j)))"
    by (rule distinct_card [OF d, symmetric])
  also have "\<dots> \<le> card U" using p(3,7) sb(2) by (intro card_mono) (auto simp: all_frames_def)
  finally have "fcount (lists s ! i) + fcount (lists s ! j) < 2 ^ 62" using p(1,5) sb(2) by (simp add: ffl_shape_def all_frames_def)
  then show ?thesis using p d sys_count(2) [OF sb ij(1)] sys_count(2) [OF sb ij(2)] sb(1) by (auto simp: pair_ok_def sys_blocks_def)
qed

lemma union_two: "i < n \<Longrightarrow> j < n \<Longrightarrow> (\<Union>k < n. f k) = f i \<union> f j \<union> (\<Union>k \<in> {..<n} - {i, j}. f k)" for n :: nat
  by auto

text \<open>A step on two lists leaves a system of lists.\<close>

lemma sys_pair_step:
  assumes sb: "sys_blocks s B U" and ij: "i < length (lists s)" "j < length (lists s)" "i \<noteq> j"
    and sh: "shuffled (mem s) (B ! i) (B ! j) h' bs' cs'" and ok: "pair_ok h' l' bs' m' cs'"
  shows "sys_blocks (store_pair i j (h', l', m') s) (B[i := bs', j := cs']) U"
proof -
  have len: "length B = length (lists s)" using sb by (simp add: sys_blocks_def)
  note p = pair_parts [OF ok]
  note st = shuffled_set [OF sh]
  let ?f = "\<lambda>k. set (frames (mem s) (B ! k))" and ?g = "\<lambda>k. set (frames h' (B[i := bs', j := cs'] ! k))"
  have other: "ffl_shape h' (lists s ! k) (B ! k)" "frames h' (B ! k) = frames (mem s) (B ! k)" if k: "k < length (lists s)" "k \<noteq> i" "k \<noteq> j" for k
  proof -
    have "?f k \<inter> (?f i \<union> ?f j) = {}" using sys_disjoint [OF sb k(1) ij(1) k(2)] sys_disjoint [OF sb k(1) ij(2) k(3)] by blast
    then show "ffl_shape h' (lists s ! k) (B ! k)" "frames h' (B ! k) = frames (mem s) (B ! k)"
      using shape_cong [OF sys_parts(1) [OF sb k(1)], of h' "?f i \<union> ?f j"] sh by (auto simp: shuffled_def)
  qed
  have nth: "B[i := bs', j := cs'] ! k = (if k = j then cs' else if k = i then bs' else B ! k)" if "k < length (lists s)" for k
    using that len ij by (simp add: nth_list_update)
  have g: "?g k = (if k = j then set (frames h' cs') else if k = i then set (frames h' bs') else ?f k)" if "k < length (lists s)" for k
    using other(2) [OF that] by (simp add: nth [OF that])
  have dis: "?f k \<inter> (set (frames h' bs') \<union> set (frames h' cs')) = {}" if "k < length (lists s)" "k \<noteq> i" "k \<noteq> j" for k
    unfolding st using sys_disjoint [OF sb that(1) ij(1) that(2)] sys_disjoint [OF sb that(1) ij(2) that(3)] by blast
  have ow: "(set (frames h' bs') \<union> set (frames h' cs')) \<inter> owned s = {}"
    unfolding st using sys_parts(4) [OF sb ij(1)] sys_parts(4) [OF sb ij(2)] by blast
  have U: "(\<Union>k < length (lists s). ?g k) = (\<Union>k < length (lists s). ?f k)"
  proof -
    have "(\<Union>k \<in> {..<length (lists s)} - {i, j}. ?g k) = (\<Union>k \<in> {..<length (lists s)} - {i, j}. ?f k)"
      by (rule SUP_cong [OF refl]) (use other(2) in simp)
    moreover have "?g i \<union> ?g j = ?f i \<union> ?f j" using g [OF ij(1)] g [OF ij(2)] st ij(3) by simp
    ultimately show ?thesis unfolding union_two [OF ij(1,2), of ?g] union_two [OF ij(1,2), of ?f] by (simp only:)
  qed
  have pairwise: "?g k \<inter> ?g n = {}" if kn: "k < length (lists s)" "n < length (lists s)" "k \<noteq> n" for k n
  proof -
    have mine: "?g x \<subseteq> set (frames h' bs') \<union> set (frames h' cs')" if "x = i \<or> x = j" for x
      using that g [OF ij(1)] g [OF ij(2)] by (elim disjE) (simp_all split: if_splits)
    have rest: "?g x = ?f x" if "x < length (lists s)" "x \<noteq> i" "x \<noteq> j" for x unfolding g [OF that(1)] using that by simp
    consider "k \<noteq> i" "k \<noteq> j" "n \<noteq> i" "n \<noteq> j" | "k \<noteq> i" "k \<noteq> j" "n = i \<or> n = j" | "n \<noteq> i" "n \<noteq> j" "k = i \<or> k = j"
      | "k = i" "n = j" | "k = j" "n = i" using kn(3) by blast
    then show ?thesis
    proof cases
      case 1
      then show ?thesis using rest kn(1,2) sys_disjoint [OF sb kn] by simp
    next
      case 2
      then show ?thesis using rest [OF kn(1)] dis [OF kn(1)] mine [of n] by blast
    next
      case 3
      then show ?thesis using rest [OF kn(2)] dis [OF kn(2)] mine [of k] by blast
    next
      case 4
      then show ?thesis using g [OF kn(1)] g [OF kn(2)] p(6) ij(3) by simp
    next
      case 5
      then show ?thesis using g [OF kn(1)] g [OF kn(2)] p(6) ij(3) by (simp add: Int_commute)
    qed
  qed
  have each: "ffl_shape h' ((lists s)[i := l', j := m'] ! k) (B[i := bs', j := cs'] ! k) \<and> distinct (frames h' (B[i := bs', j := cs'] ! k)) \<and> ?g k \<inter> owned s = {}"
    if "k < length (lists s)" for k
  proof (cases "k = i \<or> k = j")
    case True
    then show ?thesis using p(1,2,4,5) ij ow nth [OF that] by auto
  next
    case False
    then show ?thesis using other [OF that] sys_parts(2,4) [OF sb that] nth [OF that] by auto
  qed
  show ?thesis using each pairwise U sb p(3) len unfolding sys_blocks_def by simp
qed

text \<open>A step on one list, which takes \<^verbatim>\<open>A\<close> from the owners and gives them \<^verbatim>\<open>A'\<close>.\<close>

lemma sys_single_step:
  assumes sb: "sys_blocks s B U" and i: "i < length (lists s)" and sp: "ffl_shape h' l' bs'" and st: "store_ok h'" and d: "distinct (frames h' bs')"
    and md: "modifies (mem s) h' (set (frames (mem s) (B ! i)) \<union> A)"
    and A: "A \<subseteq> owned s" and fr: "set (frames h' bs') \<union> O' = set (frames (mem s) (B ! i)) \<union> owned s" "set (frames h' bs') \<inter> O' = {}"
    and sub: "set (frames h' bs') \<subseteq> set (frames (mem s) (B ! i)) \<union> A"
  shows "sys_blocks (s\<lparr>mem := h', lists := (lists s)[i := l'], owned := O'\<rparr>) (B[i := bs']) U"
proof -
  have len: "length B = length (lists s)" using sb by (simp add: sys_blocks_def)
  let ?f = "\<lambda>k. set (frames (mem s) (B ! k))" and ?g = "\<lambda>k. set (frames h' (B[i := bs'] ! k))"
  have off: "?f k \<inter> (?f i \<union> A) = {}" "?f k \<inter> owned s = {}" if "k < length (lists s)" "k \<noteq> i" for k
    using sys_disjoint [OF sb that(1) i that(2)] sys_parts(4) [OF sb that(1)] A by blast+
  have other: "ffl_shape h' (lists s ! k) (B ! k)" "frames h' (B ! k) = frames (mem s) (B ! k)" if k: "k < length (lists s)" "k \<noteq> i" for k
    using shape_cong [OF sys_parts(1) [OF sb k(1)] md off(1) [OF k]] by simp_all
  have nth: "B[i := bs'] ! k = (if k = i then bs' else B ! k)" if "k < length (lists s)" for k using that len by (simp add: nth_list_update)
  have g: "?g k = (if k = i then set (frames h' bs') else ?f k)" if "k < length (lists s)" for k
    using other(2) [OF that] by (simp add: nth [OF that])
  have each: "ffl_shape h' ((lists s)[i := l'] ! k) (B[i := bs'] ! k) \<and> distinct (frames h' (B[i := bs'] ! k)) \<and> ?g k \<inter> O' = {}"
    if k: "k < length (lists s)" for k
  proof (cases "k = i")
    case True
    then show ?thesis using sp d fr(2) i nth [OF k] by simp
  next
    case False
    have "O' \<subseteq> ?f i \<union> owned s" using fr(1) by blast
    then have "?f k \<inter> O' = {}" using sys_disjoint [OF sb k i False] off(2) [OF k False] by blast
    then show ?thesis using other [OF k False] sys_parts(2) [OF sb k] nth [OF k] False by simp
  qed
  have pairwise: "?g k \<inter> ?g n = {}" if kn: "k < length (lists s)" "n < length (lists s)" "k \<noteq> n" for k n
    unfolding g [OF kn(1)] g [OF kn(2)] using off(1) [OF kn(1)] off(1) [OF kn(2)] sub sys_disjoint [OF sb kn] kn(3)
    by (cases "k = i"; cases "n = i"; simp; blast)
  have "(\<Union>k < length (lists s). ?g k) \<union> O' = (\<Union>k < length (lists s). ?f k) \<union> owned s"
  proof -
    have "(\<Union>k \<in> {..<length (lists s)} - {i, i}. ?g k) = (\<Union>k \<in> {..<length (lists s)} - {i, i}. ?f k)"
      by (rule SUP_cong [OF refl]) (use other(2) in simp)
    moreover have "?g i = set (frames h' bs')" using g [OF i] by simp
    ultimately show ?thesis unfolding union_two [OF i i, of ?g] union_two [OF i i, of ?f] using fr(1) by blast
  qed
  then show ?thesis using each pairwise sb st len unfolding sys_blocks_def by simp
qed

lemma sys_free:
  assumes sb: "sys_blocks s B U" "all_frames U" and may: "i < length (lists s)" "a \<in> owned s"
  shows "\<exists>s' B'. frame_do (Free i a) s = Some s' \<and> sys_blocks s' B' U"
proof -
  note p = sys_parts [OF sb(1) may(1)] sys_count [OF sb may(1)]
  obtain h' l' where f: "freeFrame a (mem s) (lists s ! i) = (h', l')" by (cases "freeFrame a (mem s) (lists s ! i)")
  have st: "store_ok (mem s)" and aU: "a \<in> U" using sb(1) may(2) by (auto simp: sys_blocks_def)
  have a: "a \<noteq> 0" "a \<notin> set (frames (mem s) (B ! i))" using aU sb(2) p(4) may(2) by (auto simp: all_frames_def good_frame_def)
  from freeFrame_ok [OF p(1) st a p(2,5) f] obtain bs' where b: "ffl_shape h' l' bs'" "mset (frames h' bs') = add_mset a (mset (frames (mem s) (B ! i)))"
    "store_ok h'" "modifies (mem s) h' (insert a (set (frames (mem s) (B ! i))))" by blast
  have set': "set (frames h' bs') = insert a (set (frames (mem s) (B ! i)))" using b(2) by (metis set_mset_add_mset_insert set_mset_mset)
  have d: "distinct (frames h' bs')" using mset_eq_imp_distinct_iff [of "frames h' bs'" "a # frames (mem s) (B ! i)"] b(2) a(2) p(2) by simp
  have "sys_blocks (s\<lparr>mem := h', lists := (lists s)[i := l'], owned := owned s - {a}\<rparr>) (B[i := bs']) U"
    by (rule sys_single_step [OF sb(1) may(1) b(1,3) d, where A = "{a}"]) (use b(4) set' may(2) p(4) in \<open>auto simp: modifies_def\<close>)
  then show ?thesis using f by auto
qed

lemma sys_alloc:
  assumes sb: "sys_blocks s B U" "all_frames U" and i: "i < length (lists s)"
  shows "\<exists>s' B'. frame_do (Alloc i) s = Some s' \<and> sys_blocks s' B' U"
proof (cases "fcount (lists s ! i) = 0")
  case True
  then have "frame_do (Alloc i) s = Some s" by (simp add: getFrame_def)
  then show ?thesis using sb(1) by blast
next
  case False
  note p = sys_parts [OF sb(1) i] sys_count [OF sb i]
  have st: "store_ok (mem s)" using sb(1) by (auto simp: sys_blocks_def)
  from getFrame_ok [OF p(1) st p(2,5,6) False] obtain a h' l' bs' where g: "getFrame (mem s) (lists s ! i) = Some (a, h', l')" "ffl_shape h' l' bs'"
    "mset (frames (mem s) (B ! i)) = add_mset a (mset (frames h' bs'))" "store_ok h'" "modifies (mem s) h' (set (frames (mem s) (B ! i)))" by blast
  have set': "set (frames (mem s) (B ! i)) = insert a (set (frames h' bs'))" using g(3) by (metis set_mset_add_mset_insert set_mset_mset)
  have d: "distinct (a # frames h' bs')" using mset_eq_imp_distinct_iff [of "frames (mem s) (B ! i)" "a # frames h' bs'"] g(3) p(2) by simp
  have a: "a \<noteq> 0" using set' p(6) by (auto simp: good_frame_def)
  have "sys_blocks (s\<lparr>mem := h', lists := (lists s)[i := l'], owned := owned s \<union> {a}\<rparr>) (B[i := bs']) U"
    by (rule sys_single_step [OF sb(1) i g(2,4), where A = "{}"]) (use g(5) d set' p(4) in auto)
  then show ?thesis using g(1) a by auto
qed

lemma sys_write:
  assumes sb: "sys_blocks s B U" and a: "a \<in> owned s" "length (fpages fi) = PER_FRAME_ELEM"
  shows "sys_blocks (s\<lparr>mem := (mem s)(a := fi)\<rparr>) B U"
proof -
  have same: "ffl_shape ((mem s)(a := fi)) (lists s ! k) (B ! k)" "frames ((mem s)(a := fi)) (B ! k) = frames (mem s) (B ! k)" if "k < length (lists s)" for k
    using shape_cong [OF sys_parts(1) [OF sb that], of "(mem s)(a := fi)" "{a}"] sys_parts(4) [OF sb that] a(1) by (auto simp: modifies_def)
  have "length B = length (lists s)" using sb by (simp add: sys_blocks_def)
  then show ?thesis using same sb a(2) unfolding sys_blocks_def by (auto simp: store_ok_def)
qed

text \<open>Every allowed call returns, with all assertions met, and leaves a system of lists.\<close>

lemma sys_step:
  assumes sb: "sys_blocks s B U" "all_frames U" and may: "frame_may c s"
  shows "\<exists>s' B'. frame_do c s = Some s' \<and> sys_blocks s' B' U"
proof -
  note put = sys_pair_step [OF sb(1)] and two = sys_pair [OF sb]
  have empty: "B ! j = []" if "j < length (lists s)" "fcount (lists s ! j) = 0" for j
    using shape_empty(1) [OF sys_parts(1) [OF sb(1) that(1)]] that(2) by simp
  show ?thesis
  proof (cases c)
    case (Free i a)
    then show ?thesis using sys_free [OF sb] may by simp
  next
    case (Alloc i)
    then show ?thesis using sys_alloc [OF sb] may by simp
  next
    case (Take_block i j)
    then have ij: "i < length (lists s)" "j < length (lists s)" "i \<noteq> j" "B ! j = []" using may empty by auto
    from getList_block_ok [OF two [OF ij(1-3), unfolded ij(4)]] show ?thesis using put [OF ij(1-3), unfolded ij(4)] Take_block by fastforce
  next
    case (Take_tail i j)
    then have ij: "i < length (lists s)" "j < length (lists s)" "i \<noteq> j" "B ! j = []" using may empty by auto
    from getListTail_ok [OF two [OF ij(1-3), unfolded ij(4)]] show ?thesis using put [OF ij(1-3), unfolded ij(4)] Take_tail by fastforce
  next
    case (Take_upTo i j n)
    then have ij: "i < length (lists s)" "j < length (lists s)" "i \<noteq> j" "n < 2 ^ 64" using may by auto
    from getUpTo_ok [OF two [OF ij(1-3)] ij(4)] show ?thesis using put [OF ij(1-3)] Take_upTo by fastforce
  next
    case (Take_count i j n)
    then have ij: "i < length (lists s)" "j < length (lists s)" "i \<noteq> j" "n < 2 ^ 64" using may by auto
    from getList_count_ok [OF two [OF ij(1-3)] ij(4)] show ?thesis using put [OF ij(1-3)] Take_count by fastforce
  next
    case (Give i j)
    then have ij: "i < length (lists s)" "j < length (lists s)" "i \<noteq> j" and ne: "B ! j \<noteq> []"
      using may shape_empty(1) [OF sys_parts(1) [OF sb(1)], of j] by auto
    from freeList_ok [OF two [OF ij] ne] show ?thesis using put [OF ij] Give by fastforce
  next
    case (Write a fi)
    then show ?thesis using sys_write [OF sb(1)] may by auto
  qed
qed

interpretation frame_lists: invariant_steps frame_step "\<lambda>s. \<exists>B. sys_blocks s B U \<and> all_frames U" for U
proof
  fix s s' assume "\<exists>B. sys_blocks s B U \<and> all_frames U" "frame_step s s'"
  then show "\<exists>B. sys_blocks s' B U \<and> all_frames U" by (metis frame_stepE sys_step option.inject)
qed

text \<open>The frames a list holds, found by following its links.\<close>

definition held_by :: "frame_sys \<Rightarrow> nat \<Rightarrow> uval set" where
  "held_by s i = (\<Union>bs \<in> {bs. lseg (mem s) 0 (fhead (lists s ! i)) bs 0}. set (frames (mem s) bs))"

lemma lseg_unique: "lseg h p a bs 0 \<Longrightarrow> lseg h p' a cs 0 \<Longrightarrow> bs = cs"
proof (induction bs arbitrary: p p' a cs)
  case Nil
  then show ?case by (cases cs) auto
next
  case (Cons b bs)
  then show ?case by (cases cs) auto
qed

lemma held_by_eq:
  assumes "ffl_shape (mem s) (lists s ! i) bs"
  shows "held_by s i = set (frames (mem s) bs)"
  using assms lseg_unique unfolding held_by_def ffl_shape_def by fast

definition new_sys :: "fstore \<Rightarrow> nat \<Rightarrow> uval set \<Rightarrow> frame_sys" where
  "new_sys h n U = \<lparr>mem = h, lists = replicate n ffl_init, owned = U\<rparr>"

lemma new_sys_ok: "store_ok h \<Longrightarrow> sys_blocks (new_sys h n U) (replicate n []) U"
  by (auto simp: sys_blocks_def new_sys_def ffl_shape_def ffl_init_def)

lemma reach_sys:
  assumes "store_ok h" "all_frames U" "frame_step\<^sup>*\<^sup>* (new_sys h n U) s"
  shows "\<exists>B. sys_blocks s B U"
  using frame_lists.steps_inv [OF assms(3), of U] new_sys_ok [OF assms(1)] assms(2) by blast

text \<open>
  C4. Free frames are never lost, handed out twice or shared, although the lists keep their links in them and
  owners write what they like into the frames they hold: in every state that calls on any number of
  lists and writes by owners reach, each frame is held by exactly one list or is owned, and the count of
  a list is the number of frames it holds.
\<close>

theorem frames_partitioned:
  assumes "store_ok h" "all_frames U" "frame_step\<^sup>*\<^sup>* (new_sys h n U) s"
  shows "(\<Union>i < length (lists s). held_by s i) \<union> owned s = U \<and>
    (\<forall>i < length (lists s). held_by s i \<inter> owned s = {} \<and> fcount (lists s ! i) = card (held_by s i)) \<and>
    (\<forall>i < length (lists s). \<forall>j < length (lists s). i \<noteq> j \<longrightarrow> held_by s i \<inter> held_by s j = {})"
proof -
  obtain B where sb: "sys_blocks s B U" using reach_sys [OF assms] by blast
  have len: "length B = length (lists s)" using sb by (simp add: sys_blocks_def)
  have e: "held_by s i = set (frames (mem s) (B ! i))" if "i < length (lists s)" for i by (rule held_by_eq [OF sys_parts(1) [OF sb that]])
  have "(\<Union>i < length (lists s). held_by s i) = (\<Union>i < length B. set (frames (mem s) (B ! i)))" unfolding len by (rule SUP_cong [OF refl]) (simp add: e)
  moreover have "held_by s i \<inter> owned s = {} \<and> fcount (lists s ! i) = card (held_by s i)" if "i < length (lists s)" for i
    using sys_parts [OF sb that] distinct_card [of "frames (mem s) (B ! i)"] e [OF that] by (simp add: ffl_shape_def)
  moreover have "held_by s i \<inter> held_by s j = {}" if "i < length (lists s)" "j < length (lists s)" "i \<noteq> j" for i j
    using sys_disjoint [OF sb that] e that by simp
  moreover have "(\<Union>i < length B. set (frames (mem s) (B ! i))) \<union> owned s = U" using sb unfolding sys_blocks_def by blast
  ultimately show ?thesis by simp
qed

lemma all_frames_ex: "all_frames {4096, 8192}"
  by (simp add: all_frames_def good_frame_def and_page_mask PAGE_SIZE_def)

definition blank :: fstore where
  "blank = (\<lambda>_. \<lparr>fnext = 7, fprev = 7, frameCount = 7, fpages = replicate 509 0\<rparr>)"

lemma blank_ok: "store_ok blank"
  by (simp add: store_ok_def blank_def PER_FRAME_ELEM_def)

lemma two_freed:
  "\<exists>s. frame_step\<^sup>*\<^sup>* (new_sys blank 2 {4096, 8192}) s \<and> length (lists s) = 2 \<and> owned s = {} \<and> fcount (lists s ! 0) = 2 \<and> fcount (lists s ! 1) = 0"
proof -
  let ?s = "new_sys blank 2 {4096, 8192}"
  obtain s1 where s1: "frame_do (Free 0 4096) ?s = Some s1" "owned s1 = {8192}" "length (lists s1) = 2" "lists s1 ! 0 = \<lparr>ftail = 4096, fhead = 4096, fcount = 1\<rparr>"
    "fcount (lists s1 ! 1) = 0" "frameCount (mem s1 4096) = 0"
    by (auto simp: new_sys_def freeFrame_def ffl_init_def blank_def uadd_def nth_list_update)
  obtain s2 where s2: "frame_do (Free 0 8192) s1 = Some s2" "owned s2 = {}" "length (lists s2) = 2" "fcount (lists s2 ! 0) = 2" "fcount (lists s2 ! 1) = 0"
    using s1(2-6) by (auto simp: freeFrame_def uadd_def PER_FRAME_ELEM_def Let_def split: if_splits)
  have "frame_step ?s s1" by (rule frame_step.intros [OF _ s1(1)]) (simp add: new_sys_def)
  moreover have "frame_step s1 s2" by (rule frame_step.intros [OF _ s2(1)]) (simp add: s1)
  ultimately have "frame_step\<^sup>*\<^sup>* ?s s2" by simp
  then show ?thesis using s2 by blast
qed

theorem frames_partitioned_witness:
  "\<exists>s. frame_step\<^sup>*\<^sup>* (new_sys blank 2 {4096, 8192}) s \<and> owned s = {} \<and> held_by s 0 \<union> held_by s 1 = {4096, 8192} \<and> card (held_by s 0) = 2"
proof -
  obtain s where s: "frame_step\<^sup>*\<^sup>* (new_sys blank 2 {4096, 8192}) s" "length (lists s) = 2" "owned s = {}" "fcount (lists s ! 0) = 2"
    using two_freed by blast
  show ?thesis using frames_partitioned [OF blank_ok all_frames_ex s(1)] s
    by (intro exI [of _ s]) (auto simp: numeral_2_eq_2 lessThan_Suc)
qed

text \<open>
  C34. No call on the lists faults: in every reachable state an allowed call returns, with the assertions about
  the address it hands out met, and the consistency check of the source accepts every list.
\<close>

theorem frame_calls_never_fault:
  assumes "store_ok h" "all_frames U" "frame_step\<^sup>*\<^sup>* (new_sys h n U) s"
  shows "(\<forall>c. frame_may c s \<longrightarrow> (\<exists>s'. frame_do c s = Some s')) \<and> (\<forall>i < length (lists s). kosher (mem s) (lists s ! i) = Some True)"
proof -
  obtain B where sb: "sys_blocks s B U" using reach_sys [OF assms] by blast
  have st: "store_ok (mem s)" using sb by (simp add: sys_blocks_def)
  show ?thesis using sys_step [OF sb assms(2)] kosher_ok [OF sys_parts(1) [OF sb] st] sys_count(1) [OF sb assms(2)] by blast
qed

theorem frame_calls_never_fault_witness:
  "\<exists>s s'. frame_step\<^sup>*\<^sup>* (new_sys blank 2 {4096, 8192}) s \<and> frame_do (Take_tail 0 1) s = Some s' \<and> kosher (mem s) (lists s ! 0) = Some True"
proof -
  obtain s where s: "frame_step\<^sup>*\<^sup>* (new_sys blank 2 {4096, 8192}) s" "length (lists s) = 2" "fcount (lists s ! 1) = 0" using two_freed by blast
  have m: "frame_may (Take_tail 0 1) s" using s by simp
  note t = frame_calls_never_fault [OF blank_ok all_frames_ex s(1)]
  then obtain s' where "frame_do (Take_tail 0 1) s = Some s'" using m by blast
  moreover have "kosher (mem s) (lists s ! 0) = Some True" using t s(2) by simp
  ultimately show ?thesis using s(1) by blast
qed

text \<open>
  \<^verbatim>\<open>getList\<close> for a number of frames moves exactly that many to the other list, or all there are, and returns
  how many are missing; \<^verbatim>\<open>getUpTo\<close> moves no more than asked and returns how many are missing. Both return.
\<close>

theorem getList_moves_exactly:
  assumes "store_ok h" "all_frames U" "frame_step\<^sup>*\<^sup>* (new_sys h n U) s"
    and ij: "i < length (lists s)" "j < length (lists s)" "i \<noteq> j" and q: "req < 2 ^ 64"
  shows "(\<exists>h' l' m'. getList_count req (mem s) (lists s ! i) (lists s ! j) = Some (req - min req (fcount (lists s ! i)), h', l', m') \<and>
      fcount l' = fcount (lists s ! i) - min req (fcount (lists s ! i)) \<and> fcount m' = fcount (lists s ! j) + min req (fcount (lists s ! i))) \<and>
    (\<exists>req' h' l' m'. getUpTo req (mem s) (lists s ! i) (lists s ! j) = Some (req', h', l', m') \<and> req' \<le> req \<and>
      fcount l' + (req - req') = fcount (lists s ! i) \<and> fcount m' = fcount (lists s ! j) + (req - req'))"
proof
  obtain B where sb: "sys_blocks s B U" using reach_sys [OF assms(1-3)] by blast
  note ok = sys_pair [OF sb assms(2) ij]
  from getList_count_ok [OF ok q] obtain h' l' m' bs' cs' where g: "getList_count req (mem s) (lists s ! i) (lists s ! j) = Some (req - min req (fcount (lists s ! i)), h', l', m')"
    "pair_ok h' l' bs' m' cs'" "shuffled (mem s) (B ! i) (B ! j) h' bs' cs'" "fcount m' = fcount (lists s ! j) + min req (fcount (lists s ! i))" by blast
  show "\<exists>h' l' m'. getList_count req (mem s) (lists s ! i) (lists s ! j) = Some (req - min req (fcount (lists s ! i)), h', l', m') \<and>
      fcount l' = fcount (lists s ! i) - min req (fcount (lists s ! i)) \<and> fcount m' = fcount (lists s ! j) + min req (fcount (lists s ! i))"
    using g(1,4) shuffled_count [OF ok g(3,2)] by (intro exI [of _ h'] exI [of _ l'] exI [of _ m']) simp
  from getUpTo_ok [OF ok q] obtain req' h' l' m' bs' cs' where u: "getUpTo req (mem s) (lists s ! i) (lists s ! j) = Some (req', h', l', m')"
    "pair_ok h' l' bs' m' cs'" "shuffled (mem s) (B ! i) (B ! j) h' bs' cs'" "req' \<le> req" "fcount m' = fcount (lists s ! j) + (req - req')" by blast
  show "\<exists>req' h' l' m'. getUpTo req (mem s) (lists s ! i) (lists s ! j) = Some (req', h', l', m') \<and> req' \<le> req \<and>
      fcount l' + (req - req') = fcount (lists s ! i) \<and> fcount m' = fcount (lists s ! j) + (req - req')"
    using u(1,4,5) shuffled_count [OF ok u(3,2)] by (intro exI [of _ req'] exI [of _ h'] exI [of _ l'] exI [of _ m']) simp
qed

theorem getList_moves_exactly_witness:
  "\<exists>s h' l' m'. frame_step\<^sup>*\<^sup>* (new_sys blank 2 {4096, 8192}) s \<and>
     getList_count 5 (mem s) (lists s ! 0) (lists s ! 1) = Some (3, h', l', m') \<and> fcount l' = 0 \<and> fcount m' = 2"
proof -
  obtain s where s: "frame_step\<^sup>*\<^sup>* (new_sys blank 2 {4096, 8192}) s" "length (lists s) = 2" "fcount (lists s ! 0) = 2" "fcount (lists s ! 1) = 0"
    using two_freed by blast
  show ?thesis using getList_moves_exactly [OF blank_ok all_frames_ex s(1), of 0 1 5] s by auto
qed

end
