(* ===== verification/BlockSet.thy ===== *)
theory BlockSet
  imports K42_Prelude
begin

text \<open>
  The 64-bit vectors of \<^verbatim>\<open>lib/libc/misc/AtomicBitVec64.H\<close> and the hierarchical bitmap of the disk blocks used for
  paging, \<^verbatim>\<open>lib/libc/misc/BlockSet.H\<close> and \<^verbatim>\<open>BlockSet.C\<close>. Level 0 has a bit per block, level 1 a bit per set
  of 64 blocks that says whether the set was handed out, and the levels above a bit per vector below
  that says that it is full; such a bit may be missing until a search finds the vector full. The operations
  on the levels above 0 hold the lock of the set.
\<close>

section \<open>Bit vectors\<close>

type_synonym bits = "64 word"

definition setBit :: "bits \<Rightarrow> nat \<Rightarrow> bits" where
  "setBit w b = w OR push_bit b 1"

definition clearBit :: "bits \<Rightarrow> nat \<Rightarrow> bits" where
  "clearBit w b = w AND NOT (push_bit b 1)"

definition fetchAndSetBit :: "bits \<Rightarrow> nat \<Rightarrow> bits \<times> bits" where
  "fetchAndSetBit w b = (w, w OR push_bit b 1)"

definition fetchAndClearBit :: "bits \<Rightarrow> nat \<Rightarrow> bits \<times> bits" where
  "fetchAndClearBit w b = (w, w AND NOT (push_bit b 1))"

definition applyMask :: "bits \<Rightarrow> bits \<Rightarrow> bits" where
  "applyMask w maskBits = w AND maskBits"

definition isBitSet :: "bits \<Rightarrow> nat \<Rightarrow> bool" where
  "isBitSet w b \<longleftrightarrow> w AND push_bit b 1 \<noteq> 0"

definition setFirstBits :: "nat \<Rightarrow> bits" where
  "setFirstBits n = push_bit n 1 - 1"

definition clearFirstBits :: "nat \<Rightarrow> bits" where
  "clearFirstBits n = NOT (push_bit n 1 - 1)"

definition setAll :: bits where "setAll = NOT 0"

definition clearAll :: bits where "clearAll = 0"

definition flipAllIfZero :: "bits \<Rightarrow> bool \<times> bits" where
  "flipAllIfZero w = (if w = 0 then (True, NOT 0) else (False, w))"

text \<open>
  The searches that also change the vector shift a copy of it; the compare-and-store succeeds when nobody else
  changes the vector in between, which the callers' locks see to.
\<close>

function shift_unset :: "bits \<Rightarrow> nat \<Rightarrow> nat" where
  "shift_unset b i = (if i < 64 then if b AND 1 = 0 then i else shift_unset (drop_bit 1 b) (i + 1) else i)"
  by auto
termination by (relation "measure (\<lambda>(b, i). 64 - i)") auto

function shift_one :: "bits \<Rightarrow> nat \<Rightarrow> nat" where
  "shift_one b i = (if i < 64 then if b AND 1 \<noteq> 0 then i else shift_one (drop_bit 1 b) (i + 1) else i)"
  by auto
termination by (relation "measure (\<lambda>(b, i). 64 - i)") auto

definition setFindFirstUnSet :: "bits \<Rightarrow> nat \<times> bits" where
  "setFindFirstUnSet w = (let i = shift_unset w 0 in (i, if i \<noteq> 64 then w OR push_bit i 1 else w))"

definition clearFindFirstOne :: "bits \<Rightarrow> nat \<times> bits" where
  "clearFindFirstOne w = (let i = shift_one w 0 in (i, if i \<noteq> 64 then w AND NOT (push_bit i 1) else w))"

function scan_unset :: "bits \<Rightarrow> nat \<Rightarrow> nat" where
  "scan_unset b i = (if i < 64 then if b AND push_bit i 1 = 0 then i else scan_unset b (i + 1) else i)"
  by auto
termination by (relation "measure (\<lambda>(b, i). 64 - i)") auto

function scan_one :: "bits \<Rightarrow> nat \<Rightarrow> nat" where
  "scan_one b i = (if i < 64 then if b AND push_bit i 1 \<noteq> 0 then i else scan_one b (i + 1) else i)"
  by auto
termination by (relation "measure (\<lambda>(b, i). 64 - i)") auto

definition findFirstUnSet :: "bits \<Rightarrow> nat" where
  "findFirstUnSet w = (if w = 0 then 0 else scan_unset w 0)"

definition findFirstOne :: "bits \<Rightarrow> nat" where
  "findFirstOne w = (if w = 0 then 64 else scan_one w 0)"

declare shift_unset.simps [simp del] shift_one.simps [simp del] scan_unset.simps [simp del] scan_one.simps [simp del]

lemma bit_test: "(w :: bits) AND push_bit i 1 = 0 \<longleftrightarrow> \<not> bit w i"
  using and_exp_eq_0_iff_not_bit [of w i] by (simp add: push_bit_eq_mult)

lemma bit_setBit: "b < 64 \<Longrightarrow> bit (setBit w b) i \<longleftrightarrow> bit w i \<or> i = b"
  by (auto simp: setBit_def bit_simps)

lemma bit_clearBit: "i < 64 \<Longrightarrow> bit (clearBit w b) i \<longleftrightarrow> bit w i \<and> i \<noteq> b"
  by (auto simp: clearBit_def bit_simps)

lemma bit_clearFirst: "i < 64 \<Longrightarrow> n \<le> 64 \<Longrightarrow> bit (clearFirstBits n) i \<longleftrightarrow> n \<le> i"
proof -
  assume "i < 64" "n \<le> 64"
  have "push_bit n (1 :: bits) - 1 = mask n" by (simp add: mask_eq_exp_minus_1 push_bit_eq_mult)
  then show ?thesis using \<open>i < 64\<close> by (auto simp: clearFirstBits_def bit_simps)
qed

lemma bit_all [simp]: "i < 64 \<Longrightarrow> bit setAll i" "\<not> bit clearAll i"
  by (simp_all add: setAll_def clearAll_def bit_simps)

lemma full_iff: "w = setAll \<longleftrightarrow> (\<forall>i < 64. bit w i)"
  by (auto intro: bit_word_eqI simp: setAll_def bit_simps)

text \<open>The first bit of a kind, at or after a position.\<close>

definition first_from_bit :: "(nat \<Rightarrow> bool) \<Rightarrow> nat \<Rightarrow> nat \<Rightarrow> bool" where
  "first_from_bit P i r \<longleftrightarrow> i \<le> r \<and> r \<le> 64 \<and> (\<forall>j. i \<le> j \<and> j < r \<longrightarrow> \<not> P j) \<and> (r < 64 \<longrightarrow> P r)"

lemma first_from_unique: "first_from_bit P i r \<Longrightarrow> first_from_bit P i r' \<Longrightarrow> r = r'"
  unfolding first_from_bit_def by (metis linorder_neqE_nat order_less_le_trans)

lemma first_from_step: "i < 64 \<Longrightarrow> \<not> P i \<Longrightarrow> first_from_bit P (Suc i) r \<Longrightarrow> first_from_bit P i r"
  unfolding first_from_bit_def by (metis Suc_leD le_antisym not_less_eq_eq)

lemma scan_unset_first: "i \<le> 64 \<Longrightarrow> first_from_bit (\<lambda>j. \<not> bit w j) i (scan_unset w i)"
proof (induction w i rule: scan_unset.induct)
  case (1 w i)
  show ?case
  proof (cases "i < 64 \<and> bit w i")
    case True
    then show ?thesis using 1 first_from_step [of i "\<lambda>j. \<not> bit w j"] by (subst scan_unset.simps) (simp add: bit_test and_exp_eq_0_iff_not_bit)
  next
    case False
    then show ?thesis using 1(2) by (subst scan_unset.simps) (auto simp: bit_test and_exp_eq_0_iff_not_bit first_from_bit_def)
  qed
qed

lemma scan_one_first: "i \<le> 64 \<Longrightarrow> first_from_bit (bit w) i (scan_one w i)"
proof (induction w i rule: scan_one.induct)
  case (1 w i)
  show ?case
  proof (cases "i < 64 \<and> \<not> bit w i")
    case True
    then show ?thesis using 1 first_from_step [of i "bit w"] by (subst scan_one.simps) (simp add: bit_test and_exp_eq_0_iff_not_bit)
  next
    case False
    then show ?thesis using 1(2) by (subst scan_one.simps) (auto simp: bit_test and_exp_eq_0_iff_not_bit first_from_bit_def)
  qed
qed

lemma low_bit: "(drop_bit i w :: bits) AND 1 = 0 \<longleftrightarrow> \<not> bit w i"
  using bit_test [of "drop_bit i w" 0] by (simp add: bit_drop_bit_eq)

lemma shift_unset_first: "i \<le> 64 \<Longrightarrow> first_from_bit (\<lambda>j. \<not> bit w j) i (shift_unset (drop_bit i w) i)"
proof (induction "64 - i" arbitrary: i)
  case 0
  then show ?case by (subst shift_unset.simps) (auto simp: first_from_bit_def)
next
  case (Suc x)
  show ?case
  proof (cases "bit w i")
    case True
    have "first_from_bit (\<lambda>j. \<not> bit w j) (Suc i) (shift_unset (drop_bit (Suc i) w) (Suc i))" using Suc by simp
    then show ?thesis using True Suc.hyps(2) first_from_step [of i "\<lambda>j. \<not> bit w j"]
      by (subst shift_unset.simps) (simp add: low_bit)
  next
    case False
    then show ?thesis using Suc.hyps(2) by (subst shift_unset.simps) (auto simp: low_bit first_from_bit_def)
  qed
qed

lemma shift_one_first: "i \<le> 64 \<Longrightarrow> first_from_bit (bit w) i (shift_one (drop_bit i w) i)"
proof (induction "64 - i" arbitrary: i)
  case 0
  then show ?case by (subst shift_one.simps) (auto simp: first_from_bit_def)
next
  case (Suc x)
  show ?case
  proof (cases "bit w i")
    case False
    have "first_from_bit (bit w) (Suc i) (shift_one (drop_bit (Suc i) w) (Suc i))" using Suc by simp
    then show ?thesis using False Suc.hyps(2) first_from_step [of i "bit w"]
      by (subst shift_one.simps) (simp add: low_bit)
  next
    case True
    then show ?thesis using Suc.hyps(2) by (subst shift_one.simps) (auto simp: low_bit first_from_bit_def)
  qed
qed

lemma findFirstUnSet_first: "first_from_bit (\<lambda>j. \<not> bit w j) 0 (findFirstUnSet w)"
  using scan_unset_first [of 0 w] by (auto simp: findFirstUnSet_def first_from_bit_def)

lemma findFirstOne_first: "first_from_bit (bit w) 0 (findFirstOne w)"
  using scan_one_first [of 0 w] by (auto simp: findFirstOne_def first_from_bit_def)

text \<open>
  The two ways of the source to look for a bit, testing each position and shifting the vector, find the
  same one: the first unset bit, or the first set one, and 64 when there is none. The searches that
  change the vector change that bit only.
\<close>

theorem bit_searches_agree:
  "fst (setFindFirstUnSet w) = findFirstUnSet w \<and> fst (clearFindFirstOne w) = findFirstOne w \<and>
   findFirstUnSet w = (if w = setAll then 64 else LEAST i. \<not> bit w i) \<and> findFirstOne w = (if w = 0 then 64 else LEAST i. bit w i) \<and>
   (\<forall>i < 64. bit (snd (setFindFirstUnSet w)) i = (bit w i \<or> i = findFirstUnSet w) \<and>
      bit (snd (clearFindFirstOne w)) i = (bit w i \<and> i \<noteq> findFirstOne w))"
proof -
  have u: "shift_unset w 0 = findFirstUnSet w"
    using shift_unset_first [of 0 w] first_from_unique [OF _ findFirstUnSet_first [of w]] by simp
  have o: "shift_one w 0 = findFirstOne w"
    using shift_one_first [of 0 w] first_from_unique [OF _ findFirstOne_first [of w]] by simp
  note f = findFirstUnSet_first [of w, unfolded first_from_bit_def] and g = findFirstOne_first [of w, unfolded first_from_bit_def]
  have fu: "findFirstUnSet w = 64 \<longleftrightarrow> w = setAll" using f unfolding full_iff by (metis le_neq_implies_less less_irrefl zero_le)
  have "w = 0 \<longleftrightarrow> (\<forall>i < 64. \<not> bit w i)" by (auto intro: bit_word_eqI)
  then have go: "findFirstOne w = 64 \<longleftrightarrow> w = 0" using g by (metis le_neq_implies_less less_irrefl zero_le)
  have lu: "findFirstUnSet w = (LEAST i. \<not> bit w i)" if "w \<noteq> setAll"
    by (rule Least_equality [symmetric]) (use f fu that in \<open>auto simp: not_less [symmetric]\<close>)
  have lo: "findFirstOne w = (LEAST i. bit w i)" if "w \<noteq> 0"
    by (rule Least_equality [symmetric]) (use g go that in \<open>auto simp: not_less [symmetric]\<close>)
  have "bit (snd (setFindFirstUnSet w)) i = (bit w i \<or> i = findFirstUnSet w)" if "i < 64" for i
    using that bit_setBit [of "findFirstUnSet w" w i] f unfolding setFindFirstUnSet_def u Let_def setBit_def by auto
  moreover have "bit (snd (clearFindFirstOne w)) i = (bit w i \<and> i \<noteq> findFirstOne w)" if "i < 64" for i
    using that bit_clearBit [of i w "findFirstOne w"] unfolding clearFindFirstOne_def o Let_def clearBit_def by auto
  ultimately show ?thesis using u o fu go lu lo by (auto simp: setFindFirstUnSet_def clearFindFirstOne_def Let_def)
qed

theorem bit_searches_agree_witness: "fst (setFindFirstUnSet 0) = findFirstUnSet 0 \<and> bit (snd (setFindFirstUnSet 0)) 0"
  using bit_searches_agree [of 0] by (simp add: findFirstUnSet_def)

lemma shift_is_scan: "shift_unset w 0 = findFirstUnSet w"
  using shift_unset_first [of 0 w] first_from_unique [OF _ findFirstUnSet_first [of w]] by simp

lemma unset_full: "findFirstUnSet w = 64 \<longleftrightarrow> w = setAll"
  using findFirstUnSet_first [of w] unfolding full_iff first_from_bit_def by (metis le_neq_implies_less less_irrefl zero_le)

lemma unset_found:
  assumes "findFirstUnSet w \<noteq> 64"
  shows "findFirstUnSet w < 64" "\<not> bit w (findFirstUnSet w)" "\<And>j. j < findFirstUnSet w \<Longrightarrow> bit w j"
  using findFirstUnSet_first [of w] assms unfolding first_from_bit_def by auto

section \<open>The levels\<close>

declare One_nat_def [simp del]

type_synonym levels = "nat \<Rightarrow> nat \<Rightarrow> bits"

definition put_vec :: "levels \<Rightarrow> nat \<Rightarrow> nat \<Rightarrow> bits \<Rightarrow> levels" where
  "put_vec m level i w = m(level := (m level)(i := w))"

text \<open>The constructor: on each level the first bits are clear, as many as there are vectors with a clear bit below.\<close>

definition init_vec :: "uval \<Rightarrow> nat \<Rightarrow> bits" where
  "init_vec numBlocks i =
     (if 64 * i \<le> numBlocks
      then if numBlocks - 64 * i \<ge> 64 then clearAll else clearFirstBits (numBlocks - 64 * i)
      else setAll)"

definition fill_level :: "uval \<Rightarrow> nat \<Rightarrow> levels \<Rightarrow> levels" where
  "fill_level numBlocks level m = foldl (\<lambda>m i. put_vec m level i (init_vec numBlocks i)) m [0..<2 ^ (6 * (3 - level))]"

definition next_blocks :: "uval \<Rightarrow> uval" where
  "next_blocks n = (if n mod 64 \<noteq> 0 then uadd n 64 else n) div 64"

function init_levels :: "nat \<Rightarrow> uval \<Rightarrow> levels \<Rightarrow> levels" where
  "init_levels level n m = (if level < 4 then init_levels (level + 1) (next_blocks n) (fill_level n level m) else m)"
  by auto
termination by (relation "measure (\<lambda>(level, n, m). 4 - level)") auto

declare init_levels.simps [simp del]

definition BlockSet_new :: "uval \<Rightarrow> levels" where
  "BlockSet_new numBlocks = init_levels 0 numBlocks (\<lambda>_ _. 0)"

definition parent_bit :: "(bits \<Rightarrow> nat \<Rightarrow> bits) \<Rightarrow> nat \<Rightarrow> nat \<Rightarrow> levels \<Rightarrow> levels" where
  "parent_bit f level i m = put_vec m (level + 1) (i div 64) (f (m (level + 1) (i div 64)) (i mod 64))"

partial_function (option) set_loop :: "nat \<Rightarrow> uval \<Rightarrow> levels \<Rightarrow> (sys_error + uval \<times> levels) option" where
  "set_loop level setID m =
     (if level > 0
      then let bv = m level setID;
               (tmp, bv') = (if level = 1 then setFindFirstUnSet bv else (findFirstUnSet bv, bv));
               m1 = put_vec m level setID bv'
           in if tmp = 64
              then if level = 3 then Some (Inl Panic)
                   else set_loop (level + 1) (setID div 64) (parent_bit setBit level setID m1)
              else set_loop (level - 1) (setID * 64 + tmp) m1
      else Some (Inr (setID, m)))"

definition getBlockSet :: "levels \<Rightarrow> (sys_error + uval \<times> levels) option" where
  "getBlockSet m = set_loop 3 0 m"

function unset_loop :: "nat \<Rightarrow> uval \<Rightarrow> levels \<Rightarrow> levels" where
  "unset_loop level cid m =
     (if level < 3
      then let bitmapFull = (findFirstUnSet (m (level + 1) (cid div 64)) = 64);
               m1 = parent_bit clearBit level cid m
           in if \<not> bitmapFull then m1 else unset_loop (level + 1) (cid div 64) m1
      else m)"
  by auto
termination by (relation "measure (\<lambda>(level, cid, m). 3 - level)") auto

declare unset_loop.simps [simp del]

definition putBlockSet :: "uval \<Rightarrow> bool \<Rightarrow> levels \<Rightarrow> levels" where
  "putBlockSet orig clearSet m =
     (let m1 = unset_loop 0 orig m in if clearSet then put_vec m1 0 orig clearAll else m1)"

section \<open>The free sets\<close>

text \<open>
  The bit of a vector, or of a set of blocks, on a level; a set is free when its bit on level 1 is clear. The bits of
  the levels above are hints: one that is set says truly that the vector below is full.
\<close>

definition lbit :: "levels \<Rightarrow> nat \<Rightarrow> nat \<Rightarrow> bool" where
  "lbit m l x \<longleftrightarrow> bit (m l (x div 64)) (x mod 64)"

definition free_sets :: "levels \<Rightarrow> nat set" where
  "free_sets m = {s. s < 64 ^ 3 \<and> \<not> lbit m 1 s}"

definition bs_ok :: "levels \<Rightarrow> bool" where
  "bs_ok m \<longleftrightarrow> (\<forall>x < 64 ^ 2. lbit m 2 x \<longrightarrow> m 1 x = setAll) \<and> (\<forall>x < 64. lbit m 3 x \<longrightarrow> m 2 x = setAll)"

lemma split64: "(64 * a + b) div 64 = a" "(64 * a + b) mod 64 = b" if "b < (64 :: nat)"
  using that by auto

lemma lbit_at: "b < 64 \<Longrightarrow> lbit m l (64 * a + b) = bit (m l a) b"
  by (simp add: lbit_def)

lemma full_lbits: "m l x = setAll \<longleftrightarrow> (\<forall>b < 64. lbit m l (64 * x + b))"
  by (simp add: full_iff lbit_at)

lemma lbit_put:
  "lbit (put_vec m l i w) k x = (if k = l \<and> x div 64 = i then bit w (x mod 64) else lbit m k x)"
  by (simp add: lbit_def put_vec_def)

lemma put_same [simp]: "m l i = w \<Longrightarrow> put_vec m l i w = m"
  by (auto simp: put_vec_def)

lemma put_other [simp]: "k \<noteq> l \<Longrightarrow> put_vec m l i w k = m k"
  by (simp add: put_vec_def)

lemma lbit_parent_set: "lbit (parent_bit setBit l i m) k x = (lbit m k x \<or> k = l + 1 \<and> x = i)"
proof -
  have "x = i \<longleftrightarrow> x div 64 = i div 64 \<and> x mod 64 = i mod 64" by (metis div_mult_mod_eq)
  then show ?thesis by (auto simp: parent_bit_def lbit_put bit_setBit) (simp_all add: lbit_def)
qed

lemma lbit_parent_clear: "lbit (parent_bit clearBit l i m) k x = (lbit m k x \<and> \<not> (k = l + 1 \<and> x = i))"
proof -
  have "x = i \<longleftrightarrow> x div 64 = i div 64 \<and> x mod 64 = i mod 64" by (metis div_mult_mod_eq)
  then show ?thesis by (auto simp: parent_bit_def lbit_put bit_clearBit) (simp_all add: lbit_def)
qed

lemma parent_other [simp]: "k \<noteq> l + 1 \<Longrightarrow> parent_bit f l i m k = m k"
  by (simp add: parent_bit_def)

lemma bs_ok_lbits:
  "bs_ok m \<longleftrightarrow> (\<forall>x < 64 ^ 2. lbit m 2 x \<longrightarrow> (\<forall>b < 64. lbit m 1 (64 * x + b))) \<and>
     (\<forall>x < 64. lbit m 3 x \<longrightarrow> (\<forall>b < 64. lbit m 2 (64 * x + b)))"
  by (simp add: bs_ok_def full_lbits)

lemma bs_ok_more:
  assumes "bs_ok m" "\<And>x. lbit m 1 x \<Longrightarrow> lbit m' 1 x" "\<And>x. lbit m' 2 x = lbit m 2 x" "\<And>x. lbit m' 3 x = lbit m 3 x"
  shows "bs_ok m'"
  using assms(1) unfolding bs_ok_lbits assms(3,4) by (blast intro: assms(2))

text \<open>A full vector may be recorded in its parent.\<close>

lemma mark_full_ok:
  assumes "bs_ok m" "l \<in> {1, 2}" "m l i = setAll"
  shows "bs_ok (parent_bit setBit l i m)" "free_sets (parent_bit setBit l i m) = free_sets m"
  using assms by (auto simp: bs_ok_lbits free_sets_def lbit_parent_set full_lbits)

text \<open>What the loop of the search keeps: no set before the subtree it looks at is free.\<close>

definition search_inv :: "nat \<Rightarrow> nat \<Rightarrow> levels \<Rightarrow> bool" where
  "search_inv level i m \<longleftrightarrow>
     level = 3 \<and> i = 0 \<or>
     level = 2 \<and> i < 64 \<and> \<not> lbit m 3 i \<and> (\<forall>s < 64 ^ 2 * i. lbit m 1 s) \<or>
     level = 1 \<and> i < 64 ^ 2 \<and> \<not> lbit m 3 (i div 64) \<and> \<not> lbit m 2 i \<and> (\<forall>s < 64 * i. lbit m 1 s)"

definition unmarked :: "levels \<Rightarrow> nat" where
  "unmarked m = card {x. x < 64 ^ 2 \<and> \<not> lbit m 2 x} + card {x. x < 64 \<and> \<not> lbit m 3 x}"

definition got_least :: "levels \<Rightarrow> (sys_error + uval \<times> levels) option \<Rightarrow> bool" where
  "got_least m r \<longleftrightarrow>
     (if free_sets m = {} then r = Some (Inl Panic)
      else \<exists>m'. r = Some (Inr (Min (free_sets m), m')) \<and> bs_ok m' \<and> free_sets m' = free_sets m - {Min (free_sets m)} \<and> m' 0 = m 0)"

lemma got_leastI:
  "free_sets m \<noteq> {} \<Longrightarrow> bs_ok m' \<Longrightarrow> free_sets m' = free_sets m - {Min (free_sets m)} \<Longrightarrow> m' 0 = m 0 \<Longrightarrow>
   got_least m (Some (Inr (Min (free_sets m), m')))"
  by (simp add: got_least_def)

lemma finite_free: "finite (free_sets m)"
  by (simp add: free_sets_def)

lemma unmarked_decr:
  assumes "l \<in> {1, 2}" "i < 64 ^ (3 - l)" "\<not> lbit m (l + 1) i"
  shows "unmarked (parent_bit setBit l i m) < unmarked m"
proof -
  have s: "{x. x < n \<and> \<not> lbit (parent_bit setBit l i m) (l + 1) x} = {x. x < n \<and> \<not> lbit m (l + 1) x} - {i}" for n
    by (auto simp: lbit_parent_set)
  have o: "{x. x < n \<and> \<not> lbit (parent_bit setBit l i m) k x} = {x. x < n \<and> \<not> lbit m k x}" if "k \<noteq> l + 1" for n k
    using that by (auto simp: lbit_parent_set)
  have "card ({x. x < n \<and> \<not> lbit m (l + 1) x} - {i}) < card {x. x < n \<and> \<not> lbit m (l + 1) x}" if "i < n" for n
    using that assms by (intro psubset_card_mono) auto
  then show ?thesis using assms s [of "64 ^ 2"] s [of 64] o [of 3 64] o [of 2 "64 ^ 2"]
    by (auto simp: unmarked_def numeral_2_eq_2 numeral_3_eq_3)
qed

lemma below_full:
  assumes "bs_ok m"
  shows "x < 64 ^ 2 \<Longrightarrow> b < 64 \<Longrightarrow> lbit m 2 x \<Longrightarrow> lbit m 1 (64 * x + b)"
    and "x < 64 \<Longrightarrow> b < 64 \<Longrightarrow> lbit m 3 x \<Longrightarrow> lbit m 2 (64 * x + b)"
  using assms unfolding bs_ok_lbits by blast+

lemma search_up:
  assumes "bs_ok m" "l \<in> {1, 2}" "search_inv l i m" "m l i = setAll"
  shows "search_inv (l + 1) (i div 64) (parent_bit setBit l i m)" "unmarked (parent_bit setBit l i m) < unmarked m"
proof -
  have "s < 64 * i" if "s < 64 ^ 2 * (i div 64)" for s
  proof -
    have "64 * (i div 64) \<le> i" by (rule times_div_less_eq_dividend)
    then show ?thesis using that by (simp add: power2_eq_square)
  qed
  moreover have "i div 64 < 64" if "i < 64 ^ 2" using that by (simp add: less_mult_imp_div_less)
  ultimately show "search_inv (l + 1) (i div 64) (parent_bit setBit l i m)"
    using assms(2,3) unfolding search_inv_def lbit_parent_set by (elim disjE insertE emptyE) simp_all
  show "unmarked (parent_bit setBit l i m) < unmarked m"
  proof (rule unmarked_decr [OF assms(2)])
    have l: "l = 1 \<or> l = 2" using assms(2) by simp
    have three: "2 + 1 = (3 :: nat)" "1 + 1 = (2 :: nat)" by simp_all
    show "i < 64 ^ (3 - l)" using assms(3) l by (auto simp: search_inv_def)
    show "\<not> lbit m (l + 1) i" using l assms(3) unfolding search_inv_def by (elim disjE) (simp_all add: three del: One_nat_def)
  qed
qed

lemma search_down:
  assumes "bs_ok m" "l \<in> {2, 3}" "search_inv l i m" "findFirstUnSet (m l i) \<noteq> 64"
  shows "search_inv (l - 1) (64 * i + findFirstUnSet (m l i)) m"
proof -
  let ?t = "findFirstUnSet (m l i)"
  have t: "?t < 64" "\<not> lbit m l (64 * i + ?t)" "\<And>j. j < ?t \<Longrightarrow> lbit m l (64 * i + j)"
    using unset_found [OF assms(4)] by (auto simp: lbit_at)
  show ?thesis
  proof (cases "l = 3")
    case True
    then have i: "i = 0" using assms(3) by (simp add: search_inv_def)
    have "lbit m 1 s" if s: "s < 64 ^ 2 * ?t" for s
    proof -
      define a b c where "a = s div 4096" and "b = s div 64 mod 64" and "c = s mod 64"
      have "s div 64 = 64 * a + b" using div_mult2_eq [of s 64 64] by (simp add: a_def b_def)
      then have "s = 64 * (64 * a + b) + c" by (metis c_def mult_div_mod_eq)
      moreover have abc: "a < ?t" "b < 64" "c < 64" using s by (auto simp: a_def b_def c_def less_mult_imp_div_less)
      moreover have "lbit m 3 a" using t(3) [OF abc(1)] True i by simp
      then have "lbit m 2 (64 * a + b)" using below_full(2) [OF assms(1)] abc t(1) by simp
      ultimately show ?thesis using below_full(1) [OF assms(1), of "64 * a + b" c] t(1) by simp
    qed
    then show ?thesis using True i t by (simp add: search_inv_def)
  next
    case False
    then have l: "l = 2" "i < 64" "\<not> lbit m 3 i" "\<And>s. s < 64 ^ 2 * i \<Longrightarrow> lbit m 1 s"
      using assms(2,3) by (auto simp: search_inv_def)
    have "lbit m 1 s" if s: "s < 64 * (64 * i + ?t)" for s
    proof (cases "s < 64 ^ 2 * i")
      case ge: False
      define b c where "b = s div 64 - 64 * i" and "c = s mod 64"
      have "64 * i \<le> s div 64" using ge by (simp add: less_eq_div_iff_mult_less_eq)
      then have "s = 64 * (64 * i + b) + c" "c < 64" by (auto simp: b_def c_def)
      moreover have b: "b < ?t" using s unfolding calculation(1) by simp
      moreover have "lbit m 2 (64 * i + b)" using t(3) [OF b] l(1) by simp
      ultimately show ?thesis using below_full(1) [OF assms(1), of "64 * i + b" c] l(2) t(1) by simp
    qed (rule l(4))
    moreover have "64 * i + ?t < 64 ^ 2" using l(2) t(1) by simp
    moreover have "(64 * i + ?t) div 64 = i" using t(1) by simp
    ultimately show ?thesis using l t by (simp add: search_inv_def)
  qed
qed

text \<open>Where the loop finds a clear bit on level 1, that is the least free set.\<close>

lemma search_found:
  assumes "bs_ok m" "search_inv 1 i m" "findFirstUnSet (m 1 i) \<noteq> 64"
  defines "t \<equiv> findFirstUnSet (m 1 i)"
  shows "got_least m (Some (Inr (64 * i + t, put_vec m 1 i (snd (setFindFirstUnSet (m 1 i))))))"
proof -
  let ?s = "64 * i + t" and ?m = "put_vec m 1 i (snd (setFindFirstUnSet (m 1 i)))"
  have t: "t < 64" "\<not> lbit m 1 ?s" "\<And>j. j < t \<Longrightarrow> lbit m 1 (64 * i + j)"
    using unset_found [OF assms(3)] by (auto simp: lbit_at t_def)
  have i: "i < 64 ^ 2" "\<not> lbit m 2 i" "\<And>s. s < 64 * i \<Longrightarrow> lbit m 1 s" using assms(2) by (auto simp: search_inv_def)
  have e: "snd (setFindFirstUnSet (m 1 i)) = setBit (m 1 i) t"
    using t(1) by (simp add: setFindFirstUnSet_def shift_is_scan Let_def setBit_def t_def)
  have b: "lbit ?m k x = (lbit m k x \<or> k = 1 \<and> x = ?s)" for k x
  proof -
    have "x = ?s \<longleftrightarrow> x div 64 = i \<and> x mod 64 = t" using t(1) by (metis mult_div_mod_eq split64)
    then show ?thesis using t(1) e by (auto simp: lbit_put bit_setBit) (simp_all add: lbit_def)
  qed
  have low: "lbit m 1 s" if "s < ?s" for s
    using i(3) [of s] t(3) [of "s - 64 * i"] that by (cases "s < 64 * i") auto
  have mem: "?s \<in> free_sets m" using i t by (simp add: free_sets_def)
  then have "Min (free_sets m) = ?s"
    using low by (intro Min_eqI finite_free) (auto simp: free_sets_def not_less [symmetric])
  moreover have "bs_ok ?m" by (rule bs_ok_more [OF assms(1)]) (simp_all only: b, simp_all)
  moreover have "free_sets ?m = free_sets m - {?s}" by (auto simp: free_sets_def b)
  moreover have "free_sets m \<noteq> {}" using mem by blast
  ultimately show ?thesis using got_leastI [of m ?m] put_other [of 0 1 m i] by simp
qed

lemma got_least_cong: "free_sets m' = free_sets m \<Longrightarrow> m' 0 = m 0 \<Longrightarrow> got_least m' r = got_least m r"
  by (simp add: got_least_def)

lemma set_loop_least: "bs_ok m \<Longrightarrow> search_inv level i m \<Longrightarrow> got_least m (set_loop level i m)"
proof (induction "4 * unmarked m + level" arbitrary: level i m rule: less_induct)
  case less
  have l: "level \<in> {1, 2, 3}" using less.prems(2) by (auto simp: search_inv_def)
  consider (panic) "level = 3" "m level i = setAll" | (up) "level \<in> {1, 2}" "m level i = setAll"
    | (found) "level = 1" "m level i \<noteq> setAll" | (down) "level \<in> {2, 3}" "m level i \<noteq> setAll" using l by auto
  then show ?case
  proof cases
    case panic
    then have "i = 0" using less.prems(2) by (simp add: search_inv_def)
    have "lbit m 1 s" if "s < 64 ^ 3" for s
    proof -
      have "s div 64 = 64 * (s div 4096) + s div 64 mod 64" "s div 4096 < 64"
        using div_mult2_eq [of s 64 64] that by (simp_all add: less_mult_imp_div_less)
      moreover have "lbit m 3 (s div 4096)" using panic \<open>i = 0\<close> full_lbits [of m 3 0] calculation(2) by simp
      ultimately have "lbit m 2 (s div 64)" using below_full(2) [OF less.prems(1), of "s div 4096" "s div 64 mod 64"] by simp
      then show ?thesis using below_full(1) [OF less.prems(1), of "s div 64" "s mod 64"] that by (simp add: less_mult_imp_div_less)
    qed
    then have "free_sets m = {}" by (auto simp: free_sets_def)
    then show ?thesis using panic by (subst set_loop.simps) (simp add: got_least_def unset_full)
  next
    case up
    let ?p = "parent_bit setBit level i m"
    have "got_least ?p (set_loop (level + 1) (i div 64) ?p)"
      using search_up [OF less.prems(1) up(1) less.prems(2) up(2)] mark_full_ok(1) [OF less.prems(1) up]
      by (intro less.hyps) auto
    then have "got_least m (set_loop (level + 1) (i div 64) ?p)"
      using got_least_cong [OF mark_full_ok(2) [OF less.prems(1) up]] up(1) by simp
    moreover have "set_loop level i m = set_loop (level + 1) (i div 64) ?p"
      using up by (subst set_loop.simps) (auto simp: Let_def setFindFirstUnSet_def shift_is_scan unset_full)
    ultimately show ?thesis by simp
  next
    case found
    have "set_loop level i m = Some (Inr (64 * i + findFirstUnSet (m 1 i), put_vec m 1 i (snd (setFindFirstUnSet (m 1 i)))))"
      using found by (subst set_loop.simps, subst set_loop.simps)
        (auto simp: Let_def setFindFirstUnSet_def shift_is_scan unset_full ac_simps split: prod.split)
    then show ?thesis using search_found [of m i] less.prems found by (simp add: unset_full)
  next
    case down
    have ne: "findFirstUnSet (m level i) \<noteq> 64" using down(2) unset_full by simp
    have "got_least m (set_loop (level - 1) (64 * i + findFirstUnSet (m level i)) m)"
      using search_down [OF less.prems(1) down(1) less.prems(2) ne] less.prems(1) down(1) by (intro less.hyps) auto
    moreover have "set_loop level i m = set_loop (level - 1) (64 * i + findFirstUnSet (m level i)) m"
      using down ne by (subst set_loop.simps) (auto simp: Let_def ac_simps)
    ultimately show ?thesis by simp
  qed
qed

text \<open>
  Releasing a set clears its bit, and the bits above it as far as the vectors were full.
\<close>

lemma unset_top: "unset_loop 3 c m = m"
  by (subst unset_loop.simps) simp

lemma unset_step:
  "level < 3 \<Longrightarrow> unset_loop level c m =
     (if m (level + 1) (c div 64) = setAll then unset_loop (level + 1) (c div 64) (parent_bit clearBit level c m)
      else parent_bit clearBit level c m)"
  by (subst unset_loop.simps) (simp add: unset_full Let_def)

lemma unset_steps:
  "unset_loop 0 c m = (if m 1 (c div 64) = setAll then unset_loop 1 (c div 64) (parent_bit clearBit 0 c m) else parent_bit clearBit 0 c m)"
  "unset_loop 1 c m = (if m 2 (c div 64) = setAll then unset_loop 2 (c div 64) (parent_bit clearBit 1 c m) else parent_bit clearBit 1 c m)"
  "unset_loop 2 c m = parent_bit clearBit 2 c m"
  using unset_step [of 0 c m] unset_step [of 1 c m] unset_step [of 2 c m] by (simp_all add: unset_top)

lemma lbit_clear:
  "lbit (parent_bit clearBit 0 c m) k x = (lbit m k x \<and> \<not> (k = 1 \<and> x = c))"
  "lbit (parent_bit clearBit 1 c m) k x = (lbit m k x \<and> \<not> (k = 2 \<and> x = c))"
  "lbit (parent_bit clearBit 2 c m) k x = (lbit m k x \<and> \<not> (k = 3 \<and> x = c))"
  by (simp_all add: lbit_parent_clear)

lemma unset_lbits:
  assumes "bs_ok m" "s < 64 ^ 3"
  shows "lbit (unset_loop 0 s m) 1 x = (lbit m 1 x \<and> x \<noteq> s)"
    and "lbit (unset_loop 0 s m) 2 x = (lbit m 2 x \<and> x \<noteq> s div 64)"
    and "lbit (unset_loop 0 s m) 3 x = (lbit m 3 x \<and> (x \<noteq> s div 64 div 64 \<or> m 1 (s div 64) \<noteq> setAll))"
    and "unset_loop 0 s m 0 = m 0"
proof -
  have d: "s div 64 < 64 ^ 2" "s div 64 div 64 < 64" using assms(2) by (simp_all add: less_mult_imp_div_less)
  have h: "\<not> lbit m 2 (s div 64)" if "m 1 (s div 64) \<noteq> setAll" using assms(1) that d(1) by (auto simp: bs_ok_def)
  have g: "\<not> lbit m 3 (s div 64 div 64)" if "m 2 (s div 64 div 64) \<noteq> setAll" using assms(1) that d(2) by (auto simp: bs_ok_def)
  note p = parent_other [of 2 0 clearBit s m, simplified]
  show "lbit (unset_loop 0 s m) 1 x = (lbit m 1 x \<and> x \<noteq> s)"
    by (simp add: unset_steps lbit_clear p)
  show "lbit (unset_loop 0 s m) 2 x = (lbit m 2 x \<and> x \<noteq> s div 64)"
    using h by (auto simp: unset_steps lbit_clear p)
  show "lbit (unset_loop 0 s m) 3 x = (lbit m 3 x \<and> (x \<noteq> s div 64 div 64 \<or> m 1 (s div 64) \<noteq> setAll))"
    using g by (auto simp: unset_steps lbit_clear p)
  show "unset_loop 0 s m 0 = m 0" by (simp add: unset_steps)
qed

lemma unset_loop_frees:
  assumes "bs_ok m" "s < 64 ^ 3"
  shows "bs_ok (unset_loop 0 s m)" "free_sets (unset_loop 0 s m) = insert s (free_sets m)" "unset_loop 0 s m 0 = m 0"
proof -
  note b = unset_lbits [OF assms]
  have "lbit (unset_loop 0 s m) 1 (64 * x + c)" if "x < 64 ^ 2" "c < 64" "lbit (unset_loop 0 s m) 2 x" for x c
  proof -
    have "x \<noteq> s div 64" "lbit m 2 x" using that(3) by (simp_all add: b)
    then have "64 * x + c \<noteq> s" using split64(1) [OF that(2), of x] by auto
    then show ?thesis using below_full(1) [OF assms(1) that(1,2) \<open>lbit m 2 x\<close>] by (simp only: b simp_thms)
  qed
  moreover have "lbit (unset_loop 0 s m) 2 (64 * x + c)" if "x < 64" "c < 64" "lbit (unset_loop 0 s m) 3 x" for x c
  proof -
    have x: "x \<noteq> s div 64 div 64 \<or> m 1 (s div 64) \<noteq> setAll" "lbit m 3 x" using that(3) by (simp_all add: b)
    have full: "lbit m 2 (64 * x + c)" using below_full(2) [OF assms(1) that(1,2) x(2)] .
    have "64 * x + c \<noteq> s div 64"
    proof
      assume e: "64 * x + c = s div 64"
      then have "x = s div 64 div 64" using split64(1) [OF that(2), of x] by simp
      moreover have "s div 64 < 64 ^ 2" using assms(2) by (simp add: less_mult_imp_div_less)
      then have "m 1 (s div 64) = setAll" using assms(1) full e by (simp add: bs_ok_def)
      ultimately show False using x(1) by blast
    qed
    then show ?thesis using full by (simp only: b simp_thms)
  qed
  ultimately show "bs_ok (unset_loop 0 s m)" unfolding bs_ok_lbits by blast
  show "free_sets (unset_loop 0 s m) = insert s (free_sets m)"
    using assms(2) by (auto simp: free_sets_def b(1) [simplified])
  show "unset_loop 0 s m 0 = m 0" by (rule b(4))
qed

section \<open>A new set\<close>

lemma foldl_put:
  "foldl (\<lambda>m i. put_vec m l i (f i)) m xs k j = (if k = l \<and> j \<in> set xs then f j else m k j)"
  by (induction xs arbitrary: m) (auto simp: put_vec_def)

lemma bit_init_vec: "b < 64 \<Longrightarrow> bit (init_vec n i) b \<longleftrightarrow> n \<le> 64 * i + b"
  by (auto simp: init_vec_def bit_clearFirst)

lemma lbit_fill:
  assumes "l < 4"
  shows "lbit (fill_level n l m) k x = (if k = l \<and> x < 64 ^ (4 - l) then n \<le> x else lbit m k x)"
proof -
  have "(2 :: nat) ^ (6 * (3 - l)) = 64 ^ (3 - l)" by (simp add: power_mult)
  moreover have "4 - l = Suc (3 - l)" using assms by simp
  then have "(64 :: nat) ^ (4 - l) = 64 * 64 ^ (3 - l)" by (simp only: power_Suc)
  ultimately have "x div 64 \<in> set [0..<2 ^ (6 * (3 - l))] \<longleftrightarrow> x < 64 ^ (4 - l)" by (auto simp: less_mult_imp_div_less div_less_iff_less_mult)
  then show ?thesis unfolding lbit_def fill_level_def foldl_put by (simp add: bit_init_vec)
qed

lemma next_blocks_le: "n + 64 < 2 ^ 64 \<Longrightarrow> next_blocks n \<le> x \<longleftrightarrow> n \<le> 64 * x"
proof -
  assume "n + 64 < 2 ^ 64"
  then have "uadd n 64 = n + 64" by (rule uadd_nowrap)
  moreover define q r where "q = n div 64" and "r = n mod 64"
  then have "n = 64 * q + r" "r < 64" by simp_all
  moreover have "(64 * q + r + 64) div 64 = q + 1" using \<open>r < 64\<close> by simp
  ultimately show ?thesis unfolding next_blocks_def by (cases "r = 0") auto
qed

lemma next_blocks_less: "n + 64 < 2 ^ 64 \<Longrightarrow> next_blocks n + 64 < 2 ^ 64"
  using next_blocks_le [of n n] by simp

lemma new_lbits:
  assumes "n + 64 < 2 ^ 64"
  shows "x < 64 ^ 4 \<Longrightarrow> lbit (BlockSet_new n) 0 x \<longleftrightarrow> n \<le> x"
    and "x < 64 ^ 3 \<Longrightarrow> lbit (BlockSet_new n) 1 x \<longleftrightarrow> n \<le> 64 * x"
    and "x < 64 ^ 2 \<Longrightarrow> lbit (BlockSet_new n) 2 x \<longleftrightarrow> n \<le> 64 * (64 * x)"
    and "x < 64 \<Longrightarrow> lbit (BlockSet_new n) 3 x \<longleftrightarrow> n \<le> 64 * (64 * (64 * x))"
proof -
  let ?a = "next_blocks n" and ?b = "next_blocks (next_blocks n)" and ?c = "next_blocks (next_blocks (next_blocks n))"
  have "BlockSet_new n = fill_level ?c 3 (fill_level ?b 2 (fill_level ?a 1 (fill_level n 0 (\<lambda>_ _. 0))))"
    unfolding BlockSet_new_def by (simp add: init_levels.simps)
  note e = this
  have ab: "?a + 64 < 2 ^ 64" "?b + 64 < 2 ^ 64" using assms next_blocks_less by simp_all
  show "x < 64 ^ 4 \<Longrightarrow> lbit (BlockSet_new n) 0 x \<longleftrightarrow> n \<le> x" by (simp add: e lbit_fill)
  show "x < 64 ^ 3 \<Longrightarrow> lbit (BlockSet_new n) 1 x \<longleftrightarrow> n \<le> 64 * x" by (simp add: e lbit_fill next_blocks_le [OF assms])
  show "x < 64 ^ 2 \<Longrightarrow> lbit (BlockSet_new n) 2 x \<longleftrightarrow> n \<le> 64 * (64 * x)"
    by (simp add: e lbit_fill next_blocks_le [OF assms] next_blocks_le [OF ab(1)])
  show "x < 64 \<Longrightarrow> lbit (BlockSet_new n) 3 x \<longleftrightarrow> n \<le> 64 * (64 * (64 * x))"
    by (simp add: e lbit_fill next_blocks_le [OF assms] next_blocks_le [OF ab(1)] next_blocks_le [OF ab(2)])
qed

lemma new_ok:
  assumes "n + 64 < 2 ^ 64"
  shows "bs_ok (BlockSet_new n)" "free_sets (BlockSet_new n) = {s. s < 64 ^ 3 \<and> 64 * s < n}"
proof -
  show "bs_ok (BlockSet_new n)" unfolding bs_ok_lbits by (auto simp: new_lbits(2-4) [OF assms, simplified])
  show "free_sets (BlockSet_new n) = {s. s < 64 ^ 3 \<and> 64 * s < n}"
    by (auto simp: free_sets_def new_lbits(2) [OF assms, simplified])
qed

text \<open>
  What a user of the set relies on: a set it gets is free, the least one, and no longer free afterwards; one
  that it gives back is free again.
\<close>

locale set_allocator =
  fixes get :: "'m \<Rightarrow> (sys_error + nat \<times> 'm) option"
    and give :: "nat \<Rightarrow> 'm \<Rightarrow> 'm"
    and free :: "'m \<Rightarrow> nat set"
    and ok :: "'m \<Rightarrow> bool"
    and limit :: nat
  assumes free_below: "free m \<subseteq> {..<limit}"
    and get_least: "ok m \<Longrightarrow> free m \<noteq> {} \<Longrightarrow>
          \<exists>m'. get m = Some (Inr (Min (free m), m')) \<and> ok m' \<and> free m' = free m - {Min (free m)}"
    and get_none: "ok m \<Longrightarrow> free m = {} \<Longrightarrow> get m = Some (Inl Panic)"
    and give_free: "ok m \<Longrightarrow> s < limit \<Longrightarrow> ok (give s m) \<and> free (give s m) = insert s (free m)"
begin

lemma get_cases:
  assumes "ok m"
  obtains (none) "free m = {}" "get m = Some (Inl Panic)"
    | (got) m' where "free m \<noteq> {}" "get m = Some (Inr (Min (free m), m'))" "ok m'" "free m' = free m - {Min (free m)}"
  using get_least [OF assms] get_none [OF assms] by blast

lemma got_keeps:
  assumes "ok m" "get m = Some (Inr (s, m'))"
  shows "ok m'" "free m' = free m - {s}" "free m \<noteq> {}" "s = Min (free m)"
  using assms(1) by (cases rule: get_cases; use assms(2) in auto)+

lemma got_was_free:
  assumes "ok m" "get m = Some (Inr (s, m'))"
  shows "s \<in> free m" "s < limit" "s \<notin> free m'" "free m' \<subseteq> free m"
proof -
  have "finite (free m)" using free_below finite_subset by blast
  then show "s \<in> free m" "s \<notin> free m'" "free m' \<subseteq> free m" using got_keeps [OF assms] by auto
  then show "s < limit" using free_below by blast
qed

lemma get_give:
  assumes "ok m" "get m = Some (Inr (s, m'))"
  shows "ok (give s m')" "free (give s m') = free m"
proof -
  have s: "s \<in> free m" "s < limit" by (rule got_was_free [OF assms])+
  then show "ok (give s m')" "free (give s m') = free m" using got_keeps [OF assms] give_free s by auto
qed

end

interpretation bs: set_allocator getBlockSet "\<lambda>s. putBlockSet s clearSet" free_sets bs_ok "64 ^ 3" for clearSet
proof
  fix m s
  show "free_sets m \<subseteq> {..<64 ^ 3}" by (auto simp: free_sets_def)
  have 3: "search_inv 3 0 m" by (simp add: search_inv_def)
  show "\<exists>m'. getBlockSet m = Some (Inr (Min (free_sets m), m')) \<and> bs_ok m' \<and> free_sets m' = free_sets m - {Min (free_sets m)}"
    if "bs_ok m" "free_sets m \<noteq> {}"
    using set_loop_least [OF that(1) 3] that(2) by (auto simp: getBlockSet_def got_least_def)
  show "getBlockSet m = Some (Inl Panic)" if "bs_ok m" "free_sets m = {}"
    using set_loop_least [OF that(1) 3] that(2) by (simp add: getBlockSet_def got_least_def)
  have z: "lbit (put_vec m 0 s w) 1 x = lbit m 1 x" "lbit (put_vec m 0 s w) 2 x = lbit m 2 x" "lbit (put_vec m 0 s w) 3 x = lbit m 3 x"
    for m x w by (simp_all add: lbit_put)
  show "bs_ok (putBlockSet s clearSet m) \<and> free_sets (putBlockSet s clearSet m) = insert s (free_sets m)" if "bs_ok m" "s < 64 ^ 3"
    using unset_loop_frees [OF that] by (simp add: putBlockSet_def Let_def bs_ok_lbits free_sets_def z)
qed

lemma getBlockSet_blocks: "bs_ok m \<Longrightarrow> getBlockSet m = Some (Inr (s, m')) \<Longrightarrow> m' 0 = m 0"
  using set_loop_least [of m 3 0] by (auto simp: search_inv_def getBlockSet_def got_least_def split: if_splits)

lemma putBlockSet_blocks:
  "bs_ok m \<Longrightarrow> s < 64 ^ 3 \<Longrightarrow> putBlockSet s c m 0 = (if c then (m 0)(s := clearAll) else m 0)"
  using unset_loop_frees(3) [of m s] by (simp add: putBlockSet_def put_vec_def Let_def)

section \<open>Runs\<close>

text \<open>
  The states a set of \<^term>\<open>n\<close> blocks gets to, with the sets that are held: a holder may change the vector of
  level 0 of its set as it likes, and gives back only what it holds.
\<close>

inductive set_reach :: "uval \<Rightarrow> levels \<Rightarrow> nat set \<Rightarrow> bool" for n where
  reach_new: "set_reach n (BlockSet_new n) {}"
| reach_get: "set_reach n m h \<Longrightarrow> getBlockSet m = Some (Inr (s, m')) \<Longrightarrow> set_reach n m' (insert s h)"
| reach_use: "set_reach n m h \<Longrightarrow> s \<in> h \<Longrightarrow> set_reach n (put_vec m 0 s w) h"
| reach_put: "set_reach n m h \<Longrightarrow> s \<in> h \<Longrightarrow> set_reach n (putBlockSet s c m) (h - {s})"

definition sets_of :: "uval \<Rightarrow> nat set" where
  "sets_of n = {s. s < 64 ^ 3 \<and> 64 * s < n}"

lemma use_keeps: "bs_ok (put_vec m 0 s w) = bs_ok m" "free_sets (put_vec m 0 s w) = free_sets m"
  by (simp_all add: bs_ok_lbits free_sets_def lbit_put)

lemma reach_free:
  assumes "set_reach n m h" "n + 64 < 2 ^ 64"
  shows "bs_ok m \<and> free_sets m = sets_of n - h \<and> h \<subseteq> sets_of n"
  using assms(1)
proof induction
  case reach_new
  then show ?case using new_ok [OF assms(2)] by (simp add: sets_of_def)
next
  case (reach_get m h s m')
  then have "s \<in> free_sets m" using bs.got_was_free(1) by blast
  moreover have "bs_ok m'" "free_sets m' = free_sets m - {s}"
    using bs.got_keeps [OF _ reach_get.hyps(2)] reach_get.IH by blast+
  ultimately show ?case using reach_get.IH by auto
next
  case (reach_use m h s w)
  then show ?case by (simp add: use_keeps)
next
  case (reach_put m h s c)
  then have "s < 64 ^ 3" by (auto simp: sets_of_def)
  then show ?case using reach_put bs.give_free [of m s c] by auto
qed

text \<open>
  C13. However the sets of a device of \<^term>\<open>n\<close> blocks were got, used and given back, a set that is got next is the
  least of the device's sets that nobody holds, and the search ends, and stops the system, only when all are held.
\<close>

theorem block_sets_exclusive:
  assumes "n + 64 < 2 ^ 64" "set_reach n m h"
  shows "if sets_of n \<subseteq> h then getBlockSet m = Some (Inl Panic)
         else \<exists>m'. getBlockSet m = Some (Inr (Min (sets_of n - h), m')) \<and> Min (sets_of n - h) \<in> sets_of n - h"
proof -
  note r = reach_free [OF assms(2,1)]
  have "finite (sets_of n)" by (simp add: sets_of_def)
  then have "Min (sets_of n - h) \<in> sets_of n - h" if "\<not> sets_of n \<subseteq> h" using that by (intro Min_in) auto
  moreover have "free_sets m = {} \<longleftrightarrow> sets_of n \<subseteq> h" "free_sets m = sets_of n - h" using r by auto
  ultimately show ?thesis using bs.get_none [of m] bs.get_least [of m] conjunct1 [OF r] by (cases "sets_of n \<subseteq> h") auto
qed

lemma sets_of_100: "sets_of 100 = {0, 1}"
proof -
  have "s < 64 ^ 3 \<and> 64 * s < 100 \<longleftrightarrow> s = 0 \<or> s = (1 :: nat)" for s by (simp, linarith)
  then show ?thesis unfolding sets_of_def by blast
qed

theorem block_sets_exclusive_witness:
  "\<exists>m'. getBlockSet (BlockSet_new 100) = Some (Inr (0, m'))"
proof -
  have "Min (sets_of 100 - {}) = 0" by (simp add: sets_of_100)
  then show ?thesis using block_sets_exclusive [of 100 "BlockSet_new 100" "{}"] reach_new [of 100] by (auto simp: sets_of_100)
qed

text \<open>
  A set that is given back is free again, everything else as before it was got, whether its blocks are cleared or not:
  the next search returns the same set.
\<close>

theorem get_after_put:
  assumes "bs_ok m" "getBlockSet m = Some (Inr (s, m'))"
  shows "free_sets (putBlockSet s c m') = free_sets m \<and> (\<exists>m''. getBlockSet (putBlockSet s c m') = Some (Inr (s, m'')))"
proof -
  note g = bs.get_give [OF assms, of c]
  then show ?thesis using bs.get_least [OF g(1)] bs.got_keeps(3,4) [OF assms] by auto
qed

theorem get_after_put_witness:
  "\<exists>m' m''. getBlockSet (BlockSet_new 100) = Some (Inr (0, m')) \<and> getBlockSet (putBlockSet 0 True m') = Some (Inr (0, m''))"
proof -
  have ok: "bs_ok (BlockSet_new 100)" "free_sets (BlockSet_new 100) = {0, 1}"
    using new_ok [of 100] sets_of_100 by (simp_all add: sets_of_def)
  then obtain m' where g: "getBlockSet (BlockSet_new 100) = Some (Inr (0, m'))"
    using bs.get_least [OF ok(1)] by (auto simp: insert_commute)
  then show ?thesis using get_after_put [OF ok(1) g, of True] by blast
qed

text \<open>
  In a new set exactly the blocks of the device are free, up to the 64 to the 4th that the bitmap has room for, and exactly the
  sets that hold a block of the device can be got.
\<close>

theorem new_set_covers_device:
  assumes "n + 64 < 2 ^ 64"
  shows "{x. x < 64 ^ 4 \<and> \<not> lbit (BlockSet_new n) 0 x} = {x. x < 64 ^ 4 \<and> x < n} \<and> free_sets (BlockSet_new n) = (\<lambda>x. x div 64) ` {x. x < 64 ^ 4 \<and> x < n}"
proof
  show "{x. x < 64 ^ 4 \<and> \<not> lbit (BlockSet_new n) 0 x} = {x. x < 64 ^ 4 \<and> x < n}" using new_lbits(1) [OF assms] by auto
  have "s \<in> (\<lambda>x. x div 64) ` {x. x < 64 ^ 4 \<and> x < n} \<longleftrightarrow> s < 64 ^ 3 \<and> 64 * s < n" for s
  proof
    assume "s < 64 ^ 3 \<and> 64 * s < n"
    then show "s \<in> (\<lambda>x. x div 64) ` {x. x < 64 ^ 4 \<and> x < n}" by (intro image_eqI [of _ _ "64 * s"]) auto
  next
    assume "s \<in> (\<lambda>x. x div 64) ` {x. x < 64 ^ 4 \<and> x < n}"
    then obtain x where x: "s = x div 64" "x < 64 ^ 4" "x < n" by blast
    then have "64 * s \<le> x" by simp
    then show "s < 64 ^ 3 \<and> 64 * s < n" using x by (simp add: less_mult_imp_div_less)
  qed
  then show "free_sets (BlockSet_new n) = (\<lambda>x. x div 64) ` {x. x < 64 ^ 4 \<and> x < n}" using new_ok(2) [OF assms] by blast
qed

theorem new_set_covers_device_witness: "free_sets (BlockSet_new 100) = (\<lambda>x. x div 64) ` {x. x < 64 ^ 4 \<and> x < 100}"
  using new_set_covers_device [of 100] by simp

end
