(* ===== verification/DiskSwap.thy ===== *)
theory DiskSwap
  imports BlockSet "HOL-Library.Disjoint_Sets"
begin

text \<open>
  The swap device of the kernel, \<^verbatim>\<open>os/kernel/bilge/DiskSwap.C\<close> and \<^verbatim>\<open>DiskSwap.H\<close>, with the list
  \<^verbatim>\<open>lib/libc/misc/ListSimpleKey.C\<close> it keeps its devices in. Each file has a context, the last block it got, and
  takes its next block from the same set of 64 when it can. The lock of the device list is held during a whole
  allocation and a whole release, so the two are atomic. What \<^verbatim>\<open>tassertMsg\<close> checks in debug builds is left out.
  The transfer of a page, \<^verbatim>\<open>putBlock\<close> and \<^verbatim>\<open>asyncOp\<close> of the block device, and the lookup of an object handle are parameters.
\<close>

section \<open>Block identifiers\<close>

definition INIT_PAGER_CONTEXT :: uval where "INIT_PAGER_CONTEXT = 2 ^ 64 - 1"

definition INVALID_BLOCKID :: uval where "INVALID_BLOCKID = 2 ^ 64 - 1"

definition SWAP_BLOCKSIZE :: uval where "SWAP_BLOCKSIZE = 2 ^ 12"

definition SWAP_DEVID_SHIFT :: nat where "SWAP_DEVID_SHIFT = 64 - 12"

definition SWAP_BLOCKNUM_MASK :: uval where "SWAP_BLOCKNUM_MASK = 2 ^ SWAP_DEVID_SHIFT - 1"

definition GET_SWAP_DEVID :: "uval \<Rightarrow> uval" where
  "GET_SWAP_DEVID blockID = drop_bit SWAP_DEVID_SHIFT blockID"

definition GET_SWAP_BLOCKNUM :: "uval \<Rightarrow> uval" where
  "GET_SWAP_BLOCKNUM blockID = blockID AND SWAP_BLOCKNUM_MASK"

definition SET_SWAP_DEVID :: "uval \<Rightarrow> uval \<Rightarrow> uval" where
  "SET_SWAP_DEVID blockID val = take_bit 64 (push_bit SWAP_DEVID_SHIFT val) OR GET_SWAP_BLOCKNUM blockID"

definition SET_SWAP_BLOCKNUM :: "uval \<Rightarrow> uval \<Rightarrow> uval" where
  "SET_SWAP_BLOCKNUM blockID val = and_not blockID SWAP_BLOCKNUM_MASK OR (SWAP_BLOCKNUM_MASK AND val)"

section \<open>The list of devices\<close>

text \<open>
  The list keeps pairs of a key and a datum, the newest first. Nodes are only added at the head, so a node is named
  by the number of nodes behind it.
\<close>

type_synonym 'd klist = "(uval \<times> 'd) list"

definition klist_add :: "uval \<Rightarrow> 'd \<Rightarrow> 'd klist \<Rightarrow> 'd klist" where
  "klist_add k d l = (k, d) # l"

definition klist_find :: "uval \<Rightarrow> 'd klist \<Rightarrow> 'd option" where
  "klist_find k l = map_option snd (List.find (\<lambda>(key, d). key = k) l)"

definition klist_next :: "nat option \<Rightarrow> 'd klist \<Rightarrow> (nat \<times> uval \<times> 'd) option" where
  "klist_next node l =
     (let next = (case node of None \<Rightarrow> if l = [] then None else Some (length l - 1)
                             | Some p \<Rightarrow> if p = 0 then None else Some (p - 1))
      in map_option (\<lambda>p. (p, l ! (length l - 1 - p))) next)"

definition klist_set :: "nat \<Rightarrow> 'd \<Rightarrow> 'd klist \<Rightarrow> 'd klist" where
  "klist_set p d l = (let i = length l - 1 - p in l[i := (fst (l ! i), d)])"

function find_device :: "uval \<Rightarrow> nat option \<Rightarrow> 'd klist \<Rightarrow> (nat \<times> 'd) option" where
  "find_device k node l =
     (case klist_next node l of
        None \<Rightarrow> None
      | Some (p, key, d) \<Rightarrow> if key = k then Some (p, d) else find_device k (Some p) l)"
  by auto
termination
  by (relation "measure (\<lambda>(k, node, l). case node of None \<Rightarrow> length l | Some p \<Rightarrow> p)")
    (auto simp: klist_next_def Let_def split: option.splits if_splits)

declare find_device.simps [simp del]

partial_function (option) next_device :: "nat option \<Rightarrow> 'd klist \<Rightarrow> (nat \<times> uval \<times> 'd) option" where
  "next_device node l =
     (case klist_next node l of None \<Rightarrow> next_device None l | Some found \<Rightarrow> Some found)"

section \<open>The swap object\<close>

record device =
  bd :: nat
  usage :: levels

record diskswap =
  nextDevID :: uval
  numPagesAvail :: uval
  currentDev :: "nat option"
  devList :: "device klist"

definition DeviceDesc :: "nat \<Rightarrow> uval \<Rightarrow> device" where
  "DeviceDesc bdr bytes = \<lparr>bd = bdr, usage = BlockSet_new (bytes div SWAP_BLOCKSIZE)\<rparr>"

definition DiskSwap_init :: diskswap where
  "DiskSwap_init = \<lparr>nextDevID = 0, numPagesAvail = 0, currentDev = None, devList = []\<rparr>"

text \<open>The lookup of the handle gives an object and whether its type is a block device's, or an error.\<close>

definition attachDevice :: "('h \<Rightarrow> sys_error + nat \<times> bool) \<Rightarrow> 'h \<Rightarrow> uval \<Rightarrow> diskswap \<Rightarrow> (sys_error + uval) \<times> diskswap" where
  "attachDevice xh oh bytes s =
     (case xh oh of
        Inl e \<Rightarrow> (Inl e, s)
      | Inr (ref, isBlockDev) \<Rightarrow>
          if \<not> isBlockDev then (Inl (SERROR 2491 0 EINVAL), s)
          else (Inr 0, s\<lparr>nextDevID := uadd (nextDevID s) 1,
                          devList := klist_add (nextDevID s) (DeviceDesc ref bytes) (devList s),
                          numPagesAvail := uadd (numPagesAvail s) (bytes div PAGE_SIZE)\<rparr>))"

definition set_device :: "nat \<Rightarrow> device \<Rightarrow> diskswap \<Rightarrow> diskswap" where
  "set_device p d s = s\<lparr>devList := klist_set p d (devList s)\<rparr>"

text \<open>
  The two ways to a block: from the set of the context, when its device is there and the set has a free block, or
  from a new set of the next device. They give the device, what its bitmap becomes, and the block.
\<close>

definition block_of_context :: "uval \<Rightarrow> diskswap \<Rightarrow> (uval \<times> nat \<times> device \<times> uval) option" where
  "block_of_context context s =
     (if context = INIT_PAGER_CONTEXT then None
      else case find_device (GET_SWAP_DEVID context) None (devList s) of
          None \<Rightarrow> None
        | Some (p, d) \<Rightarrow>
            (let i = GET_SWAP_BLOCKNUM context div 64;
                 (block, w) = setFindFirstUnSet (usage d 0 i)
             in if block \<noteq> 64
                then Some (GET_SWAP_DEVID context, p, d\<lparr>usage := put_vec (usage d) 0 i w\<rparr>, uadd block (and_not context 63))
                else None))"

definition block_of_new_set :: "diskswap \<Rightarrow> (sys_error + uval \<times> nat \<times> device \<times> uval) option" where
  "block_of_new_set s =
     Option.bind (next_device (currentDev s) (devList s)) (\<lambda>(p, devID, d).
     Option.bind (getBlockSet (usage d)) (\<lambda>r.
       case r of
         Inl e \<Rightarrow> Some (Inl e)
       | Inr (newBlockSet, m) \<Rightarrow>
           (let (block, w) = setFindFirstUnSet (m 0 newBlockSet)
            in Some (Inr (devID, p, d\<lparr>usage := put_vec m 0 newBlockSet w\<rparr>, uadd block (umul newBlockSet 64))))))"

definition finish_alloc :: "uval \<Rightarrow> uval \<times> nat \<times> device \<times> uval \<Rightarrow> diskswap \<Rightarrow> uval \<times> nat \<times> uval \<times> diskswap" where
  "finish_alloc bid = (\<lambda>(devID, p, d, block) s.
     (let bid' = SET_SWAP_BLOCKNUM (SET_SWAP_DEVID bid devID) block
      in (bid', bd d, bid', (set_device p d s)\<lparr>numPagesAvail := uadd (numPagesAvail s) (2 ^ 64 - 1)\<rparr>)))"

text \<open>
  The variable \<^verbatim>\<open>bid\<close> of the source is not initialised; its first value is a parameter. The result has the block,
  the reference of its device, the new context and the new state.
\<close>

definition allocBlock :: "uval \<Rightarrow> uval \<Rightarrow> diskswap \<Rightarrow> (sys_error + uval \<times> nat \<times> uval \<times> diskswap) option" where
  "allocBlock bid context s =
     (case block_of_context context s of
        Some found \<Rightarrow> Some (Inr (finish_alloc bid found s))
      | None \<Rightarrow>
          map_option (\<lambda>r. case r of
              Inl e \<Rightarrow> Inl e
            | Inr (devID, p, d, block) \<Rightarrow> Inr (finish_alloc bid (devID, p, d, block) (s\<lparr>currentDev := Some p\<rparr>)))
            (block_of_new_set s))"

definition freePage :: "uval \<Rightarrow> uval \<Rightarrow> diskswap \<Rightarrow> (sys_error + uval) \<times> uval \<times> diskswap" where
  "freePage blockID context s =
     (let devID = GET_SWAP_DEVID blockID; block = GET_SWAP_BLOCKNUM blockID in
      case find_device devID None (devList s) of
        None \<Rightarrow> (Inl (SERROR 2272 0 ENODEV), context, s)
      | Some (p, d) \<Rightarrow>
          (let s1 = s\<lparr>numPagesAvail := uadd (numPagesAvail s) 1\<rparr>;
               (flipped, w) = flipAllIfZero (clearBit (usage d 0 (block div 64)) (block mod 64));
               m = put_vec (usage d) 0 (block div 64) w
           in if flipped
              then (Inr 0, if block div 64 = context div 64 then INIT_PAGER_CONTEXT else context,
                    set_device p (d\<lparr>usage := putBlockSet (block div 64) True m\<rparr>) s1)
              else (Inr 0, context, set_device p (d\<lparr>usage := m\<rparr>) s1)))"

text \<open>
  Writing a page. The device of a block that is given is looked up by its key; where there is none the source follows a
  pointer that is not initialised. The identifier of a new block is also the status of its allocation, so one with its top
  bit set, from the 2048th device on, counts as a failure, after the context and the state have changed. A write that fails
  gives the block back.
\<close>

datatype swap_error = Status sys_error | WildDevice | NegativeStatus uval uval diskswap

definition find_or_alloc ::
    "uval \<Rightarrow> uval \<Rightarrow> uval \<Rightarrow> diskswap \<Rightarrow> (swap_error + uval \<times> nat \<times> uval \<times> diskswap) option" where
  "find_or_alloc bid blockID context s =
     (if blockID = 2 ^ 64 - 1
      then map_option (\<lambda>r. case r of
               Inl e \<Rightarrow> Inl (Status e)
             | Inr (rc, dev, context', s') \<Rightarrow>
                 if rc \<ge> 2 ^ 63 then Inl (NegativeStatus rc context' s') else Inr (rc, dev, context', s')) (allocBlock bid context s)
      else case klist_find (GET_SWAP_DEVID blockID) (devList s) of
          None \<Rightarrow> Some (Inl WildDevice)
        | Some d \<Rightarrow> Some (Inr (blockID, bd d, context, s)))"

definition putPage ::
    "(nat \<Rightarrow> uval \<Rightarrow> uval \<Rightarrow> uval \<Rightarrow> sys_error option) \<Rightarrow> uval \<Rightarrow> uval \<Rightarrow> uval \<Rightarrow> uval \<Rightarrow> diskswap \<Rightarrow>
      (swap_error + sys_error option \<times> uval \<times> uval \<times> diskswap) option" where
  "putPage putBlock bid physAddr blockID context s =
     Option.bind (find_or_alloc bid blockID context s) (\<lambda>r. Some (
       case r of
         Inl e \<Rightarrow> Inl e
       | Inr (blockID', dev, context', s') \<Rightarrow>
           (let rc = putBlock dev physAddr SWAP_BLOCKSIZE (umul (GET_SWAP_BLOCKNUM blockID') SWAP_BLOCKSIZE)
            in if rc \<noteq> None
               then let (_, context'', s'') = freePage blockID' context' s' in Inr (rc, 2 ^ 64 - 1, context'', s'')
               else Inr (rc, blockID', context', s'))))"

text \<open>
  The asynchronous write starts an operation that a later completion ends; a completion with an error gives the block back, with
  a context of its own. The device answers a start with 0 or a negative error.
\<close>

definition startPutPage ::
    "(nat \<Rightarrow> uval \<Rightarrow> uval \<Rightarrow> uval \<Rightarrow> errno option) \<Rightarrow> uval \<Rightarrow> uval \<Rightarrow> uval \<Rightarrow> uval \<Rightarrow> diskswap \<Rightarrow>
      (swap_error + sys_error option \<times> uval \<times> uval \<times> diskswap) option" where
  "startPutPage asyncOp bid vmrAddr blockID context s =
     Option.bind (find_or_alloc bid blockID context s) (\<lambda>r. Some (
       case r of
         Inl e \<Rightarrow> Inl e
       | Inr (blockID', dev, context', s') \<Rightarrow>
           Inr (map_option (SERROR 2492 0) (asyncOp dev vmrAddr SWAP_BLOCKSIZE (umul (GET_SWAP_BLOCKNUM blockID') SWAP_BLOCKSIZE)),
                blockID', context', s')))"

definition swap_complete :: "uval \<Rightarrow> bool \<Rightarrow> diskswap \<Rightarrow> diskswap" where
  "swap_complete blockID failed s =
     (if failed \<and> blockID \<noteq> INVALID_BLOCKID then let (_, _, s') = freePage blockID INIT_PAGER_CONTEXT s in s' else s)"

definition startFillPage ::
    "(nat \<Rightarrow> uval \<Rightarrow> uval \<Rightarrow> uval \<Rightarrow> errno option) \<Rightarrow> uval \<Rightarrow> uval \<Rightarrow> diskswap \<Rightarrow> swap_error + sys_error option" where
  "startFillPage asyncOp vmrAddr blockID s =
     (case klist_find (GET_SWAP_DEVID blockID) (devList s) of
        None \<Rightarrow> Inl WildDevice
      | Some d \<Rightarrow> Inr (map_option (SERROR 2296 0) (asyncOp (bd d) vmrAddr SWAP_BLOCKSIZE (umul (GET_SWAP_BLOCKNUM blockID) SWAP_BLOCKSIZE))))"

definition swapActive :: "diskswap \<Rightarrow> uval" where
  "swapActive s = numPagesAvail s"

section \<open>The blocks of the files\<close>

text \<open>
  The sets a file uses: those of its blocks and that of its context. On the one device 0 a block identifier is a
  block number. The invariant: exactly the blocks of the files are marked, the files' sets are held and apart.
\<close>

definition used :: "('c \<Rightarrow> uval) \<Rightarrow> ('c \<Rightarrow> uval set) \<Rightarrow> 'c \<Rightarrow> nat set" where
  "used ctx own c = (\<lambda>x. x div 64) ` own c \<union> (if ctx c = INIT_PAGER_CONTEXT then {} else {ctx c div 64})"

definition marks_ok :: "uval \<Rightarrow> levels \<Rightarrow> ('c \<Rightarrow> uval set) \<Rightarrow> bool" where
  "marks_ok n m own \<longleftrightarrow> (\<forall>x < 64 ^ 4. lbit m 0 x \<longleftrightarrow> n \<le> x \<or> (\<exists>c. x \<in> own c)) \<and> (\<forall>c. \<forall>x \<in> own c. x < 64 ^ 4 \<and> x < n)"

definition used_ok :: "uval \<Rightarrow> levels \<Rightarrow> ('c \<Rightarrow> uval) \<Rightarrow> ('c \<Rightarrow> uval set) \<Rightarrow> bool" where
  "used_ok n m ctx own \<longleftrightarrow>
     (\<forall>c. used ctx own c \<subseteq> sets_of n - free_sets m) \<and> (\<forall>c d. c \<noteq> d \<longrightarrow> used ctx own c \<inter> used ctx own d = {})"

definition blocks_ok :: "uval \<Rightarrow> levels \<Rightarrow> ('c \<Rightarrow> uval) \<Rightarrow> ('c \<Rightarrow> uval set) \<Rightarrow> bool" where
  "blocks_ok n m ctx own \<longleftrightarrow> bs_ok m \<and> free_sets m \<subseteq> sets_of n \<and> marks_ok n m own \<and> used_ok n m ctx own"

lemma blocksD:
  assumes "blocks_ok n m ctx own"
  shows "bs_ok m" "free_sets m \<subseteq> sets_of n" "x < 64 ^ 4 \<Longrightarrow> lbit m 0 x \<longleftrightarrow> n \<le> x \<or> (\<exists>c. x \<in> own c)"
    "x \<in> own c \<Longrightarrow> x < 64 ^ 4" "x \<in> own c \<Longrightarrow> x < n" "used ctx own c \<subseteq> sets_of n - free_sets m"
    "c \<noteq> d \<Longrightarrow> used ctx own c \<inter> used ctx own d = {}"
  using assms unfolding blocks_ok_def marks_ok_def used_ok_def by blast+

lemma lbit_use: "t < 64 \<Longrightarrow> lbit (put_vec m 0 s (setBit (m 0 s) t)) 0 x \<longleftrightarrow> lbit m 0 x \<or> x = 64 * s + t"
proof -
  assume t: "t < 64"
  have "x = 64 * s + t \<longleftrightarrow> x div 64 = s \<and> x mod 64 = t" using t by (metis mult_div_mod_eq split64)
  then show ?thesis using t by (auto simp: lbit_put bit_setBit) (simp_all add: lbit_def)
qed

lemma own_set_used: "x \<in> own c \<Longrightarrow> x div 64 \<in> used ctx own c"
  by (auto simp: used_def)

text \<open>A file takes a block from a set that it uses, or that nobody uses.\<close>

lemma take_block:
  assumes ok: "blocks_ok n m ctx own" and s: "s \<in> sets_of n - free_sets m" and mine: "\<And>d. d \<noteq> c \<Longrightarrow> s \<notin> used ctx own d"
    and ne: "findFirstUnSet (m 0 s) \<noteq> 64"
  defines "t \<equiv> findFirstUnSet (m 0 s)"
  shows "64 * s + t < n" "64 * s + t < 64 ^ 4" "64 * s + t \<notin> own d"
    and "blocks_ok n (put_vec m 0 s (setBit (m 0 s) t)) (ctx(c := 64 * s + t)) (own(c := insert (64 * s + t) (own c)))"
proof -
  let ?x = "64 * s + t" and ?m = "put_vec m 0 s (setBit (m 0 s) t)"
  let ?own = "own(c := insert ?x (own c))" and ?ctx = "ctx(c := ?x)"
  note o = blocksD [OF ok]
  have t: "t < 64" "\<not> lbit m 0 ?x" using unset_found [OF ne] by (auto simp: t_def lbit_at)
  have s3: "s < 64 ^ 3" using s by (simp add: sets_of_def)
  show x4: "?x < 64 ^ 4" using s3 t(1) by simp
  have nx: "\<not> (n \<le> ?x \<or> (\<exists>c. ?x \<in> own c))" using o(3) [OF x4] t(2) by blast
  then show xn: "?x < n" by simp
  from nx show "?x \<notin> own d" by blast
  have "used ?ctx ?own d \<subseteq> (if d = c then insert s (used ctx own c) else used ctx own d)" for d
    using t(1) by (auto simp: used_def)
  then have u: "used ?ctx ?own d \<subseteq> (if d = c then insert s (used ctx own c) else used ctx own d)" for d .
  have "used_ok n ?m ?ctx ?own" unfolding used_ok_def use_keeps
  proof (intro conjI allI impI)
    show "used ?ctx ?own d \<subseteq> sets_of n - free_sets m" for d using u [of d] o(6) [of d] o(6) [of c] s by (cases "d = c") auto
    show "used ?ctx ?own d \<inter> used ?ctx ?own e = {}" if "d \<noteq> e" for d e
    proof -
      have "used ctx own d \<inter> used ctx own e = {}" using o(7) that by blast
      then show ?thesis using u [of d] u [of e] mine [of d] mine [of e] that by (cases "d = c"; cases "e = c") auto
    qed
  qed
  moreover have "marks_ok n ?m ?own"
    unfolding marks_ok_def
  proof (intro conjI allI impI ballI)
    show "lbit ?m 0 y \<longleftrightarrow> n \<le> y \<or> (\<exists>d. y \<in> ?own d)" if "y < 64 ^ 4" for y
      using o(3) [OF that] lbit_use [OF t(1), of m s y] by auto
    show "y < 64 ^ 4" "y < n" if "y \<in> ?own d" for y d using o(4,5) [of y d] xn x4 that by (auto split: if_splits)
  qed
  ultimately show "blocks_ok n ?m ?ctx ?own" using o(1,2) by (simp add: blocks_ok_def use_keeps)
qed

text \<open>A set that is got is used by nobody, and has a free block.\<close>

lemma get_set:
  assumes ok: "blocks_ok n m ctx own" and g: "getBlockSet m = Some (Inr (s, m'))"
  shows "blocks_ok n m' ctx own" "s \<in> sets_of n - free_sets m'" "s \<notin> used ctx own d" "findFirstUnSet (m' 0 s) \<noteq> 64"
proof -
  note o = blocksD [OF ok]
  note bs = o(1)
  note k = bs.got_keeps(1,2) [OF bs g] and f = bs.got_was_free(1,2) [OF bs g] and z = getBlockSet_blocks [OF bs g]
  have b: "lbit m' 0 x = lbit m 0 x" for x by (simp add: lbit_def z)
  have "used_ok n m' ctx own" using o(6,7) k(2) unfolding used_ok_def by blast
  then show "blocks_ok n m' ctx own" using ok k unfolding blocks_ok_def marks_ok_def b by blast
  show "s \<in> sets_of n - free_sets m'" using o(2) f(1) k(2) by blast
  show nu: "s \<notin> used ctx own d" for d using o(6) [of d] f(1) by blast
  have sn: "64 * s < n" "64 * s < 64 ^ 4" using o(2) f by (auto simp: sets_of_def)
  moreover have "64 * s \<notin> own c" for c using nu [of c] own_set_used [of "64 * s" own c ctx] by auto
  ultimately have "\<not> lbit m 0 (64 * s + 0)" using o(3) [OF sn(2)] sn(1) by auto
  then show "findFirstUnSet (m' 0 s) \<noteq> 64" using lbit_at [of 0 m 0 s] by (auto simp: unset_full z)
qed

text \<open>
  A file gives a block back; when that was the last one of its set, the set is given back too.
\<close>

definition free_block :: "uval \<Rightarrow> uval \<Rightarrow> levels \<Rightarrow> uval \<times> levels" where
  "free_block block context m =
     (let (flipped, w) = flipAllIfZero (clearBit (m 0 (block div 64)) (block mod 64));
          m1 = put_vec m 0 (block div 64) w
      in if flipped
         then (if block div 64 = context div 64 then INIT_PAGER_CONTEXT else context, putBlockSet (block div 64) True m1)
         else (context, m1))"

lemma lbit_free:
  assumes "bs_ok m" "x div 64 < 64 ^ 3"
  shows "lbit (snd (free_block x k m)) 0 y \<longleftrightarrow> lbit m 0 y \<and> y \<noteq> x"
proof -
  let ?w = "clearBit (m 0 (x div 64)) (x mod 64)"
  have eq: "y = x \<longleftrightarrow> y div 64 = x div 64 \<and> y mod 64 = x mod 64" by (metis div_mult_mod_eq)
  have bit: "bit ?w (y mod 64) \<longleftrightarrow> lbit m 0 y \<and> y \<noteq> x" if "y div 64 = x div 64"
    using that eq by (auto simp: bit_clearBit lbit_def)
  show ?thesis
  proof (cases "?w = 0")
    case True
    have "bs_ok (put_vec m 0 (x div 64) (NOT 0))" using assms(1) by (simp add: use_keeps)
    from putBlockSet_blocks [OF this assms(2)] True
    have e: "snd (free_block x k m) 0 = (m 0)(x div 64 := clearAll)"
      by (simp add: free_block_def flipAllIfZero_def put_vec_def)
    show ?thesis unfolding lbit_def [of "snd (free_block x k m)"] e
      using bit True eq by (auto simp: clearAll_def lbit_def)
  next
    case False
    then show ?thesis using bit eq by (cases "y div 64 = x div 64") (auto simp: free_block_def flipAllIfZero_def lbit_put)
  qed
qed

lemma free_block_sets:
  assumes "bs_ok m" "x div 64 < 64 ^ 3"
  shows "bs_ok (snd (free_block x k m))"
    and "free_sets (snd (free_block x k m)) =
      (if clearBit (m 0 (x div 64)) (x mod 64) = 0 then insert (x div 64) (free_sets m) else free_sets m)"
proof -
  have "bs_ok (put_vec m 0 (x div 64) w)" for w using assms(1) by (simp add: use_keeps)
  from bs.give_free [OF this assms(2), of True]
  show "bs_ok (snd (free_block x k m))"
    and "free_sets (snd (free_block x k m)) =
      (if clearBit (m 0 (x div 64)) (x mod 64) = 0 then insert (x div 64) (free_sets m) else free_sets m)"
    using assms(1) by (simp_all add: free_block_def flipAllIfZero_def use_keeps)
qed

lemma give_block:
  assumes ok: "blocks_ok n m ctx own" and x: "x \<in> own c"
  shows "blocks_ok n (snd (free_block x (ctx c) m)) (ctx(c := fst (free_block x (ctx c) m))) (own(c := own c - {x}))"
proof -
  let ?s = "x div 64" and ?own = "own(c := own c - {x})" and ?ctx = "ctx(c := fst (free_block x (ctx c) m))"
    and ?m = "snd (free_block x (ctx c) m)" and ?z = "clearBit (m 0 (x div 64)) (x mod 64) = 0"
  note o = blocksD [OF ok]
  have sc: "?s \<in> used ctx own c" using x by (rule own_set_used)
  then have s: "?s \<in> sets_of n" "?s < 64 ^ 3" using o(6) [of c] by (auto simp: sets_of_def)
  note b = lbit_free [OF o(1) s(2), of "ctx c"] and f = free_block_sets [OF o(1) s(2), of "ctx c"]
  have other: "?s \<notin> used ctx own d" if "d \<noteq> c" for d using o(7) [OF that] sc by blast
  have sub: "used ?ctx ?own d \<subseteq> used ctx own d" for d
    by (auto simp: used_def free_block_def flipAllIfZero_def Let_def split: if_splits)
  have gone: "?s \<notin> used ?ctx ?own d" if z: "?z" for d
  proof (cases "d = c")
    case True
    have "y = x" if "y \<in> own c" "y div 64 = ?s" for y
    proof -
      have "lbit m 0 y" using o(3) [OF o(4) [OF that(1)]] that(1) by blast
      moreover have "\<not> bit (clearBit (m 0 (x div 64)) (x mod 64)) (y mod 64)" using z by simp
      ultimately have "y mod 64 = x mod 64" using that(2) by (simp add: bit_clearBit lbit_def)
      then show "y = x" using that(2) by (metis div_mult_mod_eq)
    qed
    then show ?thesis using True z by (auto simp: used_def free_block_def flipAllIfZero_def Let_def split: if_splits)
  qed (use sub other in blast)
  have "used_ok n ?m ?ctx ?own" unfolding used_ok_def
  proof (intro conjI allI impI)
    show "used ?ctx ?own d \<subseteq> sets_of n - free_sets ?m" for d
      using sub [of d] gone [of d] o(6) [of d] f(2) by (cases ?z) auto
    show "used ?ctx ?own d \<inter> used ?ctx ?own e = {}" if "d \<noteq> e" for d e
      using sub [of d] sub [of e] o(7) [OF that] by blast
  qed
  moreover have "marks_ok n ?m ?own" unfolding marks_ok_def
  proof (intro conjI allI impI ballI)
    have "x \<notin> own d" if "d \<noteq> c" for d using other [OF that] own_set_used [of x own d ctx] by blast
    then show "lbit ?m 0 y \<longleftrightarrow> n \<le> y \<or> (\<exists>d. y \<in> ?own d)" if "y < 64 ^ 4" for y
    proof (cases "y = x")
      case True
      then show ?thesis using b [of y] o(5) [OF x] \<open>\<And>d. d \<noteq> c \<Longrightarrow> x \<notin> own d\<close> by (auto split: if_splits)
    next
      case False
      then have "(\<exists>d. y \<in> ?own d) \<longleftrightarrow> (\<exists>d. y \<in> own d)" by (metis (mono_tags) fun_upd_apply insert_Diff_single insert_iff)
      then show ?thesis using b [of y] o(3) [OF that] False by blast
    qed
    show "y < 64 ^ 4" "y < n" if "y \<in> ?own d" for y d using o(4,5) [of y d] that by (auto split: if_splits)
  qed
  moreover have "free_sets ?m \<subseteq> sets_of n" using f(2) o(2) s(1) by auto
  ultimately show ?thesis using f(1) by (simp add: blocks_ok_def)
qed

section \<open>One device\<close>

lemma mask52: "SWAP_BLOCKNUM_MASK = mask 52"
  by (simp add: SWAP_BLOCKNUM_MASK_def SWAP_DEVID_SHIFT_def mask_eq_exp_minus_1)

text \<open>Device and block number do not disturb each other in an identifier.\<close>

lemma block_ids:
  assumes "dev < 2 ^ 12" "x < 2 ^ 52"
  shows "GET_SWAP_DEVID (2 ^ 52 * dev + x) = dev" "GET_SWAP_BLOCKNUM (2 ^ 52 * dev + x) = x"
    "SET_SWAP_BLOCKNUM (SET_SWAP_DEVID bid dev) x = 2 ^ 52 * dev + x"
proof -
  show "GET_SWAP_DEVID (2 ^ 52 * dev + x) = dev" using assms(2) by (simp add: GET_SWAP_DEVID_def SWAP_DEVID_SHIFT_def drop_bit_eq_div)
  have g: "GET_SWAP_BLOCKNUM y = take_bit 52 y" for y by (simp add: GET_SWAP_BLOCKNUM_def mask52 take_bit_eq_mask)
  then show "GET_SWAP_BLOCKNUM (2 ^ 52 * dev + x) = x" using assms(2) by (simp add: take_bit_eq_mod)
  have "take_bit 64 (push_bit 52 dev) = push_bit 52 dev" using assms(1) by (simp add: take_bit_eq_mod push_bit_eq_mult)
  moreover have "push_bit 52 dev AND take_bit 52 y = 0" for y :: nat by (rule bit_eqI) (auto simp: bit_simps)
  then have or: "push_bit 52 dev OR take_bit 52 y = 2 ^ 52 * dev + take_bit 52 y" for y
    using disjunctive_add_eq_or [of "push_bit 52 dev" "take_bit 52 y"] by (simp add: push_bit_eq_mult)
  ultimately have "SET_SWAP_DEVID bid dev = 2 ^ 52 * dev + take_bit 52 bid" by (simp add: SET_SWAP_DEVID_def SWAP_DEVID_SHIFT_def g)
  moreover have "and_not (2 ^ 52 * dev + take_bit 52 bid) SWAP_BLOCKNUM_MASK = 2 ^ 52 * dev"
    using g [of "2 ^ 52 * dev + take_bit 52 bid"] by (simp add: and_not_def GET_SWAP_BLOCKNUM_def take_bit_eq_mod)
  moreover have "SWAP_BLOCKNUM_MASK AND x = take_bit 52 x" using g [of x] by (simp add: GET_SWAP_BLOCKNUM_def and.commute)
  moreover have "take_bit 52 x = x" using assms(2) by (simp add: take_bit_eq_mod)
  ultimately show "SET_SWAP_BLOCKNUM (SET_SWAP_DEVID bid dev) x = 2 ^ 52 * dev + x"
    using or [of x] by (simp add: SET_SWAP_BLOCKNUM_def push_bit_eq_mult mult.commute)
qed

lemma dev0_ids:
  assumes "x < 2 ^ 52"
  shows "GET_SWAP_DEVID x = 0" "GET_SWAP_BLOCKNUM x = x" "SET_SWAP_BLOCKNUM (SET_SWAP_DEVID bid 0) x = x"
  using block_ids [of 0 x] assms by simp_all

lemma and_not_63: "and_not x 63 = 64 * (x div 64)"
  using and_mask_nat [of x 6] by (simp add: and_not_def minus_mod_eq_mult_div)

lemma one_device:
  "find_device k None [(0, d)] = (if k = 0 then Some (0, d) else None)"
  "node \<in> {None, Some 0} \<Longrightarrow> next_device node [(0, d)] = Some (0, 0, d)"
  "klist_set 0 e [(0, d)] = [(0, e)]"
  "klist_find k [(0, d)] = (if k = 0 then Some d else None)"
proof -
  have n: "klist_next None [(0, d)] = Some (0, 0, d)" "klist_next (Some 0) [(0, d)] = None" for d :: 'd
    by (simp_all add: klist_next_def)
  show "find_device k None [(0, d)] = (if k = 0 then Some (0, d) else None)"
    by (subst find_device.simps, subst find_device.simps) (simp add: n)
  have "next_device None [(0, d)] = Some (0, 0, d)" by (subst next_device.simps) (simp add: n)
  then show "node \<in> {None, Some 0} \<Longrightarrow> next_device node [(0, d)] = Some (0, 0, d)"
    by (subst next_device.simps) (auto simp: n)
qed (auto simp: klist_set_def klist_find_def)

definition swap_inv :: "uval \<Rightarrow> nat \<Rightarrow> diskswap \<Rightarrow> ('c \<Rightarrow> uval) \<Rightarrow> ('c \<Rightarrow> uval set) \<Rightarrow> bool" where
  "swap_inv n b s ctx own \<longleftrightarrow>
     (\<exists>m. devList s = [(0, \<lparr>bd = b, usage = m\<rparr>)] \<and> blocks_ok n m ctx own) \<and> currentDev s \<in> {None, Some 0} \<and>
     numPagesAvail s = n - card (\<Union>(range own))"

lemma owned_finite:
  assumes "blocks_ok n m ctx own"
  shows "finite (\<Union>(range own))" "\<Union>(range own) \<subseteq> {..<n}"
  using blocksD(5) [OF assms] finite_subset [of "\<Union>(range own)" "{..<n}"] by auto

lemma count_take:
  assumes "blocks_ok n m ctx own" "x < n" "\<And>d. x \<notin> own d" "n < 2 ^ 52"
  shows "uadd (n - card (\<Union>(range own))) (2 ^ 64 - 1) = n - card (\<Union>(range (own(c := insert x (own c)))))"
proof -
  note f = owned_finite [OF assms(1)]
  have u: "\<Union>(range (own(c := insert x (own c)))) = insert x (\<Union>(range own))" by (auto split: if_splits)
  have "x \<notin> \<Union>(range own)" using assms(3) by blast
  then have c: "card (insert x (\<Union>(range own))) = Suc (card (\<Union>(range own)))" using f(1) by simp
  have "card (insert x (\<Union>(range own))) \<le> card {..<n}" using f assms(2) by (intro card_mono) auto
  then obtain k where k: "n - card (\<Union>(range own)) = Suc k" using c by (metis Suc_diff_Suc Suc_le_eq card_lessThan)
  have "Suc k < 2 ^ 52" using k assms(4) by linarith
  then have "uadd (Suc k) (2 ^ 64 - 1) = k" by (simp add: uadd_def)
  then show ?thesis unfolding u c k [symmetric] using k by simp
qed

lemma count_give:
  assumes "blocks_ok n m ctx own" "x \<in> own c" "\<And>d. d \<noteq> c \<Longrightarrow> x \<notin> own d" "n < 2 ^ 52"
  shows "uadd (n - card (\<Union>(range own))) 1 = n - card (\<Union>(range (own(c := own c - {x}))))"
proof -
  note f = owned_finite [OF assms(1)]
  have u: "\<Union>(range (own(c := own c - {x}))) = \<Union>(range own) - {x}"
    using assms(3) by (auto split: if_splits) metis
  have "0 < card (\<Union>(range own))" using f(1) assms(2) by (auto simp: card_gt_0_iff)
  moreover have "card (\<Union>(range own)) \<le> n" using card_mono [OF _ f(2)] by simp
  moreover have "card (\<Union>(range own) - {x}) = card (\<Union>(range own)) - 1" using assms(2) by (intro card_Diff_singleton) auto
  ultimately have "n - card (\<Union>(range own)) + 1 = n - card (\<Union>(range own) - {x})" by linarith
  moreover have "n - card (\<Union>(range own)) + 1 < 2 ^ 64" using assms(4) by simp
  ultimately show ?thesis unfolding u by (simp only: uadd_nowrap)
qed

lemma setFind_eq: "findFirstUnSet w \<noteq> 64 \<Longrightarrow> setFindFirstUnSet w = (findFirstUnSet w, setBit w (findFirstUnSet w))"
  "findFirstUnSet w = 64 \<Longrightarrow> fst (setFindFirstUnSet w) = 64"
  by (simp_all add: setFindFirstUnSet_def shift_is_scan Let_def setBit_def)

text \<open>
  An allocation on one device returns: with a block of the device that nobody has, or by stopping the system when the
  context's set has no block left and no set is free.
\<close>

lemma finish_dev0:
  assumes "devList s = [(0, \<lparr>bd = b, usage = m\<rparr>)]" "x < 2 ^ 52"
  shows "finish_alloc bid (0, 0, \<lparr>bd = b, usage = m'\<rparr>, x) s =
    (x, b, x, s\<lparr>devList := [(0, \<lparr>bd = b, usage = m'\<rparr>)], numPagesAvail := uadd (numPagesAvail s) (2 ^ 64 - 1)\<rparr>)"
  using assms by (simp add: finish_alloc_def dev0_ids set_device_def one_device Let_def)

lemma alloc_dev0:
  assumes inv: "swap_inv n b s ctx own" and n: "n < 2 ^ 52"
  shows "(\<exists>x s'. allocBlock bid (ctx c) s = Some (Inr (x, b, x, s')) \<and> x < n \<and> (\<forall>d. x \<notin> own d) \<and>
            swap_inv n b s' (ctx(c := x)) (own(c := insert x (own c)))) \<or>
    (allocBlock bid (ctx c) s = Some (Inl Panic) \<and> free_sets (usage (snd (hd (devList s)))) = {})"
proof -
  from inv obtain m where d: "devList s = [(0, \<lparr>bd = b, usage = m\<rparr>)]" and ok: "blocks_ok n m ctx own"
    and cur: "currentDev s \<in> {None, Some 0}" and cnt: "numPagesAvail s = n - card (\<Union>(range own))" by (auto simp: swap_inv_def)
  note o = blocksD [OF ok]
  have fin: ?thesis
    if ok': "blocks_ok n m' ctx own" and i: "i \<in> sets_of n - free_sets m'" "\<And>e. e \<noteq> c \<Longrightarrow> i \<notin> used ctx own e" "findFirstUnSet (m' 0 i) \<noteq> 64"
      and a: "allocBlock bid (ctx c) s = Some (Inr (finish_alloc bid (0, 0, \<lparr>bd = b, usage = put_vec m' 0 i (setBit (m' 0 i) (findFirstUnSet (m' 0 i)))\<rparr>, 64 * i + findFirstUnSet (m' 0 i)) s1))"
      and s1: "s1 = s \<or> s1 = s\<lparr>currentDev := Some 0\<rparr>" for m' i s1
  proof -
    note t = take_block [of n m' ctx own i c, OF ok' i]
    have x52: "64 * i + findFirstUnSet (m' 0 i) < 2 ^ 52" using t(1) n by linarith
    have "devList s1 = [(0, \<lparr>bd = b, usage = m\<rparr>)]" "currentDev s1 \<in> {None, Some 0}" "numPagesAvail s1 = numPagesAvail s" using s1 d cur by auto
    then show ?thesis using t a finish_dev0 [of s1 b m, OF _ x52] count_take [OF ok' t(1) t(3) n, of c] cnt
      by (auto simp: swap_inv_def intro!: exI)
  qed
  show ?thesis
  proof (cases "block_of_context (ctx c) s")
    case (Some found)
    define i where "i = ctx c div 64"
    have ne: "ctx c \<noteq> INIT_PAGER_CONTEXT" using Some by (auto simp: block_of_context_def)
    then have iu: "i \<in> used ctx own c" by (auto simp: used_def i_def)
    have i: "i \<in> sets_of n - free_sets m" "e \<noteq> c \<Longrightarrow> i \<notin> used ctx own e" for e using iu o(6) [of c] o(7) [of e c] by blast+
    have i3: "i < 64 ^ 3" using i(1) by (simp add: sets_of_def)
    then have c52: "ctx c < 2 ^ 52" by (simp add: i_def div_less_iff_less_mult)
    have f: "findFirstUnSet (m 0 i) \<noteq> 64"
      using Some ne setFind_eq(2) [of "m 0 i"] by (auto simp: block_of_context_def d one_device dev0_ids [OF c52] i_def Let_def split: prod.splits if_splits)
    have "uadd (findFirstUnSet (m 0 i)) (and_not (ctx c) 63) = 64 * i + findFirstUnSet (m 0 i)"
      using unset_found(1) [OF f] i3 by (simp add: and_not_63 i_def uadd_def)
    then have "found = (0, 0, \<lparr>bd = b, usage = put_vec m 0 i (setBit (m 0 i) (findFirstUnSet (m 0 i)))\<rparr>, 64 * i + findFirstUnSet (m 0 i))"
      using Some ne f by (simp add: block_of_context_def d one_device dev0_ids [OF c52] setFind_eq i_def Let_def)
    then show ?thesis using fin [OF ok i f, of s] Some by (simp add: allocBlock_def)
  next
    case None
    show ?thesis
    proof (cases "free_sets m = {}")
      case True
      then show ?thesis using None bs.get_none [OF o(1)] by (simp add: allocBlock_def block_of_new_set_def d one_device(2) [OF cur])
    next
      case False
      then obtain i m' where got: "getBlockSet m = Some (Inr (i, m'))" using bs.get_least [OF o(1)] by blast
      note g = get_set [OF ok got]
      have i3: "i < 64 ^ 3" using g(2) by (simp add: sets_of_def)
      have "uadd (findFirstUnSet (m' 0 i)) (umul i 64) = 64 * i + findFirstUnSet (m' 0 i)"
        using unset_found(1) [OF g(4)] i3 by (simp add: uadd_def umul_def)
      then show ?thesis using fin [OF g(1,2,3,4), of "s\<lparr>currentDev := Some 0\<rparr>"] None got
        by (simp add: allocBlock_def block_of_new_set_def d one_device(2) [OF cur] setFind_eq(1) [OF g(4)])
    qed
  qed
qed

lemma free_dev0:
  assumes inv: "swap_inv n b s ctx own" and n: "n < 2 ^ 52" and x: "x \<in> own c"
  shows "\<exists>k s'. freePage x (ctx c) s = (Inr 0, k, s') \<and> swap_inv n b s' (ctx(c := k)) (own(c := own c - {x}))"
proof -
  from inv obtain m where d: "devList s = [(0, \<lparr>bd = b, usage = m\<rparr>)]" and ok: "blocks_ok n m ctx own"
    and cur: "currentDev s \<in> {None, Some 0}" and cnt: "numPagesAvail s = n - card (\<Union>(range own))" by (auto simp: swap_inv_def)
  have x52: "x < 2 ^ 52" using blocksD(5) [OF ok x] n by linarith
  have only: "x \<notin> own d" if "d \<noteq> c" for d
    using blocksD(7) [OF ok that] own_set_used [of x own c ctx] own_set_used [of x own d ctx] x by blast
  define s' where "s' = s\<lparr>devList := [(0, \<lparr>bd = b, usage = snd (free_block x (ctx c) m)\<rparr>)], numPagesAvail := uadd (numPagesAvail s) 1\<rparr>"
  have "freePage x (ctx c) s = (Inr 0, fst (free_block x (ctx c) m), s')"
    by (simp add: freePage_def dev0_ids [OF x52] d one_device free_block_def Let_def set_device_def s'_def split: prod.split)
  moreover have "swap_inv n b s' (ctx(c := fst (free_block x (ctx c) m))) (own(c := own c - {x}))"
    using give_block [OF ok x] cur count_give [OF ok x only n] cnt by (simp add: swap_inv_def s'_def)
  ultimately show ?thesis by blast
qed

section \<open>Runs on one device\<close>

text \<open>
  The files' calls on a swap object with one device: writing a page to a new or to an own block, synchronously or not, with any
  answer of the device, and freeing an own block. The completion of an asynchronous write that fails is not among them. The
  world has the context and the blocks of each file.
\<close>

record 'c swap_world =
  w_sw :: diskswap
  w_ctx :: "'c \<Rightarrow> uval"
  w_own :: "'c \<Rightarrow> uval set"

definition update_file :: "'c \<Rightarrow> uval \<Rightarrow> uval set \<Rightarrow> diskswap \<Rightarrow> 'c swap_world \<Rightarrow> 'c swap_world" where
  "update_file c k bs s w = w\<lparr>w_sw := s, w_ctx := (w_ctx w)(c := k), w_own := (w_own w)(c := bs)\<rparr>"

inductive swap_reach :: "nat \<Rightarrow> uval \<Rightarrow> 'c swap_world \<Rightarrow> bool" for b bytes where
  attached: "attachDevice (\<lambda>_. Inr (b, True)) (oh :: nat) bytes DiskSwap_init = (Inr 0, s) \<Longrightarrow>
     swap_reach b bytes \<lparr>w_sw = s, w_ctx = \<lambda>_. INIT_PAGER_CONTEXT, w_own = \<lambda>_. {}\<rparr>"
| put_step: "swap_reach b bytes w \<Longrightarrow> blockID = 2 ^ 64 - 1 \<or> blockID \<in> w_own w c \<Longrightarrow>
     putPage putBlock bid paddr blockID (w_ctx w c) (w_sw w) = Some (Inr (rc, blockID', k, s)) \<Longrightarrow>
     swap_reach b bytes (update_file c k (w_own w c - {blockID} \<union> (if blockID' = 2 ^ 64 - 1 then {} else {blockID'})) s w)"
| start_step: "swap_reach b bytes w \<Longrightarrow> blockID = 2 ^ 64 - 1 \<or> blockID \<in> w_own w c \<Longrightarrow>
     startPutPage asyncOp bid vaddr blockID (w_ctx w c) (w_sw w) = Some (Inr (rc, blockID', k, s)) \<Longrightarrow>
     swap_reach b bytes (update_file c k (insert blockID' (w_own w c)) s w)"
| free_step: "swap_reach b bytes w \<Longrightarrow> blockID \<in> w_own w c \<Longrightarrow>
     freePage blockID (w_ctx w c) (w_sw w) = (Inr 0, k, s) \<Longrightarrow> swap_reach b bytes (update_file c k (w_own w c - {blockID}) s w)"

definition world_ok :: "uval \<Rightarrow> nat \<Rightarrow> 'c swap_world \<Rightarrow> bool" where
  "world_ok n b w \<longleftrightarrow> swap_inv n b (w_sw w) (w_ctx w) (w_own w)"

lemma world_update: "world_ok n b (update_file c k bs s w) = swap_inv n b s ((w_ctx w)(c := k)) ((w_own w)(c := bs))"
  by (simp add: world_ok_def update_file_def)

lemma attached_ok:
  assumes "attachDevice (\<lambda>_. Inr (b, True)) oh bytes DiskSwap_init = (Inr 0, s)" "bytes < 2 ^ 64"
  shows "swap_inv (bytes div 4096) b s (\<lambda>_. INIT_PAGER_CONTEXT) (\<lambda>_. {})"
proof -
  let ?n = "bytes div 4096"
  have n: "?n < 2 ^ 52" using assms(2) by (simp add: div_less_iff_less_mult)
  have s: "s = \<lparr>nextDevID = uadd 0 1, numPagesAvail = uadd 0 ?n, currentDev = None, devList = [(0, \<lparr>bd = b, usage = BlockSet_new ?n\<rparr>)]\<rparr>"
    using assms(1) by (simp add: attachDevice_def DiskSwap_init_def klist_add_def DeviceDesc_def SWAP_BLOCKSIZE_def PAGE_SIZE_def)
  have n64: "?n + 64 < 2 ^ 64" using n by simp
  have "blocks_ok ?n (BlockSet_new ?n) (\<lambda>_. INIT_PAGER_CONTEXT) (\<lambda>_. {})"
    unfolding blocks_ok_def marks_ok_def used_ok_def used_def
    using new_ok [OF n64] new_lbits(1) [OF n64] by (simp add: sets_of_def)
  moreover have "uadd 0 ?n = ?n" using n by (simp add: uadd_def)
  ultimately show ?thesis by (simp add: swap_inv_def s)
qed

text \<open>What the first part of a write does with the blocks of the file.\<close>

lemma find_or_alloc_dev0:
  assumes "swap_inv n b s ctx own" "n < 2 ^ 52" "blockID = 2 ^ 64 - 1 \<or> blockID \<in> own c"
    "find_or_alloc bid blockID (ctx c) s = Some (Inr (x, dev, k, s'))"
  shows "x \<noteq> 2 ^ 64 - 1" "swap_inv n b s' (ctx(c := k)) (own(c := insert x (own c)))" "blockID = 2 ^ 64 - 1 \<or> blockID = x" 
    "2 ^ 64 - 1 \<notin> own c" "blockID = 2 ^ 64 - 1 \<Longrightarrow> x \<notin> own c"
proof -
  have small: "y < 2 ^ 52" if "y \<in> own d" for y d using assms(1,2) that blocksD(5) by (fastforce simp: swap_inv_def)
  then show big: "2 ^ 64 - 1 \<notin> own c" by fastforce
  have new: "x \<noteq> 2 ^ 64 - 1 \<and> swap_inv n b s' (ctx(c := k)) (own(c := insert x (own c))) \<and> x \<notin> own c" if e: "blockID = 2 ^ 64 - 1"
  proof -
    have a: "allocBlock bid (ctx c) s = Some (Inr (x, dev, k, s'))"
      using assms(4) e unfolding find_or_alloc_def
      by (cases "allocBlock bid (ctx c) s") (auto split: sum.splits if_splits)
    then have "x < n" "k = x" "x \<notin> own c" "swap_inv n b s' (ctx(c := k)) (own(c := insert x (own c)))"
      using alloc_dev0 [OF assms(1,2), of bid c] by auto
    then show ?thesis using assms(2) by auto
  qed
  have old: "x = blockID \<and> k = ctx c \<and> s' = s" if "blockID \<noteq> 2 ^ 64 - 1"
    using assms(4) that by (auto simp: find_or_alloc_def split: option.splits)
  show "x \<noteq> 2 ^ 64 - 1" "blockID = 2 ^ 64 - 1 \<or> blockID = x" "blockID = 2 ^ 64 - 1 \<Longrightarrow> x \<notin> own c" using new old by blast+
  show "swap_inv n b s' (ctx(c := k)) (own(c := insert x (own c)))"
  proof (cases "blockID = 2 ^ 64 - 1")
    case False
    then have "x = blockID" "k = ctx c" "s' = s" "insert x (own c) = own c" using old assms(3) by auto
    then show ?thesis using assms(1) by (simp only: fun_upd_triv)
  qed (use new in blast)
qed

lemma put_dev0:
  assumes inv: "swap_inv n b s ctx own" and n: "n < 2 ^ 52" and bl: "blockID = 2 ^ 64 - 1 \<or> blockID \<in> own c"
    and p: "putPage putBlock bid paddr blockID (ctx c) s = Some (Inr (rc, blockID', k, s'))"
  shows "swap_inv n b s' (ctx(c := k)) (own(c := own c - {blockID} \<union> (if blockID' = 2 ^ 64 - 1 then {} else {blockID'})))"
proof -
  from p obtain x dev k1 s1 where f: "find_or_alloc bid blockID (ctx c) s = Some (Inr (x, dev, k1, s1))"
    by (auto simp: putPage_def split: bind_splits sum.splits)
  note a = find_or_alloc_dev0 [OF inv n bl f]
  show ?thesis
  proof (cases "putBlock dev paddr SWAP_BLOCKSIZE (umul (GET_SWAP_BLOCKNUM x) SWAP_BLOCKSIZE)")
    case None
    then have "blockID' = x" "k = k1" "s' = s1" using p f by (auto simp: putPage_def)
    moreover have "own c - {blockID} \<union> {x} = insert x (own c)" using a(3,4) by auto
    ultimately show ?thesis using a(1,2) by (simp only: if_False)
  next
    case (Some e)
    let ?own = "own(c := insert x (own c))"
    from free_dev0 [OF a(2) n, of x c] obtain k2 s2
      where r: "freePage x k1 s1 = (Inr 0, k2, s2)" "swap_inv n b s2 (ctx(c := k1, c := k2)) (?own(c := ?own c - {x}))" by auto
    have "blockID' = 2 ^ 64 - 1" "k = k2" "s' = s2" using p f Some r(1) by (auto simp: putPage_def)
    moreover have "insert x (own c) - {x} = own c - {blockID} \<union> {}" using a(3,4,5) by auto
    ultimately show ?thesis using r(2) by (simp only: if_True fun_upd_upd fun_upd_same refl)
  qed
qed

lemma reach_world_ok: "swap_reach b bytes w \<Longrightarrow> bytes < 2 ^ 64 \<Longrightarrow> world_ok (bytes div 4096) b w"
proof (induction rule: swap_reach.induct)
  case (attached oh s)
  then show ?case using attached_ok by (simp add: world_ok_def)
next
  case (put_step w blockID c putBlock bid paddr rc blockID' k s)
  have "bytes div 4096 < 2 ^ 52" using put_step.prems by (simp add: div_less_iff_less_mult)
  then have "swap_inv (bytes div 4096) b s ((w_ctx w)(c := k))
      ((w_own w)(c := w_own w c - {blockID} \<union> (if blockID' = 2 ^ 64 - 1 then {} else {blockID'})))"
    using put_step.IH [OF put_step.prems] put_step.hyps(2,3) unfolding world_ok_def by (intro put_dev0)
  then show ?case by (simp only: world_update)
next
  case (start_step w blockID c asyncOp bid vaddr rc blockID' k s)
  have n: "bytes div 4096 < 2 ^ 52" using start_step.prems by (simp add: div_less_iff_less_mult)
  from start_step.hyps(3) obtain dev where "find_or_alloc bid blockID (w_ctx w c) (w_sw w) = Some (Inr (blockID', dev, k, s))"
    by (auto simp: startPutPage_def split: bind_splits sum.splits)
  then have "swap_inv (bytes div 4096) b s ((w_ctx w)(c := k)) ((w_own w)(c := insert blockID' (w_own w c)))"
    using find_or_alloc_dev0(2) [where own = "w_own w" and c = c and ctx = "w_ctx w", OF _ n start_step.hyps(2)]
      start_step.IH [OF start_step.prems] unfolding world_ok_def by blast
  then show ?case by (simp only: world_update)
next
  case (free_step w blockID c k s)
  have n: "bytes div 4096 < 2 ^ 52" using free_step.prems by (simp add: div_less_iff_less_mult)
  then show ?case
    using free_dev0 [where own = "w_own w" and c = c and ctx = "w_ctx w" and b = b and s = "w_sw w", OF _ n free_step.hyps(2)]
      free_step.IH [OF free_step.prems] free_step.hyps(3) unfolding world_ok_def [of _ b w] world_update by auto
qed


lemma new_100: "free_sets (BlockSet_new 100) = {0, 1}"
  using new_ok(2) [of 100] sets_of_100 by (simp add: sets_of_def)


section \<open>The last set\<close>

text \<open>
  Where the number of blocks is not a multiple of 64, the bits behind the last block stay set, so the last set never
  becomes empty and is never given back: its blocks serve only the file that has it in its context.
\<close>

theorem last_partial_set_is_kept:
  assumes ok: "blocks_ok n m ctx own" and x: "x \<in> own c" and last: "x div 64 = n div 64" "n mod 64 \<noteq> 0" "n < 64 ^ 4"
  shows "n div 64 \<notin> free_sets (snd (free_block x (ctx c) m))"
proof -
  note o = blocksD [OF ok]
  have "x div 64 \<in> used ctx own c" using x by (rule own_set_used)
  then have s: "n div 64 \<notin> free_sets m" "x div 64 < 64 ^ 3" using o(6) [of c] last(1) by (auto simp: sets_of_def)
  have "lbit m 0 n" "x \<noteq> n" using o(3) [OF last(3)] o(5) [OF x] by auto
  then have "bit (clearBit (m 0 (x div 64)) (x mod 64)) (n mod 64)"
    using last(1) by (simp add: bit_clearBit lbit_def) (metis div_mult_mod_eq)
  then have "clearBit (m 0 (x div 64)) (x mod 64) \<noteq> 0" by force
  then show ?thesis using free_block_sets(2) [OF o(1) s(2), of "ctx c"] s(1) by simp
qed

section \<open>More than one device\<close>

declare One_nat_def [simp del]

text \<open>
  The context keeps the identifier with the device in its top bits, \<^verbatim>\<open>freePage\<close> compares it with the bare block number.
\<close>

definition two_devices :: diskswap where
  "two_devices = snd (attachDevice (\<lambda>_ :: nat. Inr (8, True)) 0 409600 (snd (attachDevice (\<lambda>_ :: nat. Inr (7, True)) 0 409600 DiskSwap_init)))"

definition device1 :: "diskswap \<Rightarrow> levels" where
  "device1 s = usage (snd (hd (devList s)))"

lemma two_nodes:
  "find_device 1 None [(1, d), (0, e)] = Some (1, d)"
  "next_device None [(1, d), (0, e)] = Some (1, 1, d)"
  "klist_set 1 f [(1, d), (0, e)] = [(1, f), (0, e)]"
proof -
  have n: "klist_next None [(1, d), (0, e)] = Some (1, 1, d)" by (simp add: klist_next_def)
  show "find_device 1 None [(1, d), (0, e)] = Some (1, d)" by (subst find_device.simps) (simp add: n)
  show "next_device None [(1, d), (0, e)] = Some (1, 1, d)" by (subst next_device.simps) (simp add: n)
qed (simp add: klist_set_def)

lemma two_devices_eq:
  "two_devices = \<lparr>nextDevID = 2, numPagesAvail = 200, currentDev = None,
     devList = [(1, \<lparr>bd = 8, usage = BlockSet_new 100\<rparr>), (0, \<lparr>bd = 7, usage = BlockSet_new 100\<rparr>)]\<rparr>"
  by (simp add: two_devices_def attachDevice_def DiskSwap_init_def klist_add_def DeviceDesc_def SWAP_BLOCKSIZE_def PAGE_SIZE_def uadd_def)

lemma dev1_ids:
  "GET_SWAP_DEVID (2 ^ 52) = 1" "GET_SWAP_BLOCKNUM (2 ^ 52) = 0" "SET_SWAP_BLOCKNUM (SET_SWAP_DEVID bid 1) 0 = 2 ^ 52"
  "SET_SWAP_BLOCKNUM (SET_SWAP_DEVID bid 1) (2 ^ 52) = 2 ^ 52" "2 ^ 52 \<noteq> INIT_PAGER_CONTEXT"
proof -
  show 3: "SET_SWAP_BLOCKNUM (SET_SWAP_DEVID bid 1) 0 = 2 ^ 52" using block_ids(3) [of 1 0 bid] by simp
  show g: "GET_SWAP_DEVID (2 ^ 52) = 1" "GET_SWAP_BLOCKNUM (2 ^ 52) = 0" using block_ids(1,2) [of 1 0] by simp_all
  show "SET_SWAP_BLOCKNUM (SET_SWAP_DEVID bid 1) (2 ^ 52) = 2 ^ 52"
    using 3 g(2) by (simp add: SET_SWAP_BLOCKNUM_def GET_SWAP_BLOCKNUM_def and.commute)
qed (simp add: INIT_PAGER_CONTEXT_def)

lemma find_in_zero: "setFindFirstUnSet 0 = (0, 1)" "clearBit 1 0 = 0"
  by (simp_all add: setFindFirstUnSet_def shift_is_scan findFirstUnSet_def clearBit_def)

text \<open>
  On a second device, a file that frees its only block gives the set back but keeps it in its context: its next
  block comes from that set again, while the set is free for any other file to get.
\<close>

theorem released_set_still_used:
  "\<exists>s1 s2 s3. allocBlock bid INIT_PAGER_CONTEXT two_devices = Some (Inr (2 ^ 52, 8, 2 ^ 52, s1)) \<and>
     freePage (2 ^ 52) (2 ^ 52) s1 = (Inr 0, 2 ^ 52, s2) \<and>
     allocBlock bid (2 ^ 52) s2 = Some (Inr (2 ^ 52, 8, 2 ^ 52, s3)) \<and>
     isBitSet (device1 s3 0 0) 0 \<and> 0 \<in> free_sets (device1 s3)"
proof -
  let ?M = "BlockSet_new 100"
  have ok: "bs_ok ?M" using new_ok(1) [of 100] by simp
  then obtain m where g: "getBlockSet ?M = Some (Inr (0, m))" using bs.get_least [OF ok] new_100 by auto
  have m: "bs_ok m" "m 0 = ?M 0" using bs.got_keeps(1) [OF ok g] getBlockSet_blocks [OF ok g] .
  have z: "?M 0 0 = 0"
  proof (rule bit_word_eqI)
    show "bit (?M 0 0) i = bit 0 i" if "i < LENGTH(64)" for i
      using new_lbits(1) [of 100 i] that by (simp add: lbit_def)
  qed
  have z0: "m 0 0 = 0" using m(2) z by simp
  let ?e = "(0, \<lparr>bd = 7, usage = ?M\<rparr>)"
  define s1 where "s1 = \<lparr>nextDevID = 2, numPagesAvail = 199, currentDev = Some 1, devList = [(1, \<lparr>bd = 8, usage = put_vec m 0 0 1\<rparr>), ?e]\<rparr>"
  define m2 where "m2 = putBlockSet 0 True (put_vec (put_vec m 0 0 1) 0 0 (NOT 0))"
  define s2 where "s2 = s1\<lparr>numPagesAvail := 200, devList := [(1, \<lparr>bd = 8, usage = m2\<rparr>), ?e]\<rparr>"
  define s3 where "s3 = s2\<lparr>numPagesAvail := 199, devList := [(1, \<lparr>bd = 8, usage = put_vec m2 0 0 1\<rparr>), ?e]\<rparr>"
  have "bs_ok (put_vec (put_vec m 0 0 1) 0 0 (NOT 0))" using m(1) by (simp add: use_keeps)
  from putBlockSet_blocks [OF this, of 0 True] bs.give_free [OF this, of 0 True]
  have m2: "m2 0 0 = 0" "0 \<in> free_sets m2" by (simp_all add: m2_def clearAll_def)
  have "block_of_context INIT_PAGER_CONTEXT two_devices = None" by (simp add: block_of_context_def)
  then have 1: "allocBlock bid INIT_PAGER_CONTEXT two_devices = Some (Inr (2 ^ 52, 8, 2 ^ 52, s1))"
    by (simp add: allocBlock_def block_of_new_set_def two_devices_eq two_nodes g z0 find_in_zero finish_alloc_def dev1_ids [simplified]
        set_device_def umul_def uadd_def s1_def)
  have 2: "freePage (2 ^ 52) (2 ^ 52) s1 = (Inr 0, 2 ^ 52, s2)"
    by (simp add: freePage_def dev1_ids [simplified] s1_def s2_def two_nodes put_vec_def find_in_zero flipAllIfZero_def
        set_device_def uadd_def m2_def Let_def)
  have 3: "allocBlock bid (2 ^ 52) s2 = Some (Inr (2 ^ 52, 8, 2 ^ 52, s3))"
    using and_not_63 [of "2 ^ 52"]
    by (simp add: allocBlock_def block_of_context_def dev1_ids [simplified] s1_def s2_def s3_def two_nodes m2(1) find_in_zero
        finish_alloc_def set_device_def uadd_def Let_def)
  have "isBitSet (device1 s3 0 0) 0" by (simp add: device1_def s3_def put_vec_def isBitSet_def)
  moreover have "0 \<in> free_sets (device1 s3)" using m2(2) by (simp add: device1_def s3_def use_keeps)
  ultimately show ?thesis using 1 2 3 by blast
qed

end
