(* ===== verification/FRComputation.thy ===== *)
theory FRComputation
  imports DiskSwap HashSimple
begin

text \<open>
  The representative of a computational file, the swapped-out part of a region of anonymous memory:
  \<^verbatim>\<open>os/kernel/mem/FRComputation.C\<close> and \<^verbatim>\<open>FRComputation.H\<close>. It maps offsets in the file to blocks of the swap object, in a hash table,
  and keeps the context that the swap object allocates by. The theory composes the hash table, the swap
  object and the block sets. Operations on one offset do not overlap, which the comment in the source
  relies on, and each is one step. The transfer of a page and the creation of a file cache are parameters.
\<close>

section \<open>State and operations\<close>

definition LOG_PAGE_SIZE :: nat where "LOG_PAGE_SIZE = 12"

datatype fr_rc = Success uval | Failure sys_error | NegativeID uval | Minus1 | PAGE_NOT_FOUND

record frcomp =
  blockHash :: hash_table
  pagerContext :: uval
  pageable :: uval
  numanode :: uval
  fcmRef :: "nat option"
  beingDestroyed :: bool

definition FRComputation_init :: "uval \<Rightarrow> diskswap \<Rightarrow> frcomp" where
  "FRComputation_init nnode sw = \<lparr>blockHash = HashSimple_new, pagerContext = INIT_PAGER_CONTEXT, pageable = swapActive sw,
     numanode = nnode, fcmRef = None, beingDestroyed = False\<rparr>"

text \<open>The file cache is created on first use, by the number of its memory node.\<close>

definition locked_getFCM :: "(uval \<Rightarrow> uval \<Rightarrow> sys_error option \<times> nat) \<Rightarrow> frcomp \<Rightarrow> fr_rc \<times> nat option \<times> frcomp" where
  "locked_getFCM create fr =
     (if beingDestroyed fr then (Minus1, None, fr)
      else case fcmRef fr of
          Some r \<Rightarrow> (Success 0, Some r, fr)
        | None \<Rightarrow> (let (rc, r) = create (numanode fr) (pageable fr)
                   in (case rc of None \<Rightarrow> Success 0 | Some e \<Rightarrow> Failure e, Some r, fr\<lparr>fcmRef := Some r\<rparr>)))"

definition fr_block :: "uval \<Rightarrow> frcomp \<Rightarrow> uval" where
  "fr_block offset fr = (case hash_find LOG_PAGE_SIZE offset (blockHash fr) of Some b \<Rightarrow> b | None \<Rightarrow> 2 ^ 64 - 1)"

text \<open>\<^verbatim>\<open>memory\<close> says whether the hash table can grow; a synchronous call stops the system.\<close>

definition putPageInternal ::
    "(nat \<Rightarrow> uval \<Rightarrow> uval \<Rightarrow> uval \<Rightarrow> errno option) \<Rightarrow> uval \<Rightarrow> bool \<Rightarrow> uval \<Rightarrow> uval \<Rightarrow> bool \<Rightarrow> frcomp \<Rightarrow> diskswap \<Rightarrow>
      (swap_error + fr_rc \<times> frcomp \<times> diskswap) option" where
  "putPageInternal asyncOp bid memory vaddr offset async fr sw =
     (if pageable fr = 0 then Some (Inr (Minus1, fr, sw))
      else if \<not> async then Some (Inl (Status Panic))
      else Option.bind (startPutPage asyncOp bid vaddr (fr_block offset fr) (pagerContext fr) sw) (\<lambda>r.
        case r of
          Inl (NegativeStatus rc context sw') \<Rightarrow> Some (Inr (NegativeID rc, fr\<lparr>pagerContext := context\<rparr>, sw'))
        | Inl e \<Rightarrow> Some (Inl e)
        | Inr (Some e, blockID, context, sw') \<Rightarrow> Some (Inr (Failure e, fr\<lparr>pagerContext := context\<rparr>, sw'))
        | Inr (None, blockID, context, sw') \<Rightarrow>
            if fr_block offset fr = 2 ^ 64 - 1
            then map_option (\<lambda>h. Inr (Success 0, fr\<lparr>pagerContext := context, blockHash := h\<rparr>, sw'))
                   (hash_add LOG_PAGE_SIZE memory offset blockID (blockHash fr))
            else Some (Inr (Success 0, fr\<lparr>pagerContext := context\<rparr>, sw'))))"

definition fr_startFillPage ::
    "(nat \<Rightarrow> uval \<Rightarrow> uval \<Rightarrow> uval \<Rightarrow> errno option) \<Rightarrow> uval \<Rightarrow> uval \<Rightarrow> frcomp \<Rightarrow> diskswap \<Rightarrow> swap_error + fr_rc" where
  "fr_startFillPage asyncOp vaddr offset fr sw =
     (if pageable fr \<noteq> 0 \<and> fr_block offset fr \<noteq> 2 ^ 64 - 1
      then case startFillPage asyncOp vaddr (fr_block offset fr) sw of
          Inl e \<Rightarrow> Inl e
        | Inr (Some e) \<Rightarrow> Inl (Status Panic)
        | Inr None \<Rightarrow> Inr (Success 0)
      else Inr PAGE_NOT_FOUND)"

definition checkOffset :: "uval \<Rightarrow> frcomp \<Rightarrow> uval" where
  "checkOffset offset fr = (if pageable fr \<noteq> 0 then if fr_block offset fr = 2 ^ 64 - 1 then 1 else 0 else 1)"

definition freeOffset :: "uval \<Rightarrow> frcomp \<Rightarrow> diskswap \<Rightarrow> frcomp \<times> diskswap" where
  "freeOffset offset fr sw =
     (case hash_remove LOG_PAGE_SIZE offset (blockHash fr) of
        (None, h) \<Rightarrow> (fr\<lparr>blockHash := h\<rparr>, sw)
      | (Some blockID, h) \<Rightarrow>
          (case freePage blockID (pagerContext fr) sw of
             (_, context, sw') \<Rightarrow> (fr\<lparr>blockHash := h, pagerContext := context\<rparr>, sw')))"

definition setOffset :: "bool \<Rightarrow> uval \<Rightarrow> uval \<Rightarrow> frcomp \<Rightarrow> diskswap \<Rightarrow> (frcomp \<times> diskswap) option" where
  "setOffset memory offset blockID fr sw =
     (case freeOffset offset fr sw of
        (fr', sw') \<Rightarrow>
          if blockID \<noteq> 2 ^ 64 - 1
          then map_option (\<lambda>h. (fr'\<lparr>blockHash := h\<rparr>, sw')) (hash_add LOG_PAGE_SIZE memory offset blockID (blockHash fr'))
          else Some (fr', sw'))"

definition getBlockID :: "uval \<Rightarrow> frcomp \<Rightarrow> uval \<times> frcomp" where
  "getBlockID offset fr =
     (case hash_remove LOG_PAGE_SIZE offset (blockHash fr) of
        (None, h) \<Rightarrow> (2 ^ 64 - 1, fr\<lparr>blockHash := h\<rparr>)
      | (Some blockID, h) \<Rightarrow> (blockID, fr\<lparr>blockHash := h\<rparr>))"

text \<open>The loop of \<^verbatim>\<open>destroy\<close> frees every block, that of \<^verbatim>\<open>forkCopy\<close> gives every block away, with its offset.\<close>

partial_function (option) free_all :: "hash_table \<Rightarrow> uval \<Rightarrow> uval \<Rightarrow> diskswap \<Rightarrow> (hash_table \<times> uval \<times> diskswap) option" where
  "free_all h restart context sw =
     (case fst (removeNext h restart) of
        None \<Rightarrow> Some (snd (snd (removeNext h restart)), context, sw)
      | Some node \<Rightarrow>
          free_all (snd (snd (removeNext h restart))) (fst (snd (removeNext h restart)))
            (fst (snd (freePage (snd node) context sw))) (snd (snd (freePage (snd node) context sw))))"

partial_function (option) give_all :: "hash_table \<Rightarrow> uval \<Rightarrow> (uval \<times> uval) list \<Rightarrow> (hash_table \<times> (uval \<times> uval) list) option" where
  "give_all h restart given =
     (case fst (removeNext h restart) of
        None \<Rightarrow> Some (snd (snd (removeNext h restart)), given)
      | Some node \<Rightarrow> give_all (snd (snd (removeNext h restart))) (fst (snd (removeNext h restart))) (given @ [node]))"

definition fr_forkCopy :: "frcomp \<Rightarrow> (frcomp \<times> (uval \<times> uval) list) option" where
  "fr_forkCopy fr = map_option (\<lambda>(h, given). (fr\<lparr>blockHash := h\<rparr>, given)) (give_all (blockHash fr) 0 [])"

text \<open>The list of references to the object may already be closed by another \<^verbatim>\<open>destroy\<close>, an error of class 1.\<close>

definition fr_destroy :: "sys_error option \<Rightarrow> frcomp \<Rightarrow> diskswap \<Rightarrow> (fr_rc \<times> frcomp \<times> diskswap) option" where
  "fr_destroy closed fr sw =
     (if beingDestroyed fr then Some (Success 0, fr, sw)
      else let fr1 = fr\<lparr>beingDestroyed := True\<rparr> in
        case closed of
          Some e \<Rightarrow> Some (case e of SERROR ec cc gc \<Rightarrow> if cc = 1 then Success 0 else Failure e | Panic \<Rightarrow> Failure e, fr1, sw)
        | None \<Rightarrow>
            map_option (\<lambda>(h, context, sw'). (Success 0, fr1\<lparr>fcmRef := None, blockHash := h, pagerContext := context\<rparr>, sw'))
              (free_all (blockHash fr) 0 (pagerContext fr) sw))"

section \<open>Files on one device\<close>

abbreviation pages :: "frcomp \<Rightarrow> uval \<rightharpoonup> uval" where
  "pages fr \<equiv> lookup (blockHash fr)"

definition file_ok :: "frcomp \<Rightarrow> uval set \<Rightarrow> bool" where
  "file_ok fr bs \<longleftrightarrow> hash_ok LOG_PAGE_SIZE (blockHash fr) \<and> ran (pages fr) \<subseteq> bs \<and> inj_on (pages fr) (dom (pages fr))"

record fr_world =
  fsw :: diskswap
  files :: "nat \<Rightarrow> frcomp"

definition contexts :: "fr_world \<Rightarrow> nat \<Rightarrow> uval" where
  "contexts w c = pagerContext (files w c)"

definition fr_inv :: "uval \<Rightarrow> nat \<Rightarrow> fr_world \<Rightarrow> bool" where
  "fr_inv n b w \<longleftrightarrow> (\<exists>own. swap_inv n b (fsw w) (contexts w) own \<and> (\<forall>c. file_ok (files w c) (own c)))"

definition set_file :: "nat \<Rightarrow> frcomp \<Rightarrow> diskswap \<Rightarrow> fr_world \<Rightarrow> fr_world" where
  "set_file c fr sw w = w\<lparr>fsw := sw, files := (files w)(c := fr)\<rparr>"

lemma contexts_set: "contexts (set_file c fr sw w) = (contexts w)(c := pagerContext fr)"
  by (auto simp: contexts_def set_file_def)

lemma fr_inv_set:
  assumes "swap_inv n b sw ((contexts w)(c := pagerContext fr)) (own(c := bs))" "file_ok fr bs" "\<And>d. file_ok (files w d) (own d)"
  shows "fr_inv n b (set_file c fr sw w)"
  unfolding fr_inv_def contexts_set using assms
  by (intro exI [of _ "own(c := bs)"]) (auto simp: set_file_def)

lemma file_blocks:
  assumes "swap_inv n b sw ctx own" "n < 2 ^ 52" "file_ok fr (own c)"
  shows "pages fr k = Some x \<Longrightarrow> x \<in> own c" "pages fr k = Some x \<Longrightarrow> x < n"
    "fr_block k fr = (case pages fr k of Some x \<Rightarrow> x | None \<Rightarrow> 2 ^ 64 - 1)" "fr_block k fr = 2 ^ 64 - 1 \<longleftrightarrow> pages fr k = None"
proof -
  have o: "x \<in> own c" if "pages fr k = Some x" for x using assms(3) ranI [of "pages fr" k x] that unfolding file_ok_def by blast
  then show "pages fr k = Some x \<Longrightarrow> x \<in> own c" by blast
  obtain m where ok: "blocks_ok n m ctx own" using assms(1) by (auto simp: swap_inv_def)
  have l: "x < n" if "pages fr k = Some x" for x by (rule blocksD(5) [OF ok o [OF that]])
  then show "pages fr k = Some x \<Longrightarrow> x < n" by blast
  show f: "fr_block k fr = (case pages fr k of Some x \<Rightarrow> x | None \<Rightarrow> 2 ^ 64 - 1)"
    using assms(3) hash_find_lookup by (simp add: fr_block_def file_ok_def)
  show "fr_block k fr = 2 ^ 64 - 1 \<longleftrightarrow> pages fr k = None"
  proof (cases "pages fr k")
    case (Some x)
    have "x < 2 ^ 52" using l [OF Some] assms(2) by (rule less_trans)
    then show ?thesis using f Some by simp
  qed (simp add: f)
qed

lemma alloc_not_negative:
  assumes "swap_inv n b sw ctx own" "n < 2 ^ 52"
  shows "startPutPage asyncOp bid vaddr blockID (ctx c) sw \<noteq> Some (Inl (NegativeStatus rc k sw'))"
proof
  assume "startPutPage asyncOp bid vaddr blockID (ctx c) sw = Some (Inl (NegativeStatus rc k sw'))"
  then have "find_or_alloc bid blockID (ctx c) sw = Some (Inl (NegativeStatus rc k sw'))"
    by (auto simp: startPutPage_def split: bind_splits sum.splits)
  then obtain dev where "allocBlock bid (ctx c) sw = Some (Inr (rc, dev, k, sw'))" "rc \<ge> 2 ^ 63"
    by (cases "allocBlock bid (ctx c) sw") (auto simp: find_or_alloc_def split: if_splits option.splits sum.splits)
  then show False using alloc_dev0 [OF assms, of bid c] assms(2) by auto
qed

lemma put_file:
  assumes inv: "swap_inv n b (fsw w) (contexts w) own" and n: "n < 2 ^ 52" and files: "\<And>d. file_ok (files w d) (own d)"
    and room: "room (blockHash (files w c))"
    and put: "putPageInternal asyncOp bid memory vaddr offset async (files w c) (fsw w) = Some (Inr (rc, fr, sw))"
  shows "fr_inv n b (set_file c fr sw w)"
proof -
  let ?fr = "files w c"
  note B = file_blocks [OF inv n files [of c]]
  have ok: "hash_ok LOG_PAGE_SIZE (blockHash ?fr)" "ran (pages ?fr) \<subseteq> own c" "inj_on (pages ?fr) (dom (pages ?fr))"
    using files [of c] by (auto simp: file_ok_def)
  show ?thesis
  proof (cases "pageable ?fr = 0")
    case True
    then have e: "fr = ?fr" "sw = fsw w" using put by (auto simp: putPageInternal_def)
    show ?thesis by (rule fr_inv_set [where own = own and bs = "own c"])
        (use inv files in \<open>simp_all only: e fun_upd_triv contexts_def [symmetric]\<close>)
  next
    case False
    have as: "async" using put False by (auto simp: putPageInternal_def split: if_splits)
    obtain r where r: "startPutPage asyncOp bid vaddr (fr_block offset ?fr) (contexts w c) (fsw w) = Some r"
      using put False as by (auto simp: putPageInternal_def contexts_def split: bind_splits)
    obtain e x k sw' where re: "r = Inr (e, x, k, sw')"
    proof (cases r)
      case (Inl err)
      then show ?thesis using put False as r alloc_not_negative [OF inv n, of asyncOp bid vaddr _ c]
        by (cases err) (auto simp: putPageInternal_def contexts_def)
    next
      case (Inr a)
      then show ?thesis using that by (cases a) auto
    qed
    then obtain dev where f: "find_or_alloc bid (fr_block offset ?fr) (contexts w c) (fsw w) = Some (Inr (x, dev, k, sw'))"
      using r by (auto simp: startPutPage_def split: bind_splits sum.splits)
    have "fr_block offset ?fr = 2 ^ 64 - 1 \<or> fr_block offset ?fr \<in> own c"
      using B(1) B(3) [of offset] by (cases "pages ?fr offset") auto
    note a = find_or_alloc_dev0 [OF inv n this f]
    have old: "?thesis" if "fr = ?fr\<lparr>pagerContext := k\<rparr>" "sw = sw'"
      by (rule fr_inv_set [where own = own and bs = "insert x (own c)"]) (use a(2) ok files that in \<open>auto simp: file_ok_def\<close>)
    show ?thesis
    proof (cases "e = None \<and> fr_block offset ?fr = 2 ^ 64 - 1")
      case True
      then have none: "pages ?fr offset = None" using B(4) by simp
      obtain h where h: "hash_add LOG_PAGE_SIZE memory offset x (blockHash ?fr) = Some h" "hash_ok LOG_PAGE_SIZE h" "lookup h = (pages ?fr)(offset \<mapsto> x)"
        using hm.put_law [OF ok(1) room none, of memory x] by blast
      have e: "fr = ?fr\<lparr>pagerContext := k, blockHash := h\<rparr>" "sw = sw'"
        using put False as r re True h(1) by (auto simp: putPageInternal_def contexts_def)
      have "x \<notin> ran (pages ?fr)" using a(5) True ok(2) by blast
      then have "inj_on (lookup h) (dom (lookup h))" using ok(3) none unfolding h(3) by (auto simp: inj_on_def ran_def dom_def)
      moreover have "ran (lookup h) \<subseteq> insert x (own c)" using ok(2) none by (auto simp: h(3))
      ultimately show ?thesis
        by (intro fr_inv_set [where own = own and bs = "insert x (own c)"]) (use a(2) files e h in \<open>auto simp: file_ok_def\<close>)
    next
      case F: False
      then show ?thesis using put False as r re by (intro old) (auto simp: putPageInternal_def contexts_def split: option.splits if_splits)
    qed
  qed
qed

lemma inj_remove: "inj_on m (dom m) \<Longrightarrow> m k = Some x \<Longrightarrow> x \<notin> ran (m(k := None)) \<and> inj_on (m(k := None)) (dom (m(k := None)))"
  by (auto simp: inj_on_def ran_def dom_def)

lemma free_file:
  assumes inv: "swap_inv n b (fsw w) (contexts w) own" and n: "n < 2 ^ 52" and files: "\<And>d. file_ok (files w d) (own d)"
    and free: "freeOffset offset (files w c) (fsw w) = (fr, sw)"
  shows "fr_inv n b (set_file c fr sw w)"
proof -
  let ?fr = "files w c"
  have ok: "hash_ok LOG_PAGE_SIZE (blockHash ?fr)" "ran (pages ?fr) \<subseteq> own c" "inj_on (pages ?fr) (dom (pages ?fr))"
    using files [of c] by (auto simp: file_ok_def)
  obtain a h where rm: "hash_remove LOG_PAGE_SIZE offset (blockHash ?fr) = (a, h)" by (cases "hash_remove LOG_PAGE_SIZE offset (blockHash ?fr)")
  have del: "hash_ok LOG_PAGE_SIZE h" "a = pages ?fr offset" "lookup h = (pages ?fr)(offset := None)"
    using hm.del_ok [OF ok(1), of offset] hm.del_result [OF ok(1), of offset] hm.del_look [OF ok(1), of offset] rm by simp_all
  show ?thesis
  proof (cases "pages ?fr offset")
    case None
    then have e: "fr = ?fr\<lparr>blockHash := h\<rparr>" "sw = fsw w" using free rm del(2) by (auto simp: freeOffset_def)
    have "lookup h = pages ?fr" using del(3) None by (simp add: fun_upd_idem_iff)
    then have "file_ok fr (own c)" using ok del(1) by (simp add: e file_ok_def)
    moreover have "pagerContext fr = contexts w c" by (simp add: e contexts_def)
    ultimately show ?thesis
      by (intro fr_inv_set [where own = own and bs = "own c"]) (use inv files e in \<open>simp_all only: fun_upd_triv\<close>)
  next
    case (Some x)
    have x: "x \<in> own c" using ok(2) ranI [of "pages ?fr" offset x] Some by blast
    obtain k s' where f: "freePage x (contexts w c) (fsw w) = (Inr 0, k, s')" "swap_inv n b s' ((contexts w)(c := k)) (own(c := own c - {x}))"
      using free_dev0 [OF inv n x] by blast
    have e: "fr = ?fr\<lparr>blockHash := h, pagerContext := k\<rparr>" "sw = s'" using free rm del(2) Some f(1) by (auto simp: freeOffset_def contexts_def)
    have r: "x \<notin> ran (lookup h)" "inj_on (lookup h) (dom (lookup h))" using inj_remove [OF ok(3) Some] unfolding del(3) by auto
    have "ran (lookup h) \<subseteq> own c" using ok(2) unfolding del(3) by (auto simp: ran_def split: if_splits)
    then have "file_ok fr (own c - {x})" using r del(1) by (auto simp: e file_ok_def)
    then show ?thesis by (intro fr_inv_set [where own = own and bs = "own c - {x}"]) (use f(2) files e in simp_all)
  qed
qed

text \<open>The loop that frees returns, frees every block it finds and leaves the other entries.\<close>

lemma free_all_ok:
  assumes "hash_ok LOG_PAGE_SIZE h" "swap_inv n b sw (ctx(c := k)) own" "n < 2 ^ 52" "ran (lookup h) \<subseteq> own c" "inj_on (lookup h) (dom (lookup h))"
  shows "\<exists>h' k' sw'. free_all h r k sw = Some (h', k', sw') \<and> hash_ok LOG_PAGE_SIZE h' \<and>
    lookup h' = (\<lambda>x. if x \<in> fst ` set (concat (drop r (chains h))) then None else lookup h x) \<and>
    swap_inv n b sw' (ctx(c := k')) (own(c := own c - snd ` set (concat (drop r (chains h))))) \<and>
    snd ` set (concat (drop r (chains h))) \<subseteq> ran (lookup h)"
  using assms
proof (induction "length (concat (drop r (chains h)))" arbitrary: h r k sw own)
  case 0
  then have z: "concat (drop r (chains h)) = []" by simp
  obtain a r' h1 where rn: "removeNext h r = (a, r', h1)" by (cases "removeNext h r")
  have "a = None \<and> h1 = h"
  proof (cases a)
    case (Some node)
    then show ?thesis using removeNext_ok [OF "0.prems"(1), of r] rn z by (cases node) simp
  qed (use removeNext_ok [OF "0.prems"(1), of r] rn in simp)
  then have "fst (removeNext h r) = None" "snd (snd (removeNext h r)) = h" using rn by simp_all
  then have "free_all h r k sw = Some (h, k, sw)" by (subst free_all.simps) simp
  then show ?case using "0.prems"(1,2) unfolding z by simp
next
  case (Suc m)
  obtain a r' h1 where rn': "removeNext h r = (a, r', h1)" by (cases "removeNext h r")
  have "a \<noteq> None"
  proof
    assume "a = None"
    then have "concat (drop r (chains h)) = []" using removeNext_ok [OF Suc.prems(1), of r] rn' by (simp only: prod.case option.case)
    with Suc.hyps(2) show False by (simp only: list.size)
  qed
  then obtain x d where rn: "removeNext h r = (Some (x, d), r', h1)" using rn' by (cases a) auto
  have R: "hash_ok LOG_PAGE_SIZE h1" "lookup h x = Some d" "lookup h1 = (lookup h)(x := None)"
      "concat (drop r (chains h)) = (x, d) # concat (drop r' (chains h1))"
    using removeNext_ok [OF Suc.prems(1), of r] rn by auto
  have d: "d \<in> own c" using Suc.prems(4) ranI [of "lookup h" x d] R(2) by blast
  obtain k1 s1 where f: "freePage d k sw = (Inr 0, k1, s1)" "swap_inv n b s1 (ctx(c := k1)) (own(c := own c - {d}))"
    using free_dev0 [OF Suc.prems(2,3) d] by auto
  note i = inj_remove [OF Suc.prems(5) R(2), folded R(3)]
  have sub: "ran (lookup h1) \<subseteq> ran (lookup h)" unfolding R(3) by (auto simp: ran_def split: if_splits)
  have "ran (lookup h1) \<subseteq> (own(c := own c - {d})) c" using sub Suc.prems(4) i by auto
  moreover have "m = length (concat (drop r' (chains h1)))" using Suc.hyps(2) unfolding R(4) by (simp only: list.size)
  ultimately obtain h' k' sw' where ih: "free_all h1 r' k1 s1 = Some (h', k', sw')" "hash_ok LOG_PAGE_SIZE h'"
    "lookup h' = (\<lambda>x. if x \<in> fst ` set (concat (drop r' (chains h1))) then None else lookup h1 x)"
    "swap_inv n b sw' (ctx(c := k')) (own(c := own c - {d} - snd ` set (concat (drop r' (chains h1)))))"
    "snd ` set (concat (drop r' (chains h1))) \<subseteq> ran (lookup h1)"
    using Suc.hyps(1) [OF _ R(1) f(2) Suc.prems(3) _ conjunct2 [OF i], of r'] unfolding fun_upd_upd fun_upd_same by blast
  have "free_all h r k sw = Some (h', k', sw')" using ih(1) rn f(1) by (subst free_all.simps) simp
  moreover have "lookup h' = (\<lambda>y. if y \<in> fst ` set (concat (drop r (chains h))) then None else lookup h y)"
    unfolding ih(3) R(3,4) by auto
  moreover have "own c - snd ` set (concat (drop r (chains h))) = own c - {d} - snd ` set (concat (drop r' (chains h1)))" unfolding R(4) by auto
  moreover have "snd ` set (concat (drop r (chains h))) \<subseteq> ran (lookup h)" using ih(5) sub ranI [of "lookup h" x d] R(2) unfolding R(4) by auto
  ultimately show ?case using ih(2,4) by metis
qed

lemma entries_blocks:
  assumes "hash_ok sh h"
  shows "snd ` set (entries h) = ran (lookup h)" "fst ` set (entries h) = dom (lookup h)"
proof -
  have "distinct (map fst (entries h))" using assms by (simp add: hash_ok_def)
  then show "snd ` set (entries h) = ran (lookup h)" "fst ` set (entries h) = dom (lookup h)"
    by (simp_all add: lookup_def dom_map_of_conv_image_fst ran_distinct)
qed

lemma destroy_file:
  assumes inv: "swap_inv n b (fsw w) (contexts w) own" and n: "n < 2 ^ 52" and files: "\<And>d. file_ok (files w d) (own d)"
    and live: "\<not> beingDestroyed (files w c)"
  shows "\<exists>fr sw. fr_destroy None (files w c) (fsw w) = Some (Success 0, fr, sw) \<and> pages fr = Map.empty \<and>
    swap_inv n b sw ((contexts w)(c := pagerContext fr)) (own(c := own c - ran (pages (files w c)))) \<and> file_ok fr (own c - ran (pages (files w c)))"
proof -
  let ?fr = "files w c"
  have ok: "hash_ok LOG_PAGE_SIZE (blockHash ?fr)" "ran (pages ?fr) \<subseteq> own c" "inj_on (pages ?fr) (dom (pages ?fr))"
    using files [of c] by (auto simp: file_ok_def)
  have inv': "swap_inv n b (fsw w) ((contexts w)(c := contexts w c)) own" using inv by simp
  have all: "concat (drop 0 (chains (blockHash ?fr))) = entries (blockHash ?fr)" by (simp add: entries_def)
  obtain h k sw where f: "free_all (blockHash ?fr) 0 (contexts w c) (fsw w) = Some (h, k, sw)" "hash_ok LOG_PAGE_SIZE h"
    "lookup h = (\<lambda>x. if x \<in> dom (pages ?fr) then None else pages ?fr x)" "swap_inv n b sw ((contexts w)(c := k)) (own(c := own c - ran (pages ?fr)))"
    using free_all_ok [OF ok(1) inv' n ok(2,3), of 0] unfolding all entries_blocks [OF ok(1)] by blast
  have e: "lookup h = Map.empty" unfolding f(3) by auto
  show ?thesis
    by (rule exI [of _ "?fr\<lparr>beingDestroyed := True, fcmRef := None, blockHash := h, pagerContext := k\<rparr>"], rule exI [of _ sw])
      (use live f(1,2,4) e in \<open>simp add: fr_destroy_def contexts_def file_ok_def\<close>)
qed

lemma card_ran: "inj_on m (dom m) \<Longrightarrow> card (ran m) = card (dom m)"
proof -
  assume i: "inj_on m (dom m)"
  have "ran m = (\<lambda>k. the (m k)) ` dom m" by (force simp: ran_def image_def dom_def)
  moreover have "inj_on (\<lambda>k. the (m k)) (dom m)" using i by (auto simp: inj_on_def dom_def)
  ultimately show ?thesis by (simp add: card_image)
qed

section \<open>Runs of the files\<close>

text \<open>
  The calls of any number of files: starting to write a page, freeing one, destroying the file. Blocks are not moved between files here.
  A file is created while the swap object is in any state.
\<close>

inductive fr_reach :: "nat \<Rightarrow> uval \<Rightarrow> fr_world \<Rightarrow> bool" for b bytes where
  fr_start: "attachDevice (\<lambda>_. Inr (b, True)) (oh :: nat) bytes DiskSwap_init = (Inr 0, s) \<Longrightarrow>
     fr_reach b bytes \<lparr>fsw = s, files = \<lambda>c. FRComputation_init (node c) (sw0 c)\<rparr>"
| fr_put: "fr_reach b bytes w \<Longrightarrow> room (blockHash (files w c)) \<Longrightarrow>
     putPageInternal asyncOp bid memory vaddr offset async (files w c) (fsw w) = Some (Inr (rc, fr, s)) \<Longrightarrow> fr_reach b bytes (set_file c fr s w)"
| fr_free: "fr_reach b bytes w \<Longrightarrow> freeOffset offset (files w c) (fsw w) = (fr, s) \<Longrightarrow> fr_reach b bytes (set_file c fr s w)"
| fr_end: "fr_reach b bytes w \<Longrightarrow> fr_destroy None (files w c) (fsw w) = Some (rc, fr, s) \<Longrightarrow> fr_reach b bytes (set_file c fr s w)"

lemma fr_reach_inv: "fr_reach b bytes w \<Longrightarrow> bytes < 2 ^ 64 \<Longrightarrow> fr_inv (bytes div 4096) b w"
proof (induction rule: fr_reach.induct)
  case (fr_start oh s node sw0)
  have "swap_inv (bytes div 4096) b s (\<lambda>_. INIT_PAGER_CONTEXT) (\<lambda>_ :: nat. {})" using attached_ok [OF fr_start] .
  moreover have "contexts \<lparr>fsw = s, files = \<lambda>c. FRComputation_init (node c) (sw0 c)\<rparr> = (\<lambda>_. INIT_PAGER_CONTEXT)"
    by (auto simp: contexts_def FRComputation_init_def)
  moreover have "file_ok (FRComputation_init m sw) {}" for m sw
    using hash_new_ok by (auto simp: file_ok_def FRComputation_init_def lookup_def entries_def HashSimple_new_def InitialHashTableSize_def)
  ultimately show ?case unfolding fr_inv_def by (intro exI [of _ "\<lambda>_. {}"]) simp
next
  case (fr_put w c asyncOp bid memory vaddr offset async rc fr s)
  have n: "bytes div 4096 < 2 ^ 52" using fr_put.prems by (simp add: div_less_iff_less_mult)
  then show ?case using put_file [OF _ n _ fr_put.hyps(2,3)] fr_put.IH [OF fr_put.prems] by (auto simp: fr_inv_def)
next
  case (fr_free w offset c fr s)
  have n: "bytes div 4096 < 2 ^ 52" using fr_free.prems by (simp add: div_less_iff_less_mult)
  then show ?case using free_file [OF _ n _ fr_free.hyps(2)] fr_free.IH [OF fr_free.prems] by (auto simp: fr_inv_def)
next
  case (fr_end w c rc fr s)
  have n: "bytes div 4096 < 2 ^ 52" using fr_end.prems by (simp add: div_less_iff_less_mult)
  obtain own where o: "swap_inv (bytes div 4096) b (fsw w) (contexts w) own" "\<And>c. file_ok (files w c) (own c)"
    using fr_end.IH [OF fr_end.prems] by (auto simp: fr_inv_def)
  show ?case
  proof (cases "beingDestroyed (files w c)")
    case True
    then have e: "fr = files w c" "s = fsw w" using fr_end.hyps(2) by (auto simp: fr_destroy_def)
    show ?thesis by (rule fr_inv_set [where own = own and bs = "own c"])
        (use o in \<open>simp_all only: e fun_upd_triv contexts_def [symmetric]\<close>)
  next
    case False
    then show ?thesis using destroy_file [OF o(1) n o(2) False] fr_end.hyps(2) o(2)
      by (intro fr_inv_set [where own = own and bs = "own c - ran (pages (files w c))"]) auto
  qed
qed


text \<open>One page of one file.\<close>

definition disk100 :: diskswap where
  "disk100 = snd (attachDevice (\<lambda>_ :: nat. Inr (7, True)) 0 409600 DiskSwap_init)"

lemma disk100_eq: "disk100 = \<lparr>nextDevID = 1, numPagesAvail = 100, currentDev = None, devList = [(0, \<lparr>bd = 7, usage = BlockSet_new 100\<rparr>)]\<rparr>"
  by (simp add: disk100_def attachDevice_def DiskSwap_init_def klist_add_def DeviceDesc_def SWAP_BLOCKSIZE_def PAGE_SIZE_def uadd_def)

definition file0 :: frcomp where
  "file0 = FRComputation_init 0 disk100"

lemma file0_simps: "pageable file0 = 100" "pagerContext file0 = INIT_PAGER_CONTEXT" "blockHash file0 = HashSimple_new" "fr_block k file0 = 2 ^ 64 - 1"
proof -
  show "pageable file0 = 100" "pagerContext file0 = INIT_PAGER_CONTEXT" "blockHash file0 = HashSimple_new"
    by (simp_all add: file0_def FRComputation_init_def swapActive_def disk100_eq)
  then show "fr_block k file0 = 2 ^ 64 - 1"
    using hash_find_lookup [OF hash_new_ok, of LOG_PAGE_SIZE k] by (simp add: fr_block_def lookup_def entries_def new_table)
qed

lemma world0_reach: "fr_reach 7 409600 \<lparr>fsw = disk100, files = \<lambda>c. file0\<rparr>"
proof -
  have "attachDevice (\<lambda>_ :: nat. Inr (7, True)) 0 409600 DiskSwap_init = (Inr 0, disk100)" by (simp add: disk100_def attachDevice_def)
  then show ?thesis using fr_start [of 7 0 409600 disk100 "\<lambda>_. 0" "\<lambda>_. disk100"] by (simp add: file0_def)
qed

lemma new_room: "room HashSimple_new" "lookup HashSimple_new k = None"
  by (simp_all add: room_def new_table HashSimple_new_def lookup_def entries_def InitialHashTableSize_def)

lemma first_block:
  obtains m where "bs_ok m" "m 0 0 = 0" "0 \<notin> free_sets m"
    "allocBlock bid INIT_PAGER_CONTEXT disk100 =
       Some (Inr (0, 7, 0, disk100\<lparr>numPagesAvail := 99, currentDev := Some 0, devList := [(0, \<lparr>bd = 7, usage = put_vec m 0 0 1\<rparr>)]\<rparr>))"
proof -
  let ?M = "BlockSet_new 100"
  have ok: "bs_ok ?M" using new_ok(1) [of 100] by simp
  then obtain m where g: "getBlockSet ?M = Some (Inr (0, m))" using bs.get_least [OF ok] new_100 by auto
  have m: "bs_ok m" "m 0 = ?M 0" "0 \<notin> free_sets m" using bs.got_keeps(1) [OF ok g] getBlockSet_blocks [OF ok g] bs.got_was_free(3) [OF ok g] .
  have z: "?M 0 0 = 0"
  proof (rule bit_word_eqI)
    show "bit (?M 0 0) i = bit 0 i" if "i < LENGTH(64)" for i
      using new_lbits(1) [of 100 i] that by (simp add: lbit_def)
  qed
  have b: "block_of_context INIT_PAGER_CONTEXT disk100 = None" by (simp add: block_of_context_def)
  have "allocBlock bid INIT_PAGER_CONTEXT disk100 =
       Some (Inr (0, 7, 0, disk100\<lparr>numPagesAvail := 99, currentDev := Some 0, devList := [(0, \<lparr>bd = 7, usage = put_vec m 0 0 1\<rparr>)]\<rparr>))"
    using b dev0_ids(3) [of 0 bid]
    by (simp add: allocBlock_def block_of_new_set_def disk100_eq one_device g m(2) z find_in_zero finish_alloc_def set_device_def umul_def uadd_def)
  then show thesis using that m z by simp
qed

text \<open>The table with one page at offset 0, and without it.\<close>

definition table1 :: hash_table where
  "table1 = HashSimple_new\<lparr>chains := [[(0, 0)], [], [], []], numNodes := 1\<rparr>"

lemma table_ops:
  "hash_add LOG_PAGE_SIZE True 0 0 HashSimple_new = Some table1"
  "hash_remove LOG_PAGE_SIZE 0 table1 = (Some 0, HashSimple_new)"
  "hash_remove LOG_PAGE_SIZE 0 HashSimple_new = (None, HashSimple_new)"
  "lookup table1 = [0 \<mapsto> 0]"
proof -
  have n: "HashSimple_new = \<lparr>chains = [[], [], [], []], hashMask = 3, numNodes = 0, allocated = False\<rparr>"
    by (simp add: HashSimple_new_def InitialHashTableSize_def numeral_eq_Suc)
  show "hash_add LOG_PAGE_SIZE True 0 0 HashSimple_new = Some table1"
    by (simp add: n table1_def hash_add_def enqueue_def hash_def umul_def uadd_def)
  show "hash_remove LOG_PAGE_SIZE 0 table1 = (Some 0, HashSimple_new)"
    by (simp add: n table1_def hash_remove_def hash_def usub_def)
  show "hash_remove LOG_PAGE_SIZE 0 HashSimple_new = (None, HashSimple_new)"
    by (simp add: n hash_remove_def hash_def)
  show "lookup table1 = [0 \<mapsto> 0]" by (simp add: table1_def lookup_def entries_def)
qed

lemma put_new_page:
  assumes "pageable fr \<noteq> 0" "blockHash fr = HashSimple_new" "allocBlock bid (pagerContext fr) sw = Some (Inr (0, dev, 0, sw'))"
  shows "putPageInternal (\<lambda>_ _ _ _. None) bid True vaddr 0 True fr sw = Some (Inr (Success 0, fr\<lparr>pagerContext := 0, blockHash := table1\<rparr>, sw'))"
proof -
  have b: "fr_block 0 fr = 2 ^ 64 - 1"
    using hash_find_lookup [OF hash_new_ok, of LOG_PAGE_SIZE 0] assms(2) by (simp add: fr_block_def new_room)
  have "find_or_alloc bid (fr_block 0 fr) (pagerContext fr) sw = Some (Inr (0, dev, 0, sw'))"
    by (simp add: find_or_alloc_def b assms(3))
  then show ?thesis using assms(1,2) b by (simp add: putPageInternal_def startPutPage_def table_ops(1))
qed




section \<open>Moving a block to another file\<close>


section \<open>Reading a page back\<close>

lemma find_or_alloc_device:
  assumes inv: "swap_inv n b sw ctx own" and n: "n < 2 ^ 52" and f: "find_or_alloc bid blockID (ctx c) sw = Some (Inr (x, dev, k, sw'))"
  shows "dev = b"
proof (cases "blockID = 2 ^ 64 - 1")
  case True
  then have "allocBlock bid (ctx c) sw = Some (Inr (x, dev, k, sw'))"
    using f by (cases "allocBlock bid (ctx c) sw") (auto simp: find_or_alloc_def split: sum.splits if_splits)
  then show ?thesis using alloc_dev0 [OF inv n, of bid c] by auto
next
  case False
  obtain m where "devList sw = [(0, \<lparr>bd = b, usage = m\<rparr>)]" using inv by (auto simp: swap_inv_def)
  then show ?thesis using f False by (auto simp: find_or_alloc_def one_device split: if_splits)
qed

lemma put_success:
  assumes "putPageInternal asyncOp bid memory vaddr offset async fr sw = Some (Inr (Success 0, fr', sw'))"
  obtains x dev k where "find_or_alloc bid (fr_block offset fr) (pagerContext fr) sw = Some (Inr (x, dev, k, sw'))" "pageable fr' = pageable fr"
    "pageable fr \<noteq> 0" "asyncOp dev vaddr SWAP_BLOCKSIZE (umul (GET_SWAP_BLOCKNUM x) SWAP_BLOCKSIZE) = None"
    "if fr_block offset fr = 2 ^ 64 - 1 then hash_add LOG_PAGE_SIZE memory offset x (blockHash fr) = Some (blockHash fr') else blockHash fr' = blockHash fr"
proof -
  obtain r where r: "find_or_alloc bid (fr_block offset fr) (pagerContext fr) sw = Some r" "pageable fr \<noteq> 0" "async"
    using assms by (auto simp: putPageInternal_def startPutPage_def split: if_splits bind_splits)
  show thesis
  proof (cases r)
    case (Inl e)
    then show thesis using assms r by (cases e) (auto simp: putPageInternal_def startPutPage_def)
  next
    case (Inr q)
    obtain x dev k s1 where q: "q = (x, dev, k, s1)" by (cases q)
    show thesis
      by (rule that [of x dev k])
        (use assms r Inr q in \<open>auto simp: putPageInternal_def startPutPage_def split: option.splits if_splits\<close>)
  qed
qed

text \<open>
  C22. A page that was written is read back from where it was written: after a successful write the offset has a block, the write
  was to the place of that block on the device, and a read of the offset starts a transfer from that place.
\<close>

theorem fill_reads_where_put_wrote:
  assumes "fr_reach b bytes w" "bytes < 2 ^ 64" "room (blockHash (files w c))"
    "putPageInternal asyncOp bid memory vaddr offset async (files w c) (fsw w) = Some (Inr (Success 0, fr, sw))"
  shows "\<exists>x. pages fr offset = Some x \<and> checkOffset offset fr = 0 \<and> asyncOp b vaddr SWAP_BLOCKSIZE (x * SWAP_BLOCKSIZE) = None \<and>
    fr_startFillPage readOp vaddr' offset fr sw =
      (if readOp b vaddr' SWAP_BLOCKSIZE (x * SWAP_BLOCKSIZE) = None then Inr (Success 0) else Inl (Status Panic))"
proof -
  let ?n = "bytes div 4096"
  have n: "?n < 2 ^ 52" using assms(2) by (simp add: div_less_iff_less_mult)
  obtain own where o: "swap_inv ?n b (fsw w) (contexts w) own" "\<And>c. file_ok (files w c) (own c)"
    using fr_reach_inv [OF assms(1,2)] by (auto simp: fr_inv_def)
  have "fr_inv ?n b (set_file c fr sw w)" by (rule put_file [OF o(1) n o(2) assms(3,4)])
  then obtain own' where o': "swap_inv ?n b sw ((contexts w)(c := pagerContext fr)) own'" "file_ok fr (own' c)"
    unfolding fr_inv_def contexts_set by (auto simp: set_file_def dest: spec [of _ c])
  obtain x dev k where p: "find_or_alloc bid (fr_block offset (files w c)) (contexts w c) (fsw w) = Some (Inr (x, dev, k, sw))"
      "pageable fr \<noteq> 0" "asyncOp dev vaddr SWAP_BLOCKSIZE (umul (GET_SWAP_BLOCKNUM x) SWAP_BLOCKSIZE) = None"
      "if fr_block offset (files w c) = 2 ^ 64 - 1 then hash_add LOG_PAGE_SIZE memory offset x (blockHash (files w c)) = Some (blockHash fr)
       else blockHash fr = blockHash (files w c)"
    using put_success [OF assms(4)] unfolding contexts_def by metis
  note B = file_blocks [OF o(1) n o(2) [of c]]
  have page: "pages fr offset = Some x"
  proof (cases "pages (files w c) offset")
    case None
    have h: "hash_ok LOG_PAGE_SIZE (blockHash (files w c))" using o(2) [of c] by (simp add: file_ok_def)
    show ?thesis using hm.put_law [OF h assms(3) None, of memory x] p(4) B(4) [of offset] None by auto
  next
    case (Some y)
    then have y: "fr_block offset (files w c) = y" "y \<noteq> 2 ^ 64 - 1" using B(3,4) [of offset] by auto
    then have "x = y" using p(1) by (auto simp: find_or_alloc_def split: option.splits)
    then show ?thesis using p(4) y Some by simp
  qed
  note B' = file_blocks [OF o' (1) n o'(2)]
  have x: "x < 2 ^ 52" using B'(2) [OF page] n by linarith
  have pos: "umul (GET_SWAP_BLOCKNUM x) SWAP_BLOCKSIZE = x * SWAP_BLOCKSIZE" using x by (simp add: dev0_ids umul_def SWAP_BLOCKSIZE_def)
  have dev: "dev = b" by (rule find_or_alloc_device [OF o(1) n p(1)])
  have blk: "fr_block offset fr = x" "x \<noteq> 2 ^ 64 - 1" using B'(3,4) [of offset] page by auto
  obtain m where "devList sw = [(0, \<lparr>bd = b, usage = m\<rparr>)]" using o'(1) by (auto simp: swap_inv_def)
  then have "startFillPage readOp vaddr' x sw = Inr (map_option (SERROR 2296 0) (readOp b vaddr' SWAP_BLOCKSIZE (x * SWAP_BLOCKSIZE)))"
    using x pos by (simp add: startFillPage_def dev0_ids one_device)
  then have "fr_startFillPage readOp vaddr' offset fr sw =
      (if readOp b vaddr' SWAP_BLOCKSIZE (x * SWAP_BLOCKSIZE) = None then Inr (Success 0) else Inl (Status Panic))"
    using blk p(2) by (cases "readOp b vaddr' SWAP_BLOCKSIZE (x * SWAP_BLOCKSIZE)") (simp_all add: fr_startFillPage_def)
  then show ?thesis using page p(2,3) dev pos blk by (intro exI [of _ x]) (simp add: checkOffset_def)
qed

theorem fill_reads_where_put_wrote_witness:
  "\<exists>fr sw x. putPageInternal (\<lambda>_ _ _ _. None) 0 True 0 0 True file0 disk100 = Some (Inr (Success 0, fr, sw)) \<and> pages fr 0 = Some x \<and>
     fr_startFillPage (\<lambda>_ _ _ _. None) 0 0 fr sw = Inr (Success 0)"
proof -
  obtain s1 where a: "allocBlock 0 INIT_PAGER_CONTEXT disk100 = Some (Inr (0, 7, 0, s1))" using first_block [of 0] by metis
  have p: "putPageInternal (\<lambda>_ _ _ _. None) 0 True 0 0 True file0 disk100 = Some (Inr (Success 0, file0\<lparr>pagerContext := 0, blockHash := table1\<rparr>, s1))"
    by (rule put_new_page) (simp_all add: file0_simps a)
  then show ?thesis
    using fill_reads_where_put_wrote [OF world0_reach, of 0 "\<lambda>_ _ _ _. None" 0 True 0 0 True _ s1 "\<lambda>_ _ _ _. None" 0] new_room(1)
    by (auto simp: file0_simps)
qed

end
