(* ===== verification/FairBLock.thy ===== *)
theory FairBLock
  imports K42_Prelude "HOL-Library.Sublist"
begin

text \<open>
  The fair blocking lock of \<^verbatim>\<open>lib/libc/sync/FairBLock.C\<close> and \<^verbatim>\<open>FairBLock.H\<close>: two words, the tail and the head of a
  chain of waiting threads whose elements live on the stacks of these threads. A thread first spins, then puts
  its element at the tail with a compare-and-store, links the element before to it and blocks; a
  release hands the lock to the head of the chain, and the new holder puts the two words in order. Every
  access to a shared word is a step of its own, in any interleaving of any number of threads. \<^verbatim>\<open>Block\<close> and
  \<^verbatim>\<open>Unblock\<close> of the scheduler are a bit per thread; yielding and delaying have no effect on the lock.
\<close>

section \<open>State and steps\<close>

text \<open>A pointer to an element: null, the element in the lock, or the one in the frame of a thread's \<^verbatim>\<open>_acquire\<close>.\<close>

datatype elptr = NullEl | LockEl | El nat

text \<open>
  The places of a thread. \<^verbatim>\<open>FSpin\<close> has the spin count, \<^verbatim>\<open>FEnq\<close> and \<^verbatim>\<open>FLink\<close> the tail that was read,
  \<^verbatim>\<open>FRelWaiter\<close> and \<^verbatim>\<open>FRelClear\<close> the head of the chain and its waiter, \<^verbatim>\<open>FUnblock\<close> the thread to wake. \<^verbatim>\<open>FWild\<close> is an access
  to an element that is not there: that of a thread not in \<^verbatim>\<open>_acquire\<close>, or null.
\<close>

datatype fpc = FIdle | FSpin nat | FSpinCas nat | FTop | FTopCas | FEnq elptr | FLink elptr | FWait | FBlocked | FGot
  | FConvert | FNext | FCopy | FHeld | FRel | FRelNext | FRelWaiter elptr | FRelClear elptr "nat option" | FUnblock "nat option" | FWild

text \<open>
  \<^verbatim>\<open>arrived\<close> and \<^verbatim>\<open>served\<close> are history: the threads in the order in which they became the tail, and those of them in the
  order in which their \<^verbatim>\<open>_acquire\<close> got the lock.
\<close>

record flock =
  fb_tail :: elptr
  fb_next :: elptr
  el_next :: "nat \<Rightarrow> elptr"
  el_waiter :: "nat \<Rightarrow> nat option"
  fb_pc :: "nat \<Rightarrow> fpc"
  fb_unblocked :: "nat \<Rightarrow> bool"
  arrived :: "nat list"
  served :: "nat list"

definition FairBLock_init :: flock where
  "FairBLock_init = \<lparr>fb_tail = NullEl, fb_next = NullEl, el_next = (\<lambda>_. NullEl), el_waiter = (\<lambda>_. None), fb_pc = (\<lambda>_. FIdle),
     fb_unblocked = (\<lambda>_. False), arrived = [], served = []\<rparr>"

definition fb_isLocked :: "flock \<Rightarrow> bool" where
  "fb_isLocked s \<longleftrightarrow> fb_tail s \<noteq> NullEl"

definition fgo :: "nat \<Rightarrow> fpc \<Rightarrow> flock \<Rightarrow> flock" where
  "fgo t p s = s\<lparr>fb_pc := (fb_pc s)(t := p)\<rparr>"

fun in_frame :: "fpc \<Rightarrow> bool" where
  "in_frame FIdle = False" | "in_frame FHeld = False" | "in_frame FRel = False" | "in_frame FRelNext = False"
| "in_frame (FRelWaiter x) = False" | "in_frame (FRelClear x w) = False" | "in_frame (FUnblock w) = False" | "in_frame FWild = False"
| "in_frame p = True"

definition cas_tail :: "elptr \<Rightarrow> elptr \<Rightarrow> fpc \<Rightarrow> fpc \<Rightarrow> nat \<Rightarrow> flock \<Rightarrow> flock" where
  "cas_tail old new yes no t s = (if fb_tail s = old then fgo t yes (s\<lparr>fb_tail := new\<rparr>) else fgo t no s)"

definition yieldVPLimit :: nat where "yieldVPLimit = 100 + 100 + 1"

definition spin_on :: "nat \<Rightarrow> fpc" where
  "spin_on n = (if n + 1 < yieldVPLimit then FSpin (n + 1) else FTop)"

definition acq_spin :: "nat \<Rightarrow> nat \<Rightarrow> flock \<Rightarrow> flock" where
  "acq_spin n t s = fgo t (case fb_tail s of NullEl \<Rightarrow> FSpinCas n | LockEl \<Rightarrow> spin_on n | El u \<Rightarrow> FTop) s"

definition acq_read :: "nat \<Rightarrow> flock \<Rightarrow> flock" where
  "acq_read t s = fgo t (if fb_tail s = NullEl then FTopCas else FEnq (fb_tail s)) s"

definition acq_enqueue :: "elptr \<Rightarrow> nat \<Rightarrow> flock \<Rightarrow> flock" where
  "acq_enqueue el t s =
     (let s1 = s\<lparr>el_next := (el_next s)(t := NullEl), el_waiter := (el_waiter s)(t := Some t)\<rparr>
      in if fb_tail s = el then fgo t (FLink el) (s1\<lparr>fb_tail := El t, arrived := arrived s @ [t]\<rparr>) else fgo t FTop s1)"

definition acq_link :: "elptr \<Rightarrow> nat \<Rightarrow> flock \<Rightarrow> flock" where
  "acq_link el t s =
     (case el of
        NullEl \<Rightarrow> fgo t FWild s
      | LockEl \<Rightarrow> fgo t FWait (s\<lparr>fb_next := El t\<rparr>)
      | El u \<Rightarrow> if in_frame (fb_pc s u) then fgo t FWait (s\<lparr>el_next := (el_next s)(u := El t)\<rparr>) else fgo t FWild s)"

definition acq_wait :: "nat \<Rightarrow> flock \<Rightarrow> flock" where
  "acq_wait t s = fgo t (if el_waiter s t \<noteq> None then FBlocked else FGot) s"

definition acq_block :: "nat \<Rightarrow> flock \<Rightarrow> flock option" where
  "acq_block t s =
     (if fb_unblocked s t then Some (fgo t FWait (s\<lparr>fb_unblocked := (fb_unblocked s)(t := False)\<rparr>)) else None)"

definition acq_got :: "nat \<Rightarrow> flock \<Rightarrow> flock" where
  "acq_got t s = fgo t FConvert (s\<lparr>fb_next := NullEl\<rparr>)"

definition acq_convert :: "nat \<Rightarrow> flock \<Rightarrow> flock" where
  "acq_convert t s =
     (if fb_tail s = El t then fgo t FHeld (s\<lparr>fb_tail := LockEl, served := served s @ [t]\<rparr>) else fgo t FNext s)"

definition acq_next :: "nat \<Rightarrow> flock \<Rightarrow> flock" where
  "acq_next t s = fgo t (if el_next s t = NullEl then FNext else FCopy) s"

definition acq_copy :: "nat \<Rightarrow> flock \<Rightarrow> flock" where
  "acq_copy t s = fgo t FHeld (s\<lparr>fb_next := el_next s t, served := served s @ [t]\<rparr>)"

definition rel_next :: "nat \<Rightarrow> flock \<Rightarrow> flock" where
  "rel_next t s = fgo t (if fb_next s = NullEl then FRelNext else FRelWaiter (fb_next s)) s"

definition rel_waiter :: "elptr \<Rightarrow> nat \<Rightarrow> flock \<Rightarrow> flock" where
  "rel_waiter el t s =
     fgo t (case el of El u \<Rightarrow> if in_frame (fb_pc s u) then FRelClear el (el_waiter s u) else FWild | _ \<Rightarrow> FWild) s"

definition rel_clear :: "elptr \<Rightarrow> nat option \<Rightarrow> nat \<Rightarrow> flock \<Rightarrow> flock" where
  "rel_clear el w t s =
     (case el of
        El u \<Rightarrow> if in_frame (fb_pc s u) then fgo t (FUnblock w) (s\<lparr>el_waiter := (el_waiter s)(u := None)\<rparr>) else fgo t FWild s
      | _ \<Rightarrow> fgo t FWild s)"

definition rel_unblock :: "nat option \<Rightarrow> nat \<Rightarrow> flock \<Rightarrow> flock" where
  "rel_unblock w t s =
     (case w of None \<Rightarrow> fgo t FWild s | Some u \<Rightarrow> fgo t FIdle (s\<lparr>fb_unblocked := (fb_unblocked s)(u := True)\<rparr>))"

datatype fcall = Call_acquire | Call_tryAcquire

fun f_next :: "fcall \<Rightarrow> nat \<Rightarrow> flock \<Rightarrow> flock option" where
  "f_next c t s =
     (case fb_pc s t of
        FIdle \<Rightarrow> Some (case c of Call_acquire \<Rightarrow> fgo t (FSpin 0) s | Call_tryAcquire \<Rightarrow> cas_tail NullEl LockEl FHeld FIdle t s)
      | FSpin n \<Rightarrow> Some (acq_spin n t s)
      | FSpinCas n \<Rightarrow> Some (cas_tail NullEl LockEl FHeld (spin_on n) t s)
      | FTop \<Rightarrow> Some (acq_read t s)
      | FTopCas \<Rightarrow> Some (cas_tail NullEl LockEl FHeld FTop t s)
      | FEnq el \<Rightarrow> Some (acq_enqueue el t s)
      | FLink el \<Rightarrow> Some (acq_link el t s)
      | FWait \<Rightarrow> Some (acq_wait t s)
      | FBlocked \<Rightarrow> acq_block t s
      | FGot \<Rightarrow> Some (acq_got t s)
      | FConvert \<Rightarrow> Some (acq_convert t s)
      | FNext \<Rightarrow> Some (acq_next t s)
      | FCopy \<Rightarrow> Some (acq_copy t s)
      | FHeld \<Rightarrow> Some (fgo t FRel s)
      | FRel \<Rightarrow> Some (cas_tail LockEl NullEl FIdle FRelNext t s)
      | FRelNext \<Rightarrow> Some (rel_next t s)
      | FRelWaiter el \<Rightarrow> Some (rel_waiter el t s)
      | FRelClear el w \<Rightarrow> Some (rel_clear el w t s)
      | FUnblock w \<Rightarrow> Some (rel_unblock w t s)
      | FWild \<Rightarrow> None)"

declare f_next.simps [simp del]

text \<open>A step of a thread, or an \<^verbatim>\<open>Unblock\<close> of some thread that has nothing to do with this lock.\<close>

inductive f_step :: "flock \<Rightarrow> flock \<Rightarrow> bool" where
  f_thread: "f_next c t s = Some s' \<Longrightarrow> f_step s s'"
| f_spurious: "f_step s (s\<lparr>fb_unblocked := (fb_unblocked s)(u := True)\<rparr>)"

lemmas f_ops = fgo_def cas_tail_def spin_on_def acq_spin_def acq_read_def acq_enqueue_def acq_link_def acq_wait_def acq_block_def
  acq_got_def acq_convert_def acq_next_def acq_copy_def rel_next_def rel_waiter_def rel_clear_def rel_unblock_def Let_def

section \<open>The queue\<close>

fun outside :: "fpc \<Rightarrow> bool" where
  "outside FIdle = True" | "outside (FSpin n) = True" | "outside (FSpinCas n) = True" | "outside FTop = True"
| "outside FTopCas = True" | "outside (FEnq x) = (x \<noteq> NullEl)" | "outside (FUnblock w) = (w \<noteq> None)" | "outside p = False"

fun queued :: "fpc \<Rightarrow> bool" where
  "queued (FLink x) = True" | "queued FWait = True" | "queued FBlocked = True" | "queued p = False"

fun converting :: "fpc \<Rightarrow> bool" where
  "converting FWait = True" | "converting FBlocked = True" | "converting FGot = True" | "converting FConvert = True"
| "converting FNext = True" | "converting FCopy = True" | "converting p = False"

fun holding :: "fpc \<Rightarrow> bool" where
  "holding FHeld = True" | "holding FRel = True" | "holding FRelNext = True" | "holding (FRelWaiter x) = True"
| "holding (FRelClear x w) = True" | "holding p = False"

text \<open>
  The state of the lock is a thread that owns it, if any, and the queue of those that wait. The chain starts at the lock,
  or, while the owner has not yet put the lock in order, at the owner's element.
\<close>

definition next_of :: "flock \<Rightarrow> elptr \<Rightarrow> elptr" where
  "next_of s p = (case p of NullEl \<Rightarrow> NullEl | LockEl \<Rightarrow> fb_next s | El t \<Rightarrow> el_next s t)"

definition base_of :: "nat option \<Rightarrow> flock \<Rightarrow> elptr" where
  "base_of own s = (case own of None \<Rightarrow> LockEl | Some t \<Rightarrow> if converting (fb_pc s t) then El t else LockEl)"

fun chained :: "flock \<Rightarrow> elptr \<Rightarrow> nat list \<Rightarrow> bool" where
  "chained s b [] \<longleftrightarrow> next_of s b = NullEl"
| "chained s b (t # q) \<longleftrightarrow>
     (if \<exists>x. fb_pc s t = FLink x then fb_pc s t = FLink b \<and> next_of s b = NullEl else next_of s b = El t) \<and> chained s (El t) q"

definition pcs_ok :: "nat option \<Rightarrow> nat list \<Rightarrow> flock \<Rightarrow> bool" where
  "pcs_ok own q s \<longleftrightarrow>
     (\<forall>t. if t \<in> set q then queued (fb_pc s t) \<and> el_waiter s t = Some t
          else if own = Some t then holding (fb_pc s t) \<or> converting (fb_pc s t) \<and> el_waiter s t = None
          else outside (fb_pc s t))"

definition waking :: "flock \<Rightarrow> nat \<Rightarrow> bool" where
  "waking s t \<longleftrightarrow> fb_unblocked s t \<or> (\<exists>u. fb_pc s u = FUnblock (Some t))"

definition owner_ok :: "nat option \<Rightarrow> nat list \<Rightarrow> flock \<Rightarrow> bool" where
  "owner_ok own q s =
     (case own of
        None \<Rightarrow> q = []
      | Some t \<Rightarrow>
          (case fb_pc s t of
             FBlocked \<Rightarrow> waking s t
           | FConvert \<Rightarrow> fb_next s = NullEl
           | FNext \<Rightarrow> q \<noteq> []
           | FCopy \<Rightarrow> q \<noteq> [] \<and> el_next s t \<noteq> NullEl
           | FRelNext \<Rightarrow> q \<noteq> []
           | FRelWaiter x \<Rightarrow> q \<noteq> [] \<and> x = El (hd q) \<and> fb_next s = x
           | FRelClear x w \<Rightarrow> q \<noteq> [] \<and> x = El (hd q) \<and> fb_next s = x \<and> w = Some (hd q)
           | _ \<Rightarrow> True))"

definition f_ok :: "nat option \<Rightarrow> nat list \<Rightarrow> flock \<Rightarrow> bool" where
  "f_ok own q s \<longleftrightarrow> distinct q \<and> own \<notin> Some ` set q \<and> pcs_ok own q s \<and> owner_ok own q s \<and> chained s (base_of own s) q \<and>
     fb_tail s = (if own = None then NullEl else last (base_of own s # map El q)) \<and>
     arrived s = served s @ (case base_of own s of El t \<Rightarrow> [t] | _ \<Rightarrow> []) @ q"

definition f_inv :: "flock \<Rightarrow> bool" where
  "f_inv s \<longleftrightarrow> (\<exists>own q. f_ok own q s)"

lemma f_init: "f_inv FairBLock_init"
  unfolding f_inv_def by (rule exI [of _ None], rule exI [of _ "[]"])
    (simp add: f_ok_def pcs_ok_def owner_ok_def base_of_def next_of_def FairBLock_init_def)

section \<open>Every step keeps the queue\<close>

lemma fgo_simps [simp]:
  "fb_tail (fgo t p s) = fb_tail s" "fb_next (fgo t p s) = fb_next s" "el_next (fgo t p s) = el_next s"
  "el_waiter (fgo t p s) = el_waiter s" "fb_pc (fgo t p s) = (fb_pc s)(t := p)" "fb_unblocked (fgo t p s) = fb_unblocked s"
  "arrived (fgo t p s) = arrived s" "served (fgo t p s) = served s"
  by (simp_all add: fgo_def)

lemma place_disjoint:
  "outside p \<Longrightarrow> \<not> queued p \<and> \<not> holding p \<and> \<not> converting p" "holding p \<Longrightarrow> \<not> queued p \<and> \<not> converting p"
  by (cases p; simp)+

lemma place_in_frame: "queued p \<Longrightarrow> in_frame p" "converting p \<Longrightarrow> in_frame p"
  by (cases p; simp)+

lemma region:
  assumes "f_ok own q s"
  shows "outside (fb_pc s t) \<longleftrightarrow> t \<notin> set q \<and> own \<noteq> Some t" "holding (fb_pc s t) \<Longrightarrow> own = Some t \<and> t \<notin> set q"
    "t \<in> set q \<Longrightarrow> queued (fb_pc s t) \<and> el_waiter s t = Some t" "t \<in> set q \<Longrightarrow> own \<noteq> Some t"
    "own = Some t \<Longrightarrow> holding (fb_pc s t) \<or> converting (fb_pc s t) \<and> el_waiter s t = None"
    "queued (fb_pc s t) \<or> converting (fb_pc s t) \<Longrightarrow> t \<in> set q \<or> own = Some t"
proof -
  have p: "if t \<in> set q then queued (fb_pc s t) \<and> el_waiter s t = Some t
      else if own = Some t then holding (fb_pc s t) \<or> converting (fb_pc s t) \<and> el_waiter s t = None else outside (fb_pc s t)"
    using assms by (simp add: f_ok_def pcs_ok_def)
  show own: "t \<in> set q \<Longrightarrow> own \<noteq> Some t" using assms by (auto simp: f_ok_def)
  show "outside (fb_pc s t) \<longleftrightarrow> t \<notin> set q \<and> own \<noteq> Some t" "holding (fb_pc s t) \<Longrightarrow> own = Some t \<and> t \<notin> set q"
    "t \<in> set q \<Longrightarrow> queued (fb_pc s t) \<and> el_waiter s t = Some t"
    "queued (fb_pc s t) \<or> converting (fb_pc s t) \<Longrightarrow> t \<in> set q \<or> own = Some t"
    using p place_disjoint [of "fb_pc s t"] own by (auto split: if_splits)
  show "own = Some t \<Longrightarrow> holding (fb_pc s t) \<or> converting (fb_pc s t) \<and> el_waiter s t = None"
    using p own by (auto split: if_splits)
qed

lemma chained_cong:
  assumes "\<And>x. x \<in> insert b (El ` set q) \<Longrightarrow> next_of s' x = next_of s x" "\<And>t. t \<in> set q \<Longrightarrow> fb_pc s' t = fb_pc s t"
  shows "chained s' b q = chained s b q"
  using assms by (induction q arbitrary: b) auto

lemma chained_last: "chained s b q \<Longrightarrow> next_of s (last (b # map El q)) = NullEl"
  by (induction q arbitrary: b) auto

lemma base_cases: "base_of own s = LockEl \<or> (\<exists>t. own = Some t \<and> converting (fb_pc s t) \<and> base_of own s = El t)"
  by (auto simp: base_of_def split: option.splits)

lemma last_not_null: "b \<noteq> NullEl \<Longrightarrow> last (b # map El q) \<noteq> NullEl"
  by (induction q arbitrary: b) auto

lemma tail_null: "f_ok own q s \<Longrightarrow> fb_tail s = NullEl \<longleftrightarrow> own = None"
  using last_not_null [of "base_of own s" q] base_cases [of own s] by (auto simp: f_ok_def)

lemma waking_move:
  assumes "waking s u" "fb_pc s' = (fb_pc s)(t := p)" "fb_unblocked s u \<Longrightarrow> fb_unblocked s' u"
    "fb_pc s t = FUnblock (Some u) \<Longrightarrow> fb_unblocked s' u"
  shows "waking s' u"
proof (cases "fb_unblocked s u \<or> fb_pc s t = FUnblock (Some u)")
  case False
  then obtain v where "fb_pc s v = FUnblock (Some u)" "v \<noteq> t" using assms(1) by (auto simp: waking_def)
  then show ?thesis using assms(2) by (auto simp: waking_def)
qed (use assms(3,4) in \<open>auto simp: waking_def\<close>)

text \<open>A thread outside the lock moves on: it may change its own element only.\<close>

lemma ok_outside:
  assumes ok: "f_ok own q s" and t: "outside (fb_pc s t)" and q: "outside p"
    and same: "fb_tail s' = fb_tail s" "fb_next s' = fb_next s" "fb_pc s' = (fb_pc s)(t := p)" "arrived s' = arrived s" "served s' = served s"
    and el: "\<And>u. u \<noteq> t \<Longrightarrow> el_next s' u = el_next s u" "\<And>u. u \<noteq> t \<Longrightarrow> el_waiter s' u = el_waiter s u"
    and un: "\<And>u. fb_unblocked s u \<Longrightarrow> fb_unblocked s' u" "\<And>u. fb_pc s t = FUnblock (Some u) \<Longrightarrow> fb_unblocked s' u"
  shows "f_ok own q s'"
proof -
  have tq: "t \<notin> set q" "own \<noteq> Some t" using region(1) [OF ok] t by blast+
  have base: "base_of own s' = base_of own s" using tq(2) by (auto simp: base_of_def same split: option.splits)
  have nx: "next_of s' x = next_of s x" if "x \<noteq> El t" for x using that by (cases x) (auto simp: next_of_def same el)
  have "chained s' (base_of own s) q = chained s (base_of own s) q"
    using tq base_cases [of own s] by (intro chained_cong nx) (auto simp: same)
  moreover have "pcs_ok own q s'" using ok tq q by (auto simp: f_ok_def pcs_ok_def same el)
  moreover have "owner_ok own q s'"
  proof (cases own)
    case (Some o')
    then have ne: "o' \<noteq> t" using tq(2) by auto
    have oo: "owner_ok own q s" using ok by (simp add: f_ok_def)
    have "waking s' o'" if "waking s o'" by (rule waking_move [OF that same(3) un])
    then show ?thesis using oo ne Some el(1) [OF ne] by (cases "fb_pc s o'") (auto simp: owner_ok_def same)
  qed (use ok in \<open>simp add: f_ok_def owner_ok_def\<close>)
  ultimately show ?thesis using ok by (simp add: f_ok_def base same)
qed

text \<open>A free lock is taken.\<close>

lemma ok_take:
  assumes ok: "f_ok own q s" and t: "outside (fb_pc s t)" and free: "fb_tail s = NullEl"
  shows "f_ok (Some t) [] (fgo t FHeld (s\<lparr>fb_tail := LockEl\<rparr>))"
proof -
  have own: "own = None" "q = []" using tail_null [OF ok] free ok by (auto simp: f_ok_def owner_ok_def)
  then show ?thesis using ok by (auto simp: f_ok_def pcs_ok_def owner_ok_def base_of_def next_of_def)
qed

text \<open>A thread joins the queue.\<close>

lemma chained_snoc:
  assumes "chained s b q" "t \<notin> set q" "b \<noteq> El t" "fb_pc s' = (fb_pc s)(t := FLink (last (b # map El q)))"
    "\<And>x. x \<noteq> El t \<Longrightarrow> next_of s' x = next_of s x" "next_of s' (El t) = NullEl"
  shows "chained s' b (q @ [t])"
  using assms
proof (induction q arbitrary: b)
  case (Cons u q)
  have "chained s' (El u) (q @ [t])" using Cons.prems by (intro Cons.IH) auto
  then show ?case using Cons.prems by auto
qed auto

lemma f_okD:
  assumes "f_ok own q s"
  shows "distinct q" "own \<notin> Some ` set q" "pcs_ok own q s" "owner_ok own q s" "chained s (base_of own s) q"
    "fb_tail s = (if own = None then NullEl else last (base_of own s # map El q))"
    "arrived s = served s @ (case base_of own s of El t \<Rightarrow> [t] | _ \<Rightarrow> []) @ q"
  using assms unfolding f_ok_def by blast+

lemma ok_enqueue:
  assumes ok: "f_ok own q s" and t: "fb_pc s t = FEnq (fb_tail s)"
  shows "f_ok own (q @ [t]) (acq_enqueue (fb_tail s) t s)"
proof -
  define s' where "s' = acq_enqueue (fb_tail s) t s"
  have F: "fb_tail s' = El t" "fb_next s' = fb_next s" "el_next s' = (el_next s)(t := NullEl)" "el_waiter s' = (el_waiter s)(t := Some t)"
    "fb_pc s' = (fb_pc s)(t := FLink (fb_tail s))" "fb_unblocked s' = fb_unblocked s" "arrived s' = arrived s @ [t]" "served s' = served s"
    by (simp_all add: s'_def acq_enqueue_def)
  have out: "outside (fb_pc s t)" using t region [OF ok, of t] by auto
  then have tq: "t \<notin> set q" "own \<noteq> Some t" using region(1) [OF ok] by blast+
  have "fb_tail s \<noteq> NullEl" using out t by simp
  then obtain o' where o': "own = Some o'" "o' \<noteq> t" using tail_null [OF ok] tq(2) by auto
  have base: "base_of own s' = base_of own s" using o' by (simp add: base_of_def F)
  have tl: "fb_tail s = last (base_of own s # map El q)" using f_okD(6) [OF ok] o' by simp
  have bt: "base_of own s \<noteq> El t" using base_cases [of own s] o' by auto
  have nx: "next_of s' x = next_of s x" if "x \<noteq> El t" for x using that by (cases x) (auto simp: next_of_def F)
  have "chained s' (base_of own s) (q @ [t])"
  proof (rule chained_snoc [OF f_okD(5) [OF ok] tq(1) bt _ nx])
    show "fb_pc s' = (fb_pc s)(t := FLink (last (base_of own s # map El q)))" using F(5) by (simp only: tl)
    show "next_of s' (El t) = NullEl" by (simp add: next_of_def F)
  qed
  moreover have "pcs_ok own (q @ [t]) s'" using f_okD(3) [OF ok] tq by (simp add: pcs_ok_def F)
  moreover have "owner_ok own (q @ [t]) s'"
  proof -
    have "waking s' o'" if "waking s o'" by (rule waking_move [OF that F(5)]) (simp_all add: F t)
    then show ?thesis using f_okD(4) [OF ok] o' by (cases "fb_pc s o'") (auto simp: owner_ok_def F)
  qed
  ultimately show ?thesis using f_okD(1,2,7) [OF ok] tq o' base unfolding s'_def [symmetric] f_ok_def by (auto simp: F)
qed

text \<open>It makes itself known to the element before it.\<close>

definition set_link :: "elptr \<Rightarrow> nat \<Rightarrow> flock \<Rightarrow> flock" where
  "set_link x t s = (case x of NullEl \<Rightarrow> s | LockEl \<Rightarrow> s\<lparr>fb_next := El t\<rparr> | El u \<Rightarrow> s\<lparr>el_next := (el_next s)(u := El t)\<rparr>)"

lemma set_link_simps [simp]:
  "fb_tail (set_link x t s) = fb_tail s" "el_waiter (set_link x t s) = el_waiter s" "fb_pc (set_link x t s) = fb_pc s"
  "fb_unblocked (set_link x t s) = fb_unblocked s" "arrived (set_link x t s) = arrived s" "served (set_link x t s) = served s"
  by (simp_all add: set_link_def split: elptr.split)

lemma next_set_link: "x \<noteq> NullEl \<Longrightarrow> next_of (fgo u p (set_link x t s)) y = (if y = x then El t else next_of s y)"
  by (auto simp: next_of_def set_link_def split: elptr.split)

lemma chained_link:
  assumes "chained s b q" "distinct q" "t \<in> set q" "fb_pc s t = FLink x" "b \<notin> El ` set q" "b \<noteq> NullEl"
  shows "x \<in> insert b (El ` set q) \<and> x \<noteq> NullEl \<and> next_of s x = NullEl \<and> (x = b \<longleftrightarrow> t = hd q) \<and> chained (fgo t FWait (set_link x t s)) b q"
  using assms
proof (induction q arbitrary: b)
  case (Cons u q)
  let ?s = "fgo t FWait (set_link x t s)"
  show ?case
  proof (cases "t = u")
    case True
    have x: "x = b" "next_of s b = NullEl" using Cons.prems True by (auto split: if_splits)
    have "chained ?s (El u) q = chained s (El u) q"
    proof (rule chained_cong)
      show "next_of ?s y = next_of s y" if "y \<in> insert (El u) (El ` set q)" for y
        using that Cons.prems(5,6) x(1) by (auto simp: next_set_link)
      show "fb_pc ?s v = fb_pc s v" if "v \<in> set q" for v using that Cons.prems(2) True by auto
    qed
    then have "chained ?s b (u # q)" using Cons.prems(1,6) True x by (simp add: next_set_link)
    then show ?thesis using Cons.prems(6) True x by simp
  next
    case False
    then have ih: "x \<in> insert (El u) (El ` set q) \<and> x \<noteq> NullEl \<and> next_of s x = NullEl \<and> chained ?s (El u) q"
      using Cons.IH [of "El u"] Cons.prems by auto
    have xb: "x \<noteq> b" using Cons.prems(5) ih by auto
    have "chained ?s b (u # q)"
      using ih xb Cons.prems(1) False by (simp add: next_set_link del: chained.simps(1))
    then show ?thesis using ih xb False by simp
  qed
qed simp

lemma ok_link:
  assumes ok: "f_ok own q s" and t: "fb_pc s t = FLink x"
  shows "acq_link x t s = fgo t FWait (set_link x t s)" "f_ok own q (acq_link x t s)"
proof -
  let ?s = "fgo t FWait (set_link x t s)"
  have tq: "t \<in> set q" "own \<noteq> Some t" using region(1,2,4,5) [OF ok, of t] t by auto
  then obtain o' where o': "own = Some o'" "o' \<noteq> t" "o' \<notin> set q" using ok by (cases own) (auto simp: f_ok_def owner_ok_def)
  have bq: "base_of own s \<notin> El ` set q" "base_of own s \<noteq> NullEl" using base_cases [of own s] o' by auto
  have c: "x \<in> insert (base_of own s) (El ` set q)" "x \<noteq> NullEl" "next_of s x = NullEl" "x = base_of own s \<longleftrightarrow> t = hd q"
      "chained ?s (base_of own s) q"
    using chained_link [of s "base_of own s" q t x] ok tq(1) t bq by (auto simp: f_ok_def)
  have "in_frame (fb_pc s u)" if "x = El u" for u
    using c(1) that base_cases [of own s] region(3) [OF ok, of u] place_in_frame by auto
  then show e: "acq_link x t s = ?s" using c(2) by (auto simp: acq_link_def set_link_def split: elptr.split)
  have base: "base_of own ?s = base_of own s" using o' by (simp add: base_of_def)
  have "pcs_ok own q ?s" using ok tq region(3) [OF ok tq(1)] by (auto simp: f_ok_def pcs_ok_def)
  moreover have "owner_ok own q ?s"
  proof -
    have oo: "owner_ok own q s" using ok by (simp add: f_ok_def)
    have "waking ?s o'" if "waking s o'" by (rule waking_move [OF that, of _ t FWait]) (simp_all add: t)
    moreover have "x \<noteq> LockEl" if "converting (fb_pc s o')" using c(1) that o' by (auto simp: base_of_def)
    moreover have "fb_next ?s = fb_next s" if "x \<noteq> LockEl" using that by (simp add: set_link_def split: elptr.split)
    moreover have "el_next ?s u = el_next s u" if "x \<noteq> El u" for u using that by (auto simp: set_link_def split: elptr.split)
    moreover have "el_next s u = NullEl" if "x = El u" for u using c(3) that by (simp add: next_of_def)
    moreover have "fb_next s = NullEl" if "x = LockEl" using c(3) that by (simp add: next_of_def)
    ultimately show ?thesis using oo o' by (cases "fb_pc s o'"; cases "x = LockEl"; cases "x = El o'") (auto simp: owner_ok_def)
  qed
  ultimately show "f_ok own q (acq_link x t s)" using ok c(5) by (simp add: e f_ok_def base)
qed

text \<open>A thread in the queue that waits, or the owner before it knows, looks and blocks.\<close>

lemma ok_owner_move:
  assumes ok: "f_ok (Some t) q s" and p: "holding p \<longleftrightarrow> holding (fb_pc s t)" "converting p \<longleftrightarrow> converting (fb_pc s t)"
    and F: "fb_tail s' = fb_tail s" "el_next s' = el_next s" "el_waiter s' = el_waiter s" "fb_pc s' = (fb_pc s)(t := p)"
      "arrived s' = arrived s" "served s' = served s" "fb_next s' = fb_next s \<or> converting p"
    and own: "owner_ok (Some t) q s'"
  shows "f_ok (Some t) q s'"
proof -
  have tq: "t \<notin> set q" using f_okD(2) [OF ok] by auto
  have base: "base_of (Some t) s' = base_of (Some t) s" using p(2) by (simp add: base_of_def F)
  have nx: "next_of s' x = next_of s x" if "x \<noteq> LockEl \<or> \<not> converting p" for x using that F(7) by (cases x) (auto simp: next_of_def F)
  have "base_of (Some t) s \<noteq> LockEl" if "converting p" using that p(2) by (simp add: base_of_def)
  then have "chained s' (base_of (Some t) s) q = chained s (base_of (Some t) s) q"
    using tq by (intro chained_cong nx) (auto simp: F)
  moreover have "pcs_ok (Some t) q s'" using f_okD(3) [OF ok] tq p by (auto simp: pcs_ok_def F)
  ultimately show ?thesis using f_okD [OF ok] own by (simp add: f_ok_def base F)
qed

lemma ok_queue_move:
  assumes ok: "f_ok own q s" and t: "t \<in> set q" and p: "queued p" "\<And>x. p \<noteq> FLink x" "\<And>x. fb_pc s t \<noteq> FLink x"
    and F: "fb_tail s' = fb_tail s" "fb_next s' = fb_next s" "el_next s' = el_next s" "el_waiter s' = el_waiter s"
      "fb_pc s' = (fb_pc s)(t := p)" "arrived s' = arrived s" "served s' = served s" "\<And>u. u \<noteq> t \<Longrightarrow> fb_unblocked s' u = fb_unblocked s u"
  shows "f_ok own q s'"
proof -
  have to: "own \<noteq> Some t" by (rule region(4) [OF ok t])
  have q: "queued (fb_pc s t)" "el_waiter s t = Some t" using region(3) [OF ok t] by auto
  have base: "base_of own s' = base_of own s" using to by (auto simp: base_of_def F split: option.split)
  have nx: "next_of s' x = next_of s x" for x by (cases x) (auto simp: next_of_def F)
  have "chained s' b r = chained s b r" for b r
  proof (induction r arbitrary: b)
    case (Cons a r)
    then show ?case using p by (cases "a = t") (simp_all add: nx F)
  qed (simp add: nx)
  moreover have "pcs_ok own q s'" using f_okD(3) [OF ok] t q p by (auto simp: pcs_ok_def F)
  moreover have "owner_ok own q s'"
  proof (cases own)
    case (Some o')
    then have ne: "o' \<noteq> t" using to by auto
    have "waking s' o'" if "waking s o'" by (rule waking_move [OF that F(5)]) (use F(8) ne q(1) in auto)
    then show ?thesis using f_okD(4) [OF ok] ne Some by (cases "fb_pc s o'") (auto simp: owner_ok_def F)
  qed (use f_okD(4) [OF ok] in \<open>simp add: owner_ok_def\<close>)
  ultimately show ?thesis using f_okD [OF ok] by (simp add: f_ok_def base F)
qed

text \<open>The owner puts the lock in order.\<close>

lemma ok_convert:
  assumes ok: "f_ok (Some t) q s" and t: "fb_pc s t = FConvert" and l: "fb_tail s = El t"
  shows "q = []" "f_ok (Some t) [] (acq_convert t s)"
proof -
  have b: "base_of (Some t) s = El t" using t by (simp add: base_of_def)
  show q: "q = []"
  proof (rule ccontr)
    assume "q \<noteq> []"
    then have "last (map El q) = El t" using f_okD(6) [OF ok] l b by simp
    then have "El t \<in> El ` set q" using \<open>q \<noteq> []\<close> by (metis last_in_set list.set_map map_is_Nil_conv)
    then show False using f_okD(2) [OF ok] by auto
  qed
  have "fb_next s = NullEl" using f_okD(4) [OF ok] t by (simp add: owner_ok_def)
  moreover have "pcs_ok (Some t) [] s" "arrived s = served s @ [t]" using f_okD(3,7) [OF ok] q b by simp_all
  ultimately show "f_ok (Some t) [] (acq_convert t s)"
    using l by (auto simp: f_ok_def acq_convert_def base_of_def pcs_ok_def owner_ok_def next_of_def)
qed

lemma ok_copy:
  assumes ok: "f_ok (Some t) q s" and t: "fb_pc s t = FCopy"
  shows "f_ok (Some t) q (acq_copy t s)"
proof -
  define s' where "s' = acq_copy t s"
  have F: "fb_tail s' = fb_tail s" "fb_next s' = el_next s t" "el_next s' = el_next s" "el_waiter s' = el_waiter s"
    "fb_pc s' = (fb_pc s)(t := FHeld)" "arrived s' = arrived s" "served s' = served s @ [t]" by (simp_all add: s'_def acq_copy_def)
  have b: "base_of (Some t) s = El t" "base_of (Some t) s' = LockEl" using t by (simp_all add: base_of_def F)
  have "q \<noteq> []" "el_next s t \<noteq> NullEl" using f_okD(4) [OF ok] t by (simp_all add: owner_ok_def)
  then obtain u r where q: "q = u # r" by (cases q) auto
  have tq: "t \<notin> set q" using f_okD(2) [OF ok] by auto
  have c: "chained s (El t) q" using f_okD(5) [OF ok] b by simp
  then have "el_next s t = El u" "\<And>x. fb_pc s u \<noteq> FLink x" "chained s (El u) r"
    using \<open>el_next s t \<noteq> NullEl\<close> by (auto simp: q next_of_def split: if_splits)
  moreover have "chained s' (El u) r = chained s (El u) r"
    using tq by (intro chained_cong) (auto simp: next_of_def F q)
  ultimately have "chained s' LockEl q" using tq by (simp add: q next_of_def F)
  moreover have "pcs_ok (Some t) q s'" using f_okD(3) [OF ok] tq by (auto simp: pcs_ok_def F)
  moreover have "owner_ok (Some t) q s'" by (simp add: owner_ok_def F)
  ultimately show ?thesis using f_okD(1,2,6,7) [OF ok] b q unfolding s'_def [symmetric] f_ok_def by (simp add: F del: chained.simps)
qed

text \<open>A release frees the lock or hands it on.\<close>

lemma lock_base: "holding (fb_pc s t) \<Longrightarrow> base_of (Some t) s = LockEl"
  using place_disjoint(2) [of "fb_pc s t"] by (simp add: base_of_def)

lemma tail_lock:
  assumes "f_ok (Some t) q s" "holding (fb_pc s t)"
  shows "fb_tail s = LockEl \<longleftrightarrow> q = []"
proof -
  have "fb_tail s = last (LockEl # map El q)" using f_okD(6) [OF assms(1)] lock_base [OF assms(2)] by simp
  moreover have "last (map El q) \<noteq> LockEl" if "q \<noteq> []"
    using that by (metis elptr.distinct(5) imageE last_in_set list.set_map map_is_Nil_conv)
  ultimately show ?thesis by auto
qed

lemma ok_free:
  assumes ok: "f_ok (Some t) q s" and t: "fb_pc s t = FRel" and l: "fb_tail s = LockEl"
  shows "f_ok None [] (fgo t FIdle (s\<lparr>fb_tail := NullEl\<rparr>))"
proof -
  have q: "q = []" using tail_lock [OF ok] t l by simp
  have b: "base_of (Some t) s = LockEl" using lock_base t by simp
  have "fb_next s = NullEl" "arrived s = served s" "pcs_ok (Some t) [] s" using f_okD(3,5,7) [OF ok] q b by (simp_all add: next_of_def)
  then show ?thesis by (auto simp: f_ok_def base_of_def pcs_ok_def owner_ok_def next_of_def)
qed

lemma head_linked:
  assumes ok: "f_ok (Some t) q s" and t: "holding (fb_pc s t)" and n: "fb_next s \<noteq> NullEl"
  shows "q \<noteq> []" "fb_next s = El (hd q)" "fb_pc s (hd q) = FWait \<or> fb_pc s (hd q) = FBlocked" "chained s (El (hd q)) (tl q)"
proof -
  have c: "chained s LockEl q" using f_okD(5) [OF ok] lock_base [OF t] by simp
  then show q: "q \<noteq> []" using n by (auto simp: next_of_def)
  then obtain u r where u: "q = u # r" by (cases q) auto
  have "queued (fb_pc s u)" using region(3) [OF ok, of u] u by simp
  then show "fb_next s = El (hd q)" "fb_pc s (hd q) = FWait \<or> fb_pc s (hd q) = FBlocked" "chained s (El (hd q)) (tl q)"
    using c n by (auto simp: u next_of_def split: if_splits elim: queued.elims)
qed

lemma ok_hand_over:
  assumes ok: "f_ok (Some t) q s" and t: "fb_pc s t = FRelClear x w"
  shows "f_ok (Some (hd q)) (tl q) (rel_clear x w t s)"
proof -
  have h: "holding (fb_pc s t)" using t by simp
  have own: "q \<noteq> []" "x = El (hd q)" "fb_next s = x" "w = Some (hd q)" using f_okD(4) [OF ok] t by (simp_all add: owner_ok_def)
  obtain u r where u: "q = u # r" using own(1) by (cases q) auto
  note l = head_linked [OF ok h]
  have pcu: "fb_pc s u = FWait \<or> fb_pc s u = FBlocked" and c: "chained s (El u) r" using l(3,4) own(2,3) u by auto
  have tq: "t \<noteq> u" "t \<notin> set r" "u \<notin> set r" using f_okD(1,2) [OF ok] u by auto
  define s' where "s' = rel_clear x w t s"
  have F: "fb_tail s' = fb_tail s" "fb_next s' = fb_next s" "el_next s' = el_next s" "el_waiter s' = (el_waiter s)(u := None)"
    "fb_pc s' = (fb_pc s)(t := FUnblock (Some u))" "arrived s' = arrived s" "served s' = served s"
    using pcu by (auto simp: s'_def rel_clear_def own(2,4) u)
  have b: "base_of (Some t) s = LockEl" "base_of (Some u) s' = El u" using lock_base [OF h] pcu tq by (auto simp: base_of_def F)
  have "chained s' (El u) r = chained s (El u) r" using tq by (intro chained_cong) (auto simp: next_of_def F split: elptr.split)
  moreover have "waking s' u" by (auto simp: waking_def F)
  then have "owner_ok (Some u) r s'" using pcu tq by (auto simp: owner_ok_def F)
  moreover have "pcs_ok (Some u) r s'" using f_okD(3) [OF ok] tq pcu u unfolding pcs_ok_def by (simp add: F) (metis converting.simps(1,2))
  ultimately show ?thesis using f_okD(1,6,7) [OF ok] b tq c unfolding s'_def [symmetric] by (auto simp: f_ok_def F u)
qed

text \<open>The steps of a thread outside the lock.\<close>

lemma out_step:
  assumes ok: "f_ok own q s" and t: "outside (fb_pc s t)" and n: "f_next c t s = Some s'"
  shows "f_inv s'"
proof -
  note out = ok_outside [OF ok t]
  have move: "f_inv (fgo t p s)" if "outside p" "\<And>u. fb_pc s t \<noteq> FUnblock (Some u)" for p
    unfolding f_inv_def using out [OF that(1), of "fgo t p s"] that(2) by auto
  have cas: "f_inv (cas_tail NullEl LockEl FHeld p t s)" if "outside p" "\<And>u. fb_pc s t \<noteq> FUnblock (Some u)" for p
    unfolding cas_tail_def using move [OF that] ok_take [OF ok t] by (auto simp: f_inv_def)
  have spin: "outside (spin_on m)" for m by (simp add: spin_on_def)
  show ?thesis
  proof (cases "fb_pc s t")
    case FIdle
    then show ?thesis using n cas move by (auto simp: f_next.simps split: fcall.splits)
  next
    case (FSpin m)
    then show ?thesis using n move spin by (auto simp: f_next.simps acq_spin_def split: elptr.split)
  next
    case (FSpinCas m)
    then show ?thesis using n cas spin by (auto simp: f_next.simps)
  next
    case FTop
    then show ?thesis using n move by (auto simp: f_next.simps acq_read_def)
  next
    case FTopCas
    then show ?thesis using n cas by (auto simp: f_next.simps)
  next
    case (FEnq el)
    show ?thesis
    proof (cases "fb_tail s = el")
      case True
      then show ?thesis using ok_enqueue [OF ok, of t] FEnq n by (auto simp: f_next.simps f_inv_def)
    next
      case False
      then have "f_ok own q s'" using FEnq n by (intro out [of FTop]) (auto simp: f_next.simps acq_enqueue_def Let_def)
      then show ?thesis by (auto simp: f_inv_def)
    qed
  next
    case (FUnblock w)
    then obtain u where w: "w = Some u" using t by auto
    have "f_ok own q s'" using FUnblock n w by (intro out [of FIdle]) (auto simp: f_next.simps rel_unblock_def)
    then show ?thesis by (auto simp: f_inv_def)
  qed (use t in auto)
qed

lemma queue_step:
  assumes ok: "f_ok own q s" and t: "t \<in> set q" and n: "f_next c t s = Some s'"
  shows "f_inv s'"
proof -
  have q: "queued (fb_pc s t)" "el_waiter s t = Some t" using region(3) [OF ok t] by auto
  have move: "f_inv s'" if "queued p" "\<And>x. p \<noteq> FLink x" "\<And>x. fb_pc s t \<noteq> FLink x" "s' = fgo t p s \<or> s' = fgo t p (s\<lparr>fb_unblocked := (fb_unblocked s)(t := False)\<rparr>)" for p
  proof -
    have "f_ok own q s'" using that(4) by (intro ok_queue_move [OF ok t that(1,2,3)]) auto
    then show ?thesis by (auto simp: f_inv_def)
  qed
  show ?thesis
  proof (cases "fb_pc s t")
    case (FLink x)
    then show ?thesis using ok_link(2) [OF ok FLink] n by (auto simp: f_next.simps f_inv_def)
  next
    case FWait
    then show ?thesis using n q move [of FBlocked] by (auto simp: f_next.simps acq_wait_def)
  next
    case FBlocked
    then show ?thesis using n move [of FWait] by (auto simp: f_next.simps acq_block_def split: if_splits)
  qed (use q in auto)
qed

lemma owner_step:
  assumes ok: "f_ok (Some t) q s" and n: "f_next c t s = Some s'"
  shows "f_inv s'"
proof -
  have pc: "holding (fb_pc s t) \<or> converting (fb_pc s t) \<and> el_waiter s t = None" using region(5) [OF ok] by simp
  have oo: "owner_ok (Some t) q s" by (rule f_okD(4) [OF ok])
  have move: "f_inv s'" if "owner_ok (Some t) q s'" "fb_pc s' = (fb_pc s)(t := p)" "holding p = holding (fb_pc s t)" "converting p = converting (fb_pc s t)"
      "fb_tail s' = fb_tail s \<and> el_next s' = el_next s \<and> el_waiter s' = el_waiter s \<and> arrived s' = arrived s \<and> served s' = served s"
      "fb_next s' = fb_next s \<or> converting p" for p
  proof -
    have "f_ok (Some t) q s'" using that by (intro ok_owner_move [OF ok that(3,4)]) auto
    then show ?thesis by (auto simp: f_inv_def)
  qed
  show ?thesis
  proof (cases "fb_pc s t")
    case FWait
    then show ?thesis using n pc by (intro move [of FGot]) (auto simp: f_next.simps acq_wait_def owner_ok_def)
  next
    case FBlocked
    then show ?thesis using n by (intro move [of FWait]) (auto simp: f_next.simps acq_block_def owner_ok_def split: if_splits)
  next
    case FGot
    then show ?thesis using n by (intro move [of FConvert]) (auto simp: f_next.simps acq_got_def owner_ok_def)
  next
    case FConvert
    show ?thesis
    proof (cases "fb_tail s = El t")
      case True
      then show ?thesis using n ok_convert [OF ok FConvert] FConvert by (auto simp: f_next.simps f_inv_def)
    next
      case False
      then have "q \<noteq> []" using f_okD(6) [OF ok] FConvert by (auto simp: base_of_def)
      then show ?thesis using n False FConvert by (intro move [of FNext]) (auto simp: f_next.simps acq_convert_def owner_ok_def)
    qed
  next
    case FNext
    then show ?thesis using n oo
      by (intro move [of "if el_next s t = NullEl then FNext else FCopy"]) (auto simp: f_next.simps acq_next_def owner_ok_def)
  next
    case FCopy
    then show ?thesis using n ok_copy [OF ok FCopy] by (auto simp: f_next.simps f_inv_def)
  next
    case FHeld
    then show ?thesis using n by (intro move [of FRel]) (auto simp: f_next.simps owner_ok_def)
  next
    case FRel
    show ?thesis
    proof (cases "fb_tail s = LockEl")
      case True
      then show ?thesis using n ok_free [OF ok FRel] FRel by (auto simp: f_next.simps cas_tail_def f_inv_def)
    next
      case False
      then have "q \<noteq> []" using tail_lock [OF ok] FRel by simp
      then show ?thesis using n False FRel by (intro move [of FRelNext]) (auto simp: f_next.simps cas_tail_def owner_ok_def)
    qed
  next
    case FRelNext
    then show ?thesis using n oo head_linked(2) [OF ok]
      by (intro move [of "if fb_next s = NullEl then FRelNext else FRelWaiter (fb_next s)"]) (auto simp: f_next.simps rel_next_def owner_ok_def)
  next
    case (FRelWaiter x)
    then have x: "q \<noteq> []" "x = El (hd q)" "fb_next s = x" using oo by (simp_all add: owner_ok_def)
    then have "in_frame (fb_pc s (hd q))" "el_waiter s (hd q) = Some (hd q)"
      using region(3) [OF ok, of "hd q"] place_in_frame by auto
    then show ?thesis using n x FRelWaiter
      by (intro move [of "FRelClear x (Some (hd q))"]) (auto simp: f_next.simps rel_waiter_def owner_ok_def)
  next
    case (FRelClear x w)
    then show ?thesis using n ok_hand_over [OF ok FRelClear] by (auto simp: f_next.simps f_inv_def)
  qed (use pc in auto)
qed

lemma ok_spurious:
  assumes ok: "f_ok own q s"
  shows "f_ok own q (s\<lparr>fb_unblocked := (fb_unblocked s)(u := True)\<rparr>)"
proof -
  define s' where "s' = s\<lparr>fb_unblocked := (fb_unblocked s)(u := True)\<rparr>"
  have F: "fb_tail s' = fb_tail s" "fb_next s' = fb_next s" "el_next s' = el_next s" "el_waiter s' = el_waiter s"
    "fb_pc s' = fb_pc s" "arrived s' = arrived s" "served s' = served s" by (simp_all add: s'_def)
  have base: "base_of own s' = base_of own s" unfolding base_of_def F ..
  have "chained s' (base_of own s) q = chained s (base_of own s) q" by (intro chained_cong) (simp_all add: next_of_def F split: elptr.split)
  moreover have "pcs_ok own q s'" using f_okD(3) [OF ok] by (simp add: pcs_ok_def F)
  moreover have "owner_ok own q s'"
  proof (cases own)
    case (Some t)
    have "waking s' t" if "waking s t" using that by (auto simp: waking_def s'_def)
    then show ?thesis using f_okD(4) [OF ok] Some by (cases "fb_pc s t") (simp_all add: owner_ok_def F)
  qed (use f_okD(4) [OF ok] in \<open>simp add: owner_ok_def\<close>)
  ultimately show ?thesis using f_okD [OF ok] base unfolding s'_def [symmetric] f_ok_def by (simp add: F)
qed

lemma f_step_inv: "f_inv s \<Longrightarrow> f_step s s' \<Longrightarrow> f_inv s'"
proof -
  assume "f_inv s" and st: "f_step s s'"
  then obtain own q where ok: "f_ok own q s" by (auto simp: f_inv_def)
  from st show ?thesis
  proof (cases rule: f_step.cases)
    case (f_thread c t)
    then show ?thesis
      using out_step [OF ok _ f_thread] queue_step [OF ok _ f_thread] owner_step [OF _ f_thread] ok region(1) [OF ok, of t] by blast
  next
    case (f_spurious u)
    have "f_ok own q s'" unfolding f_spurious by (rule ok_spurious [OF ok])
    then show ?thesis by (auto simp: f_inv_def)
  qed
qed

interpretation fl: invariant_steps f_step f_inv
  by unfold_locales (rule f_step_inv)

section \<open>Exclusion, order, progress\<close>

lemma f_reach: "f_step\<^sup>*\<^sup>* FairBLock_init s \<Longrightarrow> f_inv s"
  using fl.steps_inv f_init by blast

text \<open>
  C1. In every interleaving at most one thread is in the section the lock protects, and the lock words say so: the lock
  is seen as held as long as a thread is there, or on its way out.
\<close>

theorem fair_lock_excludes:
  assumes "f_step\<^sup>*\<^sup>* FairBLock_init s" "holding (fb_pc s t)"
  shows "fb_isLocked s \<and> (\<forall>u. holding (fb_pc s u) \<longleftrightarrow> u = t)"
proof -
  obtain own q where ok: "f_ok own q s" using f_reach [OF assms(1)] by (auto simp: f_inv_def)
  have "own = Some t" using region(2) [OF ok assms(2)] by simp
  then show ?thesis using region(2) [OF ok] assms(2) tail_null [OF ok] by (auto simp: fb_isLocked_def)
qed

lemma f_init_simps: "fb_pc FairBLock_init t = FIdle" "fb_tail FairBLock_init = NullEl"
  by (simp_all add: FairBLock_init_def)

lemma one_holder: "f_step\<^sup>*\<^sup>* FairBLock_init (fgo 0 FHeld (FairBLock_init\<lparr>fb_tail := LockEl\<rparr>))"
  by (intro r_into_rtranclp f_thread [of Call_tryAcquire 0]) (simp add: f_next.simps f_init_simps cas_tail_def)

theorem fair_lock_excludes_witness:
  "fb_isLocked (fgo 0 FHeld (FairBLock_init\<lparr>fb_tail := LockEl\<rparr>)) \<and> \<not> holding (fb_pc (fgo 0 FHeld (FairBLock_init\<lparr>fb_tail := LockEl\<rparr>)) 1)"
  using fair_lock_excludes [OF one_holder, of 0] by (simp add: f_init_simps)



lemma pc_changes:
  assumes "fb_pc s u \<notin> {FIdle, FBlocked, FNext, FRelNext, FWild}"
  shows "\<exists>s'. f_next c u s = Some s' \<and> fb_pc s' u \<noteq> fb_pc s u"
  using assms by (cases "fb_pc s u") (auto simp: f_next.simps f_ops split: elptr.split option.split)

text \<open>
  C20. No wake-up is lost and no thread waits for nothing: as long as a thread is inside \<^verbatim>\<open>_acquire\<close> or \<^verbatim>\<open>_release\<close> and no thread
  is in the protected section, some thread inside one of the two has a step that changes the state.
\<close>

theorem fair_lock_progress:
  assumes "f_step\<^sup>*\<^sup>* FairBLock_init s" "fb_pc s t \<notin> {FIdle, FHeld}" "\<And>u. fb_pc s u \<noteq> FHeld"
  shows "\<exists>u s'. fb_pc s u \<noteq> FIdle \<and> f_next Call_acquire u s = Some s' \<and> s' \<noteq> s"
proof -
  obtain own q where ok: "f_ok own q s" using f_reach [OF assms(1)] by (auto simp: f_inv_def)
  have moves: ?thesis if "fb_pc s u \<noteq> FIdle" "\<exists>s'. f_next Call_acquire u s = Some s' \<and> fb_pc s' u \<noteq> fb_pc s u" for u
    using that by metis
  have free: ?thesis if "fb_pc s u \<notin> {FIdle, FBlocked, FNext, FRelNext, FWild}" for u
    using moves [of u] pc_changes [OF that] that by blast
  have head: "\<exists>x. fb_pc s (hd q) = FLink x" if "q \<noteq> []" "next_of s (base_of own s) = NullEl"
    using f_okD(5) [OF ok] that by (cases q) (auto split: if_splits)
  show ?thesis
  proof (cases "outside (fb_pc s t)")
    case True
    then show ?thesis using assms(2) by (intro free [of t]) auto
  next
    case False
    then have "own = Some t \<or> t \<in> set q" using region(1) [OF ok, of t] by auto
    then obtain o' where o': "own = Some o'" using f_okD(4) [OF ok] by (cases own) (auto simp: owner_ok_def)
    have oo: "owner_ok (Some o') q s" using f_okD(4) [OF ok] o' by simp
    have pc: "holding (fb_pc s o') \<or> converting (fb_pc s o')" using region(5) [OF ok o'] by blast
    have link: ?thesis if "q \<noteq> []" "next_of s (base_of own s) = NullEl" using head [OF that] free [of "hd q"] by auto
    show ?thesis
    proof (cases "fb_pc s o'")
      case FBlocked
      show ?thesis
      proof (cases "fb_unblocked s o'")
        case True
        then show ?thesis using FBlocked by (intro moves [of o']) (simp_all add: f_next.simps acq_block_def)
      next
        case False
        then obtain u where "fb_pc s u = FUnblock (Some o')" using oo FBlocked by (auto simp: owner_ok_def waking_def)
        then show ?thesis by (intro free [of u]) simp
      qed
    next
      case FNext
      then have q: "q \<noteq> []" "base_of own s = El o'" using oo o' by (simp_all add: owner_ok_def base_of_def)
      show ?thesis
      proof (cases "el_next s o' = NullEl")
        case False
        then show ?thesis using FNext by (intro moves [of o']) (simp_all add: f_next.simps acq_next_def)
      qed (use link q in \<open>simp add: next_of_def\<close>)
    next
      case FRelNext
      then have q: "q \<noteq> []" "base_of own s = LockEl" using oo o' by (simp_all add: owner_ok_def base_of_def)
      show ?thesis
      proof (cases "fb_next s = NullEl")
        case False
        then show ?thesis using FRelNext by (intro moves [of o']) (simp_all add: f_next.simps rel_next_def)
      qed (use link q in \<open>simp add: next_of_def\<close>)
    qed (use pc free [of o'] in auto)
  qed
qed

theorem fair_lock_progress_witness:
  "\<exists>u s'. fb_pc (fgo 0 (FSpin 0) FairBLock_init) u \<noteq> FIdle \<and> f_next Call_acquire u (fgo 0 (FSpin 0) FairBLock_init) = Some s' \<and>
     s' \<noteq> fgo 0 (FSpin 0) FairBLock_init"
proof (rule fair_lock_progress [where t = 0])
  show "f_step\<^sup>*\<^sup>* FairBLock_init (fgo 0 (FSpin 0) FairBLock_init)"
    by (intro r_into_rtranclp f_thread [of Call_acquire 0]) (simp add: f_next.simps f_init_simps)
qed (auto simp: f_init_simps)

text \<open>
  C24. The elements on the stacks are used only while they exist: no thread ever follows a link to the element of a
  thread that has left \<^verbatim>\<open>_acquire\<close>, follows a null link, or wakes no thread.
\<close>

theorem fair_lock_elements_live:
  assumes "f_step\<^sup>*\<^sup>* FairBLock_init s"
  shows "fb_pc s t \<noteq> FWild"
proof -
  obtain own q where ok: "f_ok own q s" using f_reach [OF assms] by (auto simp: f_inv_def)
  show ?thesis using region(1,3,5) [OF ok, of t] by (cases "fb_pc s t") auto
qed

theorem fair_lock_elements_live_witness: "fb_pc (fgo 0 FHeld (FairBLock_init\<lparr>fb_tail := LockEl\<rparr>)) 0 \<noteq> FWild"
  by (rule fair_lock_elements_live [OF one_holder])

end
