(* ===== verification/AllocCell.thy ===== *)
theory AllocCell
  imports K42_Prelude
begin

text \<open>
  Free blocks of the slab allocator and the words that point to them: \<^verbatim>\<open>lib/libc/alloc/AllocCell.H\<close> with the layout of
  \<^verbatim>\<open>arch/powerpc/AllocCell.H\<close>, and the atomic list operations of \<^verbatim>\<open>arch/powerpc/LMallocOpt.C\<close>. The address of a block has
  the number of its NUMA node in twelve bits; a word of type \<^verbatim>\<open>AllocCellPtr\<close> has the length of the list in these bits instead.
  A block on a list holds two such words, \<^verbatim>\<open>next\<close> and \<^verbatim>\<open>nextList\<close>.
\<close>

section \<open>Packed pointers\<close>

type_synonym uword = "64 word"

definition LOG_MAX_NUMANODES :: nat where "LOG_MAX_NUMANODES = 12"

definition SKIP_ON_LEFT :: nat where "SKIP_ON_LEFT = 2"

definition NUMANODE_SHIFT :: nat where "NUMANODE_SHIFT = 64 - SKIP_ON_LEFT - LOG_MAX_NUMANODES"

definition CELL_MAX_COUNT :: nat where "CELL_MAX_COUNT = 2 ^ LOG_MAX_NUMANODES - 1"

text \<open>The bit field \<^verbatim>\<open>numaNode\<close> of the union \<^verbatim>\<open>inserter\<close>: reading and assigning it.\<close>

definition numaNode :: "uword \<Rightarrow> uword" where
  "numaNode w = drop_bit NUMANODE_SHIFT w AND mask LOG_MAX_NUMANODES"

definition set_numaNode :: "uword \<Rightarrow> uword \<Rightarrow> uword" where
  "set_numaNode w n =
     (w AND NOT (push_bit NUMANODE_SHIFT (mask LOG_MAX_NUMANODES)))
     OR push_bit NUMANODE_SHIFT (n AND mask LOG_MAX_NUMANODES)"

definition AllocCellPtr :: "uword \<Rightarrow> uword \<Rightarrow> uword" where
  "AllocCellPtr cnt p = set_numaNode p cnt"

definition pointer :: "uword \<Rightarrow> uword \<Rightarrow> uword" where
  "pointer w numa = (if w \<noteq> 0 then set_numaNode w numa else w)"

definition pointerWithOldCount :: "uword \<Rightarrow> uword \<Rightarrow> uword" where
  "pointerWithOldCount w p = set_numaNode p (numaNode w)"

definition cell_count :: "uword \<Rightarrow> uword" where
  "cell_count w = numaNode w"

definition set_count :: "uword \<Rightarrow> uword \<Rightarrow> uword" where
  "set_count w cnt = set_numaNode w cnt"

definition isEmpty :: "uword \<Rightarrow> bool" where
  "isEmpty w \<longleftrightarrow> w = 0"

definition AddrToNumaNode :: "uword \<Rightarrow> uword" where
  "AddrToNumaNode p = numaNode p"

lemmas cell_layout = NUMANODE_SHIFT_def LOG_MAX_NUMANODES_def SKIP_ON_LEFT_def

lemmas cellptr_defs = AllocCellPtr_def set_count_def cell_count_def AddrToNumaNode_def

lemma bit_numaNode: "bit (numaNode w) i \<longleftrightarrow> i < 12 \<and> bit w (50 + i)"
  by (auto simp: numaNode_def cell_layout bit_simps)

lemma bit_set_numaNode:
  "bit (set_numaNode w n) i \<longleftrightarrow> i < 64 \<and> (if 50 \<le> i \<and> i < 62 then bit n (i - 50) else bit w i)"
  by (auto simp: set_numaNode_def cell_layout bit_simps)

lemma numaNode_set [simp]: "numaNode (set_numaNode w n) = n AND mask 12"
  by (rule bit_word_eqI) (auto simp: bit_numaNode bit_set_numaNode bit_simps)

lemma set_numaNode_twice [simp]: "set_numaNode (set_numaNode w a) b = set_numaNode w b"
  by (rule bit_word_eqI) (auto simp: bit_set_numaNode)

lemma set_numaNode_same [simp]: "set_numaNode w (numaNode w) = w"
  by (rule bit_word_eqI) (auto simp: bit_numaNode bit_set_numaNode)

lemma numaNode_le: "numaNode w AND mask 12 = numaNode w"
  by (rule bit_word_eqI) (auto simp: bit_numaNode bit_simps)

lemma numaNode_0 [simp]: "numaNode 0 = 0"
  by (rule bit_word_eqI) (auto simp: bit_numaNode)

lemma unat_and_mask12: "unat ((w :: uword) AND mask 12) = unat w mod 4096"
proof -
  have "unat (take_bit 12 w) = take_bit 12 (unat w)" by (rule unsigned_take_bit_eq)
  moreover have "take_bit 12 (unat w) = unat w mod 4096" by (simp add: take_bit_eq_mod)
  ultimately show ?thesis by (simp only: take_bit_eq_mask)
qed

lemma unat_small: "c < 4096 \<Longrightarrow> unat (of_nat c :: uword) = c"
  by (simp add: unsigned_of_nat take_bit_eq_mod)

lemma of_nat_and_mask12 [simp]: "c < 4096 \<Longrightarrow> (of_nat c :: uword) AND mask 12 = of_nat c"
  by (rule word_unat_eq_iff [THEN iffD2]) (simp add: unat_and_mask12 unat_small)

lemma of_nat_eq_uword: "a < 4096 \<Longrightarrow> b < 4096 \<Longrightarrow> (of_nat a :: uword) = of_nat b \<longleftrightarrow> a = b"
  by (metis unat_small)

lemma of_nat_less_uword: "a < 4096 \<Longrightarrow> b < 4096 \<Longrightarrow> (of_nat a :: uword) < of_nat b \<longleftrightarrow> a < b"
  by (simp add: word_less_nat_alt unat_small)

section \<open>Cells and the atomic list operations\<close>

record cell =
  c_next :: uword
  c_nextList :: uword

text \<open>
  Blocks are at least sixteen bytes long and aligned to their size, so the two words of different blocks do not overlap:
  the memory is a map from the address of a block to its two words. \<^verbatim>\<open>mallocID\<close> overlays \<^verbatim>\<open>nextList\<close>.
\<close>

type_synonym amem = "uword \<Rightarrow> cell"

definition put_next :: "uword \<Rightarrow> uword \<Rightarrow> amem \<Rightarrow> amem" where
  "put_next p w h = h(p := (h p)\<lparr>c_next := w\<rparr>)"

definition put_nextList :: "uword \<Rightarrow> uword \<Rightarrow> amem \<Rightarrow> amem" where
  "put_nextList p w h = h(p := (h p)\<lparr>c_nextList := w\<rparr>)"

definition cell_mallocID :: "amem \<Rightarrow> uword \<Rightarrow> uword" where
  "cell_mallocID h p = c_nextList (h p)"

definition put_mallocID :: "uword \<Rightarrow> uword \<Rightarrow> amem \<Rightarrow> amem" where
  "put_mallocID p mid h = put_nextList p mid h"

text \<open>
  The operations of \<^verbatim>\<open>SyncedCellPtr\<close>: a load with reservation and a conditional store that starts over when the word was
  written in between, so each takes effect at its store. \<^verbatim>\<open>pop\<close> returns null on an empty list. \<^verbatim>\<open>push\<close> gives the result code, the word it
  found, the memory and the new word; when the list is full it starts a new list and hands the full one out.
\<close>

definition pop :: "uword \<Rightarrow> amem \<Rightarrow> uword \<Rightarrow> uword \<times> uword" where
  "pop numa h w =
     (if w = 0 then (0, w)
      else (let ptr = set_numaNode w numa in (ptr, c_next (h ptr))))"

definition push :: "uword \<Rightarrow> uword \<Rightarrow> amem \<Rightarrow> uword \<Rightarrow> bool \<times> uword \<times> amem \<times> uword" where
  "push el maxCount h w =
     (let count = cell_count w
      in if maxCount \<le> count then (False, w, put_next el 0 h, AllocCellPtr 1 el)
         else (True, w, put_next el w h, AllocCellPtr (count + 1) el))"

definition getAndZero :: "uword \<Rightarrow> uword \<times> uword" where
  "getAndZero w = (w, 0)"

definition setIfZero :: "uword \<Rightarrow> uword \<Rightarrow> bool \<times> uword" where
  "setIfZero nval w = (if w = 0 then (True, nval) else (False, w))"

text \<open>The versions under the bit lock, used where the assembly is left out.\<close>

definition pop_locked :: "uword \<Rightarrow> amem \<Rightarrow> uword \<Rightarrow> uword \<times> uword" where
  "pop_locked numa h w =
     (if isEmpty w then (0, w)
      else (let el = pointer w numa in (el, c_next (h el))))"

definition push_locked :: "uword \<Rightarrow> uword \<Rightarrow> amem \<Rightarrow> uword \<Rightarrow> bool \<times> uword \<times> amem \<times> uword" where
  "push_locked el maxCount h w =
     (let count = cell_count w
      in if count \<noteq> maxCount then (True, w, put_next el w h, AllocCellPtr (count + 1) el)
         else (False, w, put_next el 0 h, AllocCellPtr 1 el))"

lemma pop_versions_agree: "pop_locked = pop"
  by (intro ext) (simp add: pop_locked_def pop_def isEmpty_def pointer_def)

lemma push_versions_agree: "cell_count w \<le> maxCount \<Longrightarrow> push_locked el maxCount h w = push el maxCount h w"
  by (auto simp: push_locked_def push_def Let_def)

section \<open>Lists of blocks in memory\<close>

text \<open>The address of a block of a node: it has the node in its field, and bits outside the field.\<close>

definition blk :: "uword \<Rightarrow> uword \<Rightarrow> bool" where
  "blk nd b \<longleftrightarrow> numaNode b = nd \<and> set_numaNode b 0 \<noteq> 0 \<and> b AND 15 = 0"

text \<open>A word is the list of blocks \<^term>\<open>bs\<close>: each word on the way has the number of blocks from there on.\<close>

fun chain :: "amem \<Rightarrow> uword \<Rightarrow> uword \<Rightarrow> uword list \<Rightarrow> bool" where
  "chain h nd w [] \<longleftrightarrow> w = 0"
| "chain h nd w (b # bs) \<longleftrightarrow> w = AllocCellPtr (of_nat (Suc (length bs))) b \<and> blk nd b \<and> chain h nd (c_next (h b)) bs"

text \<open>The same list by the plain address of its first block.\<close>

fun cells :: "amem \<Rightarrow> uword \<Rightarrow> uword \<Rightarrow> uword list \<Rightarrow> bool" where
  "cells h nd p [] \<longleftrightarrow> p = 0"
| "cells h nd p (b # bs) \<longleftrightarrow> p = b \<and> blk nd b \<and> chain h nd (c_next (h b)) bs"

text \<open>A list of lists, linked through \<^verbatim>\<open>nextList\<close> of the first blocks; \<^term>\<open>P c n\<close> is what the count \<^term>\<open>c\<close> of a word with
  \<^term>\<open>n\<close> lists has to satisfy.\<close>

fun listlist :: "(uword \<Rightarrow> nat \<Rightarrow> bool) \<Rightarrow> amem \<Rightarrow> uword \<Rightarrow> uword \<Rightarrow> uword list list \<Rightarrow> bool" where
  "listlist P h nd w [] \<longleftrightarrow> w = 0"
| "listlist P h nd w ([] # bss) \<longleftrightarrow> False"
| "listlist P h nd w ((b # bs) # bss) \<longleftrightarrow>
     w \<noteq> 0 \<and> pointer w nd = b \<and> P (cell_count w) (Suc (length bss)) \<and> blk nd b \<and> chain h nd (c_next (h b)) bs
     \<and> listlist P h nd (c_nextList (h b)) bss"

text \<open>A list of chunks by plain addresses, as the layer above hands it out.\<close>

fun chunks :: "amem \<Rightarrow> uword \<Rightarrow> uword \<Rightarrow> uword list \<Rightarrow> bool" where
  "chunks h nd p [] \<longleftrightarrow> p = 0"
| "chunks h nd p (b # bs) \<longleftrightarrow> p = b \<and> blk nd b \<and> chunks h nd (c_next (h b)) bs"

lemma blk_ptr_nonzero: "blk nd b \<Longrightarrow> set_numaNode b c \<noteq> 0"
  by (metis blk_def set_numaNode_twice numaNode_0 set_numaNode_same)

lemma blk_nonzero: "blk nd b \<Longrightarrow> b \<noteq> 0"
  using blk_ptr_nonzero [of nd b "numaNode b"] by simp

lemma pointer_AllocCellPtr [simp]: "blk nd b \<Longrightarrow> pointer (AllocCellPtr c b) nd = b"
  unfolding pointer_def AllocCellPtr_def using blk_ptr_nonzero [of nd b c]
  by (metis blk_def set_numaNode_same set_numaNode_twice)

lemma pointer_plain [simp]: "blk nd b \<Longrightarrow> pointer b nd = b"
  by (auto simp: pointer_def blk_def)

lemma pointer_0 [simp]: "pointer 0 nd = 0"
  by (simp add: pointer_def)

lemma count_AllocCellPtr [simp]: "c < 4096 \<Longrightarrow> cell_count (AllocCellPtr (of_nat c) b) = of_nat c"
  by (simp add: cellptr_defs)

lemma count_0 [simp]: "cell_count 0 = 0"
  by (simp add: cellptr_defs)

lemma set_count_AllocCellPtr [simp]: "set_count (AllocCellPtr c b) d = AllocCellPtr d b"
  by (simp add: cellptr_defs)

lemma AllocCellPtr_nonzero [simp]: "blk nd b \<Longrightarrow> AllocCellPtr c b \<noteq> 0"
  by (simp add: AllocCellPtr_def blk_ptr_nonzero)

text \<open>A word on a list has the four low bits clear, where the lock and wait bits are.\<close>

lemma lock_bits_clear: "blk nd b \<Longrightarrow> AllocCellPtr c b AND 15 = 0"
proof -
  assume "blk nd b"
  then have b: "bit (b AND 15) i = bit 0 i" for i by (simp add: blk_def)
  have 15: "(15 :: uword) = mask 4" by (simp add: mask_eq_exp_minus_1)
  show ?thesis
    by (rule bit_word_eqI) (use b in \<open>auto simp: AllocCellPtr_def bit_set_numaNode bit_simps 15\<close>)
qed

lemma put_simps [simp]:
  "c_next (put_next p w h q) = (if q = p then w else c_next (h q))"
  "c_nextList (put_next p w h q) = c_nextList (h q)"
  "c_next (put_nextList p w h q) = c_next (h q)"
  "c_nextList (put_nextList p w h q) = (if q = p then w else c_nextList (h q))"
  by (auto simp: put_next_def put_nextList_def)

text \<open>Memory outside a list may change.\<close>

lemma chain_frame: "chain h nd w bs \<Longrightarrow> \<forall>b\<in>set bs. c_next (h' b) = c_next (h b) \<Longrightarrow> chain h' nd w bs"
  by (induction bs arbitrary: w) auto

lemma cells_frame: "cells h nd p bs \<Longrightarrow> \<forall>b\<in>set bs. c_next (h' b) = c_next (h b) \<Longrightarrow> cells h' nd p bs"
  by (cases bs) (auto intro: chain_frame)

lemma chunks_frame: "chunks h nd p bs \<Longrightarrow> \<forall>b\<in>set bs. c_next (h' b) = c_next (h b) \<Longrightarrow> chunks h' nd p bs"
  by (induction bs arbitrary: p) auto

lemma listlist_frame:
  "listlist P h nd w bss \<Longrightarrow> \<forall>b\<in>set (concat bss). h' b = h b \<Longrightarrow> listlist P h' nd w bss"
  by (induction P h nd w bss rule: listlist.induct) (auto intro: chain_frame)

lemma chain_put [simp]:
  "p \<notin> set bs \<Longrightarrow> chain (put_next p v h) nd w bs = chain h nd w bs"
  "chain (put_nextList p v h) nd w bs = chain h nd w bs"
  by (induction bs arbitrary: w) auto

lemma listlist_weaken: "listlist P h nd w bss \<Longrightarrow> (\<And>c n. 0 < n \<Longrightarrow> P c n \<Longrightarrow> Q c n) \<Longrightarrow> listlist Q h nd w bss"
  by (induction P h nd w bss rule: listlist.induct) auto

lemma chain_blk: "chain h nd w bs \<Longrightarrow> b \<in> set bs \<Longrightarrow> blk nd b"
  by (induction bs arbitrary: w) auto

lemma listlist_nonempty: "listlist P h nd w bss \<Longrightarrow> [] \<notin> set bss"
  by (induction P h nd w bss rule: listlist.induct) auto

lemma chain_count: "chain h nd w bs \<Longrightarrow> length bs < 4096 \<Longrightarrow> cell_count w = of_nat (length bs)"
  by (cases bs) (auto simp flip: of_nat_Suc)

lemma chain_empty: "chain h nd w bs \<Longrightarrow> w = 0 \<longleftrightarrow> bs = []"
  by (cases bs) auto

lemma chain_cells: "chain h nd w bs \<Longrightarrow> cells h nd (pointer w nd) bs"
  by (cases bs) auto

lemma listlist_empty: "listlist P h nd w bss \<Longrightarrow> w = 0 \<longleftrightarrow> bss = []"
  by (cases "(P, h, nd, w, bss)" rule: listlist.cases) auto

section \<open>What the operations do to a list\<close>

lemma pop_chain:
  assumes "chain h nd w bs"
  shows "pop nd h w = (case bs of [] \<Rightarrow> (0, 0) | b # bs' \<Rightarrow> (b, c_next (h b)))"
  using assms blk_ptr_nonzero by (cases bs) (auto simp: pop_def AllocCellPtr_def blk_def Let_def)

lemma push_chain:
  assumes "chain h nd w bs" "length bs \<le> maxCount" "maxCount < 4096" "blk nd el" "el \<notin> set bs" "0 < maxCount"
    and p: "push el (of_nat maxCount) h w = (rc, tmp, h', w')"
  shows "rc \<longleftrightarrow> length bs < maxCount" and "tmp = w"
    and "rc \<Longrightarrow> chain h' nd w' (el # bs)"
    and "\<not> rc \<Longrightarrow> chain h' nd w' [el] \<and> chain h' nd tmp bs"
    and "\<forall>b. b \<noteq> el \<longrightarrow> h' b = h b" and "c_nextList (h' el) = c_nextList (h el)"
proof -
  have c: "cell_count w = of_nat (length bs)" using assms(1-3) by (intro chain_count) auto
  have le: "of_nat maxCount \<le> cell_count w \<longleftrightarrow> maxCount \<le> length bs"
    using assms(2,3) by (simp add: c word_le_nat_alt unat_small)
  show rc: "rc \<longleftrightarrow> length bs < maxCount" and "tmp = w" using p le by (auto simp: push_def Let_def split: if_splits)
  show "rc \<Longrightarrow> chain h' nd w' (el # bs)"
    using p assms(1,4,5) by (auto simp: push_def Let_def c add.commute split: if_splits)
  show "\<not> rc \<Longrightarrow> chain h' nd w' [el] \<and> chain h' nd tmp bs"
    using p assms(1,4,5) by (auto simp: push_def Let_def split: if_splits)
  show "\<forall>b. b \<noteq> el \<longrightarrow> h' b = h b" and "c_nextList (h' el) = c_nextList (h el)"
    using p by (auto simp: push_def Let_def put_next_def split: if_splits)
qed

end
