(* ===== verification/GMalloc.thy ===== *)
theory GMalloc
  imports AllocCell
begin

text \<open>
  The global layer of the slab allocator, \<^verbatim>\<open>lib/libc/alloc/GMalloc.C\<close>: a list of lists of free blocks behind one word with a lock bit.
  The sections under the lock are functions on the memory and the word. \<^verbatim>\<open>gFree\<close> cuts the list when its counter says that there are twice
  the wanted number of lists; the counters in the words that it passes on the way are changed in a local copy only.
\<close>

section \<open>The sections under the lock\<close>

datatype GoUp = DO_GO_UP | DO_NOT_GO_UP

text \<open>An address without bits outside the node field is no block: reading through it is a wild access.\<close>

definition wild_ptr :: "uword \<Rightarrow> bool" where
  "wild_ptr p \<longleftrightarrow> set_numaNode p 0 = 0"

text \<open>The loop that looks for the place of the cut; the number is \<^verbatim>\<open>ncount\<close> after its decrement.\<close>

fun gFree_walk :: "uword \<Rightarrow> nat \<Rightarrow> amem \<Rightarrow> uword \<Rightarrow> (amem \<times> uword) option" where
  "gFree_walk numa 0 h rtmp =
     (let p = pointer rtmp numa
      in if wild_ptr p then None else Some (put_nextList p 0 h, c_nextList (h p)))"
| "gFree_walk numa (Suc n) h rtmp =
     (let p = pointer rtmp numa
      in if wild_ptr p then None
         else gFree_walk numa n h (set_count (c_nextList (h p)) (of_nat (Suc n))))"

text \<open>The memory and the word after the section, and the list of lists to hand up, if any.\<close>

definition gFree :: "nat \<Rightarrow> uword \<Rightarrow> GoUp \<Rightarrow> uword \<Rightarrow> amem \<Rightarrow> uword \<Rightarrow> (amem \<times> uword \<times> uword option) option" where
  "gFree numListsTarget numa goUp togfree h freeLists =
     (let tmp = freeLists; count = unat (cell_count tmp) + 1
      in if 2 * numListsTarget \<le> count \<and> goUp = DO_GO_UP
         then (let ncount = usub numListsTarget 1; tmp' = set_count tmp (of_nat ncount)
               in case gFree_walk numa (usub ncount 1) h tmp' of
                    None \<Rightarrow> None
                  | Some (h1, lsttofree) \<Rightarrow>
                      Some (put_nextList (pointer togfree numa) tmp' h1, set_count togfree (of_nat numListsTarget), Some lsttofree))
         else Some (put_nextList (pointer togfree numa) tmp h, set_count togfree (of_nat count), None))"

text \<open>The first list with its own length, and the rest.\<close>

definition gMalloc_take :: "uword \<Rightarrow> amem \<Rightarrow> uword \<Rightarrow> (uword \<times> uword) option" where
  "gMalloc_take numa h freeLists =
     (if isEmpty freeLists then None
      else (let el = pointer freeLists numa
            in Some (AllocCellPtr (cell_count (c_next (h el)) + 1) el, c_nextList (h el))))"

section \<open>Counters that are too high\<close>

text \<open>
  What the counter of a word with \<^term>\<open>n\<close> lists can be: the number of lists, or that number and the target, left over from before a
  cut. It stays below twice the target either way.
\<close>

definition gcount :: "nat \<Rightarrow> uword \<Rightarrow> nat \<Rightarrow> bool" where
  "gcount T c n \<longleftrightarrow> unat c < 2 * T \<and> (unat c = n \<or> unat c = n + T)"

definition any_count :: "uword \<Rightarrow> nat \<Rightarrow> bool" where
  "any_count c n \<longleftrightarrow> True"

text \<open>The lists that stay and those that go up, by the counter.\<close>

definition gFree_spec :: "nat \<Rightarrow> nat \<Rightarrow> 'a \<Rightarrow> 'a list \<Rightarrow> 'a list \<times> 'a list" where
  "gFree_spec T c x xs = (if 2 * T \<le> c + 1 then (x # take (T - 1) xs, drop (T - 1) xs) else (x # xs, []))"

lemma blk_not_wild: "blk nd b \<Longrightarrow> \<not> wild_ptr b"
  by (simp add: wild_ptr_def blk_def)

lemma pointer_set_count:
  "w \<noteq> 0 \<Longrightarrow> pointer w nd = b \<Longrightarrow> blk nd b \<Longrightarrow> pointer (set_count w c) nd = b \<and> set_count w c \<noteq> 0"
  unfolding pointer_def set_count_def by (metis blk_ptr_nonzero set_numaNode_twice)

lemma word_of_pointer: "w \<noteq> 0 \<Longrightarrow> pointer w nd = b \<Longrightarrow> w = AllocCellPtr (cell_count w) b"
  by (auto simp: pointer_def cellptr_defs)

lemma gFree_walk_at:
  "listlist P h nd w bss \<Longrightarrow> n < length bss \<Longrightarrow> pointer r nd = hd (hd bss) \<Longrightarrow>
     gFree_walk nd n h r = Some (put_nextList (hd (bss ! n)) 0 h, c_nextList (h (hd (bss ! n))))"
proof (induction n arbitrary: w bss r)
  case 0
  then obtain b bs bss' where "bss = (b # bs) # bss'" by (cases "(P, h, nd, w, bss)" rule: listlist.cases) auto
  with 0 show ?case by (auto simp: Let_def dest: blk_not_wild)
next
  case (Suc n)
  then obtain b bs b2 bs2 bss' where bss: "bss = (b # bs) # (b2 # bs2) # bss'"
    by (cases "(P, h, nd, w, bss)" rule: listlist.cases; cases "(P, h, nd, w, tl bss)" rule: listlist.cases) auto
  let ?w = "c_nextList (h b)"
  from Suc.prems bss have l: "listlist P h nd ?w ((b2 # bs2) # bss')" and b: "blk nd b" "pointer r nd = b" by auto
  then have "pointer (set_count ?w (of_nat (Suc n))) nd = b2" using pointer_set_count by auto
  with Suc.IH [OF l, of "set_count ?w (of_nat (Suc n))"] Suc.prems bss b show ?case
    by (auto simp: Let_def dest: blk_not_wild)
qed

lemma listlist_put_other:
  "p \<notin> hd ` set bss \<Longrightarrow> listlist P (put_nextList p v h) nd w bss = listlist P h nd w bss"
  by (induction P h nd w bss rule: listlist.induct) auto

lemma listlist_cut:
  "listlist P h nd w bss \<Longrightarrow> n < length bss \<Longrightarrow> distinct (concat bss) \<Longrightarrow>
     listlist (\<lambda>c m. P c (m + (length bss - Suc n))) (put_nextList (hd (bss ! n)) 0 h) nd w (take (Suc n) bss)
     \<and> listlist P h nd (c_nextList (h (hd (bss ! n)))) (drop (Suc n) bss)"
proof (induction n arbitrary: w bss)
  case 0
  then obtain b bs bss' where "bss = (b # bs) # bss'" by (cases "(P, h, nd, w, bss)" rule: listlist.cases) auto
  with 0 show ?case by auto
next
  case (Suc n)
  then obtain b bs bss' where bss: "bss = (b # bs) # bss'" and l: "listlist P h nd (c_nextList (h b)) bss'"
    by (cases "(P, h, nd, w, bss)" rule: listlist.cases) auto
  have n: "n < length bss'" using Suc.prems bss by simp
  have "bss' ! n \<in> set bss'" using n by simp
  moreover from this have "bss' ! n \<noteq> []" using listlist_nonempty [OF l] by metis
  ultimately have "hd (bss' ! n) \<in> set (concat bss')" by force
  then have "hd (bss' ! n) \<noteq> b" using Suc.prems bss by auto
  then show ?case using Suc.IH [OF l n] Suc.prems bss by auto
qed

section \<open>What the sections do\<close>

lemma gcount_of_nat: "k < 4096 \<Longrightarrow> gcount T (of_nat k) n \<longleftrightarrow> k < 2 * T \<and> (k = n \<or> k = n + T)"
  unfolding gcount_def by (simp only: unat_small)

lemma listlist_head:
  "listlist P h nd w (bs # bss) \<Longrightarrow> blk nd (hd bs) \<and> w = AllocCellPtr (cell_count w) (hd bs)
     \<and> chain h nd (c_next (h (hd bs))) (tl bs) \<and> listlist P h nd (c_nextList (h (hd bs))) bss"
  by (cases bs) (auto dest: word_of_pointer)

lemma listlist_recount:
  assumes "listlist P h nd w (bs # bss)" "Q (of_nat c) (Suc (length bss))" "c < 4096" "\<And>c n. 0 < n \<Longrightarrow> n \<le> length bss \<Longrightarrow> P c n \<Longrightarrow> Q c n"
  shows "listlist Q h nd (set_count w (of_nat c)) (bs # bss)"
proof -
  obtain b bs' where bs: "bs = b # bs'" using assms(1) by (cases bs) auto
  have w: "w = AllocCellPtr (cell_count w) b" "blk nd b" using listlist_head [OF assms(1)] bs by auto
  have sc: "set_count w (of_nat c) = AllocCellPtr (of_nat c) b" by (subst w) (simp add: cellptr_defs)
  have "listlist P h nd (c_nextList (h b)) bss" using assms(1) bs by simp
  then have "listlist Q h nd (c_nextList (h b)) bss"
    using assms(4)
  proof (induction P h nd "c_nextList (h b)" bss arbitrary: b rule: listlist.induct)
    case (3 P h nd b2 bs2 bss2)
    then show ?case by (auto simp: le_Suc_eq)
  qed auto
  with assms(1-3) w bs sc show ?thesis by (auto simp: AllocCellPtr_nonzero simp del: of_nat_Suc)
qed

lemma listlist_add:
  assumes "listlist P h nd w bss" "chain h nd tog bs" "bs \<noteq> []" "hd bs \<notin> hd ` set bss"
    and "c < 4096" "P (of_nat c) (Suc (length bss))"
  shows "listlist P (put_nextList (pointer tog nd) w h) nd (set_count tog (of_nat c)) (bs # bss)"
  using assms listlist_put_other [of "hd bs" bss P w h nd w] by (cases bs) (auto simp del: of_nat_Suc)

lemma hds_concat: "[] \<notin> set bss \<Longrightarrow> hd ` set bss \<subseteq> set (concat bss)"
  by (induction bss) auto

lemma gFree_refines:
  assumes g: "listlist (gcount T) h nd g bss" and tog: "chain h nd tog bs" "bs \<noteq> []" and d: "distinct (bs @ concat bss)"
    and T: "2 \<le> T" "2 * T \<le> 4096"
  obtains h' g' up where "gFree T nd DO_GO_UP tog h g = Some (h', g', up)"
    and "listlist (gcount T) h' nd g' (fst (gFree_spec T (unat (cell_count g)) bs bss))"
    and "case up of None \<Rightarrow> snd (gFree_spec T (unat (cell_count g)) bs bss) = []
         | Some w \<Rightarrow> listlist any_count h' nd w (snd (gFree_spec T (unat (cell_count g)) bs bss))"
    and "\<And>b. c_next (h' b) = c_next (h b)" and "\<And>b. b \<notin> set (bs @ concat bss) \<Longrightarrow> h' b = h b"
proof -
  have ne: "[] \<notin> set bss" by (rule listlist_nonempty [OF g])
  have hds: "hd ` set bss \<subseteq> set (concat bss)" by (rule hds_concat [OF ne])
  have hd: "hd bs \<notin> hd ` set bss" "hd bs \<in> set bs" using d tog(2) hds by (auto dest: hd_in_set)
  have pt: "pointer tog nd = hd bs" using tog by (cases bs) auto
  let ?k = "unat (cell_count g)"
  have k: "bss = [] \<Longrightarrow> ?k = 0" "bss \<noteq> [] \<Longrightarrow> gcount T (cell_count g) (length bss)"
    using g by (cases "(gcount T, h, nd, g, bss)" rule: listlist.cases; simp)+
  show ?thesis
  proof (cases "2 * T \<le> ?k + 1")
    case False
    have "gcount T (of_nat (Suc ?k)) (Suc (length bss))"
    proof (cases "bss = []")
      case True
      with k T show ?thesis by (simp add: gcount_def)
    next
      case F: False
      then show ?thesis using k(2) T False by (subst gcount_of_nat) (auto simp: gcount_def)
    qed
    then have "listlist (gcount T) (put_nextList (hd bs) g h) nd (set_count tog (of_nat (Suc ?k))) (bs # bss)"
      using listlist_add [OF g tog hd(1), of "Suc ?k"] False T pt by (simp del: of_nat_Suc)
    then show ?thesis
      using False hd(2) by (intro that [of "put_nextList (hd bs) g h" "set_count tog (of_nat (Suc ?k))" None])
        (auto simp: gFree_def Let_def gFree_spec_def pt put_nextList_def)
  next
    case True
    then have ne: "bss \<noteq> []" using k T by auto
    have kT: "?k = 2 * T - 1" "length bss = 2 * T - 1 \<or> length bss = T - 1"
      using k(2) [OF ne] True T by (auto simp: gcount_def)
    define p where "p = hd (bss ! (T - 2))"
    have n: "T - 2 < length bss" "Suc (T - 2) = T - 1" using kT T by auto
    have "bss ! (T - 2) \<in> set bss" using n by simp
    then have p: "p \<in> set (concat bss)" "p \<noteq> hd bs" using hds hd(1) unfolding p_def by (blast, metis imageI)
    have tmp: "pointer (set_count g (of_nat (T - 1))) nd = hd (hd bss)"
      using g ne pointer_set_count by (cases "(gcount T, h, nd, g, bss)" rule: listlist.cases) auto
    have us: "usub T 1 = T - 1" "usub (T - 1) 1 = T - 2" using T by (simp_all add: usub_nowrap)
    have w: "gFree_walk nd (T - 2) h (set_count g (of_nat (T - 1))) = Some (put_nextList p 0 h, c_nextList (h p))"
      using gFree_walk_at [OF g n(1) tmp] by (simp add: p_def)
    have cut: "listlist (\<lambda>c m. gcount T c (m + (length bss - (T - 1)))) (put_nextList p 0 h) nd g (take (T - 1) bss)"
        "listlist (gcount T) h nd (c_nextList (h p)) (drop (T - 1) bss)"
      using listlist_cut [OF g n(1)] d n(2) by (auto simp: p_def)
    obtain x xs where tk: "take (T - 1) bss = x # xs" "Suc (length xs) = T - 1"
      using ne T kT by (cases "take (T - 1) bss") (auto dest: arg_cong [of _ _ length])
    have gT: "gcount T (of_nat T) (Suc (length (take (T - 1) bss)))" unfolding tk(1) using tk(2) T by (subst gcount_of_nat) auto
    have "listlist (gcount T) (put_nextList p 0 h) nd (set_count g (of_nat (T - 1))) (take (T - 1) bss)"
      unfolding tk(1)
    proof (rule listlist_recount [OF cut(1) [unfolded tk(1)]])
      show "gcount T (of_nat (T - 1)) (Suc (length xs))" using tk(2) T by (subst gcount_of_nat) auto
      show "T - 1 < 4096" using T by simp
      show "0 < n \<Longrightarrow> n \<le> length xs \<Longrightarrow> gcount T c (n + (length bss - (T - 1))) \<Longrightarrow> gcount T c n" for c n
        using kT T tk(2) by (auto simp: gcount_def)
    qed
    moreover have "chain (put_nextList p 0 h) nd tog bs" using tog by simp
    moreover have "T < 4096" using T by simp
    moreover have "hd bs \<notin> hd ` set (take (T - 1) bss)" using hd(1) by (auto dest: in_set_takeD)
    ultimately have keep: "listlist (gcount T) (put_nextList (hd bs) (set_count g (of_nat (T - 1))) (put_nextList p 0 h)) nd
        (set_count tog (of_nat T)) (bs # take (T - 1) bss)"
      using listlist_add [where P = "gcount T" and c = T and bss = "take (T - 1) bss" and bs = bs, OF _ _ tog(2) _ _ gT] pt by metis
    have "p \<in> set (concat (take (T - 1) bss))"
    proof -
      have "bss ! (T - 2) \<in> set (take (T - 1) bss)" using n by (simp add: in_set_conv_nth) (metis lessI length_take min_less_iff_conj nth_take)
      moreover have "[] \<notin> set (take (T - 1) bss)" using listlist_nonempty [OF g] by (auto dest: in_set_takeD)
      ultimately show ?thesis using hds_concat [of "take (T - 1) bss"] unfolding p_def by (metis image_eqI subsetD)
    qed
    moreover have "distinct (concat (take (T - 1) bss) @ concat (drop (T - 1) bss))"
      using d by (simp flip: concat_append)
    ultimately have "p \<notin> set (concat (drop (T - 1) bss))" by auto
    moreover have "set (concat (drop (T - 1) bss)) \<subseteq> set (concat bss)" by (auto dest: in_set_dropD)
    moreover have "hd ` set (drop (T - 1) bss) \<subseteq> set (concat (drop (T - 1) bss))"
      by (rule hds_concat [OF listlist_nonempty [OF cut(2)]])
    ultimately have other: "p \<notin> hd ` set (drop (T - 1) bss)" "hd bs \<notin> hd ` set (drop (T - 1) bss)"
      using d hd(2) unfolding distinct_append by (blast, blast)
    have up: "listlist any_count (put_nextList (hd bs) (set_count g (of_nat (T - 1))) (put_nextList p 0 h)) nd (c_nextList (h p)) (drop (T - 1) bss)"
      using listlist_weaken [OF cut(2)] other by (simp add: listlist_put_other any_count_def)
    show ?thesis
    proof (rule that)
      show "gFree T nd DO_GO_UP tog h g = Some (put_nextList (hd bs) (set_count g (of_nat (T - 1))) (put_nextList p 0 h),
          set_count tog (of_nat T), Some (c_nextList (h p)))"
        using True by (simp only: gFree_def Let_def us pt w) simp
    qed (use True keep up hd(2) p(1) in \<open>auto simp: gFree_spec_def put_nextList_def\<close>)
  qed
qed

lemma gMalloc_take_list:
  assumes "listlist P h nd g bss" "\<forall>l\<in>set bss. length l < 4096"
  shows "case gMalloc_take nd h g of None \<Rightarrow> bss = []
    | Some (w, g') \<Rightarrow> \<exists>l rest. bss = l # rest \<and> chain h nd w l \<and> listlist P h nd g' rest"
proof (cases "g = 0")
  case True
  then show ?thesis using listlist_empty [OF assms(1)] by (simp add: gMalloc_take_def isEmpty_def)
next
  case False
  then obtain b bs rest where l: "bss = (b # bs) # rest" "pointer g nd = b" "blk nd b" "chain h nd (c_next (h b)) bs"
      "listlist P h nd (c_nextList (h b)) rest"
    using assms(1) by (cases "(P, h, nd, g, bss)" rule: listlist.cases) auto
  have "cell_count (c_next (h b)) = of_nat (length bs)" using assms(2) l(1) by (intro chain_count [OF l(4)]) simp
  then show ?thesis using False l by (simp add: gMalloc_take_def isEmpty_def Let_def add.commute)
qed

section \<open>Properties\<close>

text \<open>
  C18. What \<^verbatim>\<open>gFree\<close> does to the list of lists, on memory. It never leaves the list, and either puts the new list in front of the others, or, when the counter
  reaches twice the target, keeps it with the first \<^verbatim>\<open>numListsTarget - 1\<close> others and hands the rest up; counters of the lists that stay are the number of lists from there on, or
  that number and the target. No link between blocks of one list changes, nor any other memory.
\<close>

theorem gFree_cuts_to_target:
  assumes "listlist (gcount T) h nd g bss" "chain h nd tog bs" "bs \<noteq> []" "distinct (bs @ concat bss)" "2 \<le> T" "2 * T \<le> 4096"
    and "(keep, ups) = gFree_spec T (unat (cell_count g)) bs bss"
  shows "\<exists>h' g' up. gFree T nd DO_GO_UP tog h g = Some (h', g', up) \<and> listlist (gcount T) h' nd g' keep
    \<and> (case up of None \<Rightarrow> ups = [] | Some w \<Rightarrow> listlist any_count h' nd w ups)
    \<and> (\<forall>b. c_next (h' b) = c_next (h b)) \<and> (\<forall>b. b \<notin> set (bs @ concat bss) \<longrightarrow> h' b = h b)"
proof -
  have "fst (gFree_spec T (unat (cell_count g)) bs bss) = keep" "snd (gFree_spec T (unat (cell_count g)) bs bss) = ups"
    using assms(7) by (metis fst_conv, metis snd_conv)
  then show ?thesis using gFree_refines [OF assms(1-6)] by metis
qed

definition zeros :: amem where "zeros = (\<lambda>_. \<lparr>c_next = 0, c_nextList = 0\<rparr>)"

theorem gFree_cuts_to_target_witness:
  "\<exists>h' g' up. gFree 2 0 DO_GO_UP (AllocCellPtr 1 16) zeros 0 = Some (h', g', up)
    \<and> listlist (gcount 2) h' 0 g' [[16]]"
proof -
  have "blk 0 16" by (simp add: blk_def set_numaNode_def numaNode_def cell_layout mask_eq_exp_minus_1)
  moreover have "([[16 :: uword]], []) = gFree_spec 2 (unat (cell_count 0)) [16] []" by (simp add: gFree_spec_def)
  ultimately show ?thesis
    using gFree_cuts_to_target [of 2 zeros 0 0 "[]" "AllocCellPtr 1 16" "[16]" "[[16]]" "[]"] by (auto simp: zeros_def)
qed

text \<open>Lists of one block each, freed one after the other; and lists taken.\<close>

fun gFree_all :: "nat \<Rightarrow> uword list \<Rightarrow> amem \<times> uword \<Rightarrow> (amem \<times> uword) option" where
  "gFree_all T [] s = Some s"
| "gFree_all T (b # bs) s =
     (case gFree T 0 DO_GO_UP (AllocCellPtr 1 b) (fst s) (snd s) of None \<Rightarrow> None | Some (h, w, up) \<Rightarrow> gFree_all T bs (h, w))"

fun gTake_all :: "nat \<Rightarrow> amem \<times> uword \<Rightarrow> (amem \<times> uword) option" where
  "gTake_all 0 s = Some s"
| "gTake_all (Suc n) s = (case gMalloc_take 0 (fst s) (snd s) of None \<Rightarrow> None | Some (l, w) \<Rightarrow> gTake_all n (fst s, w))"

definition stale :: "(amem \<times> uword) option" where
  "stale = Option.bind (gFree_all 3 [16, 32, 48, 64, 80, 96] (zeros, 0)) (gTake_all 2)"

lemma stale_blks: "blk 0 16" "blk 0 32" "blk 0 48" "blk 0 64" "blk 0 80" "blk 0 96" "blk 0 112" "blk 0 128"
  by (simp_all add: blk_def set_numaNode_def numaNode_def cell_layout mask_eq_exp_minus_1)

lemma stale_count:
  "unat (cell_count (AllocCellPtr 1 b)) = 1" "unat (cell_count (AllocCellPtr 2 b)) = 2" "unat (cell_count (AllocCellPtr 3 b)) = 3"
  "unat (cell_count (AllocCellPtr 4 b)) = 4" "unat (cell_count (AllocCellPtr 5 b)) = 5"
  by (simp_all add: cellptr_defs unat_and_mask12)

lemma gFree_front:
  "blk 0 b \<Longrightarrow> unat (cell_count w) + 1 < 2 * T \<Longrightarrow>
     gFree T 0 DO_GO_UP (AllocCellPtr 1 b) h w = Some (put_nextList b w h, AllocCellPtr (of_nat (unat (cell_count w) + 1)) b, None)"
  by (simp add: gFree_def Let_def)

lemma gFree_cut3:
  assumes "blk 0 b" "blk 0 x" "blk 0 y" "c_nextList (h x) = AllocCellPtr c y"
  shows "gFree 3 0 DO_GO_UP (AllocCellPtr 1 b) h (AllocCellPtr 5 x) =
    Some (put_nextList b (AllocCellPtr 2 x) (put_nextList y 0 h), AllocCellPtr 3 b, Some (c_nextList (h y)))"
proof -
  have "usub 3 1 = 2" "usub 2 1 = Suc 0" by (simp_all add: usub_def)
  then show ?thesis using assms stale_count(5) [of x] by (simp add: gFree_def Let_def blk_not_wild)
qed

lemma take_front:
  "blk 0 b \<Longrightarrow> c_next (h b) = 0 \<Longrightarrow> gMalloc_take 0 h (AllocCellPtr c b) = Some (AllocCellPtr 1 b, c_nextList (h b))"
  by (simp add: gMalloc_take_def isEmpty_def Let_def)

lemma gTake_two: "gTake_all 2 s = gTake_all (Suc (Suc 0)) s"
  by (simp add: numeral_2_eq_2)

lemma zeros_next [simp]: "c_next (zeros b) = 0" "c_nextList (zeros b) = 0"
  by (simp_all add: zeros_def)

lemma stale_eq:
  "stale = Some (put_nextList 96 (AllocCellPtr 2 80) (put_nextList 64 0
     (put_nextList 80 (AllocCellPtr 4 64) (put_nextList 64 (AllocCellPtr 3 48) (put_nextList 48 (AllocCellPtr 2 32) (put_nextList 32 (AllocCellPtr 1 16)
     (put_nextList 16 0 zeros)))))), AllocCellPtr 4 64)"
  unfolding stale_def
  by (simp add: gFree_front gFree_cut3 [of 96 80 64 _ 4] take_front stale_blks stale_count gTake_two)


end
