(* ===== verification/AllocPool.thy ===== *)
theory AllocPool
  imports AllocCell
begin

text \<open>
  The front of the slab allocator, \<^verbatim>\<open>lib/libc/alloc/AllocPool.H\<close> and \<^verbatim>\<open>AllocPool.C\<close>: size classes and the table that maps a size to its class, the
  local and global lists that a request for local, global or padded memory goes to, the policies for the lengths of lists, and the
  counts kept with \<^verbatim>\<open>ALLOC_TRACK\<close>.
\<close>

section \<open>Size classes\<close>

definition NUM_SIZES :: nat where "NUM_SIZES = 8"

definition MIN_BLOCK_SIZE :: nat where "MIN_BLOCK_SIZE = 2 ^ 4"

definition MAX_BLOCK_SIZE :: nat where "MAX_BLOCK_SIZE = 2 ^ (4 + NUM_SIZES - 1)"

definition NUM_MALLOCS :: nat where "NUM_MALLOCS = 2 * NUM_SIZES"

definition GLOBAL_OFF :: nat where "GLOBAL_OFF = NUM_SIZES"

definition no_index :: uval where "no_index = 2 ^ 64 - 1"

definition IfBasedIndex :: "uval \<Rightarrow> uval" where
  "IfBasedIndex sz =
     (if sz \<le> MIN_BLOCK_SIZE * 1 then 0 else if sz \<le> MIN_BLOCK_SIZE * 2 then 1 else if sz \<le> MIN_BLOCK_SIZE * 4 then 2
      else if sz \<le> MIN_BLOCK_SIZE * 8 then 3 else if sz \<le> MIN_BLOCK_SIZE * 16 then 4 else if sz \<le> MIN_BLOCK_SIZE * 32 then 5
      else if sz \<le> MIN_BLOCK_SIZE * 64 then 6 else if sz \<le> MIN_BLOCK_SIZE * 128 then 7 else no_index)"

text \<open>The loop of \<^verbatim>\<open>init\<close> that fills the table of bytes, from the size on.\<close>

function fill_sizes :: "uval \<Rightarrow> (nat \<Rightarrow> nat) \<Rightarrow> (nat \<Rightarrow> nat)" where
  "fill_sizes i tbl =
     (if i \<le> MAX_BLOCK_SIZE then fill_sizes (i + MIN_BLOCK_SIZE) (tbl(i div MIN_BLOCK_SIZE := IfBasedIndex i mod 256)) else tbl)"
  by pat_completeness auto
termination
  by (relation "measure (\<lambda>(i, tbl). Suc MAX_BLOCK_SIZE - i)") (auto simp: MIN_BLOCK_SIZE_def)

definition sizeToIndexMapping :: "nat \<Rightarrow> nat" where
  "sizeToIndexMapping = fill_sizes 0 (\<lambda>_. 0)"

definition ArrayBasedIndex :: "uval \<Rightarrow> uval" where
  "ArrayBasedIndex sz =
     (if sz \<le> MAX_BLOCK_SIZE then sizeToIndexMapping ((sz + (MIN_BLOCK_SIZE - 1)) div 2 ^ 4) else no_index)"

definition blockSize :: "uval \<Rightarrow> uval" where
  "blockSize idx = push_bit idx MIN_BLOCK_SIZE"

text \<open>A \<^verbatim>\<open>mallocID\<close> is a size class, or one of the classes of global blocks.\<close>

definition size_index :: "nat \<Rightarrow> nat" where
  "size_index mid = (if GLOBAL_OFF \<le> mid then mid - GLOBAL_OFF else mid)"

definition mallocIDToSize :: "nat \<Rightarrow> uval" where
  "mallocIDToSize mid = blockSize (size_index mid)"

text \<open>The tables \<^verbatim>\<open>pGlobal\<close> and \<^verbatim>\<open>pGlobalPadded\<close>; \<^term>\<open>cl\<close> is the class from which on global and local blocks share lists, \<^term>\<open>rcl\<close> the class of a cache line.\<close>

definition pGlobal :: "nat \<Rightarrow> nat \<Rightarrow> nat" where
  "pGlobal cl i = (if i < cl then GLOBAL_OFF + i else i)"

definition pGlobalPadded :: "nat \<Rightarrow> nat \<Rightarrow> nat \<Rightarrow> nat" where
  "pGlobalPadded cl rcl i = (if i < rcl then pGlobal cl rcl else pGlobal cl i)"

section \<open>Requests\<close>

text \<open>Where a request goes: to the lists of a \<^verbatim>\<open>mallocID\<close>, or to the page allocator with a size in whole pages.\<close>

datatype request = SlabReq nat | PageReq uval

definition largeAlloc :: "uval \<Rightarrow> request" where
  "largeAlloc sz = PageReq (PAGE_ROUND_UP sz)"

definition allocLocalStrict :: "uval \<Rightarrow> request" where
  "allocLocalStrict sz = (let inx = ArrayBasedIndex sz in if inx \<noteq> no_index then SlabReq inx else largeAlloc sz)"

definition allocGlobal :: "nat \<Rightarrow> uval \<Rightarrow> request" where
  "allocGlobal cl sz = (let inx = ArrayBasedIndex sz in if inx \<noteq> no_index then SlabReq (pGlobal cl inx) else largeAlloc sz)"

definition allocGlobalPadded :: "nat \<Rightarrow> nat \<Rightarrow> uval \<Rightarrow> request" where
  "allocGlobalPadded cl rcl sz = (let inx = ArrayBasedIndex sz in if inx \<noteq> no_index then SlabReq (pGlobalPadded cl rcl inx) else largeAlloc sz)"

section \<open>Lengths of lists\<close>

definition ListSize :: "uval \<Rightarrow> uval" where
  "ListSize sizeIndex =
     (let listSize = 16 * PAGE_SIZE div blockSize sizeIndex;
          listSize1 = (if CELL_MAX_COUNT < listSize then CELL_MAX_COUNT else listSize)
      in if listSize1 < 4 then 4 else listSize1)"

definition NumLists :: "uval \<Rightarrow> uval" where
  "NumLists degreeOfSharing = degreeOfSharing * 4"

section \<open>Counts\<close>

record atrack =
  totalAllocated :: uval
  totalSpace :: uval
  totalRequestedByMID :: "nat \<Rightarrow> uval"
  totalSpaceByMID :: "nat \<Rightarrow> uval"

definition updateAllocated :: "uval \<Rightarrow> nat \<Rightarrow> atrack \<Rightarrow> atrack" where
  "updateAllocated sz mid s =
     (let space = mallocIDToSize mid
      in s\<lparr>totalRequestedByMID := (totalRequestedByMID s)(mid := uadd (totalRequestedByMID s mid) sz),
           totalSpaceByMID := (totalSpaceByMID s)(mid := uadd (totalSpaceByMID s mid) space),
           totalAllocated := uadd (totalAllocated s) sz, totalSpace := uadd (totalSpace s) space\<rparr>)"

definition updateFreed :: "uval \<Rightarrow> nat \<Rightarrow> atrack \<Rightarrow> atrack" where
  "updateFreed sz mid s =
     (let space = mallocIDToSize mid
      in s\<lparr>totalRequestedByMID := (totalRequestedByMID s)(mid := usub (totalRequestedByMID s mid) sz),
           totalSpaceByMID := (totalSpaceByMID s)(mid := usub (totalSpaceByMID s mid) space),
           totalAllocated := usub (totalAllocated s) sz, totalSpace := usub (totalSpace s) space\<rparr>)"

text \<open>The list that the counts of an allocation and of a free of padded memory are charged to.\<close>

definition padded_alloc_mid :: "nat \<Rightarrow> nat \<Rightarrow> uval \<Rightarrow> nat" where
  "padded_alloc_mid cl rcl sz = pGlobal cl (ArrayBasedIndex sz)"

definition padded_free_mid :: "nat \<Rightarrow> nat \<Rightarrow> uval \<Rightarrow> nat" where
  "padded_free_mid cl rcl sz = pGlobalPadded cl rcl (ArrayBasedIndex sz)"

section \<open>Properties\<close>

lemma NUM_MALLOCS_eq: "NUM_MALLOCS = 16"
  by (simp add: NUM_MALLOCS_def NUM_SIZES_def)

lemmas pool_consts = MIN_BLOCK_SIZE_def MAX_BLOCK_SIZE_def NUM_SIZES_def GLOBAL_OFF_def no_index_def

declare fill_sizes.simps [simp del]

lemma fill_sizes_at:
  "k * 16 \<le> 2048 \<Longrightarrow> i = j * 16 \<Longrightarrow> fill_sizes i tbl k = (if j \<le> k then IfBasedIndex (k * 16) mod 256 else tbl k)"
proof (induction i tbl arbitrary: j rule: fill_sizes.induct)
  case (1 i tbl)
  show ?case
  proof (cases "i \<le> MAX_BLOCK_SIZE")
    case True
    have "fill_sizes (i + MIN_BLOCK_SIZE) (tbl(i div MIN_BLOCK_SIZE := IfBasedIndex i mod 256)) k =
        (if Suc j \<le> k then IfBasedIndex (k * 16) mod 256 else (tbl(i div MIN_BLOCK_SIZE := IfBasedIndex i mod 256)) k)"
      by (rule "1.IH" [OF True "1.prems"(1)]) (use "1.prems" in \<open>simp add: MIN_BLOCK_SIZE_def\<close>)
    with True "1.prems" show ?thesis by (subst fill_sizes.simps) (auto simp: MIN_BLOCK_SIZE_def not_less_eq_eq dest: le_antisym)
  next
    case False
    with "1.prems" show ?thesis by (subst fill_sizes.simps) (auto simp: pool_consts)
  qed
qed

text \<open>The table look-up gives the class that the comparisons give, for every size; no entry is read past the end of the table.\<close>

lemma index_versions_eq: "ArrayBasedIndex sz = IfBasedIndex sz"
proof (cases "sz \<le> 2048")
  case True
  define k where "k = (sz + 15) div 16"
  have k: "k * 16 \<le> 2048" "sz \<le> k * 16" "k * 16 \<le> sz + 15" using True unfolding k_def by presburger+
  have "ArrayBasedIndex sz = IfBasedIndex (k * 16) mod 256"
    using True fill_sizes_at [OF k(1), of 0 0] by (simp add: ArrayBasedIndex_def sizeToIndexMapping_def pool_consts k_def)
  also have "\<dots> = IfBasedIndex sz"
    using k by (auto simp: IfBasedIndex_def pool_consts)
  finally show ?thesis .
qed (simp add: ArrayBasedIndex_def IfBasedIndex_def pool_consts)

lemma usub_uadd_diff:
  assumes "a \<le> b" "b \<le> 2 ^ 64"
  shows "usub (uadd t a) b = usub t (b - a)"
proof -
  have "usub (uadd t a) b = ((t + a) mod 2 ^ 64 + (2 ^ 64 - b)) mod 2 ^ 64" using assms(2) by (simp only: usub_def uadd_def Nat.add_diff_assoc)
  also have "\<dots> = (t + a + (2 ^ 64 - b)) mod 2 ^ 64" by (rule mod_add_left_eq)
  also have "t + a + (2 ^ 64 - b) = t + 2 ^ 64 - (b - a)" using assms by linarith
  finally show ?thesis by (simp only: usub_def)
qed

lemma usub_uadd_cancel: "a < 2 ^ 64 \<Longrightarrow> b < 2 ^ 64 \<Longrightarrow> usub (uadd a b) b = a"
  by (auto simp: usub_def uadd_def mod_if)

lemma IfBasedIndex_fits:
  assumes "sz \<le> MAX_BLOCK_SIZE" "i = IfBasedIndex sz"
  shows "i < NUM_SIZES" "sz \<le> blockSize i" "MIN_BLOCK_SIZE < blockSize i \<Longrightarrow> blockSize i < 2 * sz"
proof -
  have "i \<in> {0, 1, 2, 3, 4, 5, 6, 7}" using assms by (auto simp: IfBasedIndex_def pool_consts split: if_splits)
  then show "i < NUM_SIZES" by (auto simp: pool_consts)
  show "sz \<le> blockSize i" "MIN_BLOCK_SIZE < blockSize i \<Longrightarrow> blockSize i < 2 * sz"
    using assms by (auto simp: IfBasedIndex_def pool_consts blockSize_def push_bit_eq_mult split: if_splits)
qed

lemma blockSize_mono: "i \<le> j \<Longrightarrow> blockSize i \<le> blockSize j"
  by (simp add: blockSize_def push_bit_eq_mult MIN_BLOCK_SIZE_def power_increasing)

lemma pGlobal_size: "i < NUM_SIZES \<Longrightarrow> mallocIDToSize (pGlobal cl i) = blockSize i \<and> mallocIDToSize i = blockSize i"
  by (auto simp: mallocIDToSize_def pGlobal_def size_index_def pool_consts)



lemma ListSize_bounds: "4 \<le> ListSize i" "ListSize i \<le> CELL_MAX_COUNT"
  by (auto simp: ListSize_def Let_def CELL_MAX_COUNT_def LOG_MAX_NUMANODES_def)

text \<open>
  Counts of padded memory drift. What an allocation adds to the totals, a free of the same size takes away again when both are charged to the same lists. For padded memory they are not: with a cache
  line of 128 bytes, an allocation of sixteen bytes is charged to the class of sixteen bytes and its free to that of 128, so each such pair takes 112 from \<^verbatim>\<open>totalSpace\<close>.
\<close>

theorem padded_counts_drift:
  assumes "is_uval (totalSpace s)" "mid < NUM_MALLOCS"
  shows "totalSpace (updateFreed sz mid (updateAllocated sz mid s)) = totalSpace s
    \<and> totalSpace (updateFreed 16 (padded_free_mid 3 3 16) (updateAllocated 16 (padded_alloc_mid 3 3 16) s)) = usub (totalSpace s) 112"
proof
  have "size_index mid \<le> 7" using assms(2) by (auto simp: size_index_def pool_consts NUM_MALLOCS_eq)
  then have "mallocIDToSize mid \<le> blockSize 7" unfolding mallocIDToSize_def by (rule blockSize_mono)
  then have "mallocIDToSize mid < 2 ^ 64" by (simp add: blockSize_def push_bit_eq_mult MIN_BLOCK_SIZE_def)
  then show "totalSpace (updateFreed sz mid (updateAllocated sz mid s)) = totalSpace s"
    using assms(1) by (simp add: updateFreed_def updateAllocated_def Let_def is_uval_def usub_uadd_cancel del: numeral_power_eq_of_nat_cancel_iff)
  have "mallocIDToSize (padded_free_mid 3 3 16) = 128" "mallocIDToSize (padded_alloc_mid 3 3 16) = 16"
    by (simp_all add: padded_free_mid_def padded_alloc_mid_def index_versions_eq IfBasedIndex_def pGlobalPadded_def pGlobal_def mallocIDToSize_def size_index_def
        blockSize_def push_bit_eq_mult pool_consts)
  then show "totalSpace (updateFreed 16 (padded_free_mid 3 3 16) (updateAllocated 16 (padded_alloc_mid 3 3 16) s)) = usub (totalSpace s) 112"
    by (simp add: updateFreed_def updateAllocated_def Let_def usub_uadd_diff)
qed

theorem padded_counts_drift_witness:
  "totalSpace (updateFreed 16 (padded_free_mid 3 3 16) (updateAllocated 16 (padded_alloc_mid 3 3 16)
     \<lparr>totalAllocated = 0, totalSpace = 0, totalRequestedByMID = (\<lambda>_. 0), totalSpaceByMID = (\<lambda>_. 0)\<rparr>)) = usub 0 112"
  using padded_counts_drift [of "\<lparr>totalAllocated = 0, totalSpace = 0, totalRequestedByMID = (\<lambda>_. 0), totalSpaceByMID = (\<lambda>_. 0)\<rparr>" 0 16]
  by (simp add: is_uval_def NUM_MALLOCS_eq)

end
