(* ===== verification/LMalloc.thy ===== *)
theory LMalloc
  imports GMalloc AllocPool
begin

text \<open>
  The layers of the slab allocator together: the local layer of each processor (\<^verbatim>\<open>lib/libc/alloc/LMalloc.C\<close>, \<^verbatim>\<open>arch/powerpc/LMalloc.H\<close>), the
  global layer (\<^verbatim>\<open>GMalloc.C\<close>), what \<^verbatim>\<open>PMalloc.C\<close> does with lists that are handed up, and the return of blocks that were freed on another
  NUMA node (\<^verbatim>\<open>freeRemote\<close>, \<^verbatim>\<open>freeRemoteFull\<close> and \<^verbatim>\<open>checkForRemote\<close> of \<^verbatim>\<open>AllocPool.C\<close>). Threads of any number of processors run these
  operations at the same time; every access to a shared word is a step of its own. The layer above hands out lists of chunks
  through the virtual \<^verbatim>\<open>pMalloc\<close>: any blocks of its own, linked in any order. Clients write into the blocks they hold, at any time.
\<close>

section \<open>State\<close>

text \<open>
  What \<^verbatim>\<open>AllocPool::init\<close> fixes: the processor of a thread and the node of a processor, the maximal length of a list by \<^verbatim>\<open>mallocID\<close>, the
  object of the global layer that a local one uses, and of each of these its node, \<^verbatim>\<open>mallocID\<close>, list size and wanted number of lists. An object of the global
  layer belongs to one processor or to a node, and serves one \<^verbatim>\<open>mallocID\<close>.
\<close>

datatype gmid = LocalGM nat nat | NodeGM uword nat

record mcfg =
  vp_of :: "nat \<Rightarrow> nat"
  vp_node :: "nat \<Rightarrow> uword"
  maxCount :: "nat \<Rightarrow> nat"
  gm_of :: "nat \<Rightarrow> nat \<Rightarrow> gmid"
  gm_node :: "gmid \<Rightarrow> uword"
  gm_mid :: "gmid \<Rightarrow> nat"
  listSize :: "gmid \<Rightarrow> nat"
  numListsTarget :: "gmid \<Rightarrow> nat"

record lmalloc =
  freeList :: uword
  auxList :: uword

text \<open>
  The places of a thread. What a free, or a list handed to the global layer, returns to is a value of type \<^verbatim>\<open>kont\<close>: the client, the top of the
  loop of \<^verbatim>\<open>slowMalloc\<close>, the loop of \<^verbatim>\<open>gMalloc\<close> that converts fresh chunks, or the loops of \<^verbatim>\<open>checkForRemote\<close>. \<^verbatim>\<open>AGot\<close> is a thread that \<^verbatim>\<open>lMalloc\<close>
  has a block for; \<^verbatim>\<open>AWild\<close> is an access through null or an index out of range.
\<close>

datatype kont = KIdle | KSlow nat | KGrow nat bool uword | KRemote nat uword uword

datatype apc = AIdle | MPop nat | SPop nat | SAux nat | SSetFree nat uword | SSetAux nat uword
  | GTake nat bool | GCheck nat | GFetch nat | GLists nat uword | GCells nat uword uword | GAsk nat bool | GConv nat bool uword uword nat
  | GFree gmid uword kont | PFree gmid uword kont | PCell gmid uword uword kont
  | FPush uword nat kont | FMove uword nat kont | FRemote uword nat kont | FRFull uword uword kont | FRCas uword uword uword kont
  | AGot nat uword | AWild

text \<open>
  The lists of the local layer by processor and \<^verbatim>\<open>mallocID\<close>, the words of the global layer, the lists of blocks of other nodes by processor and
  node, the lists that came back to a node, and the \<^verbatim>\<open>mallocID\<close> in the descriptor of the page of a block. The last two components are the
  blocks the clients hold and those of the layer above.
\<close>

record astate =
  a_heap :: amem
  a_lml :: "nat \<Rightarrow> nat \<Rightarrow> lmalloc"
  a_gm :: "gmid \<Rightarrow> uword"
  a_remote :: "nat \<Rightarrow> uword \<Rightarrow> uword"
  a_from :: "uword \<Rightarrow> uword"
  a_desc :: "uword \<Rightarrow> nat"
  a_pc :: "nat \<Rightarrow> apc"
  a_client :: "uword set"
  a_source :: "uword set"

definition alloc_init :: "uword set \<Rightarrow> amem \<Rightarrow> (uword \<Rightarrow> nat) \<Rightarrow> astate" where
  "alloc_init U h d = \<lparr>a_heap = h, a_lml = (\<lambda>_ _. \<lparr>freeList = 0, auxList = 0\<rparr>), a_gm = (\<lambda>_. 0), a_remote = (\<lambda>_ _. 0), a_from = (\<lambda>_. 0),
     a_desc = d, a_pc = (\<lambda>_. AIdle), a_client = {}, a_source = U\<rparr>"

definition ago :: "nat \<Rightarrow> apc \<Rightarrow> astate \<Rightarrow> astate" where
  "ago t p s = s\<lparr>a_pc := (a_pc s)(t := p)\<rparr>"

definition set_free :: "nat \<Rightarrow> nat \<Rightarrow> uword \<Rightarrow> astate \<Rightarrow> astate" where
  "set_free v m w s = s\<lparr>a_lml := (a_lml s)(v := (a_lml s v)(m := (a_lml s v m)\<lparr>freeList := w\<rparr>))\<rparr>"

definition set_aux :: "nat \<Rightarrow> nat \<Rightarrow> uword \<Rightarrow> astate \<Rightarrow> astate" where
  "set_aux v m w s = s\<lparr>a_lml := (a_lml s)(v := (a_lml s v)(m := (a_lml s v m)\<lparr>auxList := w\<rparr>))\<rparr>"

definition set_gm :: "gmid \<Rightarrow> uword \<Rightarrow> astate \<Rightarrow> astate" where
  "set_gm g w s = s\<lparr>a_gm := (a_gm s)(g := w)\<rparr>"

definition set_remote :: "nat \<Rightarrow> uword \<Rightarrow> uword \<Rightarrow> astate \<Rightarrow> astate" where
  "set_remote v n w s = s\<lparr>a_remote := (a_remote s)(v := (a_remote s v)(n := w))\<rparr>"

definition set_from :: "uword \<Rightarrow> uword \<Rightarrow> astate \<Rightarrow> astate" where
  "set_from n w s = s\<lparr>a_from := (a_from s)(n := w)\<rparr>"

section \<open>Steps\<close>

fun resume :: "kont \<Rightarrow> apc" where
  "resume KIdle = AIdle"
| "resume (KSlow m) = SPop m"
| "resume (KGrow m tried fresh) = GConv m tried fresh 0 0"
| "resume (KRemote m el nextlist) = GCells m el nextlist"

text \<open>\<^verbatim>\<open>lMalloc\<close> pops a block or goes to \<^verbatim>\<open>slowMalloc\<close>, which starts with the same.\<close>

definition lMalloc_pop :: "mcfg \<Rightarrow> nat \<Rightarrow> apc \<Rightarrow> nat \<Rightarrow> astate \<Rightarrow> astate" where
  "lMalloc_pop cfg m none t s =
     (let v = vp_of cfg t; (el, w) = pop (vp_node cfg v) (a_heap s) (freeList (a_lml s v m))
      in if el = 0 then ago t none s else ago t (AGot m el) (set_free v m w s))"

definition slow_aux :: "mcfg \<Rightarrow> nat \<Rightarrow> nat \<Rightarrow> astate \<Rightarrow> astate" where
  "slow_aux cfg m t s =
     (let v = vp_of cfg t; (tmp, w) = getAndZero (auxList (a_lml s v m))
      in ago t (if isEmpty tmp then GTake m False else SSetFree m tmp) (set_aux v m w s))"

definition slow_setFree :: "mcfg \<Rightarrow> nat \<Rightarrow> uword \<Rightarrow> nat \<Rightarrow> astate \<Rightarrow> astate" where
  "slow_setFree cfg m tmp t s =
     (let v = vp_of cfg t; (ok, w) = setIfZero tmp (freeList (a_lml s v m))
      in ago t (if ok then SPop m else SSetAux m tmp) (set_free v m w s))"

text \<open>Both \<^verbatim>\<open>slowMalloc\<close> and \<^verbatim>\<open>moveUp\<close> try to put a list into \<^verbatim>\<open>auxList\<close> and else hand it to the global layer.\<close>

definition put_aux :: "mcfg \<Rightarrow> uword \<Rightarrow> nat \<Rightarrow> kont \<Rightarrow> nat \<Rightarrow> astate \<Rightarrow> astate" where
  "put_aux cfg tmp m k t s =
     (let v = vp_of cfg t; (ok, w) = setIfZero tmp (auxList (a_lml s v m))
      in ago t (if ok then resume k else GFree (gm_of cfg v m) tmp k) (set_aux v m w s))"

definition gMalloc_section :: "mcfg \<Rightarrow> nat \<Rightarrow> bool \<Rightarrow> nat \<Rightarrow> astate \<Rightarrow> astate" where
  "gMalloc_section cfg m tried t s =
     (let g = gm_of cfg (vp_of cfg t) m
      in case gMalloc_take (gm_node cfg g) (a_heap s) (a_gm s g) of
           None \<Rightarrow> ago t (if tried then GAsk m tried else GCheck m) s
         | Some (l, w) \<Rightarrow> ago t (SSetFree m l) (set_gm g w s))"

text \<open>\<^verbatim>\<open>checkForRemote\<close>: a look, the exchange with null, and the loops over the lists and their blocks.\<close>

definition remote_check :: "mcfg \<Rightarrow> nat \<Rightarrow> nat \<Rightarrow> astate \<Rightarrow> astate" where
  "remote_check cfg m t s = ago t (if a_from s (vp_node cfg (vp_of cfg t)) = 0 then GAsk m False else GFetch m) s"

definition remote_fetch :: "mcfg \<Rightarrow> nat \<Rightarrow> nat \<Rightarrow> astate \<Rightarrow> astate" where
  "remote_fetch cfg m t s =
     (let n = vp_node cfg (vp_of cfg t); el = a_from s n
      in ago t (if el = 0 then GAsk m False else GLists m el) (set_from n 0 s))"

definition remote_lists :: "mcfg \<Rightarrow> nat \<Rightarrow> uword \<Rightarrow> nat \<Rightarrow> astate \<Rightarrow> astate" where
  "remote_lists cfg m el t s =
     (if el = 0 then ago t (GTake m True) s
      else (let nextlist = pointer (c_nextList (a_heap s el)) (vp_node cfg (vp_of cfg t))
            in ago t (GCells m el nextlist) (s\<lparr>a_heap := put_mallocID el (of_nat (a_desc s el)) (a_heap s)\<rparr>)))"

text \<open>\<^verbatim>\<open>lFree\<close> looks at the node in the address.\<close>

definition lFree :: "mcfg \<Rightarrow> uword \<Rightarrow> nat \<Rightarrow> kont \<Rightarrow> nat \<Rightarrow> apc" where
  "lFree cfg el m k t = (if AddrToNumaNode el \<noteq> vp_node cfg (vp_of cfg t) then FRemote el m k else FPush el m k)"

definition remote_cells :: "mcfg \<Rightarrow> nat \<Rightarrow> uword \<Rightarrow> uword \<Rightarrow> nat \<Rightarrow> astate \<Rightarrow> astate" where
  "remote_cells cfg m el nextlist t s =
     (if el = 0 then ago t (GLists m nextlist) s
      else (let nextel = pointer (c_next (a_heap s el)) (vp_node cfg (vp_of cfg t)); mid = unat (cell_mallocID (a_heap s) el)
            in ago t (if mid < NUM_MALLOCS then lFree cfg el mid (KRemote m nextel nextlist) t else AWild) s))"

text \<open>The loop of \<^verbatim>\<open>gMalloc\<close> that makes lists of at most \<^verbatim>\<open>listSize\<close> blocks from the chunks.\<close>

definition gMalloc_convert :: "mcfg \<Rightarrow> nat \<Rightarrow> bool \<Rightarrow> uword \<Rightarrow> uword \<Rightarrow> nat \<Rightarrow> nat \<Rightarrow> astate \<Rightarrow> astate" where
  "gMalloc_convert cfg m tried fresh partList lcnt t s =
     (if fresh = 0 then ago t (GTake m tried) s
      else (let g = gm_of cfg (vp_of cfg t) m; next = c_next (a_heap s fresh); lcnt' = lcnt + 1;
                part' = AllocCellPtr (of_nat lcnt') fresh
            in ago t (if lcnt' = listSize cfg g \<or> next = 0 then GFree g part' (KGrow m tried next) else GConv m tried next part' lcnt')
                 (s\<lparr>a_heap := put_next fresh partList (a_heap s)\<rparr>)))"

definition gFree_section :: "mcfg \<Rightarrow> gmid \<Rightarrow> uword \<Rightarrow> kont \<Rightarrow> nat \<Rightarrow> astate \<Rightarrow> astate" where
  "gFree_section cfg g tog k t s =
     (case gFree (numListsTarget cfg g) (gm_node cfg g) DO_GO_UP tog (a_heap s) (a_gm s g) of
        None \<Rightarrow> ago t AWild s
      | Some (h, w, up) \<Rightarrow>
          ago t (case up of None \<Rightarrow> resume k | Some lst \<Rightarrow> PFree g lst k) (set_gm g w (s\<lparr>a_heap := h\<rparr>)))"

text \<open>\<^verbatim>\<open>pFree\<close> gives the blocks of all lists back one by one.\<close>

definition pFree_lists :: "mcfg \<Rightarrow> gmid \<Rightarrow> uword \<Rightarrow> kont \<Rightarrow> nat \<Rightarrow> astate \<Rightarrow> astate" where
  "pFree_lists cfg g lst k t s =
     ago t (if isEmpty lst then resume k
            else (let el = pointer lst (gm_node cfg g) in PCell g el (c_nextList (a_heap s el)) k)) s"

definition pFree_cells :: "mcfg \<Rightarrow> gmid \<Rightarrow> uword \<Rightarrow> uword \<Rightarrow> kont \<Rightarrow> nat \<Rightarrow> astate \<Rightarrow> astate" where
  "pFree_cells cfg g el nextLists k t s =
     (if el = 0 then ago t (PFree g nextLists k) s
      else (let nextel = pointer (c_next (a_heap s el)) (gm_node cfg g)
            in ago t (PCell g nextel nextLists k) (s\<lparr>a_source := insert el (a_source s)\<rparr>)))"

definition lFree_push :: "mcfg \<Rightarrow> uword \<Rightarrow> nat \<Rightarrow> kont \<Rightarrow> nat \<Rightarrow> astate \<Rightarrow> astate" where
  "lFree_push cfg el m k t s =
     (let v = vp_of cfg t; (ok, tmp, h, w) = push el (of_nat (maxCount cfg m)) (a_heap s) (freeList (a_lml s v m))
      in ago t (if ok then resume k else FMove tmp m k) (set_free v m w (s\<lparr>a_heap := h\<rparr>)))"

definition freeRemote :: "mcfg \<Rightarrow> uword \<Rightarrow> nat \<Rightarrow> kont \<Rightarrow> nat \<Rightarrow> astate \<Rightarrow> astate" where
  "freeRemote cfg el m k t s =
     (let v = vp_of cfg t; n = AddrToNumaNode el;
          (ok, full, h, w) = push el (of_nat CELL_MAX_COUNT) (put_mallocID el (of_nat m) (a_heap s)) (a_remote s v n)
      in ago t (if ok then resume k else FRFull full n k) (set_remote v n w (s\<lparr>a_heap := h\<rparr>)))"

text \<open>\<^verbatim>\<open>freeRemoteFull\<close>: read the head, then link and try to exchange it; start over when it has changed.\<close>

definition remoteFull_read :: "uword \<Rightarrow> uword \<Rightarrow> kont \<Rightarrow> nat \<Rightarrow> astate \<Rightarrow> astate" where
  "remoteFull_read lst n k t s = ago t (FRCas lst n (a_from s n) k) s"

definition remoteFull_cas :: "uword \<Rightarrow> uword \<Rightarrow> uword \<Rightarrow> kont \<Rightarrow> nat \<Rightarrow> astate \<Rightarrow> astate" where
  "remoteFull_cas lst n tmp k t s =
     (let mylist = pointer lst n
      in if mylist = 0 then ago t AWild s
         else (let s1 = s\<lparr>a_heap := put_nextList mylist (AllocCellPtr 0 tmp) (a_heap s)\<rparr>
               in if a_from s n = tmp then ago t (resume k) (set_from n mylist s1) else ago t (FRFull lst n k) s1))"

definition hand_out :: "uword \<Rightarrow> nat \<Rightarrow> astate \<Rightarrow> astate" where
  "hand_out el t s = ago t AIdle (s\<lparr>a_client := insert el (a_client s)\<rparr>)"

text \<open>The next step of a thread that is in an operation and does not wait for the layer above.\<close>

fun a_next :: "mcfg \<Rightarrow> nat \<Rightarrow> astate \<Rightarrow> astate option" where
  "a_next cfg t s =
     (case a_pc s t of
        MPop m \<Rightarrow> Some (lMalloc_pop cfg m (SPop m) t s)
      | SPop m \<Rightarrow> Some (lMalloc_pop cfg m (SAux m) t s)
      | SAux m \<Rightarrow> Some (slow_aux cfg m t s)
      | SSetFree m tmp \<Rightarrow> Some (slow_setFree cfg m tmp t s)
      | SSetAux m tmp \<Rightarrow> Some (put_aux cfg tmp m (KSlow m) t s)
      | GTake m tried \<Rightarrow> Some (gMalloc_section cfg m tried t s)
      | GCheck m \<Rightarrow> Some (remote_check cfg m t s)
      | GFetch m \<Rightarrow> Some (remote_fetch cfg m t s)
      | GLists m el \<Rightarrow> Some (remote_lists cfg m el t s)
      | GCells m el nl \<Rightarrow> Some (remote_cells cfg m el nl t s)
      | GConv m tried fresh part lcnt \<Rightarrow> Some (gMalloc_convert cfg m tried fresh part lcnt t s)
      | GFree g tog k \<Rightarrow> Some (gFree_section cfg g tog k t s)
      | PFree g lst k \<Rightarrow> Some (pFree_lists cfg g lst k t s)
      | PCell g el nl k \<Rightarrow> Some (pFree_cells cfg g el nl k t s)
      | FPush el m k \<Rightarrow> Some (lFree_push cfg el m k t s)
      | FMove tmp m k \<Rightarrow> Some (put_aux cfg tmp m k t s)
      | FRemote el m k \<Rightarrow> Some (freeRemote cfg el m k t s)
      | FRFull lst n k \<Rightarrow> Some (remoteFull_read lst n k t s)
      | FRCas lst n tmp k \<Rightarrow> Some (remoteFull_cas lst n tmp k t s)
      | AGot m el \<Rightarrow> Some (hand_out el t s)
      | _ \<Rightarrow> None)"

text \<open>
  A free passes a block that the client holds to the allocator with the \<^verbatim>\<open>mallocID\<close> of its page, as \<^verbatim>\<open>checkMallocID\<close> demands;
  \<^verbatim>\<open>lFreeNoCheckLocal\<close> is for blocks of the processor's own node. \<^verbatim>\<open>pMalloc\<close> answers with the number of blocks that \<^verbatim>\<open>gMalloc\<close> asks for.
\<close>

inductive a_step :: "mcfg \<Rightarrow> astate \<Rightarrow> astate \<Rightarrow> bool" for cfg where
  run: "a_next cfg t s = Some s' \<Longrightarrow> a_step cfg s s'"
| call_lMalloc: "a_pc s t = AIdle \<Longrightarrow> m < NUM_MALLOCS \<Longrightarrow> a_step cfg s (ago t (MPop m) s)"
| call_lFree: "a_pc s t = AIdle \<Longrightarrow> el \<in> a_client s \<Longrightarrow> m = a_desc s el \<Longrightarrow>
    a_step cfg s (ago t (lFree cfg el m KIdle t) (s\<lparr>a_client := a_client s - {el}\<rparr>))"
| call_lFreeNoCheckLocal: "a_pc s t = AIdle \<Longrightarrow> el \<in> a_client s \<Longrightarrow> m = a_desc s el \<Longrightarrow> AddrToNumaNode el = vp_node cfg (vp_of cfg t) \<Longrightarrow>
    a_step cfg s (ago t (FPush el m KIdle) (s\<lparr>a_client := a_client s - {el}\<rparr>))"
| pMalloc: "a_pc s t = GAsk m tried \<Longrightarrow> g = gm_of cfg (vp_of cfg t) m \<Longrightarrow> length bs = numListsTarget cfg g * listSize cfg g \<Longrightarrow>
    distinct bs \<Longrightarrow> set bs \<subseteq> a_source s \<Longrightarrow> chunks h (gm_node cfg g) p bs \<Longrightarrow>
    (\<And>b. b \<notin> a_source s \<Longrightarrow> h b = a_heap s b \<and> d b = a_desc s b) \<Longrightarrow> (\<And>b. b \<in> set bs \<Longrightarrow> d b = m) \<Longrightarrow> m < NUM_MALLOCS \<Longrightarrow>
    a_step cfg s (ago t (GConv m tried p 0 0) (s\<lparr>a_heap := h, a_desc := d, a_source := a_source s - set bs\<rparr>))"
| client_writes: "(\<And>b. b \<notin> a_client s \<Longrightarrow> h b = a_heap s b) \<Longrightarrow> a_step cfg s (s\<lparr>a_heap := h\<rparr>)"
| source_writes: "(\<And>b. b \<notin> a_source s \<Longrightarrow> h b = a_heap s b \<and> d b = a_desc s b) \<Longrightarrow> a_step cfg s (s\<lparr>a_heap := h, a_desc := d\<rparr>)"

lemmas a_ops = lMalloc_pop_def slow_aux_def slow_setFree_def put_aux_def gMalloc_section_def remote_check_def remote_fetch_def remote_lists_def
  remote_cells_def gMalloc_convert_def gFree_section_def pFree_lists_def pFree_cells_def lFree_push_def freeRemote_def remoteFull_read_def
  remoteFull_cas_def hand_out_def

section \<open>Who has which blocks\<close>

definition cfg_ok :: "mcfg \<Rightarrow> bool" where
  "cfg_ok cfg \<longleftrightarrow>
     (\<forall>v m. gm_node cfg (gm_of cfg v m) = vp_node cfg v \<and> gm_mid cfg (gm_of cfg v m) = m)
     \<and> (\<forall>g. listSize cfg g = maxCount cfg (gm_mid cfg g) \<and> 2 \<le> numListsTarget cfg g \<and> 2 * numListsTarget cfg g \<le> 4096)
     \<and> (\<forall>m. 0 < maxCount cfg m \<and> maxCount cfg m \<le> CELL_MAX_COUNT)"

lemma cfg_max: "cfg_ok cfg \<Longrightarrow> 0 < maxCount cfg m \<and> maxCount cfg m < 4096"
proof -
  assume "cfg_ok cfg"
  then have "0 < maxCount cfg m" "maxCount cfg m \<le> CELL_MAX_COUNT" unfolding cfg_ok_def by blast+
  then show ?thesis by (simp add: CELL_MAX_COUNT_def LOG_MAX_NUMANODES_def)
qed

datatype holder = OClient | OSource | ONone | OFree nat nat | OAux nat nat | OG gmid | ORemote nat uword | OFrom uword | OThread nat

definition descs :: "astate \<Rightarrow> nat \<Rightarrow> uword list \<Rightarrow> bool" where
  "descs s m bs \<longleftrightarrow> (\<forall>b\<in>set bs. a_desc s b = m)"

text \<open>Blocks on the way home have their \<^verbatim>\<open>mallocID\<close> in them.\<close>

definition marked :: "astate \<Rightarrow> uword list \<Rightarrow> bool" where
  "marked s bs \<longleftrightarrow> (\<forall>b\<in>set bs. c_nextList (a_heap s b) = of_nat (a_desc s b))"

definition full_list :: "mcfg \<Rightarrow> astate \<Rightarrow> uword \<Rightarrow> nat \<Rightarrow> uword \<Rightarrow> uword list \<Rightarrow> bool" where
  "full_list cfg s nd m w bs \<longleftrightarrow> chain (a_heap s) nd w bs \<and> length bs \<le> maxCount cfg m \<and> descs s m bs"

definition home_lists :: "astate \<Rightarrow> uword \<Rightarrow> uword \<Rightarrow> uword list list \<Rightarrow> bool" where
  "home_lists s n w bss \<longleftrightarrow>
     listlist any_count (a_heap s) n w bss \<and> (\<forall>l\<in>set bss. marked s (tl l)) \<and> w = (case bss of [] \<Rightarrow> 0 | l # _ \<Rightarrow> hd l)"

fun kont_rep :: "uword \<Rightarrow> astate \<Rightarrow> kont \<Rightarrow> uword list \<Rightarrow> bool" where
  "kont_rep nd s KIdle bs \<longleftrightarrow> bs = []"
| "kont_rep nd s (KSlow m) bs \<longleftrightarrow> bs = []"
| "kont_rep nd s (KGrow m tried fresh) bs \<longleftrightarrow> chunks (a_heap s) nd fresh bs \<and> descs s m bs"
| "kont_rep nd s (KRemote m el nl) bs \<longleftrightarrow>
     (\<exists>cs nls. bs = cs @ concat nls \<and> cells (a_heap s) nd el cs \<and> marked s cs \<and> home_lists s nd nl nls)"

fun pc_rep :: "mcfg \<Rightarrow> uword \<Rightarrow> astate \<Rightarrow> apc \<Rightarrow> uword list \<Rightarrow> bool" where
  "pc_rep cfg nd s (SSetFree m tmp) bs \<longleftrightarrow> bs \<noteq> [] \<and> full_list cfg s nd m tmp bs"
| "pc_rep cfg nd s (SSetAux m tmp) bs \<longleftrightarrow> bs \<noteq> [] \<and> full_list cfg s nd m tmp bs"
| "pc_rep cfg nd s (GLists m el) bs \<longleftrightarrow> (\<exists>bss. bs = concat bss \<and> home_lists s nd el bss)"
| "pc_rep cfg nd s (GCells m el nl) bs \<longleftrightarrow> kont_rep nd s (KRemote m el nl) bs"
| "pc_rep cfg nd s (GConv m tried fresh part lcnt) bs \<longleftrightarrow>
     (\<exists>fs ps. bs = fs @ ps \<and> chunks (a_heap s) nd fresh fs \<and> descs s m fs \<and> full_list cfg s nd m part ps \<and> length ps = lcnt
        \<and> lcnt < maxCount cfg m \<and> (fs = [] \<longrightarrow> ps = []))"
| "pc_rep cfg nd s (GFree g tog k) bs \<longleftrightarrow>
     (\<exists>cs ks. bs = cs @ ks \<and> cs \<noteq> [] \<and> gm_node cfg g = nd \<and> full_list cfg s nd (gm_mid cfg g) tog cs \<and> kont_rep nd s k ks)"
| "pc_rep cfg nd s (PFree g lst k) bs \<longleftrightarrow>
     (\<exists>bss ks. bs = concat bss @ ks \<and> gm_node cfg g = nd \<and> listlist any_count (a_heap s) nd lst bss \<and> kont_rep nd s k ks)"
| "pc_rep cfg nd s (PCell g el nl k) bs \<longleftrightarrow>
     (\<exists>cs bss ks. bs = cs @ concat bss @ ks \<and> gm_node cfg g = nd \<and> cells (a_heap s) nd el cs
        \<and> listlist any_count (a_heap s) nd nl bss \<and> kont_rep nd s k ks)"
| "pc_rep cfg nd s (FPush el m k) bs \<longleftrightarrow> (\<exists>ks. bs = el # ks \<and> blk nd el \<and> a_desc s el = m \<and> kont_rep nd s k ks)"
| "pc_rep cfg nd s (FMove tmp m k) bs \<longleftrightarrow> (\<exists>cs ks. bs = cs @ ks \<and> cs \<noteq> [] \<and> full_list cfg s nd m tmp cs \<and> kont_rep nd s k ks)"
| "pc_rep cfg nd s (FRemote el m k) bs \<longleftrightarrow> (\<exists>ks. bs = el # ks \<and> a_desc s el = m \<and> kont_rep nd s k ks)"
| "pc_rep cfg nd s (FRFull lst n k) bs \<longleftrightarrow>
     (\<exists>cs ks. bs = cs @ ks \<and> cs \<noteq> [] \<and> chain (a_heap s) n lst cs \<and> marked s (tl cs) \<and> kont_rep nd s k ks)"
| "pc_rep cfg nd s (FRCas lst n tmp k) bs \<longleftrightarrow>
     (\<exists>cs ks. bs = cs @ ks \<and> cs \<noteq> [] \<and> chain (a_heap s) n lst cs \<and> marked s (tl cs) \<and> kont_rep nd s k ks)"
| "pc_rep cfg nd s (AGot m el) bs \<longleftrightarrow> bs = [el] \<and> blk nd el \<and> a_desc s el = m"
| "pc_rep cfg nd s AWild bs \<longleftrightarrow> False"
| "pc_rep cfg nd s p bs \<longleftrightarrow> bs = []"

fun rep :: "mcfg \<Rightarrow> astate \<Rightarrow> holder \<Rightarrow> uword list \<Rightarrow> bool" where
  "rep cfg s (OFree v m) bs \<longleftrightarrow> full_list cfg s (vp_node cfg v) m (freeList (a_lml s v m)) bs"
| "rep cfg s (OAux v m) bs \<longleftrightarrow> full_list cfg s (vp_node cfg v) m (auxList (a_lml s v m)) bs"
| "rep cfg s (OG g) bs \<longleftrightarrow>
     (\<exists>bss. bs = concat bss \<and> listlist (gcount (numListsTarget cfg g)) (a_heap s) (gm_node cfg g) (a_gm s g) bss
        \<and> (\<forall>l\<in>set bss. length l \<le> listSize cfg g) \<and> descs s (gm_mid cfg g) bs)"
| "rep cfg s (ORemote v n) bs \<longleftrightarrow> chain (a_heap s) n (a_remote s v n) bs \<and> length bs \<le> CELL_MAX_COUNT \<and> marked s bs"
| "rep cfg s (OFrom n) bs \<longleftrightarrow> (\<exists>bss. bs = concat bss \<and> home_lists s n (a_from s n) bss)"
| "rep cfg s (OThread t) bs \<longleftrightarrow> pc_rep cfg (vp_node cfg (vp_of cfg t)) s (a_pc s t) bs"
| "rep cfg s _ bs \<longleftrightarrow> True"

definition has :: "mcfg \<Rightarrow> astate \<Rightarrow> holder \<Rightarrow> uword set \<Rightarrow> bool" where
  "has cfg s x B \<longleftrightarrow>
     (case x of OClient \<Rightarrow> B = a_client s | OSource \<Rightarrow> B = a_source s | ONone \<Rightarrow> True
      | _ \<Rightarrow> \<exists>bs. distinct bs \<and> set bs = B \<and> rep cfg s x bs)"

definition al_ok :: "mcfg \<Rightarrow> uword set \<Rightarrow> (uword \<Rightarrow> holder) \<Rightarrow> astate \<Rightarrow> bool" where
  "al_ok cfg U own s \<longleftrightarrow>
     (\<forall>x. has cfg s x {b. own b = x}) \<and> {b. own b \<noteq> ONone} = U \<and> (\<forall>b\<in>U. blk (numaNode b) b)
     \<and> (\<forall>b. own b \<noteq> ONone \<longrightarrow> own b \<noteq> OSource \<longrightarrow> a_desc s b < NUM_MALLOCS)"

definition al_inv :: "mcfg \<Rightarrow> uword set \<Rightarrow> astate \<Rightarrow> bool" where
  "al_inv cfg U s \<longleftrightarrow> (\<exists>own. al_ok cfg U own s)"

section \<open>Frames\<close>

text \<open>The words and the place that belong to a holder are the same in both states.\<close>

fun same_at :: "holder \<Rightarrow> astate \<Rightarrow> astate \<Rightarrow> bool" where
  "same_at (OFree v m) s s' \<longleftrightarrow> freeList (a_lml s' v m) = freeList (a_lml s v m)"
| "same_at (OAux v m) s s' \<longleftrightarrow> auxList (a_lml s' v m) = auxList (a_lml s v m)"
| "same_at (OG g) s s' \<longleftrightarrow> a_gm s' g = a_gm s g"
| "same_at (ORemote v n) s s' \<longleftrightarrow> a_remote s' v n = a_remote s v n"
| "same_at (OFrom n) s s' \<longleftrightarrow> a_from s' n = a_from s n"
| "same_at (OThread t) s s' \<longleftrightarrow> a_pc s' t = a_pc s t"
| "same_at OClient s s' \<longleftrightarrow> a_client s' = a_client s"
| "same_at OSource s s' \<longleftrightarrow> a_source s' = a_source s"
| "same_at ONone s s' \<longleftrightarrow> True"

definition agree :: "uword set \<Rightarrow> astate \<Rightarrow> astate \<Rightarrow> bool" where
  "agree B s s' \<longleftrightarrow> (\<forall>b\<in>B. a_heap s' b = a_heap s b \<and> a_desc s' b = a_desc s b)"

lemma descs_frame: "descs s m bs \<Longrightarrow> agree (set bs) s s' \<Longrightarrow> descs s' m bs"
  by (auto simp: descs_def agree_def)

lemma marked_frame: "marked s bs \<Longrightarrow> agree (set bs) s s' \<Longrightarrow> marked s' bs"
  by (auto simp: marked_def agree_def)

lemma chain_agree: "chain (a_heap s) nd w bs \<Longrightarrow> agree (set bs) s s' \<Longrightarrow> chain (a_heap s') nd w bs"
  by (auto simp: agree_def intro: chain_frame)

lemma cells_agree: "cells (a_heap s) nd w bs \<Longrightarrow> agree (set bs) s s' \<Longrightarrow> cells (a_heap s') nd w bs"
  by (auto simp: agree_def intro: cells_frame)

lemma chunks_agree: "chunks (a_heap s) nd w bs \<Longrightarrow> agree (set bs) s s' \<Longrightarrow> chunks (a_heap s') nd w bs"
  by (auto simp: agree_def intro: chunks_frame)

lemma listlist_agree:
  "listlist P (a_heap s) nd w bss \<Longrightarrow> agree (set (concat bss)) s s' \<Longrightarrow> listlist P (a_heap s') nd w bss"
  by (rule listlist_frame [of P "a_heap s"]) (simp_all add: agree_def)

lemma agree_Un: "agree (A \<union> B) s s' \<longleftrightarrow> agree A s s' \<and> agree B s s'"
  by (auto simp: agree_def)

lemma agree_except: "(\<And>b. b \<noteq> x \<Longrightarrow> a_heap s' b = a_heap s b) \<Longrightarrow> a_desc s' = a_desc s \<Longrightarrow> x \<notin> B \<Longrightarrow> agree B s s'"
  by (auto simp: agree_def) metis

lemma agree_mono: "agree B s s' \<Longrightarrow> A \<subseteq> B \<Longrightarrow> agree A s s'"
  by (auto simp: agree_def)

lemma full_list_frame: "full_list cfg s nd m w bs \<Longrightarrow> agree (set bs) s s' \<Longrightarrow> full_list cfg s' nd m w bs"
  by (auto simp: full_list_def intro: chain_agree descs_frame)

lemma home_lists_frame:
  assumes "home_lists s nd w bss" "agree (set (concat bss)) s s'"
  shows "home_lists s' nd w bss"
proof -
  have "marked s' (tl l)" if l: "l \<in> set bss" for l
  proof (rule marked_frame)
    show "marked s (tl l)" using assms(1) l by (simp add: home_lists_def)
    have "set (tl l) \<subseteq> set l" by (cases l) auto
    also have "\<dots> \<subseteq> set (concat bss)" using l by auto
    finally have "set (tl l) \<subseteq> set (concat bss)" .
    with assms(2) show "agree (set (tl l)) s s'" by (rule agree_mono)
  qed
  with assms show ?thesis unfolding home_lists_def by (blast intro: listlist_agree)
qed

lemmas rep_frames = chain_agree cells_agree chunks_agree listlist_agree descs_frame marked_frame full_list_frame home_lists_frame

lemma kont_rep_frame:
  assumes "kont_rep nd s k bs" "agree (set bs) s s'"
  shows "kont_rep nd s' k bs"
proof (cases k)
  case (KRemote m el nl)
  then obtain cs nls where "bs = cs @ concat nls" "cells (a_heap s) nd el cs" "marked s cs" "home_lists s nd nl nls"
    using assms(1) by auto
  moreover from this assms(2) have "agree (set cs) s s'" "agree (set (concat nls)) s s'" by (simp_all only: agree_Un set_append)
  ultimately show ?thesis unfolding KRemote kont_rep.simps by (blast intro: cells_agree marked_frame home_lists_frame)
qed (use assms in \<open>auto intro: rep_frames\<close>)

lemma tl_agree: "agree (set bs) s s' \<Longrightarrow> agree (set (tl bs)) s s'"
  by (cases bs) (auto simp: agree_def)

lemma agree_at: "agree (insert b B) s s' \<longleftrightarrow> a_heap s' b = a_heap s b \<and> a_desc s' b = a_desc s b \<and> agree B s s'"
  by (auto simp: agree_def)

lemma pc_rep_frame:
  assumes "pc_rep cfg nd s p bs" "agree (set bs) s s'"
  shows "pc_rep cfg nd s' p bs"
proof (cases p)
  case (GLists m el)
  with assms show ?thesis unfolding GLists pc_rep.simps by (blast intro: home_lists_frame)
next
  case (GConv m tried fresh part lcnt)
  from assms(1) obtain fs ps where "bs = fs @ ps" "chunks (a_heap s) nd fresh fs" "descs s m fs" "full_list cfg s nd m part ps" "length ps = lcnt"
      "lcnt < maxCount cfg m" "fs = [] \<longrightarrow> ps = []" unfolding GConv pc_rep.simps by blast
  moreover from this assms(2) have "agree (set fs) s s'" "agree (set ps) s s'" by (simp_all only: agree_Un set_append)
  ultimately show ?thesis unfolding GConv pc_rep.simps by (blast intro: chunks_agree descs_frame full_list_frame)
next
  case (GFree g tog k)
  from assms(1) obtain cs ks where "bs = cs @ ks" "cs \<noteq> []" "gm_node cfg g = nd" "full_list cfg s nd (gm_mid cfg g) tog cs" "kont_rep nd s k ks" unfolding GFree pc_rep.simps by blast
  moreover from this assms(2) have "agree (set cs) s s'" "agree (set ks) s s'" by (simp_all only: agree_Un set_append)
  ultimately show ?thesis unfolding GFree pc_rep.simps by (blast intro: full_list_frame kont_rep_frame)
next
  case (PFree g lst k)
  from assms(1) obtain bss ks where "bs = concat bss @ ks" "gm_node cfg g = nd" "listlist any_count (a_heap s) nd lst bss" "kont_rep nd s k ks" unfolding PFree pc_rep.simps by blast
  moreover from this assms(2) have "agree (set (concat bss)) s s'" "agree (set ks) s s'" by (simp_all only: agree_Un set_append)
  ultimately show ?thesis unfolding PFree pc_rep.simps by (blast intro: listlist_agree kont_rep_frame)
next
  case (PCell g el nl k)
  from assms(1) obtain cs bss ks where "bs = cs @ concat bss @ ks" "gm_node cfg g = nd" "cells (a_heap s) nd el cs" "listlist any_count (a_heap s) nd nl bss" "kont_rep nd s k ks" unfolding PCell pc_rep.simps by blast
  moreover from this assms(2) have "agree (set cs) s s'" "agree (set (concat bss)) s s'" "agree (set ks) s s'" by (simp_all only: agree_Un set_append)
  ultimately show ?thesis unfolding PCell pc_rep.simps by (blast intro: cells_agree listlist_agree kont_rep_frame)
next
  case (FPush el m k)
  from assms(1) obtain ks where "bs = el # ks" "blk nd el" "a_desc s el = m" "kont_rep nd s k ks" unfolding FPush pc_rep.simps by blast
  moreover from this assms(2) have "a_desc s' el = a_desc s el" "agree (set ks) s s'" by (simp_all add: agree_at)
  ultimately show ?thesis unfolding FPush by (simp add: kont_rep_frame)
next
  case (FMove tmp m k)
  from assms(1) obtain cs ks where "bs = cs @ ks" "cs \<noteq> []" "full_list cfg s nd m tmp cs" "kont_rep nd s k ks" unfolding FMove pc_rep.simps by blast
  moreover from this assms(2) have "agree (set cs) s s'" "agree (set ks) s s'" by (simp_all only: agree_Un set_append)
  ultimately show ?thesis unfolding FMove pc_rep.simps by (blast intro: full_list_frame kont_rep_frame)
next
  case (FRemote el m k)
  from assms(1) obtain ks where "bs = el # ks" "a_desc s el = m" "kont_rep nd s k ks" unfolding FRemote pc_rep.simps by blast
  moreover from this assms(2) have "a_desc s' el = a_desc s el" "agree (set ks) s s'" by (simp_all add: agree_at)
  ultimately show ?thesis unfolding FRemote by (simp add: kont_rep_frame)
next
  case (FRFull lst n k)
  from assms(1) obtain cs ks where "bs = cs @ ks" "cs \<noteq> []" "chain (a_heap s) n lst cs" "marked s (tl cs)" "kont_rep nd s k ks" unfolding FRFull pc_rep.simps by blast
  moreover from this assms(2) have "agree (set cs) s s'" "agree (set ks) s s'" by (simp_all only: agree_Un set_append)
  ultimately show ?thesis unfolding FRFull pc_rep.simps by (blast intro: chain_agree marked_frame tl_agree kont_rep_frame)
next
  case (FRCas lst n tmp k)
  from assms(1) obtain cs ks where "bs = cs @ ks" "cs \<noteq> []" "chain (a_heap s) n lst cs" "marked s (tl cs)" "kont_rep nd s k ks" unfolding FRCas pc_rep.simps by blast
  moreover from this assms(2) have "agree (set cs) s s'" "agree (set ks) s s'" by (simp_all only: agree_Un set_append)
  ultimately show ?thesis unfolding FRCas pc_rep.simps by (blast intro: chain_agree marked_frame tl_agree kont_rep_frame)
next
  case (GCells m el nl)
  from assms show ?thesis unfolding GCells pc_rep.simps(4) by (rule kont_rep_frame)
next
  case (AGot m el)
  with assms show ?thesis by (simp add: agree_at)
qed (use assms in \<open>auto intro: rep_frames\<close>)

lemma rep_frame:
  assumes "rep cfg s x bs" "agree (set bs) s s'" "same_at x s s'"
  shows "rep cfg s' x bs"
proof (cases x)
  case (OG g)
  from assms(1) obtain bss where "bs = concat bss" "listlist (gcount (numListsTarget cfg g)) (a_heap s) (gm_node cfg g) (a_gm s g) bss"
      "\<forall>l\<in>set bss. length l \<le> listSize cfg g" "descs s (gm_mid cfg g) bs" unfolding OG rep.simps by blast
  moreover from this assms(2,3) have "listlist (gcount (numListsTarget cfg g)) (a_heap s') (gm_node cfg g) (a_gm s' g) bss"
    unfolding OG same_at.simps by (simp add: listlist_agree del: set_concat)
  moreover have "descs s' (gm_mid cfg g) bs" using calculation(4) assms(2) by (rule descs_frame)
  ultimately show ?thesis unfolding OG rep.simps by blast
next
  case (OFrom n)
  from assms(1) obtain bss where "bs = concat bss" "home_lists s n (a_from s n) bss" unfolding OFrom rep.simps by blast
  moreover from this assms(2,3) have "home_lists s' n (a_from s' n) bss"
    unfolding OFrom same_at.simps by (simp add: home_lists_frame del: set_concat)
  ultimately show ?thesis unfolding OFrom rep.simps by blast
next
  case (ORemote v n)
  with assms show ?thesis by (auto intro: chain_agree marked_frame)
qed (use assms in \<open>auto intro: rep_frames pc_rep_frame\<close>)

lemma has_frame:
  assumes "has cfg s x B" "agree B s s'" "same_at x s s'"
  shows "has cfg s' x B"
proof (cases "x \<in> {OClient, OSource, ONone}")
  case True
  with assms show ?thesis by (auto simp: has_def)
next
  case False
  then have list: "has cfg u x B \<longleftrightarrow> (\<exists>bs. distinct bs \<and> set bs = B \<and> rep cfg u x bs)" for u
    by (cases x) (simp_all add: has_def)
  with assms show ?thesis by (metis rep_frame)
qed

text \<open>A step that moves blocks between two owners, and changes memory of these two only.\<close>

lemma ok_move:
  assumes ok: "al_ok cfg U own s" and xy: "x \<noteq> y" "x \<noteq> ONone" "y \<noteq> ONone"
    and B: "Bx \<union> By = {b. own b = x} \<union> {b. own b = y}" "Bx \<inter> By = {}"
    and new: "has cfg s' x Bx" "has cfg s' y By"
    and same: "\<And>z. z \<noteq> x \<Longrightarrow> z \<noteq> y \<Longrightarrow> same_at z s s'"
    and mem: "\<And>b. own b \<noteq> x \<Longrightarrow> own b \<noteq> y \<Longrightarrow> a_heap s' b = a_heap s b \<and> a_desc s' b = a_desc s b"
    and desc: "\<And>b. b \<in> Bx \<Longrightarrow> x \<noteq> OSource \<Longrightarrow> a_desc s' b < NUM_MALLOCS" "\<And>b. b \<in> By \<Longrightarrow> y \<noteq> OSource \<Longrightarrow> a_desc s' b < NUM_MALLOCS"
  shows "al_inv cfg U s'"
proof -
  define own' where "own' = (\<lambda>b. if b \<in> Bx then x else if b \<in> By then y else own b)"
  have sets: "{b. own' b = x} = Bx" "{b. own' b = y} = By" "{b. own' b \<noteq> ONone} = {b. own b \<noteq> ONone}"
    using xy B unfolding own'_def by (auto split: if_splits)
  have other: "{b. own' b = z} = {b. own b = z}" if "z \<noteq> x" "z \<noteq> y" for z
    using that B unfolding own'_def by (auto split: if_splits)
  have "has cfg s' z {b. own' b = z}" for z
  proof (cases "z = x \<or> z = y")
    case True
    then show ?thesis using new sets by auto
  next
    case False
    moreover have "agree {b. own b = z} s s'" using mem False by (auto simp: agree_def)
    ultimately show ?thesis using ok same [of z] other [of z] by (auto simp: al_ok_def intro: has_frame)
  qed
  moreover have "a_desc s' b < NUM_MALLOCS" if "own' b \<noteq> ONone" "own' b \<noteq> OSource" for b
  proof (cases "b \<in> Bx \<union> By")
    case True
    then show ?thesis using that desc sets unfolding own'_def by (auto split: if_splits)
  next
    case False
    then have "own b \<noteq> x" "own b \<noteq> y" "own' b = own b" using B by (auto simp: own'_def)
    then show ?thesis using ok that mem [of b] by (auto simp: al_ok_def)
  qed
  ultimately have "al_ok cfg U own' s'" using ok sets(3) by (auto simp: al_ok_def)
  then show ?thesis by (auto simp: al_inv_def)
qed

lemma ok_list:
  assumes "al_ok cfg U own s" "x \<notin> {OClient, OSource, ONone}"
  obtains bs where "distinct bs" "set bs = {b. own b = x}" "rep cfg s x bs"
proof -
  have "has cfg s x {b. own b = x}" using assms(1) by (simp add: al_ok_def)
  then show ?thesis using assms(2) that by (cases x) (auto simp: has_def)
qed

lemma ok_thread:
  assumes "al_ok cfg U own s"
  obtains bs where "distinct bs" "set bs = {b. own b = OThread t}" "pc_rep cfg (vp_node cfg (vp_of cfg t)) s (a_pc s t) bs"
  using ok_list [OF assms, of "OThread t"] by auto

lemma ok_sets:
  assumes "al_ok cfg U own s"
  shows "{b. own b = OClient} = a_client s" "{b. own b = OSource} = a_source s" "{b. own b \<noteq> ONone} = U" "\<forall>b\<in>U. blk (numaNode b) b"
proof -
  have "has cfg s OClient {b. own b = OClient}" "has cfg s OSource {b. own b = OSource}" using assms by (simp_all add: al_ok_def)
  then show "{b. own b = OClient} = a_client s" "{b. own b = OSource} = a_source s" by (simp_all add: has_def)
qed (use assms in \<open>auto simp: al_ok_def\<close>)

lemma ok_mem:
  assumes "al_ok cfg U own s"
  shows "b \<in> a_client s \<longleftrightarrow> own b = OClient" "b \<in> a_source s \<longleftrightarrow> own b = OSource" "b \<in> U \<longleftrightarrow> own b \<noteq> ONone"
  using ok_sets(1-3) [OF assms] by auto

lemma hasI:
  "x \<notin> {OClient, OSource, ONone} \<Longrightarrow> distinct bs \<Longrightarrow> set bs = B \<Longrightarrow> rep cfg s x bs \<Longrightarrow> has cfg s x B"
  by (cases x) (auto simp: has_def)

lemma ok_desc: "al_ok cfg U own s \<Longrightarrow> own b = x \<Longrightarrow> x \<notin> {OSource, ONone} \<Longrightarrow> a_desc s b < NUM_MALLOCS"
  by (auto simp: al_ok_def)

text \<open>The two shapes of a step of a thread: it keeps its blocks, or it exchanges blocks with one list.\<close>

lemma thread_only:
  assumes ok: "al_ok cfg U own s" and bs: "distinct bs" "set bs = {b. own b = OThread t}"
    and r: "pc_rep cfg (vp_node cfg (vp_of cfg t)) s' (a_pc s' t) bs"
    and same: "\<And>z. z \<noteq> OThread t \<Longrightarrow> same_at z s s'"
    and mem: "\<And>b. b \<notin> set bs \<Longrightarrow> a_heap s' b = a_heap s b" and d: "a_desc s' = a_desc s"
  shows "al_inv cfg U s'"
proof (rule ok_move [OF ok, of "OThread t" OClient "set bs" "{b. own b = OClient}"])
  show "has cfg s' (OThread t) (set bs)" using bs r by (intro hasI) auto
  show "has cfg s' OClient {b. own b = OClient}" using ok_sets [OF ok] same [of OClient] by (simp add: has_def)
  show "a_desc s' b < NUM_MALLOCS" if "b \<in> set bs" for b using that bs ok_desc [OF ok, of b "OThread t"] d by simp
  show "a_desc s' b < NUM_MALLOCS" if "b \<in> {b. own b = OClient}" for b using that ok_desc [OF ok, of b OClient] d by simp
qed (use bs same mem d in auto)

lemma thread_swap:
  assumes ok: "al_ok cfg U own s" and y: "y \<notin> {OClient, OSource, ONone, OThread t}"
    and bs: "distinct (bt @ bs)" "set (bt @ bs) = {b. own b = OThread t} \<union> {b. own b = y}"
    and r: "pc_rep cfg (vp_node cfg (vp_of cfg t)) s' (a_pc s' t) bt" "rep cfg s' y bs"
    and same: "\<And>z. z \<noteq> OThread t \<Longrightarrow> z \<noteq> y \<Longrightarrow> same_at z s s'"
    and mem: "\<And>b. b \<notin> set (bt @ bs) \<Longrightarrow> a_heap s' b = a_heap s b" and d: "a_desc s' = a_desc s"
  shows "al_inv cfg U s'"
proof (rule ok_move [OF ok, of "OThread t" y "set bt" "set bs"])
  show "has cfg s' (OThread t) (set bt)" using bs r by (intro hasI) auto
  show "has cfg s' y (set bs)" using y bs r by (intro hasI) auto
  have b: "a_desc s' b < NUM_MALLOCS" if "b \<in> set (bt @ bs)" for b
    using that ok_desc [OF ok, of b "OThread t"] ok_desc [OF ok, of b y] y d unfolding bs(2) by auto
  then show "a_desc s' b < NUM_MALLOCS" if "b \<in> set bt" for b using that by simp
  show "a_desc s' b < NUM_MALLOCS" if "b \<in> set bs" for b using that b by simp
  show "a_heap s' b = a_heap s b \<and> a_desc s' b = a_desc s b" if "own b \<noteq> OThread t" "own b \<noteq> y" for b
  proof -
    have "b \<notin> set (bt @ bs)" using that bs(2) by (simp del: set_append)
    then show ?thesis using mem d by simp
  qed
qed (use bs y same in auto)

lemma setter_simps [simp]:
  "a_heap (ago t p s) = a_heap s" "a_desc (ago t p s) = a_desc s" "a_pc (ago t p s) = (a_pc s)(t := p)" "a_lml (ago t p s) = a_lml s"
  "a_gm (ago t p s) = a_gm s" "a_remote (ago t p s) = a_remote s" "a_from (ago t p s) = a_from s" "a_client (ago t p s) = a_client s"
  "a_source (ago t p s) = a_source s"
  "a_heap (set_free v m w s) = a_heap s" "a_desc (set_free v m w s) = a_desc s" "a_pc (set_free v m w s) = a_pc s"
  "freeList (a_lml (set_free v m w s) v m) = w" "auxList (a_lml (set_free v m w s) v' m') = auxList (a_lml s v' m')"
  "a_heap (set_aux v m w s) = a_heap s" "a_desc (set_aux v m w s) = a_desc s" "a_pc (set_aux v m w s) = a_pc s"
  "auxList (a_lml (set_aux v m w s) v m) = w" "freeList (a_lml (set_aux v m w s) v' m') = freeList (a_lml s v' m')"
  "a_heap (set_gm g w s) = a_heap s" "a_desc (set_gm g w s) = a_desc s" "a_pc (set_gm g w s) = a_pc s" "a_gm (set_gm g w s) g = w"
  "a_heap (set_remote v n w s) = a_heap s" "a_desc (set_remote v n w s) = a_desc s" "a_pc (set_remote v n w s) = a_pc s"
  "a_remote (set_remote v n w s) v n = w"
  "a_heap (set_from n w s) = a_heap s" "a_desc (set_from n w s) = a_desc s" "a_pc (set_from n w s) = a_pc s" "a_from (set_from n w s) n = w"
  by (auto simp: ago_def set_free_def set_aux_def set_gm_def set_remote_def set_from_def)

lemma same_simps [simp]:
  "z \<noteq> OThread t \<Longrightarrow> same_at z s (ago t p u) = same_at z s u"
  "z \<noteq> OFree v m \<Longrightarrow> same_at z s (set_free v m w u) = same_at z s u"
  "z \<noteq> OAux v m \<Longrightarrow> same_at z s (set_aux v m w u) = same_at z s u"
  "z \<noteq> OG g \<Longrightarrow> same_at z s (set_gm g w u) = same_at z s u"
  "z \<noteq> ORemote v n \<Longrightarrow> same_at z s (set_remote v n w u) = same_at z s u"
  "z \<noteq> OFrom n \<Longrightarrow> same_at z s (set_from n w u) = same_at z s u"
  "same_at z s (u\<lparr>a_heap := h\<rparr>) = same_at z s u"
  "same_at z s (u\<lparr>a_desc := d\<rparr>) = same_at z s u"
  "z \<noteq> OClient \<Longrightarrow> same_at z s (u\<lparr>a_client := C\<rparr>) = same_at z s u"
  "z \<noteq> OSource \<Longrightarrow> same_at z s (u\<lparr>a_source := C\<rparr>) = same_at z s u"
  "same_at z s s"
  by (cases z; auto simp: ago_def set_free_def set_aux_def set_gm_def set_remote_def set_from_def)+

lemma mem_cong:
  assumes "a_heap s' = a_heap s" "a_desc s' = a_desc s"
  shows "descs s' = descs s" "marked s' = marked s" "full_list cfg s' = full_list cfg s" "home_lists s' = home_lists s"
    "kont_rep nd s' = kont_rep nd s" "pc_rep cfg nd s' = pc_rep cfg nd s"
proof -
  show d: "descs s' = descs s" and m: "marked s' = marked s" using assms by (auto simp: descs_def marked_def fun_eq_iff)
  show f: "full_list cfg s' = full_list cfg s" and l: "home_lists s' = home_lists s"
    by (intro ext, simp add: full_list_def assms d) (intro ext, simp add: home_lists_def assms m)
  have k: "kont_rep nd s' k bs = kont_rep nd s k bs" for k bs by (cases k) (simp_all add: assms d m l)
  then show "kont_rep nd s' = kont_rep nd s" by (intro ext)
  have "pc_rep cfg nd s' p bs = pc_rep cfg nd s p bs" for p bs by (cases p) (simp_all add: assms d m l f k del: kont_rep.simps)
  then show "pc_rep cfg nd s' = pc_rep cfg nd s" by (intro ext)
qed

lemmas mem_simps [simp] =
  mem_cong [of "ago t p s" s for t p s, OF setter_simps(1,2)] mem_cong [of "set_free v m w s" s for v m w s, OF setter_simps(10,11)]
  mem_cong [of "set_aux v m w s" s for v m w s, OF setter_simps(15,16)] mem_cong [of "set_gm g w s" s for g w s, OF setter_simps(20,21)]
  mem_cong [of "set_remote v n w s" s for v n w s, OF setter_simps(24,25)] mem_cong [of "set_from n w s" s for n w s, OF setter_simps(28,29)]

lemma mem_env [simp]:
  "pc_rep cfg nd (s\<lparr>a_client := C\<rparr>) = pc_rep cfg nd s" "pc_rep cfg nd (s\<lparr>a_source := C\<rparr>) = pc_rep cfg nd s"
  by (rule mem_cong; simp)+

section \<open>Every step keeps the ownership\<close>

lemma full_list_tl:
  "full_list cfg s nd m w (b # bs) \<Longrightarrow> full_list cfg s nd m (c_next (a_heap s b)) bs \<and> blk nd b \<and> a_desc s b = m"
  by (auto simp: full_list_def descs_def)

lemma full_list_zero: "full_list cfg s nd m 0 bs \<longleftrightarrow> bs = []"
  by (cases bs) (auto simp: full_list_def descs_def dest: blk_nonzero AllocCellPtr_nonzero)

lemma full_list_iff_zero: "full_list cfg s nd m w bs \<Longrightarrow> w = 0 \<longleftrightarrow> bs = []"
  unfolding full_list_def using chain_empty by blast

lemma inv_pop:
  assumes ok: "al_ok cfg U own s" and p: "a_pc s t = MPop m \<and> none = SPop m \<or> a_pc s t = SPop m \<and> none = SAux m"
  shows "al_inv cfg U (lMalloc_pop cfg m none t s)"
proof -
  let ?v = "vp_of cfg t"
  obtain bt where bt: "distinct bt" "set bt = {b. own b = OThread t}" "pc_rep cfg (vp_node cfg ?v) s (a_pc s t) bt"
    by (rule ok_thread [OF ok])
  then have bt0: "bt = []" using p by auto
  obtain bs where bs: "distinct bs" "set bs = {b. own b = OFree ?v m}" "rep cfg s (OFree ?v m) bs"
    by (rule ok_list [OF ok, of "OFree ?v m"]) auto
  then have l: "full_list cfg s (vp_node cfg ?v) m (freeList (a_lml s ?v m)) bs" by simp
  then have pc: "pop (vp_node cfg ?v) (a_heap s) (freeList (a_lml s ?v m)) = (case bs of [] \<Rightarrow> (0, 0) | b # bs' \<Rightarrow> (b, c_next (a_heap s b)))"
    by (intro pop_chain) (simp add: full_list_def)
  show ?thesis
  proof (cases bs)
    case Nil
    then have "lMalloc_pop cfg m none t s = ago t none s" using pc by (simp add: lMalloc_pop_def Let_def)
    moreover have "al_inv cfg U (ago t none s)" by (rule thread_only [OF ok bt(1,2)]) (use p bt0 in auto)
    ultimately show ?thesis by simp
  next
    case (Cons b bs')
    note tl = full_list_tl [OF l [unfolded Cons]]
    then have e: "lMalloc_pop cfg m none t s = ago t (AGot m b) (set_free ?v m (c_next (a_heap s b)) s)"
      using pc Cons blk_nonzero by (auto simp: lMalloc_pop_def Let_def)
    show ?thesis unfolding e
      by (rule thread_swap [OF ok, of "OFree ?v m" t "[b]" bs']) (use bs Cons bt bt0 tl in auto)
  qed
qed

lemma inv_slow_aux:
  assumes ok: "al_ok cfg U own s" and p: "a_pc s t = SAux m"
  shows "al_inv cfg U (slow_aux cfg m t s)"
proof -
  let ?v = "vp_of cfg t"
  obtain bt where bt: "distinct bt" "set bt = {b. own b = OThread t}" "pc_rep cfg (vp_node cfg ?v) s (a_pc s t) bt"
    by (rule ok_thread [OF ok])
  obtain bs where bs: "distinct bs" "set bs = {b. own b = OAux ?v m}" "rep cfg s (OAux ?v m) bs"
    by (rule ok_list [OF ok, of "OAux ?v m"]) auto
  then have l: "full_list cfg s (vp_node cfg ?v) m (auxList (a_lml s ?v m)) bs" by simp
  show ?thesis unfolding slow_aux_def Let_def getAndZero_def split_beta fst_conv snd_conv
    by (rule thread_swap [OF ok, of "OAux ?v m" t bs "[]"])
       (use bt bs l p full_list_iff_zero [OF l] in \<open>auto simp: isEmpty_def full_list_zero\<close>)
qed

lemma inv_slow_setFree:
  assumes ok: "al_ok cfg U own s" and p: "a_pc s t = SSetFree m tmp"
  shows "al_inv cfg U (slow_setFree cfg m tmp t s)"
proof -
  let ?v = "vp_of cfg t"
  obtain bt where bt: "distinct bt" "set bt = {b. own b = OThread t}" "pc_rep cfg (vp_node cfg ?v) s (a_pc s t) bt"
    by (rule ok_thread [OF ok])
  obtain bs where bs: "distinct bs" "set bs = {b. own b = OFree ?v m}" "rep cfg s (OFree ?v m) bs"
    by (rule ok_list [OF ok, of "OFree ?v m"]) auto
  show ?thesis
  proof (cases "freeList (a_lml s ?v m) = 0")
    case True
    then have "bs = []" using bs(3) by (simp add: full_list_zero)
    with True show ?thesis unfolding slow_setFree_def Let_def setIfZero_def split_beta
      by (intro thread_swap [OF ok, of "OFree ?v m" t "[]" bt]) (use bt bs p in auto)
  next
    case False
    have "al_inv cfg U (ago t (SSetAux m tmp) (set_free ?v m (freeList (a_lml s ?v m)) s))"
      by (rule thread_swap [OF ok, of "OFree ?v m" t bt bs]) (use bt bs p in auto)
    with False show ?thesis by (simp add: slow_setFree_def Let_def setIfZero_def)
  qed
qed

lemma resume_rep: "kont_rep nd s k bs \<Longrightarrow> cfg_ok cfg \<Longrightarrow> pc_rep cfg nd s (resume k) bs"
proof (cases k)
  case (KGrow m tried fresh)
  moreover assume "kont_rep nd s k bs" "cfg_ok cfg"
  ultimately show ?thesis by (auto simp: full_list_zero cfg_ok_def intro!: exI [of _ bs])
qed (auto simp del: kont_rep.simps simp: kont_rep.simps(1,2))

lemma inv_put_aux:
  assumes ok: "al_ok cfg U own s" and c: "cfg_ok cfg"
    and p: "a_pc s t = SSetAux m tmp \<and> k = KSlow m \<or> a_pc s t = FMove tmp m k"
  shows "al_inv cfg U (put_aux cfg tmp m k t s)"
proof -
  let ?v = "vp_of cfg t" and ?nd = "vp_node cfg (vp_of cfg t)"
  obtain bt where bt: "distinct bt" "set bt = {b. own b = OThread t}" "pc_rep cfg ?nd s (a_pc s t) bt"
    by (rule ok_thread [OF ok])
  then obtain cs ks where cs: "bt = cs @ ks" "cs \<noteq> []" "full_list cfg s ?nd m tmp cs" "kont_rep ?nd s k ks" using p by auto
  obtain bs where bs: "distinct bs" "set bs = {b. own b = OAux ?v m}" "rep cfg s (OAux ?v m) bs"
    by (rule ok_list [OF ok, of "OAux ?v m"]) auto
  show ?thesis
  proof (cases "auxList (a_lml s ?v m) = 0")
    case True
    then have "bs = []" using bs(3) by (simp add: full_list_zero)
    with True show ?thesis unfolding put_aux_def Let_def setIfZero_def split_beta
      by (intro thread_swap [OF ok, of "OAux ?v m" t ks cs]) (use bt bs cs c resume_rep in auto)
  next
    case False
    have g: "gm_node cfg (gm_of cfg ?v m) = ?nd" "gm_mid cfg (gm_of cfg ?v m) = m" using c by (auto simp: cfg_ok_def)
    have "al_inv cfg U (ago t (GFree (gm_of cfg ?v m) tmp k) (set_aux ?v m (auxList (a_lml s ?v m)) s))"
    proof (rule thread_swap [OF ok, of "OAux ?v m" t bt bs])
      show "distinct (bt @ bs)" using bt bs by auto
      show "pc_rep cfg ?nd (ago t (GFree (gm_of cfg ?v m) tmp k) (set_aux ?v m (auxList (a_lml s ?v m)) s))
          (a_pc (ago t (GFree (gm_of cfg ?v m) tmp k) (set_aux ?v m (auxList (a_lml s ?v m)) s)) t) bt"
        using cs g by auto
    qed (use bt bs in auto)
    with False show ?thesis by (simp add: put_aux_def Let_def setIfZero_def)
  qed
qed

lemma listlist_Cons:
  assumes "listlist P h nd w bss" "w \<noteq> 0"
  obtains b bs bss' where "bss = (b # bs) # bss'" "pointer w nd = b" "blk nd b" "chain h nd (c_next (h b)) bs" "listlist P h nd (c_nextList (h b)) bss'"
  using assms by (cases "(P, h, nd, w, bss)" rule: listlist.cases) auto

lemma inv_gMalloc_section:
  assumes ok: "al_ok cfg U own s" and c: "cfg_ok cfg" and p: "a_pc s t = GTake m tried"
  shows "al_inv cfg U (gMalloc_section cfg m tried t s)"
proof -
  let ?v = "vp_of cfg t" and ?nd = "vp_node cfg (vp_of cfg t)"
  let ?g = "gm_of cfg ?v m"
  have g: "gm_node cfg ?g = ?nd" "gm_mid cfg ?g = m" "listSize cfg ?g = maxCount cfg m" "maxCount cfg m \<le> 4095"
    using c by (auto simp: cfg_ok_def CELL_MAX_COUNT_def LOG_MAX_NUMANODES_def)
  obtain bt where bt: "distinct bt" "set bt = {b. own b = OThread t}" "pc_rep cfg ?nd s (a_pc s t) bt" by (rule ok_thread [OF ok])
  obtain bs where bs: "distinct bs" "set bs = {b. own b = OG ?g}" "rep cfg s (OG ?g) bs" by (rule ok_list [OF ok, of "OG ?g"]) auto
  then obtain bss where bss: "bs = concat bss" "listlist (gcount (numListsTarget cfg ?g)) (a_heap s) ?nd (a_gm s ?g) bss"
      "\<forall>l\<in>set bss. length l \<le> maxCount cfg m" "descs s m bs" using g by auto
  show ?thesis
  proof (cases "a_gm s ?g = 0")
    case True
    have "al_inv cfg U (ago t (if tried then GAsk m tried else GCheck m) s)" by (rule thread_only [OF ok bt(1,2)]) (use bt p in auto)
    with True show ?thesis by (simp add: gMalloc_section_def Let_def gMalloc_take_def isEmpty_def)
  next
    case False
    obtain b cs rest where l: "bss = (b # cs) # rest" "pointer (a_gm s ?g) ?nd = b" "blk ?nd b" "chain (a_heap s) ?nd (c_next (a_heap s b)) cs"
        "listlist (gcount (numListsTarget cfg ?g)) (a_heap s) ?nd (c_nextList (a_heap s b)) rest"
      by (rule listlist_Cons [OF bss(2) False])
    have "cell_count (c_next (a_heap s b)) = of_nat (length cs)" using bss(3) l g(4) by (intro chain_count [OF l(4)]) auto
    then have e: "gMalloc_section cfg m tried t s =
        ago t (SSetFree m (AllocCellPtr (of_nat (Suc (length cs))) b)) (set_gm ?g (c_nextList (a_heap s b)) s)"
      using False l(2) by (simp add: gMalloc_section_def Let_def gMalloc_take_def isEmpty_def g add.commute)
    show ?thesis unfolding e
      by (rule thread_swap [OF ok, of "OG ?g" t "b # cs" "concat rest"])
         (use bt bs p l bss g in \<open>auto simp: full_list_def descs_def\<close>)
  qed
qed

lemma inv_remote_check:
  assumes ok: "al_ok cfg U own s" and p: "a_pc s t = GCheck m"
  shows "al_inv cfg U (remote_check cfg m t s)"
proof -
  obtain bt where bt: "distinct bt" "set bt = {b. own b = OThread t}" "pc_rep cfg (vp_node cfg (vp_of cfg t)) s (a_pc s t) bt"
    by (rule ok_thread [OF ok])
  show ?thesis unfolding remote_check_def by (rule thread_only [OF ok bt(1,2)]) (use bt p in auto)
qed

lemma home_lists_zero: "home_lists s n 0 bss \<longleftrightarrow> bss = []"
  unfolding home_lists_def using listlist_empty [of any_count "a_heap s" n 0 bss] by auto

lemma inv_remote_fetch:
  assumes ok: "al_ok cfg U own s" and p: "a_pc s t = GFetch m"
  shows "al_inv cfg U (remote_fetch cfg m t s)"
proof -
  let ?nd = "vp_node cfg (vp_of cfg t)"
  obtain bt where bt: "distinct bt" "set bt = {b. own b = OThread t}" "pc_rep cfg ?nd s (a_pc s t) bt" by (rule ok_thread [OF ok])
  obtain bs where bs: "distinct bs" "set bs = {b. own b = OFrom ?nd}" "rep cfg s (OFrom ?nd) bs" by (rule ok_list [OF ok, of "OFrom ?nd"]) auto
  then obtain bss where bss: "bs = concat bss" "home_lists s ?nd (a_from s ?nd) bss" by auto
  show ?thesis unfolding remote_fetch_def Let_def
    by (rule thread_swap [OF ok, of "OFrom ?nd" t bs "[]"])
       (use bt bs bss p home_lists_zero [of s ?nd bss] in \<open>auto simp: home_lists_zero simp del: set_concat\<close>)
qed

lemma listlist_pointer:
  "listlist any_count h nd w bss \<Longrightarrow>
     listlist any_count h nd (pointer w nd) bss \<and> pointer w nd = (case bss of [] \<Rightarrow> 0 | l # _ \<Rightarrow> hd l)"
  by (cases "(any_count, h, nd, w, bss)" rule: listlist.cases) (auto simp: any_count_def dest: blk_nonzero)

lemma home_lists_Cons:
  assumes "home_lists s nd el bss" "el \<noteq> 0"
  obtains cs rest where "bss = (el # cs) # rest" "blk nd el" "chain (a_heap s) nd (c_next (a_heap s el)) cs" "marked s cs"
    "home_lists s nd (pointer (c_nextList (a_heap s el)) nd) rest"
proof -
  obtain b cs rest where l: "bss = (b # cs) # rest" "blk nd b" "chain (a_heap s) nd (c_next (a_heap s b)) cs"
      "listlist any_count (a_heap s) nd (c_nextList (a_heap s b)) rest"
    using assms listlist_Cons [of any_count "a_heap s" nd el bss] unfolding home_lists_def by metis
  moreover have "el = b" using assms l(1) by (simp add: home_lists_def)
  moreover have "home_lists s nd (pointer (c_nextList (a_heap s b)) nd) rest"
  proof -
    have "\<forall>l\<in>set rest. marked s (tl l)" using assms(1) l(1) by (simp add: home_lists_def)
    then show ?thesis unfolding home_lists_def using listlist_pointer [OF l(4)] by blast
  qed
  moreover have "marked s cs" using assms(1) l(1) by (simp add: home_lists_def)
  ultimately show ?thesis using that by blast
qed

lemma inv_remote_lists:
  assumes ok: "al_ok cfg U own s" and p: "a_pc s t = GLists m el"
  shows "al_inv cfg U (remote_lists cfg m el t s)"
proof -
  let ?nd = "vp_node cfg (vp_of cfg t)"
  obtain bt where bt: "distinct bt" "set bt = {b. own b = OThread t}" "pc_rep cfg ?nd s (a_pc s t) bt" by (rule ok_thread [OF ok])
  then obtain bss where bss: "bt = concat bss" "home_lists s ?nd el bss" using p by auto
  show ?thesis
  proof (cases "el = 0")
    case True
    then have "bss = []" using bss(2) by (simp add: home_lists_zero)
    with True show ?thesis unfolding remote_lists_def by (simp, intro thread_only [OF ok bt(1,2)]) (use bt bss p in auto)
  next
    case False
    then obtain cs rest where l: "bss = (el # cs) # rest" "blk ?nd el" "chain (a_heap s) ?nd (c_next (a_heap s el)) cs" "marked s cs"
        and rest: "home_lists s ?nd (pointer (c_nextList (a_heap s el)) ?nd) rest"
      by (rule home_lists_Cons [OF bss(2)])
    define s1 where "s1 = s\<lparr>a_heap := put_mallocID el (of_nat (a_desc s el)) (a_heap s)\<rparr>"
    have d: "el \<notin> set cs" "el \<notin> set (concat rest)" using bt(1) bss(1) l(1) by auto
    have ag: "agree (set cs) s s1" "agree (set (concat rest)) s s1"
      using d by (auto simp: agree_def s1_def put_mallocID_def put_nextList_def)
    have "cells (a_heap s1) ?nd el (el # cs)" using l(2,3) by (simp add: s1_def put_mallocID_def)
    moreover have "marked s1 (el # cs)" using marked_frame [OF l(4) ag(1)] by (simp add: marked_def s1_def put_mallocID_def)
    moreover have "home_lists s1 ?nd (pointer (c_nextList (a_heap s el)) ?nd) rest" by (rule home_lists_frame [OF rest ag(2)])
    ultimately have r: "kont_rep ?nd s1 (KRemote m el (pointer (c_nextList (a_heap s el)) ?nd)) bt" 
      unfolding bss(1) l(1) kont_rep.simps by (intro exI [of _ "el # cs"] exI [of _ rest] conjI) auto
    have e: "remote_lists cfg m el t s = ago t (GCells m el (pointer (c_nextList (a_heap s el)) ?nd)) s1"
      using False by (simp add: remote_lists_def s1_def Let_def)
    have "el \<in> set bt" using bss(1) l(1) by simp
    then show ?thesis unfolding e
      by (intro thread_only [OF ok bt(1,2)]) (use r in \<open>auto simp del: kont_rep.simps simp: s1_def put_mallocID_def put_nextList_def\<close>)
  qed
qed

lemma lFree_rep:
  assumes "kont_rep nd s k ks" "blk (numaNode el) el" "a_desc s el = m" "nd = vp_node cfg (vp_of cfg t)"
  shows "pc_rep cfg nd s (lFree cfg el m k t) (el # ks)"
  using assms by (auto simp: lFree_def AddrToNumaNode_def)

lemma unat_mid: "m < NUM_MALLOCS \<Longrightarrow> unat (of_nat m :: uword) = m"
  by (rule unat_small) (simp add: NUM_MALLOCS_eq)

lemma inv_remote_cells:
  assumes ok: "al_ok cfg U own s" and p: "a_pc s t = GCells m el nl"
  shows "al_inv cfg U (remote_cells cfg m el nl t s)"
proof -
  let ?nd = "vp_node cfg (vp_of cfg t)"
  obtain bt where bt: "distinct bt" "set bt = {b. own b = OThread t}" "pc_rep cfg ?nd s (a_pc s t) bt" by (rule ok_thread [OF ok])
  then obtain cs nls where cs: "bt = cs @ concat nls" "cells (a_heap s) ?nd el cs" "marked s cs" "home_lists s ?nd nl nls" using p by auto
  show ?thesis
  proof (cases cs)
    case Nil
    with cs show ?thesis unfolding remote_cells_def by (simp, intro thread_only [OF ok bt(1,2)]) auto
  next
    case (Cons b rest)
    then have el: "el = b" "blk ?nd b" "chain (a_heap s) ?nd (c_next (a_heap s b)) rest" using cs(2) by auto
    have b: "own b = OThread t" using bt(2) cs(1) Cons by auto
    have mid: "unat (cell_mallocID (a_heap s) b) = a_desc s b" "a_desc s b < NUM_MALLOCS"
      using cs(3) Cons ok_desc [OF ok b] by (auto simp: marked_def cell_mallocID_def unat_mid)
    have "kont_rep ?nd s (KRemote m (pointer (c_next (a_heap s b)) ?nd) nl) (rest @ concat nls)"
      unfolding kont_rep.simps using chain_cells [OF el(3)] cs(3,4) Cons by (auto simp: marked_def)
    then have "pc_rep cfg ?nd s (lFree cfg b (a_desc s b) (KRemote m (pointer (c_next (a_heap s b)) ?nd) nl) t) bt"
      unfolding cs(1) Cons append_Cons by (rule lFree_rep) (use el(2) in \<open>auto simp: blk_def\<close>)
    moreover have "remote_cells cfg m el nl t s = ago t (lFree cfg b (a_desc s b) (KRemote m (pointer (c_next (a_heap s b)) ?nd) nl) t) s"
      using el mid blk_nonzero [OF el(2)] by (simp add: remote_cells_def Let_def)
    ultimately show ?thesis by (metis (no_types, lifting) thread_only [OF ok bt(1,2)] fun_upd_same same_simps(1,11) setter_simps(1-3) mem_simps(6))
  qed
qed

lemma inv_gMalloc_convert:
  assumes ok: "al_ok cfg U own s" and c: "cfg_ok cfg" and p: "a_pc s t = GConv m tried fresh part lcnt"
  shows "al_inv cfg U (gMalloc_convert cfg m tried fresh part lcnt t s)"
proof -
  let ?nd = "vp_node cfg (vp_of cfg t)"
  let ?g = "gm_of cfg (vp_of cfg t) m"
  have g: "gm_node cfg ?g = ?nd" "gm_mid cfg ?g = m" "listSize cfg ?g = maxCount cfg m" using c by (auto simp: cfg_ok_def)
  obtain bt where bt: "distinct bt" "set bt = {b. own b = OThread t}" "pc_rep cfg ?nd s (a_pc s t) bt" by (rule ok_thread [OF ok])
  then obtain fs ps where fs: "bt = fs @ ps" "chunks (a_heap s) ?nd fresh fs" "descs s m fs" "full_list cfg s ?nd m part ps" "length ps = lcnt"
      "lcnt < maxCount cfg m" "fs = [] \<longrightarrow> ps = []" using p by auto
  show ?thesis
  proof (cases fs)
    case Nil
    with fs show ?thesis unfolding gMalloc_convert_def by (simp, intro thread_only [OF ok bt(1,2)]) auto
  next
    case (Cons b rest)
    then have b: "fresh = b" "blk ?nd b" "chunks (a_heap s) ?nd (c_next (a_heap s b)) rest" using fs(2) by auto
    define s1 where "s1 = s\<lparr>a_heap := put_next b part (a_heap s)\<rparr>"
    have d: "b \<notin> set rest" "b \<notin> set ps" using bt(1) fs(1) Cons by auto
    have ag: "agree (set rest) s s1" using d by (auto simp: agree_def s1_def put_next_def)
    have r: "chunks (a_heap s1) ?nd (c_next (a_heap s b)) rest" by (rule chunks_agree [OF b(3) ag])
    have "descs s m rest" using fs(3) Cons by (simp add: descs_def)
    then have rd: "descs s1 m rest" using ag by (rule descs_frame)
    have f: "full_list cfg s1 ?nd m (AllocCellPtr (of_nat (Suc lcnt)) b) (b # ps)"
      using fs b(2) Cons d(2) by (auto simp: full_list_def descs_def s1_def simp del: of_nat_Suc)
    let ?next = "c_next (a_heap s b)"
    have e: "gMalloc_convert cfg m tried fresh part lcnt t s =
        ago t (if Suc lcnt = maxCount cfg m \<or> ?next = 0 then GFree ?g (AllocCellPtr (of_nat (Suc lcnt)) b) (KGrow m tried ?next)
               else GConv m tried ?next (AllocCellPtr (of_nat (Suc lcnt)) b) (Suc lcnt)) s1"
      using b(1) blk_nonzero [OF b(2)] g by (simp add: gMalloc_convert_def Let_def s1_def)
    have rest0: "?next = 0 \<longleftrightarrow> rest = []" using b(3) blk_nonzero by (cases rest) auto
    have B: "distinct (b # ps @ rest)" "set (b # ps @ rest) = {b. own b = OThread t}" using bt(1,2) fs(1) Cons by auto
    show ?thesis
    proof (cases "Suc lcnt = maxCount cfg m \<or> ?next = 0")
      case True
      have "pc_rep cfg ?nd s1 (GFree ?g (AllocCellPtr (of_nat (Suc lcnt)) b) (KGrow m tried ?next)) ((b # ps) @ rest)"
        unfolding pc_rep.simps kont_rep.simps using f r rd g by (intro exI conjI) auto
      with True show ?thesis unfolding e
        by (intro thread_only [OF ok B]) (auto simp: s1_def put_next_def simp del: of_nat_Suc)
    next
      case False
      have "pc_rep cfg ?nd s1 (GConv m tried ?next (AllocCellPtr (of_nat (Suc lcnt)) b) (Suc lcnt)) (rest @ b # ps)"
        unfolding pc_rep.simps using f r rd fs(5,6) False rest0 by (intro exI conjI) auto
      with False show ?thesis unfolding e
        by (intro thread_only [OF ok, of "rest @ b # ps"]) (use B in \<open>auto simp: s1_def put_next_def simp del: of_nat_Suc\<close>)
    qed
  qed
qed

lemma gFree_spec_lists:
  assumes "(keep, up) = gFree_spec T c x xs"
  shows "concat keep @ concat up = x @ concat xs" and "set keep \<subseteq> insert x (set xs)"
  using assms by (auto simp: gFree_spec_def simp flip: concat_append split: if_splits dest: in_set_takeD)

lemma inv_gFree_section:
  assumes ok: "al_ok cfg U own s" and c: "cfg_ok cfg" and p: "a_pc s t = GFree g tog k"
  shows "al_inv cfg U (gFree_section cfg g tog k t s)"
proof -
  let ?nd = "vp_node cfg (vp_of cfg t)"
  let ?T = "numListsTarget cfg g"
  obtain bt where bt: "distinct bt" "set bt = {b. own b = OThread t}" "pc_rep cfg ?nd s (a_pc s t) bt" by (rule ok_thread [OF ok])
  then obtain cs ks where cs: "bt = cs @ ks" "cs \<noteq> []" "gm_node cfg g = ?nd" "full_list cfg s ?nd (gm_mid cfg g) tog cs" "kont_rep ?nd s k ks"
    using p by auto
  obtain bs where bs: "distinct bs" "set bs = {b. own b = OG g}" "rep cfg s (OG g) bs" by (rule ok_list [OF ok, of "OG g"]) auto
  then obtain bss where bss: "bs = concat bss" "listlist (gcount ?T) (a_heap s) ?nd (a_gm s g) bss" "\<forall>l\<in>set bss. length l \<le> listSize cfg g"
      "descs s (gm_mid cfg g) bs" using cs(3) by auto
  have T: "2 \<le> ?T" "2 * ?T \<le> 4096" "listSize cfg g = maxCount cfg (gm_mid cfg g)" using c by (auto simp: cfg_ok_def)
  have D: "distinct (bt @ bs)" using bt bs by auto
  have ch: "chain (a_heap s) ?nd tog cs" using cs(4) by (simp add: full_list_def)
  obtain keep ups where sp: "gFree_spec ?T (unat (cell_count (a_gm s g))) cs bss = (keep, ups)" by force
  note spl = gFree_spec_lists [OF sp [symmetric]]
  have "distinct (cs @ concat bss)" using D cs(1) bss(1) by auto
  then obtain h' w up where r: "gFree ?T ?nd DO_GO_UP tog (a_heap s) (a_gm s g) = Some (h', w, up)" "listlist (gcount ?T) h' ?nd w keep"
      "case up of None \<Rightarrow> ups = [] | Some l \<Rightarrow> listlist any_count h' ?nd l ups" "\<And>b. b \<notin> set (cs @ concat bss) \<Longrightarrow> h' b = a_heap s b"
    using gFree_refines [OF bss(2) ch cs(2) _ T(1,2)] sp by (metis fst_conv snd_conv)
  define s1 where "s1 = s\<lparr>a_heap := h'\<rparr>"
  define pc where "pc = (case up of None \<Rightarrow> resume k | Some l \<Rightarrow> PFree g l k)"
  have "agree (set ks) s s1" using D r(4) cs(1) bss(1) by (auto simp: agree_def s1_def)
  with cs(5) have kr: "kont_rep ?nd s1 k ks" by (rule kont_rep_frame)
  have "set (concat keep) \<subseteq> set cs \<union> set bs" using spl(1) bss(1) by (metis Un_subset_iff set_append sup.cobounded1 subset_refl)
  then have "descs s1 (gm_mid cfg g) (concat keep)" using bss(4) cs(4) by (auto simp: descs_def full_list_def s1_def)
  moreover have "\<forall>l\<in>set keep. length l \<le> listSize cfg g" using spl(2) bss(3) cs(4) T(3) by (auto simp: full_list_def)
  ultimately have G: "rep cfg (ago t pc (set_gm g w s1)) (OG g) (concat keep)" using r(2) cs(3) by (auto simp: s1_def)
  have P: "pc_rep cfg ?nd s1 pc (concat ups @ ks)"
    using r(3) resume_rep [OF kr c] kr cs(3) by (auto simp: pc_def s1_def split: option.splits)
  have "mset ((concat ups @ ks) @ concat keep) = mset (bt @ bs)"
    using arg_cong [OF spl(1), of mset] cs(1) bss(1) by (simp add: ac_simps)
  then have M: "distinct ((concat ups @ ks) @ concat keep)" "set ((concat ups @ ks) @ concat keep) = set (bt @ bs)"
    using D mset_eq_imp_distinct_iff mset_eq_setD by (metis, blast)
  have e: "gFree_section cfg g tog k t s = ago t pc (set_gm g w s1)" using r(1) cs(3) by (simp add: gFree_section_def pc_def s1_def)
  show ?thesis unfolding e
  proof (rule thread_swap [OF ok, of "OG g" t "concat ups @ ks" "concat keep"])
    show "set ((concat ups @ ks) @ concat keep) = {b. own b = OThread t} \<union> {b. own b = OG g}" using M(2) bt(2) bs(2) by simp
    show "a_heap (ago t pc (set_gm g w s1)) b = a_heap s b" if "b \<notin> set ((concat ups @ ks) @ concat keep)" for b
      using that r(4) cs(1) bss(1) unfolding M(2) by (simp add: s1_def)
  qed (use M(1) P G in \<open>simp_all add: s1_def\<close>)
qed

lemma inv_pFree_lists:
  assumes ok: "al_ok cfg U own s" and c: "cfg_ok cfg" and p: "a_pc s t = PFree g lst k"
  shows "al_inv cfg U (pFree_lists cfg g lst k t s)"
proof -
  let ?nd = "vp_node cfg (vp_of cfg t)"
  obtain bt where bt: "distinct bt" "set bt = {b. own b = OThread t}" "pc_rep cfg ?nd s (a_pc s t) bt" by (rule ok_thread [OF ok])
  then obtain bss ks where b: "bt = concat bss @ ks" "gm_node cfg g = ?nd" "listlist any_count (a_heap s) ?nd lst bss" "kont_rep ?nd s k ks"
    using p by auto
  show ?thesis
  proof (cases "lst = 0")
    case True
    then have "bss = []" using listlist_empty [OF b(3)] by simp
    then show ?thesis unfolding pFree_lists_def using True
      by (intro thread_only [OF ok bt(1,2)]) (use b resume_rep [OF b(4) c] in \<open>auto simp: isEmpty_def\<close>)
  next
    case False
    obtain x cs rest where l: "bss = (x # cs) # rest" "pointer lst ?nd = x" "blk ?nd x" "chain (a_heap s) ?nd (c_next (a_heap s x)) cs"
        "listlist any_count (a_heap s) ?nd (c_nextList (a_heap s x)) rest" by (rule listlist_Cons [OF b(3) False])
    have "pc_rep cfg ?nd s (PCell g x (c_nextList (a_heap s x)) k) bt"
      unfolding pc_rep.simps b(1) l(1) using l b(2,4) by (intro exI [of _ "x # cs"] exI [of _ rest] exI [of _ ks]) simp
    then show ?thesis unfolding pFree_lists_def using False
      by (intro thread_only [OF ok bt(1,2)]) (use b(2) l(2) in \<open>auto simp: isEmpty_def Let_def simp del: pc_rep.simps\<close>)
  qed
qed

lemma inv_pFree_cells:
  assumes ok: "al_ok cfg U own s" and p: "a_pc s t = PCell g el nl k"
  shows "al_inv cfg U (pFree_cells cfg g el nl k t s)"
proof -
  let ?nd = "vp_node cfg (vp_of cfg t)"
  obtain bt where bt: "distinct bt" "set bt = {b. own b = OThread t}" "pc_rep cfg ?nd s (a_pc s t) bt" by (rule ok_thread [OF ok])
  then obtain cs bss ks where b: "bt = cs @ concat bss @ ks" "gm_node cfg g = ?nd" "cells (a_heap s) ?nd el cs"
      "listlist any_count (a_heap s) ?nd nl bss" "kont_rep ?nd s k ks" using p by auto
  show ?thesis
  proof (cases cs)
    case Nil
    with b show ?thesis unfolding pFree_cells_def by (simp, intro thread_only [OF ok bt(1,2)]) auto
  next
    case (Cons x rest)
    then have x: "el = x" "blk ?nd x" "chain (a_heap s) ?nd (c_next (a_heap s x)) rest" using b(3) by auto
    let ?bt = "rest @ concat bss @ ks"
    define s1 where "s1 = ago t (PCell g (pointer (c_next (a_heap s x)) ?nd) nl k) (s\<lparr>a_source := insert x (a_source s)\<rparr>)"
    have e: "pFree_cells cfg g el nl k t s = s1"
      using x(1) blk_nonzero [OF x(2)] b(2) by (simp add: pFree_cells_def Let_def s1_def)
    have "pc_rep cfg ?nd s (PCell g (pointer (c_next (a_heap s x)) ?nd) nl k) ?bt"
      unfolding pc_rep.simps using b chain_cells [OF x(3)] by (intro exI [of _ rest] exI [of _ bss] exI [of _ ks]) simp
    then have T: "has cfg s1 (OThread t) (set ?bt)" using bt(1) b(1) Cons by (intro hasI [of _ ?bt]) (auto simp: s1_def simp del: pc_rep.simps)
    have S: "has cfg s1 OSource (insert x (a_source s))" by (simp add: has_def s1_def)
    have own: "own x = OThread t" using bt(2) b(1) Cons by auto
    show ?thesis unfolding e
    proof (rule ok_move [OF ok _ _ _ _ _ T S])
      show "set ?bt \<union> insert x (a_source s) = {b. own b = OThread t} \<union> {b. own b = OSource}"
        using bt(2) b(1) Cons ok_sets(2) [OF ok] by auto
      show "set ?bt \<inter> insert x (a_source s) = {}"
        using bt(1,2) b(1) Cons ok_sets(2) [OF ok, symmetric] by auto
      show "a_desc s1 b < NUM_MALLOCS" if "b \<in> set ?bt" for b
      proof -
        have "own b = OThread t" using that bt(2) b(1) Cons by auto
        then show ?thesis using ok_desc [OF ok] by (simp add: s1_def)
      qed
    qed (auto simp: s1_def)
  qed
qed

lemma inv_lFree_push:
  assumes ok: "al_ok cfg U own s" and c: "cfg_ok cfg" and p: "a_pc s t = FPush el m k"
  shows "al_inv cfg U (lFree_push cfg el m k t s)"
proof -
  let ?v = "vp_of cfg t" and ?nd = "vp_node cfg (vp_of cfg t)" and ?max = "maxCount cfg m"
  obtain bt where bt: "distinct bt" "set bt = {b. own b = OThread t}" "pc_rep cfg ?nd s (a_pc s t) bt" by (rule ok_thread [OF ok])
  then obtain ks where ks: "bt = el # ks" "blk ?nd el" "a_desc s el = m" "kont_rep ?nd s k ks" using p by auto
  obtain bs where bs: "distinct bs" "set bs = {b. own b = OFree ?v m}" "rep cfg s (OFree ?v m) bs" by (rule ok_list [OF ok, of "OFree ?v m"]) auto
  then have l: "chain (a_heap s) ?nd (freeList (a_lml s ?v m)) bs" "length bs \<le> ?max" "descs s m bs" by (auto simp: full_list_def)
  have max: "0 < ?max" "?max < 4096" using cfg_max [OF c] by auto
  have D: "distinct (bt @ bs)" using bt bs by auto
  obtain rc tmp h w where pu: "push el (of_nat ?max) (a_heap s) (freeList (a_lml s ?v m)) = (rc, tmp, h, w)" by (metis prod_cases4)
  have "el \<notin> set bs" using D ks(1) by auto
  note pc = push_chain [OF l(1,2) max(2) ks(2) this max(1) pu]
  define s1 where "s1 = s\<lparr>a_heap := h\<rparr>"
  have ag: "agree (set ks) s s1" using D ks(1) pc(5) by (auto simp: agree_def s1_def)
  note kr = kont_rep_frame [OF ks(4) ag]
  have e: "lFree_push cfg el m k t s = ago t (if rc then resume k else FMove tmp m k) (set_free ?v m w s1)"
    using pu by (simp add: lFree_push_def s1_def)
  have d1: "descs s1 m (el # bs)" using l(3) ks(3) by (auto simp: descs_def s1_def)
  show ?thesis
  proof (cases rc)
    case True
    have "full_list cfg s1 ?nd m w (el # bs)" using pc(1,3) True d1 by (simp add: full_list_def s1_def del: chain.simps)
    with True show ?thesis unfolding e
      by (intro thread_swap [OF ok, of "OFree ?v m" t ks "el # bs"]) (use D bt bs ks(1) kr resume_rep [OF kr c] pc(5) in \<open>auto simp: s1_def\<close>)
  next
    case False
    have "chain h ?nd w [el]" "chain h ?nd tmp bs" using pc(4) False by auto
    moreover have "descs s1 m [el]" "descs s1 m bs" using d1 by (simp_all add: descs_def)
    moreover have "bs \<noteq> []" using pc(1) False max by auto
    ultimately have f: "full_list cfg s1 ?nd m w [el]" "full_list cfg s1 ?nd m tmp bs" "bs \<noteq> []"
      using l(2) max(1) by (simp_all add: full_list_def s1_def del: chain.simps)
    then have "pc_rep cfg ?nd s1 (FMove tmp m k) (bs @ ks)" unfolding pc_rep.simps using kr f(2,3) by (intro exI [of _ bs] exI [of _ ks]) simp
    with False f(1) show ?thesis unfolding e
      by (intro thread_swap [OF ok, of "OFree ?v m" t "bs @ ks" "[el]"])
         (use D bt bs ks(1) pc(5) in \<open>auto simp: s1_def simp del: pc_rep.simps\<close>)
  qed
qed

lemma inv_freeRemote:
  assumes ok: "al_ok cfg U own s" and c: "cfg_ok cfg" and p: "a_pc s t = FRemote el m k"
  shows "al_inv cfg U (freeRemote cfg el m k t s)"
proof -
  let ?v = "vp_of cfg t" and ?nd = "vp_node cfg (vp_of cfg t)" and ?n = "numaNode el"
  obtain bt where bt: "distinct bt" "set bt = {b. own b = OThread t}" "pc_rep cfg ?nd s (a_pc s t) bt" by (rule ok_thread [OF ok])
  then obtain ks where ks: "bt = el # ks" "a_desc s el = m" "kont_rep ?nd s k ks" using p by auto
  have "own el = OThread t" using bt(2) ks(1) by auto
  then have el: "blk ?n el" using ok_sets(3,4) [OF ok] by auto
  obtain bs where bs: "distinct bs" "set bs = {b. own b = ORemote ?v ?n}" "rep cfg s (ORemote ?v ?n) bs"
    by (rule ok_list [OF ok, of "ORemote ?v ?n"]) auto
  then have l: "chain (a_heap s) ?n (a_remote s ?v ?n) bs" "length bs \<le> CELL_MAX_COUNT" "marked s bs" by auto
  have D: "distinct (bt @ bs)" using bt bs by auto
  have out: "el \<notin> set bs" using D ks(1) by auto
  let ?h = "put_mallocID el (of_nat m) (a_heap s)"
  have l0: "chain ?h ?n (a_remote s ?v ?n) bs" using l(1) by (simp add: put_mallocID_def)
  have max: "CELL_MAX_COUNT < 4096" "0 < CELL_MAX_COUNT" by (simp_all add: CELL_MAX_COUNT_def LOG_MAX_NUMANODES_def)
  obtain rc tmp h w where pu: "push el (of_nat CELL_MAX_COUNT) ?h (a_remote s ?v ?n) = (rc, tmp, h, w)" by (metis prod_cases4)
  note pc = push_chain [OF l0 l(2) max(1) el out max(2) pu]
  define s1 where "s1 = s\<lparr>a_heap := h\<rparr>"
  have other: "h b = a_heap s b" if "b \<noteq> el" for b using pc(5) that by (simp add: put_mallocID_def put_nextList_def)
  have ag: "agree (set ks) s s1" "agree (set bs) s s1" using D ks(1) other by (auto intro!: agree_except [of el] simp: s1_def)
  note kr = kont_rep_frame [OF ks(3) ag(1)] and m1 = marked_frame [OF l(3) ag(2)]
  have mel: "marked s1 [el]" using pc(6) ks(2) by (simp add: marked_def s1_def put_mallocID_def)
  have e: "freeRemote cfg el m k t s = ago t (if rc then resume k else FRFull tmp ?n k) (set_remote ?v ?n w s1)"
    using pu by (simp add: freeRemote_def AddrToNumaNode_def Let_def s1_def)
  show ?thesis
  proof (cases rc)
    case True
    have "rep cfg (set_remote ?v ?n w s1) (ORemote ?v ?n) (el # bs)"
      using pc(1,3) True m1 mel by (simp add: marked_def s1_def del: chain.simps)
    with True show ?thesis unfolding e
      by (intro thread_swap [OF ok, of "ORemote ?v ?n" t ks "el # bs"])
         (use D bt bs ks(1) resume_rep [OF kr c] other in \<open>auto simp: s1_def simp del: chain.simps\<close>)
  next
    case False
    have f: "chain h ?n w [el]" "chain h ?n tmp bs" "bs \<noteq> []" using pc(1,4) False l(2) max by auto
    then have "rep cfg (set_remote ?v ?n w s1) (ORemote ?v ?n) [el]" using mel max by (simp add: s1_def del: chain.simps)
    moreover have "marked s1 (tl bs)" using m1 by (cases bs) (auto simp: marked_def)
    then have "pc_rep cfg ?nd s1 (FRFull tmp ?n k) (bs @ ks)" unfolding pc_rep.simps using kr f(2,3) by (auto simp: s1_def)
    ultimately show ?thesis unfolding e using False
      by (intro thread_swap [OF ok, of "ORemote ?v ?n" t "bs @ ks" "[el]"])
         (use D bt bs ks(1) other in \<open>auto simp: s1_def simp del: pc_rep.simps chain.simps\<close>)
  qed
qed

lemma inv_remoteFull_read:
  assumes ok: "al_ok cfg U own s" and p: "a_pc s t = FRFull lst n k"
  shows "al_inv cfg U (remoteFull_read lst n k t s)"
proof -
  obtain bt where bt: "distinct bt" "set bt = {b. own b = OThread t}" "pc_rep cfg (vp_node cfg (vp_of cfg t)) s (a_pc s t) bt"
    by (rule ok_thread [OF ok])
  show ?thesis unfolding remoteFull_read_def by (rule thread_only [OF ok bt(1,2)]) (use bt p in auto)
qed

lemma inv_remoteFull_cas:
  assumes ok: "al_ok cfg U own s" and c: "cfg_ok cfg" and p: "a_pc s t = FRCas lst n tmp k"
  shows "al_inv cfg U (remoteFull_cas lst n tmp k t s)"
proof -
  let ?nd = "vp_node cfg (vp_of cfg t)"
  obtain bt where bt: "distinct bt" "set bt = {b. own b = OThread t}" "pc_rep cfg ?nd s (a_pc s t) bt" by (rule ok_thread [OF ok])
  then obtain cs ks where cs: "bt = cs @ ks" "cs \<noteq> []" "chain (a_heap s) n lst cs" "marked s (tl cs)" "kont_rep ?nd s k ks" using p by auto
  obtain x xs where x: "cs = x # xs" "blk n x" "chain (a_heap s) n (c_next (a_heap s x)) xs" "pointer lst n = x" using cs(2,3) by (cases cs) auto
  define s1 where "s1 = s\<lparr>a_heap := put_nextList x (AllocCellPtr 0 tmp) (a_heap s)\<rparr>"
  have e: "remoteFull_cas lst n tmp k t s = (if a_from s n = tmp then ago t (resume k) (set_from n x s1) else ago t (FRFull lst n k) s1)"
    using x(4) blk_nonzero [OF x(2)] by (simp add: remoteFull_cas_def Let_def s1_def)
  have other: "a_heap s1 b = a_heap s b" if "b \<noteq> x" for b using that by (simp add: s1_def put_nextList_def)
  have ag: "agree (set ks) s s1" "agree (set xs) s s1" using bt(1) cs(1) x(1) by (auto intro!: agree_except [of x] other simp: s1_def put_nextList_def)
  note kr = kont_rep_frame [OF cs(5) ag(1)]
  have m1: "marked s1 xs" using cs(4) x(1) ag(2) marked_frame by simp
  show ?thesis
  proof (cases "a_from s n = tmp")
    case False
    have "pc_rep cfg ?nd s1 (FRFull lst n k) bt"
      unfolding pc_rep.simps cs(1) x(1) using cs(3) x(1) m1 kr by (intro exI [of _ cs] exI [of _ ks]) (simp add: s1_def)
    with False show ?thesis unfolding e
      by (simp only: if_False, intro thread_only [OF ok bt(1,2)]) (use cs(1) x(1) other in \<open>auto simp: s1_def simp del: pc_rep.simps\<close>)
  next
    case True
    obtain bs where bs: "distinct bs" "set bs = {b. own b = OFrom n}" "rep cfg s (OFrom n) bs" by (rule ok_list [OF ok, of "OFrom n"]) auto
    then obtain bss where bss: "bs = concat bss" "home_lists s n tmp bss" using True by auto
    have D: "distinct (bt @ bs)" using bt bs by auto
    have "agree (set (concat bss)) s s1" using D bss(1) cs(1) x(1) by (intro agree_except [of x]) (auto simp: s1_def put_nextList_def)
    with bss(2) have h1: "home_lists s1 n tmp bss" by (rule home_lists_frame)
    have "listlist any_count (a_heap s1) n (AllocCellPtr 0 tmp) bss"
    proof (cases bss)
      case Nil
      then have "tmp = 0" using h1 by (simp add: home_lists_def)
      then show ?thesis using Nil by (simp add: AllocCellPtr_def set_numaNode_def)
    next
      case (Cons l rest)
      then obtain y ys where y: "bss = (y # ys) # rest" "tmp = y" "blk n y" using h1 by (cases l) (auto simp: home_lists_def)
      then show ?thesis using h1 by (simp add: home_lists_def any_count_def)
    qed
    then have "listlist any_count (a_heap s1) n x ((x # xs) # bss)"
      using x(2,3) blk_nonzero [OF x(2)] by (simp add: any_count_def s1_def)
    then have "home_lists s1 n x ((x # xs) # bss)" using h1 m1 by (simp add: home_lists_def)
    then have F: "rep cfg (ago t (resume k) (set_from n x s1)) (OFrom n) (cs @ bs)"
      unfolding rep.simps bss(1) x(1) by (intro exI [of _ "(x # xs) # bss"]) simp
    show ?thesis unfolding e using True
      by (simp, intro thread_swap [OF ok, of "OFrom n" t ks "cs @ bs"])
         (use D bt bs cs(1) x(1) F resume_rep [OF kr c] other in \<open>auto simp: s1_def simp del: rep.simps\<close>)
  qed
qed

lemma inv_hand_out:
  assumes ok: "al_ok cfg U own s" and p: "a_pc s t = AGot m el"
  shows "al_inv cfg U (hand_out el t s)"
proof -
  obtain bt where bt: "distinct bt" "set bt = {b. own b = OThread t}" "pc_rep cfg (vp_node cfg (vp_of cfg t)) s (a_pc s t) bt"
    by (rule ok_thread [OF ok])
  then have el: "own el = OThread t" "bt = [el]" using p by auto
  have T: "has cfg (hand_out el t s) (OThread t) {}" by (rule hasI [of _ "[]"]) (auto simp: hand_out_def)
  have S: "has cfg (hand_out el t s) OClient (insert el (a_client s))" by (simp add: has_def hand_out_def)
  show ?thesis
  proof (rule ok_move [OF ok _ _ _ _ _ T S])
    show "{} \<union> insert el (a_client s) = {b. own b = OThread t} \<union> {b. own b = OClient}" using bt(2) el ok_sets(1) [OF ok] by auto
    show "a_desc (hand_out el t s) b < NUM_MALLOCS" if "b \<in> insert el (a_client s)" for b
      using that ok_desc [OF ok el(1)] ok_desc [OF ok, of b OClient] ok_sets(1) [OF ok, symmetric] by (auto simp: hand_out_def)
  qed (auto simp: hand_out_def)
qed

lemma inv_run:
  assumes ok: "al_ok cfg U own s" and c: "cfg_ok cfg" and n: "a_next cfg t s = Some s'"
  shows "al_inv cfg U s'"
proof (cases "a_pc s t")
  case AIdle
  with n show ?thesis by simp
next
  case (GAsk m tried)
  with n show ?thesis by simp
next
  case AWild
  with n show ?thesis by simp
next
  case (MPop m)
  with n show ?thesis using inv_pop [OF ok] by auto
next
  case (SPop m)
  with n show ?thesis using inv_pop [OF ok] by auto
next
  case (SAux m)
  with n show ?thesis using inv_slow_aux [OF ok] by auto
next
  case (SSetFree m tmp)
  with n show ?thesis using inv_slow_setFree [OF ok] by auto
next
  case (SSetAux m tmp)
  with n show ?thesis using inv_put_aux [OF ok c] by auto
next
  case (GTake m tried)
  with n show ?thesis using inv_gMalloc_section [OF ok c] by auto
next
  case (GCheck m)
  with n show ?thesis using inv_remote_check [OF ok] by auto
next
  case (GFetch m)
  with n show ?thesis using inv_remote_fetch [OF ok] by auto
next
  case (GLists m el)
  with n show ?thesis using inv_remote_lists [OF ok] by auto
next
  case (GCells m el nl)
  with n show ?thesis using inv_remote_cells [OF ok] by auto
next
  case (GConv m tried fresh part lcnt)
  with n show ?thesis using inv_gMalloc_convert [OF ok c] by auto
next
  case (GFree g tog k)
  with n show ?thesis using inv_gFree_section [OF ok c] by auto
next
  case (PFree g lst k)
  with n show ?thesis using inv_pFree_lists [OF ok c] by auto
next
  case (PCell g el nl k)
  with n show ?thesis using inv_pFree_cells [OF ok] by auto
next
  case (FPush el m k)
  with n show ?thesis using inv_lFree_push [OF ok c] by auto
next
  case (FMove tmp m k)
  with n show ?thesis using inv_put_aux [OF ok c] by auto
next
  case (FRemote el m k)
  with n show ?thesis using inv_freeRemote [OF ok c] by auto
next
  case (FRFull lst n' k)
  with n show ?thesis using inv_remoteFull_read [OF ok] by auto
next
  case (FRCas lst n' tmp k)
  with n show ?thesis using inv_remoteFull_cas [OF ok c] by auto
next
  case (AGot m el)
  with n show ?thesis using inv_hand_out [OF ok] by auto
qed

text \<open>A client hands a block over, or the layer above does.\<close>

lemma inv_call_free:
  assumes ok: "al_ok cfg U own s" and p: "a_pc s t = AIdle" and el: "el \<in> a_client s"
    and r: "pc_rep cfg (vp_node cfg (vp_of cfg t)) s pc [el]"
  shows "al_inv cfg U (ago t pc (s\<lparr>a_client := a_client s - {el}\<rparr>))" (is "al_inv cfg U ?s")
proof -
  obtain bt where bt: "distinct bt" "set bt = {b. own b = OThread t}" "pc_rep cfg (vp_node cfg (vp_of cfg t)) s (a_pc s t) bt"
    by (rule ok_thread [OF ok])
  have T: "has cfg ?s (OThread t) {el}" by (rule hasI [of _ "[el]"]) (use r in auto)
  have S: "has cfg ?s OClient (a_client s - {el})" by (simp add: has_def)
  have cl: "own b = OClient \<longleftrightarrow> b \<in> a_client s" for b using ok_sets(1) [OF ok] by auto
  show ?thesis
  proof (rule ok_move [OF ok _ _ _ _ _ T S])
    show "{el} \<union> (a_client s - {el}) = {b. own b = OThread t} \<union> {b. own b = OClient}" using bt p el cl by auto
    show "a_desc ?s b < NUM_MALLOCS" if "b \<in> {el}" for b using that ok_desc [OF ok, of b OClient] el cl by auto
    show "a_desc ?s b < NUM_MALLOCS" if "b \<in> a_client s - {el}" for b using that ok_desc [OF ok, of b OClient] cl by auto
  qed auto
qed

lemma inv_pMalloc:
  assumes ok: "al_ok cfg U own s" and c: "cfg_ok cfg" and p: "a_pc s t = GAsk m tried" and g: "g = gm_of cfg (vp_of cfg t) m"
    and bs: "distinct bs" "set bs \<subseteq> a_source s" "chunks h (gm_node cfg g) q bs"
    and mem: "\<And>b. b \<notin> a_source s \<Longrightarrow> h b = a_heap s b \<and> d b = a_desc s b" "\<And>b. b \<in> set bs \<Longrightarrow> d b = m" "m < NUM_MALLOCS"
  shows "al_inv cfg U (ago t (GConv m tried q 0 0) (s\<lparr>a_heap := h, a_desc := d, a_source := a_source s - set bs\<rparr>))" (is "al_inv cfg U ?s")
proof -
  let ?nd = "vp_node cfg (vp_of cfg t)"
  obtain bt where bt: "distinct bt" "set bt = {b. own b = OThread t}" "pc_rep cfg ?nd s (a_pc s t) bt" by (rule ok_thread [OF ok])
  have "pc_rep cfg ?nd ?s (GConv m tried q 0 0) bs"
    unfolding pc_rep.simps using bs(3) mem(2) c by (intro exI [of _ bs] exI [of _ "[]"]) (auto simp: full_list_def descs_def g cfg_ok_def)
  then have T: "has cfg ?s (OThread t) (set bs)" using bs(1) by (intro hasI [of _ bs]) (auto simp del: pc_rep.simps)
  have S: "has cfg ?s OSource (a_source s - set bs)" by (simp add: has_def)
  have src: "own b = OSource \<longleftrightarrow> b \<in> a_source s" for b using ok_sets(2) [OF ok] by auto
  show ?thesis
  proof (rule ok_move [OF ok _ _ _ _ _ T S])
    show "set bs \<union> (a_source s - set bs) = {b. own b = OThread t} \<union> {b. own b = OSource}" using bt p bs(2) src by auto
    show "a_heap ?s b = a_heap s b \<and> a_desc ?s b = a_desc s b" if "own b \<noteq> OSource" for b using that mem(1) src by simp
    show "a_desc ?s b < NUM_MALLOCS" if "b \<in> set bs" for b using that mem(2,3) by simp
  qed auto
qed

lemma inv_writes:
  assumes ok: "al_ok cfg U own s" and h: "\<And>b. b \<notin> a_client s \<Longrightarrow> b \<notin> a_source s \<Longrightarrow> h b = a_heap s b" and d: "\<And>b. b \<notin> a_source s \<Longrightarrow> d b = a_desc s b"
  shows "al_inv cfg U (s\<lparr>a_heap := h, a_desc := d\<rparr>)" (is "al_inv cfg U ?s")
proof (rule ok_move [OF ok, of OClient OSource "a_client s" "a_source s"])
  have cl: "own b = OClient \<longleftrightarrow> b \<in> a_client s" "own b = OSource \<longleftrightarrow> b \<in> a_source s" for b using ok_sets(1,2) [OF ok] by auto
  show "a_client s \<union> a_source s = {b. own b = OClient} \<union> {b. own b = OSource}" "a_client s \<inter> a_source s = {}"
    using cl by (auto, metis holder.distinct(1))
  show "a_heap ?s b = a_heap s b \<and> a_desc ?s b = a_desc s b" if "own b \<noteq> OClient" "own b \<noteq> OSource" for b using that h d cl by simp
  show "a_desc ?s b < NUM_MALLOCS" if "b \<in> a_client s" for b
  proof -
    have "own b = OClient" "b \<notin> a_source s" using that cl by (auto, metis holder.distinct(1))
    then show ?thesis using ok_desc [OF ok, of b OClient] d by simp
  qed
qed (auto simp: has_def)

lemma al_step_inv: "al_inv cfg U s \<Longrightarrow> cfg_ok cfg \<Longrightarrow> a_step cfg s s' \<Longrightarrow> al_inv cfg U s'"
proof -
  assume "al_inv cfg U s" and c: "cfg_ok cfg" and st: "a_step cfg s s'"
  then obtain own where ok: "al_ok cfg U own s" by (auto simp: al_inv_def)
  have client: "blk (numaNode el) el" if "el \<in> a_client s" for el
    using that ok_sets(1) [OF ok, symmetric] ok_sets(3,4) [OF ok] by auto
  from st show ?thesis
  proof cases
    case (run t)
    then show ?thesis by (rule inv_run [OF ok c])
  next
    case (call_lMalloc t m)
    obtain bt where "distinct bt" "set bt = {b. own b = OThread t}" "pc_rep cfg (vp_node cfg (vp_of cfg t)) s (a_pc s t) bt" by (rule ok_thread [OF ok])
    with call_lMalloc show ?thesis by (intro thread_only [OF ok, of bt t]) auto
  next
    case (call_lFree t el m)
    then show ?thesis using inv_call_free [OF ok, of t el] lFree_rep [of _ s KIdle "[]" el m] client by simp
  next
    case (call_lFreeNoCheckLocal t el m)
    then show ?thesis using inv_call_free [OF ok, of t el "FPush el m KIdle"] client [of el] by (auto simp: AddrToNumaNode_def)
  next
    case (pMalloc t m tried g bs h p d)
    then show ?thesis using inv_pMalloc [OF ok c] by simp
  next
    case (client_writes h)
    then show ?thesis using inv_writes [OF ok, of h "a_desc s"] by simp
  next
    case (source_writes h d)
    then show ?thesis using inv_writes [OF ok, of h d] by simp
  qed
qed

interpretation slab: invariant_steps "a_step cfg" "\<lambda>s. cfg_ok cfg \<longrightarrow> al_inv cfg U s" for cfg U
  by unfold_locales (blast intro: al_step_inv)

lemma al_init:
  assumes "\<And>b. b \<in> U \<Longrightarrow> blk (numaNode b) b"
  shows "al_inv cfg U (alloc_init U h d)"
proof -
  define own where "own = (\<lambda>b. if b \<in> U then OSource else ONone)"
  have empty: "{b. own b = x} = {}" if "x \<noteq> OSource" "x \<noteq> ONone" for x using that by (auto simp: own_def)
  have "has cfg (alloc_init U h d) x {b. own b = x}" for x
  proof (cases "x \<in> {OClient, OSource, ONone}")
    case True
    then show ?thesis by (auto simp: has_def own_def alloc_init_def)
  next
    case False
    have "rep cfg (alloc_init U h d) x []"
      using False by (cases x) (auto simp: alloc_init_def full_list_zero descs_def marked_def home_lists_def intro!: exI [of _ "[]"])
    then show ?thesis using False empty [of x] by (intro hasI [of _ "[]"]) auto
  qed
  then have "al_ok cfg U own (alloc_init U h d)" using assms by (auto simp: al_ok_def own_def)
  then show ?thesis by (auto simp: al_inv_def)
qed

lemma al_reach:
  assumes "cfg_ok cfg" "\<And>b. b \<in> U \<Longrightarrow> blk (numaNode b) b" "(a_step cfg)\<^sup>*\<^sup>* (alloc_init U h d) s"
  obtains own where "al_ok cfg U own s"
  using slab.steps_inv [OF assms(3), of U] al_init [OF assms(2), of U cfg h d] assms(1) by (auto simp: al_inv_def)

text \<open>The blocks on a list, and on a list of lists, by following the words.\<close>

fun walk :: "uword \<Rightarrow> amem \<Rightarrow> nat \<Rightarrow> uword \<Rightarrow> uword list" where
  "walk nd h 0 w = []"
| "walk nd h (Suc n) w = (if w = 0 then [] else (let p = pointer w nd in p # walk nd h n (c_next (h p))))"

fun walk_lists :: "uword \<Rightarrow> amem \<Rightarrow> nat \<Rightarrow> nat \<Rightarrow> uword \<Rightarrow> uword list" where
  "walk_lists nd h k 0 w = []"
| "walk_lists nd h k (Suc n) w =
     (if w = 0 then [] else (let p = pointer w nd in p # walk nd h k (c_next (h p)) @ walk_lists nd h k n (c_nextList (h p))))"

section \<open>The configuration\<close>

text \<open>
  What \<^verbatim>\<open>init\<close> sets up on all processors: lists of the classes below \<^term>\<open>cl\<close> have an object of the global layer per processor, all others one per node. The node of a
  processor is that of the page allocator, with \<^term>\<open>nodeSize\<close> processors to a node.
\<close>

definition pool_cfg :: "nat \<Rightarrow> nat \<Rightarrow> (nat \<Rightarrow> nat) \<Rightarrow> mcfg" where
  "pool_cfg cl nodeSize vps = \<lparr>vp_of = vps, vp_node = (\<lambda>v. of_nat (v div nodeSize)), maxCount = (\<lambda>m. ListSize (size_index m)),
     gm_of = (\<lambda>v m. if m < cl then LocalGM v m else NodeGM (of_nat (v div nodeSize)) m),
     gm_node = (\<lambda>g. case g of LocalGM v m \<Rightarrow> of_nat (v div nodeSize) | NodeGM n m \<Rightarrow> n),
     gm_mid = (\<lambda>g. case g of LocalGM v m \<Rightarrow> m | NodeGM n m \<Rightarrow> m),
     listSize = (\<lambda>g. ListSize (size_index (case g of LocalGM v m \<Rightarrow> m | NodeGM n m \<Rightarrow> m))),
     numListsTarget = (\<lambda>g. case g of LocalGM v m \<Rightarrow> NumLists 1 | NodeGM n m \<Rightarrow> NumLists nodeSize)\<rparr>"

section \<open>A run\<close>

text \<open>One thread of one processor on one node, lists of at most one block; the layer above has two blocks.\<close>

definition small_cfg :: mcfg where
  "small_cfg = \<lparr>vp_of = (\<lambda>_. 0), vp_node = (\<lambda>_. 0), maxCount = (\<lambda>_. 1), gm_of = (\<lambda>_. NodeGM 0), gm_node = (\<lambda>_. 0),
     gm_mid = (\<lambda>g. case g of LocalGM v m \<Rightarrow> m | NodeGM n m \<Rightarrow> m),
     listSize = (\<lambda>_. 1), numListsTarget = (\<lambda>_. 2)\<rparr>"

fun run_alone :: "mcfg \<Rightarrow> nat \<Rightarrow> nat \<Rightarrow> astate \<Rightarrow> astate" where
  "run_alone cfg t 0 s = s"
| "run_alone cfg t (Suc n) s = (case a_next cfg t s of None \<Rightarrow> s | Some s' \<Rightarrow> run_alone cfg t n s')"

lemma run_alone_steps: "(a_step cfg)\<^sup>*\<^sup>* s (run_alone cfg t n s)"
proof (induction n arbitrary: s)
  case (Suc n)
  show ?case
  proof (cases "a_next cfg t s")
    case (Some s')
    then have "a_step cfg s s'" by (rule a_step.run)
    with Some Suc.IH [of s'] show ?thesis by (simp del: a_next.simps)
  qed simp
qed simp

definition small_init :: astate where
  "small_init = alloc_init {16, 32} zeros (\<lambda>_. 0)"

definition small_ask :: astate where
  "small_ask = run_alone small_cfg 0 5 (ago 0 (MPop 0) small_init)"

definition small_fresh :: astate where
  "small_fresh = ago 0 (GConv 0 False 16 0 0) (small_ask\<lparr>a_heap := put_next 32 0 (put_next 16 32 (a_heap small_ask)), a_source := a_source small_ask - {16, 32}\<rparr>)"

definition small_got :: astate where
  "small_got = run_alone small_cfg 0 8 small_fresh"

definition small_done :: astate where
  "small_done = hand_out 32 0 small_got"

lemma small_ask_eq: "small_ask = small_init\<lparr>a_pc := (\<lambda>_. AIdle)(0 := GAsk 0 False)\<rparr>"
  by (simp add: small_ask_def small_init_def small_cfg_def alloc_init_def ago_def a_ops Let_def pop_def getAndZero_def isEmpty_def gMalloc_take_def
      set_aux_def eval_nat_numeral fun_upd_def) (simp add: fun_eq_iff)

lemma small_run:
  "a_pc small_ask 0 = GAsk 0 False" "a_source small_ask = {16, 32}" "a_desc small_ask b = 0"
  by (simp_all add: small_ask_eq small_init_def alloc_init_def)

lemma small_blk: "blk 0 16" "blk 0 32"
  by (simp_all add: blk_def set_numaNode_def numaNode_def cell_layout mask_eq_exp_minus_1)

lemma small_got_pc: "a_pc small_got 0 = AGot 0 32"
  by code_simp

lemma small_blocks: "b \<in> {16, 32} \<Longrightarrow> blk (numaNode b) b"
  using small_blk by (auto simp: blk_def)

lemma small_reach: "(a_step small_cfg)\<^sup>*\<^sup>* small_init small_fresh"
proof -
  let ?h = "put_next 32 0 (put_next 16 32 (a_heap small_ask))"
  have "a_step small_cfg small_init (ago 0 (MPop 0) small_init)"
    by (rule a_step.call_lMalloc) (simp_all add: small_init_def alloc_init_def NUM_MALLOCS_eq)
  also have "(a_step small_cfg)\<^sup>*\<^sup>* (ago 0 (MPop 0) small_init) small_ask" unfolding small_ask_def by (rule run_alone_steps)
  also have "a_step small_cfg small_ask (ago 0 (GConv 0 False 16 0 0) (small_ask\<lparr>a_heap := ?h, a_desc := a_desc small_ask, a_source := a_source small_ask - set [16, 32]\<rparr>))"
    by (rule a_step.pMalloc [OF small_run(1) refl])
       (use small_run small_blk in \<open>auto simp: small_cfg_def NUM_MALLOCS_eq put_next_def\<close>)
  finally show ?thesis by (simp add: small_fresh_def)
qed

lemma small_reach_got: "(a_step small_cfg)\<^sup>*\<^sup>* small_init small_got"
  unfolding small_got_def by (rule rtranclp_trans [OF small_reach run_alone_steps])

lemma small_reach_done: "(a_step small_cfg)\<^sup>*\<^sup>* small_init small_done"
proof -
  have "a_step small_cfg small_got small_done" by (rule a_step.run [of _ 0]) (simp add: small_got_pc small_done_def)
  with small_reach_got show ?thesis by simp
qed

lemma small_ok: "cfg_ok small_cfg"
  by (simp add: cfg_ok_def small_cfg_def CELL_MAX_COUNT_def LOG_MAX_NUMANODES_def)

lemma a_next_other: "a_next cfg t s = Some s' \<Longrightarrow> u \<noteq> t \<Longrightarrow> a_pc s' u = a_pc s u"
  by (auto simp: a_ops Let_def split: apc.splits prod.splits option.splits if_splits)

lemma run_alone_other: "u \<noteq> t \<Longrightarrow> a_pc (run_alone cfg t n s) u = a_pc s u"
proof (induction n arbitrary: s)
  case (Suc n)
  then show ?case by (cases "a_next cfg t s") (auto simp del: a_next.simps dest: a_next_other)
qed simp

lemma small_idle: "a_pc small_done t = AIdle"
  by (cases "t = 0") (simp_all add: small_done_def hand_out_def small_got_def small_fresh_def small_ask_eq run_alone_other small_init_def del: run_alone.simps)

section \<open>Properties\<close>

lemma walk_chain: "chain h nd w bs \<Longrightarrow> length bs \<le> n \<Longrightarrow> walk nd h n w = bs"
proof (induction bs arbitrary: w n)
  case Nil
  then show ?case by (cases n) auto
next
  case (Cons b bs)
  then show ?case by (cases n) (auto simp: Let_def)
qed

lemma walk_listlist:
  "listlist P h nd w bss \<Longrightarrow> length bss \<le> n \<Longrightarrow> \<forall>l\<in>set bss. length l \<le> Suc k \<Longrightarrow> walk_lists nd h k n w = concat bss"
proof (induction P h nd w bss arbitrary: n rule: listlist.induct)
  case (3 P h nd w b bs bss)
  then show ?case by (cases n) (auto simp: Let_def walk_chain)
next
  case (1 P h nd w)
  then show ?case by (cases n) auto
qed auto

text \<open>
  C2. A block that \<^verbatim>\<open>lMalloc\<close> returns is given to one client only. Whatever threads on any processors do at the same time, and whatever clients write into
  their blocks: when \<^verbatim>\<open>lMalloc\<close> has a block for a thread, no client holds it, the layer above does not have it, no other thread is given it, and it is a
  block of the size class asked for, on the node of the thread's processor.
\<close>

theorem block_given_once:
  assumes "cfg_ok cfg" "\<And>b. b \<in> U \<Longrightarrow> blk (numaNode b) b" "(a_step cfg)\<^sup>*\<^sup>* (alloc_init U h d) s" "a_pc s t = AGot m el"
  shows "el \<in> U \<and> el \<notin> a_client s \<and> el \<notin> a_source s \<and> (\<forall>u k. a_pc s u = AGot k el \<longrightarrow> u = t)
    \<and> a_desc s el = m \<and> AddrToNumaNode el = vp_node cfg (vp_of cfg t)"
proof -
  obtain own where ok: "al_ok cfg U own s" using al_reach [OF assms(1-3)] .
  have got: "own el = OThread u \<and> blk (vp_node cfg (vp_of cfg u)) el \<and> a_desc s el = k" if "a_pc s u = AGot k el" for u k
  proof -
    obtain bt where "set bt = {b. own b = OThread u}" "pc_rep cfg (vp_node cfg (vp_of cfg u)) s (a_pc s u) bt" by (rule ok_thread [OF ok])
    then show ?thesis using that by auto
  qed
  have "own el = OThread t" "blk (vp_node cfg (vp_of cfg t)) el" "a_desc s el = m" using got [OF assms(4)] by auto
  moreover have "u = t" if "a_pc s u = AGot k el" for u k using got [OF that] calculation(1) by simp
  ultimately show ?thesis by (auto simp: AddrToNumaNode_def blk_def ok_mem [OF ok])
qed

theorem block_given_once_witness:
  "a_pc small_got 0 = AGot 0 32 \<and> 32 \<notin> a_client small_got \<and> 32 \<notin> a_source small_got"
  using block_given_once [OF small_ok _ small_reach_got [unfolded small_init_def] small_got_pc] small_blocks small_got_pc by blast



text \<open>
  C19. The counter in the word of a local list is the number of blocks on it: following the links from the word gives that many different blocks and then
  null, at most \<^verbatim>\<open>maxCount\<close>, none of them held by a client.
\<close>

theorem local_counter_exact:
  assumes "cfg_ok cfg" "\<And>b. b \<in> U \<Longrightarrow> blk (numaNode b) b" "(a_step cfg)\<^sup>*\<^sup>* (alloc_init U h d) s"
    and w: "w = freeList (a_lml s v m) \<or> w = auxList (a_lml s v m)" and bs: "bs = walk (vp_node cfg v) (a_heap s) 4096 w"
  shows "length bs = unat (cell_count w) \<and> length bs \<le> maxCount cfg m \<and> distinct bs \<and> set bs \<subseteq> U - a_client s"
proof -
  obtain own where ok: "al_ok cfg U own s" using al_reach [OF assms(1-3)] .
  obtain x cs where x: "x = OFree v m \<or> x = OAux v m" "distinct cs" "set cs = {b. own b = x}" "full_list cfg s (vp_node cfg v) m w cs"
  proof -
    obtain fs where f: "distinct fs" "set fs = {b. own b = OFree v m}" "rep cfg s (OFree v m) fs" by (rule ok_list [OF ok, of "OFree v m"]) auto
    obtain as where a: "distinct as" "set as = {b. own b = OAux v m}" "rep cfg s (OAux v m) as" by (rule ok_list [OF ok, of "OAux v m"]) auto
    from w show ?thesis using that [OF _ f(1,2)] that [OF _ a(1,2)] f(3) a(3) by (elim disjE) simp_all
  qed
  have l: "length cs \<le> maxCount cfg m" "maxCount cfg m < 4096" "chain (a_heap s) (vp_node cfg v) w cs"
    using x(4) cfg_max [OF assms(1)] by (auto simp: full_list_def)
  then have "bs = cs" "cell_count w = of_nat (length cs)" using bs by (auto intro!: walk_chain chain_count)
  moreover have "set cs \<subseteq> U - a_client s" using x(1,3) by (auto simp: ok_mem [OF ok])
  ultimately show ?thesis using x(2) l(1,2) by (simp add: unat_small)
qed

theorem local_counter_exact_witness:
  "length (walk 0 (a_heap small_done) 4096 (freeList (a_lml small_done 0 0))) = unat (cell_count (freeList (a_lml small_done 0 0)))"
  using local_counter_exact [OF small_ok _ small_reach_done [unfolded small_init_def], of "freeList (a_lml small_done 0 0)" 0 0 _] small_blocks
  by (simp add: small_cfg_def)

text \<open>
  C16. No block is lost. When all threads have left the allocator, every block is with a client, with the layer above, or on one of the lists, where following the links
  finds it: the local and auxiliary lists, the lists of the global layer, the lists of blocks of other nodes, and the lists on their way home.
\<close>

theorem no_block_lost:
  assumes "cfg_ok cfg" "\<And>b. b \<in> U \<Longrightarrow> blk (numaNode b) b" "(a_step cfg)\<^sup>*\<^sup>* (alloc_init U h d) s" "\<And>t. a_pc s t = AIdle" "b \<in> U"
  shows "b \<in> a_client s \<or> b \<in> a_source s
    \<or> (\<exists>v m n. b \<in> set (walk (vp_node cfg v) (a_heap s) n (freeList (a_lml s v m))))
    \<or> (\<exists>v m n. b \<in> set (walk (vp_node cfg v) (a_heap s) n (auxList (a_lml s v m))))
    \<or> (\<exists>g k n. b \<in> set (walk_lists (gm_node cfg g) (a_heap s) k n (a_gm s g)))
    \<or> (\<exists>v nd n. b \<in> set (walk nd (a_heap s) n (a_remote s v nd)))
    \<or> (\<exists>nd k n. b \<in> set (walk_lists nd (a_heap s) k n (a_from s nd)))"
proof -
  obtain own where ok: "al_ok cfg U own s" using al_reach [OF assms(1-3)] .
  have on: "b \<in> set bs" if "set bs = {b. own b = x}" "own b = x" for bs x using that by auto
  have k: "\<forall>l\<in>set bss. length l \<le> Suc (length (concat bss))" for bss :: "uword list list"
    by (induction bss) auto
  show ?thesis
  proof (cases "own b")
    case OClient
    then show ?thesis by (simp add: ok_mem [OF ok])
  next
    case OSource
    then show ?thesis by (simp add: ok_mem [OF ok])
  next
    case ONone
    then show ?thesis using assms(5) by (simp add: ok_mem [OF ok])
  next
    case (OFree v m)
    obtain bs where "set bs = {b. own b = OFree v m}" "rep cfg s (OFree v m) bs" by (rule ok_list [OF ok, of "OFree v m"]) auto
    then have "b \<in> set (walk (vp_node cfg v) (a_heap s) (length bs) (freeList (a_lml s v m)))"
      using on OFree by (auto simp: full_list_def walk_chain)
    then show ?thesis by blast
  next
    case (OAux v m)
    obtain bs where "set bs = {b. own b = OAux v m}" "rep cfg s (OAux v m) bs" by (rule ok_list [OF ok, of "OAux v m"]) auto
    then have "b \<in> set (walk (vp_node cfg v) (a_heap s) (length bs) (auxList (a_lml s v m)))"
      using on OAux by (auto simp: full_list_def walk_chain)
    then show ?thesis by blast
  next
    case (OG g)
    obtain bs where "set bs = {b. own b = OG g}" "rep cfg s (OG g) bs" by (rule ok_list [OF ok, of "OG g"]) auto
    then obtain bss where "set (concat bss) = {b. own b = OG g}" "listlist (gcount (numListsTarget cfg g)) (a_heap s) (gm_node cfg g) (a_gm s g) bss" by auto
    then have "b \<in> set (walk_lists (gm_node cfg g) (a_heap s) (length (concat bss)) (length bss) (a_gm s g))"
      using on OG walk_listlist [OF _ order_refl k] by metis
    then show ?thesis by blast
  next
    case (ORemote v n)
    obtain bs where "set bs = {b. own b = ORemote v n}" "rep cfg s (ORemote v n) bs" by (rule ok_list [OF ok, of "ORemote v n"]) auto
    then have "b \<in> set (walk n (a_heap s) (length bs) (a_remote s v n))" using on ORemote by (auto simp: walk_chain)
    then show ?thesis by blast
  next
    case (OFrom n)
    obtain bs where "set bs = {b. own b = OFrom n}" "rep cfg s (OFrom n) bs" by (rule ok_list [OF ok, of "OFrom n"]) auto
    then obtain bss where "set (concat bss) = {b. own b = OFrom n}" "listlist any_count (a_heap s) n (a_from s n) bss"
      by (auto simp: home_lists_def)
    then have "b \<in> set (walk_lists n (a_heap s) (length (concat bss)) (length bss) (a_from s n))"
      using on OFrom walk_listlist [OF _ order_refl k] by metis
    then show ?thesis by blast
  next
    case (OThread t)
    obtain bt where "set bt = {b. own b = OThread t}" "pc_rep cfg (vp_node cfg (vp_of cfg t)) s (a_pc s t) bt" by (rule ok_thread [OF ok])
    with OThread assms(4) show ?thesis by auto
  qed
qed

theorem no_block_lost_witness:
  "(16 \<in> a_client small_done \<or> 16 \<in> a_source small_done \<or> (\<exists>v m n. 16 \<in> set (walk 0 (a_heap small_done) n (freeList (a_lml small_done v m))))
    \<or> (\<exists>v m n. 16 \<in> set (walk 0 (a_heap small_done) n (auxList (a_lml small_done v m))))
    \<or> (\<exists>g k n. 16 \<in> set (walk_lists 0 (a_heap small_done) k n (a_gm small_done g)))
    \<or> (\<exists>v nd n. 16 \<in> set (walk nd (a_heap small_done) n (a_remote small_done v nd)))
    \<or> (\<exists>nd k n. 16 \<in> set (walk_lists nd (a_heap small_done) k n (a_from small_done nd))))"
  using no_block_lost [OF small_ok _ small_reach_done [unfolded small_init_def] small_idle, of 16] small_blocks by (simp add: small_cfg_def)

text \<open>
  The configuration that \<^verbatim>\<open>init\<close> sets up is one for which the layers are correct: with between one and 512 processors to a node, every list fits the twelve bits of its counter, no list is
  shorter than four blocks, local and global layer agree on the length of lists, and the wanted number of lists is at least two and twice it fits the counter of the global layer.
\<close>

theorem pool_cfg_ok:
  assumes "1 \<le> nodeSize" "nodeSize \<le> 512"
  shows "cfg_ok (pool_cfg cl nodeSize vps) \<and> 4 \<le> ListSize i \<and> ListSize i \<le> CELL_MAX_COUNT"
proof -
  have "0 < ListSize i" for i using ListSize_bounds(1) [of i] by simp
  then show ?thesis using assms ListSize_bounds by (auto simp: cfg_ok_def pool_cfg_def NumLists_def split: gmid.splits)
qed

theorem pool_cfg_ok_witness: "cfg_ok (pool_cfg 3 4 (\<lambda>t. t))"
  using pool_cfg_ok [of 4 3 "\<lambda>t. t"] by simp

end
