(* ===== verification/Spec2Isabelle.thy ===== *)
theory Spec2Isabelle
  imports LinuxCreds RegionList PageAllocator MemoryMgrPrimitive DispatchQueue HashSimple Lmb RequestCountWithStop IORingBuffer FreeFrameList FRComputation FairBLock LMalloc
begin

text \<open>
  A verification library for the K42 operating system.

  K42 is a microkernel-like system in C++. The kernel (\<^verbatim>\<open>os/kernel\<close>) holds processes, their address
  spaces and the processor scheduler; a system library (\<^verbatim>\<open>lib/libc\<close>) that runs both in the kernel and in
  every user process supplies memory allocation, containers, synchronisation and the Linux personality;
  a boot loader (\<^verbatim>\<open>os/boot\<close>) sets up memory and starts the kernel. The library below follows the state
  that these parts keep and the operations that change it.

  \<^bold>\<open>Conventions.\<close> \<^verbatim>\<open>uval\<close>, the 64-bit unsigned word, is a natural number below \<open>2 ^ 64\<close> whose
  operations \<open>uadd\<close>, \<open>usub\<close>, \<dots> write the wrap-around out (theory \<open>K42_Prelude\<close>); where the code
  relies on bit fields the width is part of the definition. Pointers into a pool of nodes are keys of a
  store, arrays are lists whose index errors are visible in the result, assertions and panics are
  branches, \<open>_SERROR\<close> values are constructors of a sum. Loops that are not structural are
  \<open>partial_function (option)\<close>, so that a loop which does not return is \<open>None\<close>, or functions with a
  termination proof. Code outside the repository, or outside a component, is a parameter with named
  assumptions: the memory that an allocation returns, the hash function's shift, the clock. A component
  that holds its lock during an operation makes that operation one step; the request counts are shared
  without one, and every atomic access to them is a step of its own.

  \<^bold>\<open>The parts.\<close>

  \<^item> \<open>K42_Prelude\<close>: the arithmetic above, the page and alignment macros (\<^verbatim>\<open>lib/libc/misc/macros.H\<close>), and
    the locale \<open>invariant_steps\<close>, which lifts a property that each step keeps to all reachable states.
    Each step relation of the development interprets it.

  \<^item> \<open>LinuxCreds\<close> (\<^verbatim>\<open>lib/libc/sys/LinuxCreds.C\<close>, \<^verbatim>\<open>.H\<close>): \<open>creds_t\<close>, \<open>capable\<close> and all the set-id calls with their
    error paths; the step relation \<open>cred_step\<close> closes over sequences of calls. The lemmas show that a
    process without privilege never reaches an id it did not hold, that \<open>setuid\<close> by root cannot be
    undone, that a call that fails changes nothing, and that \<open>setfsuid\<close> lets anyone through.

  \<^item> \<open>RegionList\<close> (\<^verbatim>\<open>os/kernel/mem/RegionList.C\<close>, \<^verbatim>\<open>.H\<close>): the sorted list of the regions of a process, its
    searches for space, attachment, detachment, truncation and \<open>preExec\<close>. The lemmas show that regions
    stay sorted, apart and within the address space under all sequences of operations, when each kind of
    attachment succeeds and where, and what an address lookup finds; the rounding of a start close to
    \<open>2 ^ 64\<close> is the case that escapes.

  \<^item> \<open>PageAllocator\<close> (\<^verbatim>\<open>lib/libc/alloc/PageAllocatorDefault.C\<close>, \<^verbatim>\<open>.H\<close>): the Cartesian tree of free blocks,
    ordered by address and heap-ordered by size. The locale \<open>page_pool\<close> is what a client may rely on:
    allocation takes pages out of the free set, freeing puts them back. Its lemma that the ranges of
    distinct owners are disjoint is used through the interpretation \<open>pool\<close>. The surgery on the tree is
    proved against the set of free pages, and the allocator's own consistency check never fires.

  \<^item> \<open>MemoryMgrPrimitive\<close> (\<^verbatim>\<open>lib/libc/alloc/MemoryMgrPrimitive.C\<close>, \<^verbatim>\<open>.H\<close>): the bump allocator of processor
    initialisation with its up to 16 recovered chunks, and the hand-over of what is left to the page
    allocator, where the two components meet (\<open>deallocAllPages\<close>).

  \<^item> \<open>DispatchHeap\<close>, \<open>CPUDomain\<close>, \<open>DispatchQueue\<close> (\<^verbatim>\<open>os/kernel/exception/DispatchQueue.C\<close>,
    \<^verbatim>\<open>CPUDomainAnnex.C\<close>, \<^verbatim>\<open>ProcessAnnex.C\<close> and headers): the processor scheduler. \<open>DispatchHeap\<close> is the array
    heap; the locale \<open>domain_queue\<close> is the priority queue it implements. \<open>CPUDomain\<close> has the priorities
    (20-bit mantissa, exponent), quanta, pulses and the ring of process annexes of a domain.
    \<open>DispatchQueue\<close> composes them: it charges the running domain, chooses the next one and its next
    annex, inflates priorities and keeps the statistics; \<open>ticks_ok\<close> bounds the clock by \<open>2 ^ 61\<close> ticks, so
    that sums of times do not wrap. The lemmas show that dispatching returns the runnable annex of the most urgent
    domain, that charging never overflows the mantissa, and where the statistics drift.

  \<^item> \<open>HashSimple\<close> (\<^verbatim>\<open>lib/libc/misc/HashSimple.C\<close>, \<^verbatim>\<open>.H\<close>): the growing chained hash table, its iterators
    included. The locale \<open>key_map\<close> is a finite map; the interpretation \<open>hm\<close> shows that the table is one
    as long as the number of nodes leaves \<open>room\<close> for the size to double without overflow.

  \<^item> \<open>Lmb\<close> (\<^verbatim>\<open>os/boot/arch/powerpc/lmb.c\<close>, \<^verbatim>\<open>.h\<close>): the tables of memory and of reservations. Tables that
    stay \<open>low\<close>, in the lower half of the address space, are kept sorted, apart and exact; allocation
    returns a range that is free, or one of the wrapped addresses that the theory describes.

  \<^item> \<open>RequestCount\<close> (\<^verbatim>\<open>lib/libc/sync/RequestCount.C\<close>, \<^verbatim>\<open>.H\<close>): requests that enter and leave an object and the
    shutdown that waits for them, as interleaved atomic steps of any number of threads below \<open>2 ^ 61\<close>,
    the bound that keeps the counter's sign meaningful. The lemmas show that after a completed
    shutdown nobody is inside, that with one shutting thread the wake-up is never lost, and how two of
    them can lose it.

  \<^item> \<open>RequestCountWithStop\<close> (the second class of the same files): the counter with a lock, which \<open>stop\<close> keeps until
    \<open>restart\<close>. The lemmas show that a stopped object admits nobody, that \<open>enter\<close> is refused only by a
    shutdown, that no wake-up is lost with any number of stopping threads, that in an object never
    restarted a completed stop has nobody inside, and how a restart breaks this.

  \<^item> \<open>IORingBuffer\<close> (\<^verbatim>\<open>lib/libc/io/IORingBuffer.C\<close>, \<^verbatim>\<open>.H\<close>): the byte buffer of pipes, sockets and consoles. The locale
    \<open>byte_queue\<close> is a bounded queue of bytes; through the interpretation \<open>rq\<close> every sequence of writes, reads
    and consumed bytes, of fewer than \<open>2 ^ 62\<close> bytes so that the positions do not wrap, gives what the queue
    \<open>fifo\<close> gives. The places handed out by \<open>peekBytes\<close>, \<open>unPutData\<close> and \<open>reserveSpace\<close> are described, as is the
    way \<open>getDelimData\<close> misses its delimiter.

  \<^item> \<open>FreeFrameList\<close> (\<^verbatim>\<open>os/kernel/mem/FreeFrameList.C\<close>, \<^verbatim>\<open>.H\<close>): the lists of free page frames, whose links are
    kept in the free frames themselves. Any number of lists and the owners of allocated frames share
    one store. The lemmas show for every sequence of calls and of writes by owners that each frame is
    in exactly one list or owned, that no call faults, and how many frames are moved.

  \<^item> \<open>BlockSet\<close> (\<^verbatim>\<open>lib/libc/misc/AtomicBitVec64.H\<close>, \<^verbatim>\<open>BlockSet.C\<close>, \<^verbatim>\<open>.H\<close>): the bitmap in four levels of the blocks
    of a paging device. The two kinds of bit search of the source agree with each other and with the least bit. The upper levels are
    hints, which may miss that a vector is full but never claim it wrongly; with this invariant the search
    for a set of 64 blocks returns, with the least set nobody holds. The locale \<open>set_allocator\<close> is what the user of the sets relies
    on, interpreted as \<open>bs\<close>.

  \<^item> \<open>DiskSwap\<close> (\<^verbatim>\<open>os/kernel/bilge/DiskSwap.C\<close>, \<^verbatim>\<open>.H\<close>, and the calls of \<^verbatim>\<open>lib/libc/misc/ListSimpleKey.C\<close> it makes): the swap object
    on top of the block sets. The transfer of pages and the lookup of object handles are parameters. For every sequence of writes
    and releases of pages by any number of files on one device, a block that is allocated belongs to nobody, the
    files' blocks are apart and the count of free pages is right; on a second device a set that
    was given back stays in use, which the last theorem shows.

  \<^item> \<open>FRComputation\<close> (\<^verbatim>\<open>os/kernel/mem/FRComputation.C\<close>, \<^verbatim>\<open>.H\<close>): the swapped-out part of anonymous memory, where the hash table
    (through \<open>hm\<close>), the swap object and the block sets meet. For every sequence of writes and releases of pages
    and destructions by any number of files on one device, no two pages share a block, a page is read
    from where it was written, and destroying a file returns and frees exactly its pages. A block that moves to
    another file, as in a fork, can free a set that the first file still uses, which the last theorem shows.

  \<^item> \<open>FairBLock\<close> (\<^verbatim>\<open>lib/libc/sync/FairBLock.C\<close>, \<^verbatim>\<open>.H\<close>): the queueing lock, every access to a shared word a step of its own. The
    invariant recovers the owner and the queue from the two words of the lock and the elements on the
    stacks of the waiting threads. The lemmas show mutual exclusion, service in order of arrival, that some thread
    can always move unless the lock is held, and that no element is used after its frame is gone. The components above that hold a
    lock for a whole operation rest on this.

  \<^item> \<open>AllocCell\<close>, \<open>GMalloc\<close>, \<open>AllocPool\<close>, \<open>LMalloc\<close> (\<^verbatim>\<open>lib/libc/alloc/AllocCell.H\<close>, \<^verbatim>\<open>GMalloc.C\<close>, \<^verbatim>\<open>AllocPool.C\<close>, \<^verbatim>\<open>.H\<close>, \<^verbatim>\<open>LMalloc.C\<close>, \<^verbatim>\<open>PMalloc.C\<close>,
    \<^verbatim>\<open>arch/powerpc\<close>): the slab allocator. \<open>AllocCell\<close> has the words that pack a pointer with a count in twelve bits, on 64-bit words, and
    what the atomic operations do to a list in memory; \<open>GMalloc\<close> the list of lists and its cut; \<open>AllocPool\<close> size classes and list lengths. \<open>LMalloc\<close> lets any
    number of threads of any number of processors run allocation, freeing and the return of blocks to their node, every access to a
    shared word a step, while clients write into the blocks they hold. The invariant says who has which block. The
    lemmas show that a block is given once and never lost, that no wild pointer is followed, and how far counters are right:
    exact in the local layer, in the global layer possibly too high by the target. \<open>pool_cfg_ok\<close> shows that the configuration of
    \<^verbatim>\<open>AllocPool::init\<close> meets the assumptions \<open>cfg_ok\<close>.

  \<^bold>\<open>Not modelled.\<close> The user-level thread scheduler, clustered objects and hot swapping, file caches and page
  faults, address translation, exceptions and interprocess communication rest on assembly code, exchanged
  function tables or asynchronous calls of servers; device support, kernel initialisation, servers, the Linux
  emulation, tests and tools have little state of their own. In the modelled files, printing, debugging and
  statistics for display are left out, as are the disabled variant of the request counts, the calls that create
  dispatchers and the destruction of region objects.

  \<^bold>\<open>Plan.\<close> Next: the regions and page descriptors under the slab allocator, and the remaining containers of the system library.
\<close>

end
